(* ===== verification/Rust_Prelude.thy ===== *)
theory Rust_Prelude
  imports Complex_Main "HOL-Library.Word"
begin

text \<open>
  Shared vocabulary of the development: the Rust integer, time, string and float notions the
  routectl sources use, the collections of rewrite rules the component proofs share, and
  generic lemmas on lists, options and scores.

  \<^item> An \<open>Instant\<close> and a \<open>Duration\<close> are numbers of nanoseconds (\<open>nat\<close>).
    \<open>Instant::duration_since\<close> saturates at zero, which is what subtraction on \<open>nat\<close> does.
  \<^item> Unsigned integers are \<open>nat\<close> with their bounds written out where an operation saturates,
    checks or parses; a counter that wraps is a \<open>64 word\<close>.
  \<^item> An \<open>f64\<close> is a finite real or one of the three special values. Finite arithmetic is exact:
    rounding is not modelled, the comparisons, \<open>f64::max\<close> and the special values are.
\<close>

named_theorems router_defs \<open>definitions of the operations a component proof unfolds\<close>
named_theorems inv_intros \<open>preservation of a component invariant by its operations\<close>

subsection \<open>Integers and time\<close>

type_synonym u16 = nat
type_synonym u32 = nat
type_synonym u64 = nat
type_synonym usize = nat
type_synonym instant = nat
type_synonym duration = nat

definition U16_MAX :: nat where "U16_MAX = 65535"
definition U32_MAX :: nat where "U32_MAX = 4294967295"
definition U64_MAX :: nat where "U64_MAX = 18446744073709551615"
definition I64_MAX :: nat where "I64_MAX = 9223372036854775807"

definition NANOS_PER_MILLI :: nat where "NANOS_PER_MILLI = 1000000"
definition NANOS_PER_SEC :: nat where "NANOS_PER_SEC = 1000000000"

definition from_millis :: "u64 \<Rightarrow> duration" where
  "from_millis ms = ms * NANOS_PER_MILLI"

definition from_secs :: "u64 \<Rightarrow> duration" where
  "from_secs s = s * NANOS_PER_SEC"

definition as_millis :: "duration \<Rightarrow> nat" where
  "as_millis d = d div NANOS_PER_MILLI"

definition duration_since :: "instant \<Rightarrow> instant \<Rightarrow> duration" where
  "duration_since now earlier = now - earlier"

text \<open>\<open>Instant::checked_duration_since\<close>: \<open>None\<close> when \<open>earlier\<close> is later than \<open>now\<close>.\<close>

definition checked_duration_since :: "instant \<Rightarrow> instant \<Rightarrow> duration option" where
  "checked_duration_since now earlier = (if earlier \<le> now then Some (now - earlier) else None)"

text \<open>\<open>Duration::MAX\<close> in nanoseconds, and \<open>Duration::checked_add\<close>. A \<open>SystemTime\<close> is
  a number of nanoseconds since the epoch; on the supported targets its second count is a signed 64
  bit integer, which is where \<open>SystemTime::checked_add\<close> overflows.\<close>

definition DURATION_MAX :: duration where
  "DURATION_MAX = U64_MAX * NANOS_PER_SEC + 999999999"

definition SYSTEM_TIME_MAX :: instant where
  "SYSTEM_TIME_MAX = I64_MAX * NANOS_PER_SEC + 999999999"

definition duration_checked_add :: "duration \<Rightarrow> duration \<Rightarrow> duration option" where
  "duration_checked_add a b = (if a + b \<le> DURATION_MAX then Some (a + b) else None)"

definition system_time_checked_add :: "instant \<Rightarrow> duration \<Rightarrow> instant option" where
  "system_time_checked_add t d = (if t + d \<le> SYSTEM_TIME_MAX then Some (t + d) else None)"

definition from_hours :: "u64 \<Rightarrow> duration" where
  "from_hours h = from_secs (h * 3600)"

definition from_mins :: "u64 \<Rightarrow> duration" where
  "from_mins m = from_secs (m * 60)"

definition saturating_add_u32 :: "u32 \<Rightarrow> u32 \<Rightarrow> u32" where
  "saturating_add_u32 a b = min (a + b) U32_MAX"

lemma saturating_add_u32_bound: "saturating_add_u32 a b \<le> U32_MAX"
  by (simp add: saturating_add_u32_def)

lemma saturating_add_u32_pos [simp]: "0 < saturating_add_u32 a (Suc 0)"
  by (simp add: saturating_add_u32_def U32_MAX_def)

subsection \<open>Floats\<close>

datatype f64 = Fin real | PInf | NInf | NaN

fun f64_lt :: "f64 \<Rightarrow> f64 \<Rightarrow> bool" where
  "f64_lt NaN y = False"
| "f64_lt x NaN = False"
| "f64_lt PInf y = False"
| "f64_lt x NInf = False"
| "f64_lt NInf y = True"
| "f64_lt x PInf = True"
| "f64_lt (Fin a) (Fin b) = (a < b)"

definition f64_eq :: "f64 \<Rightarrow> f64 \<Rightarrow> bool" where
  "f64_eq x y \<longleftrightarrow> x \<noteq> NaN \<and> x = y"

definition f64_max :: "f64 \<Rightarrow> f64 \<Rightarrow> f64" where
  "f64_max x y = (if x = NaN then y else if y = NaN then x else if f64_lt x y then y else x)"

definition f64_is_finite :: "f64 \<Rightarrow> bool" where
  "f64_is_finite x = (case x of Fin r \<Rightarrow> True | _ \<Rightarrow> False)"

text \<open>The largest score of a list and the entries that reach it: the shape
  \<open>iter().map(score).fold(NEG_INFINITY, f64::max)\<close> followed by a filter on equality.\<close>

definition max_score :: "('a \<Rightarrow> f64) \<Rightarrow> 'a list \<Rightarrow> f64" where
  "max_score g xs = foldl (\<lambda>m x. f64_max m (g x)) NInf xs"

definition tied_best :: "('a \<Rightarrow> f64) \<Rightarrow> 'a list \<Rightarrow> 'a list" where
  "tied_best g xs = filter (\<lambda>x. f64_eq (g x) (max_score g xs)) xs"

lemma f64_lt_irrefl [simp]: "\<not> f64_lt x x"
  by (cases x) auto

lemma f64_lt_NInf [simp]: "\<not> f64_lt x NInf"
  by (cases x) auto

lemma f64_lt_trans: "f64_lt x y \<Longrightarrow> f64_lt y z \<Longrightarrow> f64_lt x z"
  by (cases x; cases y; cases z) auto

lemma f64_lt_linear: "x \<noteq> NaN \<Longrightarrow> y \<noteq> NaN \<Longrightarrow> \<not> f64_lt x y \<Longrightarrow> \<not> f64_lt y x \<Longrightarrow> x = y"
  by (cases x; cases y) auto

lemma f64_lt_negtrans: "x \<noteq> NaN \<Longrightarrow> y \<noteq> NaN \<Longrightarrow> \<not> f64_lt x y \<Longrightarrow> \<not> f64_lt y z \<Longrightarrow> \<not> f64_lt x z"
  by (cases x; cases y; cases z) auto

lemma foldl_f64_max_bound:
  assumes "m \<noteq> NaN" and "\<forall>x \<in> set xs. g x \<noteq> NaN"
  defines "r \<equiv> foldl (\<lambda>m x. f64_max m (g x)) m xs"
  shows "r \<noteq> NaN \<and> \<not> f64_lt r m \<and> (\<forall>x \<in> set xs. \<not> f64_lt r (g x)) \<and> (r = m \<or> r \<in> g ` set xs)"
  using assms(1,2) unfolding r_def
proof (induction xs arbitrary: m)
  case Nil
  then show ?case by simp
next
  case (Cons y ys)
  let ?m = "f64_max m (g y)"
  have m: "?m \<noteq> NaN" "\<not> f64_lt ?m m" "\<not> f64_lt ?m (g y)" "?m = m \<or> ?m = g y"
    using Cons.prems by (auto simp: f64_max_def dest: f64_lt_trans)
  let ?r = "foldl (\<lambda>m x. f64_max m (g x)) ?m ys"
  have IH: "?r \<noteq> NaN" "\<not> f64_lt ?r ?m" "\<forall>x \<in> set ys. \<not> f64_lt ?r (g x)" "?r = ?m \<or> ?r \<in> g ` set ys"
    using Cons.IH [OF m(1)] Cons.prems by auto
  have "\<not> f64_lt ?r m" "\<not> f64_lt ?r (g y)"
    using IH(1,2) m(1,2,3) f64_lt_negtrans by blast+
  then show ?case using IH m(4) by auto
qed

lemma max_score_props:
  assumes "\<forall>x \<in> set xs. g x \<noteq> NaN"
  shows "max_score g xs \<noteq> NaN" and "x \<in> set xs \<Longrightarrow> \<not> f64_lt (max_score g xs) (g x)"
    and "max_score g xs = NInf \<or> max_score g xs \<in> g ` set xs"
  using foldl_f64_max_bound [of NInf xs g] assms by (auto simp: max_score_def)

lemma tied_best_subset: "set (tied_best g xs) \<subseteq> set xs"
  by (auto simp: tied_best_def)

lemma tied_best_maximal:
  assumes "\<forall>x \<in> set xs. g x \<noteq> NaN" and "x \<in> set (tied_best g xs)" and "y \<in> set xs"
  shows "\<not> f64_lt (g x) (g y)"
  using assms max_score_props(2) [OF assms(1,3)] by (auto simp: tied_best_def f64_eq_def)

lemma tied_best_nonempty:
  assumes "\<forall>x \<in> set xs. g x \<noteq> NaN" and "xs \<noteq> []"
  shows "tied_best g xs \<noteq> []"
proof -
  have "\<exists>x \<in> set xs. g x = max_score g xs"
  proof (cases "max_score g xs = NInf")
    case True
    obtain x where x: "x \<in> set xs" using assms(2) by (cases xs) auto
    then have "\<not> f64_lt NInf (g x)" using max_score_props(2) [OF assms(1) x] True by simp
    with x assms(1) have "g x = NInf" by (metis f64_lt_NInf f64_lt_linear f64.distinct(11))
    with x True show ?thesis by auto
  next
    case False
    then show ?thesis using max_score_props(3) [OF assms(1)] by force
  qed
  then show ?thesis using max_score_props(1) [OF assms(1)]
    by (metis (mono_tags, lifting) f64_eq_def filter_empty_conv tied_best_def)
qed

subsection \<open>Lists and options\<close>

text \<open>\<open>Iterator::position\<close> and \<open>slice::get\<close>.\<close>

fun position :: "('a \<Rightarrow> bool) \<Rightarrow> 'a list \<Rightarrow> nat option" where
  "position P [] = None"
| "position P (x # xs) = (if P x then Some 0 else map_option Suc (position P xs))"

definition get_at :: "'a list \<Rightarrow> nat \<Rightarrow> 'a option" where
  "get_at xs i = (if i < length xs then Some (xs ! i) else None)"

lemma position_Some: "position P xs = Some i \<Longrightarrow> i < length xs \<and> P (xs ! i)"
  by (induction xs arbitrary: i) (auto split: if_splits)

lemma position_None: "position P xs = None \<longleftrightarrow> (\<forall>x \<in> set xs. \<not> P x)"
  by (induction xs) auto

lemma get_at_Some: "get_at xs i = Some x \<longleftrightarrow> i < length xs \<and> xs ! i = x"
  by (auto simp: get_at_def)

lemma mod_length_mem: "xs \<noteq> [] \<Longrightarrow> xs ! (k mod length xs) \<in> set xs"
  by simp

lemma find_Some_mem: "List.find P xs = Some x \<Longrightarrow> x \<in> set xs \<and> P x"
  by (induction xs) (auto split: if_splits)

subsection \<open>Decimal strings\<close>

fun show_nat :: "nat \<Rightarrow> string" where
  "show_nat n = (if n < 10 then [char_of (48 + n)]
     else show_nat (n div 10) @ [char_of (48 + n mod 10)])"

declare show_nat.simps [simp del]

definition digit_val :: "char \<Rightarrow> nat option" where
  "digit_val c = (if 48 \<le> (of_char c :: nat) \<and> (of_char c :: nat) \<le> 57
     then Some (of_char c - 48) else None)"

fun parse_digits :: "nat \<Rightarrow> nat \<Rightarrow> string \<Rightarrow> nat option" where
  "parse_digits mx acc [] = Some acc"
| "parse_digits mx acc (c # cs) = (case digit_val c of None \<Rightarrow> None
     | Some d \<Rightarrow> (if acc * 10 + d \<le> mx then parse_digits mx (acc * 10 + d) cs else None))"

text \<open>\<open>str::parse\<close> for an unsigned type with maximum \<open>mx\<close>: one optional leading plus sign, at
  least one digit, every step checked against the maximum.\<close>

definition parse_unsigned :: "nat \<Rightarrow> string \<Rightarrow> nat option" where
  "parse_unsigned mx s = (case s of [] \<Rightarrow> None
     | c # cs \<Rightarrow> if c = CHR ''+'' then (if cs = [] then None else parse_digits mx 0 cs)
                else parse_digits mx 0 s)"

text \<open>Whether \<open>str::parse::<i64>\<close> succeeds.\<close>

definition parses_i64 :: "string \<Rightarrow> bool" where
  "parses_i64 s = (case s of [] \<Rightarrow> False
     | c # cs \<Rightarrow> if c = CHR ''+'' then cs \<noteq> [] \<and> parse_digits I64_MAX 0 cs \<noteq> None
                else if c = CHR ''-'' then cs \<noteq> [] \<and> parse_digits (I64_MAX + 1) 0 cs \<noteq> None
                else parse_digits I64_MAX 0 s \<noteq> None)"

lemma digit_val_char_of [simp]: "n < 10 \<Longrightarrow> digit_val (char_of (48 + n)) = Some n"
  by (simp add: digit_val_def)

lemma parse_digits_append:
  "parse_digits mx acc (xs @ ys) = Option.bind (parse_digits mx acc xs) (\<lambda>v. parse_digits mx v ys)"
  by (induction xs arbitrary: acc) (auto split: option.splits)

lemma parse_digits_show_nat: "n \<le> mx \<Longrightarrow> parse_digits mx 0 (show_nat n) = Some n"
proof (induction n rule: show_nat.induct)
  case (1 n)
  show ?case
  proof (cases "n < 10")
    case True
    then show ?thesis using "1.prems" by (simp add: show_nat.simps [of n])
  next
    case False
    have "n div 10 \<le> mx" using "1.prems" by (meson div_le_dividend le_trans)
    then have "parse_digits mx 0 (show_nat (n div 10)) = Some (n div 10)"
      using "1.IH" False by blast
    moreover have "n div 10 * 10 + n mod 10 = n" by simp
    ultimately show ?thesis using False "1.prems"
      by (simp add: show_nat.simps [of n] parse_digits_append)
  qed
qed

lemma show_nat_nonempty [simp]: "show_nat n \<noteq> []"
  by (simp add: show_nat.simps [of n])

lemma hd_show_nat_digit: "\<exists>d :: nat. d < 10 \<and> hd (show_nat n) = char_of (48 + d)"
proof (induction n rule: show_nat.induct)
  case (1 n)
  then show ?case
    by (cases "n < 10") (auto simp: show_nat.simps [of n] hd_append)
qed

lemma parse_unsigned_show_nat: "n \<le> mx \<Longrightarrow> parse_unsigned mx (show_nat n) = Some n"
proof -
  assume n: "n \<le> mx"
  obtain c cs where s: "show_nat n = c # cs" by (meson neq_Nil_conv show_nat_nonempty)
  obtain d :: nat where d: "d < 10" "c = char_of (48 + d)" using hd_show_nat_digit [of n] s by auto
  have "c \<noteq> CHR ''+''"
  proof
    assume "c = CHR ''+''"
    then have "(of_char c :: nat) = 43" by simp
    then show False using d by simp
  qed
  then show ?thesis using parse_digits_show_nat [OF n] s by (simp add: parse_unsigned_def)
qed

lemma show_nat_inj:
  assumes "show_nat a = show_nat b"
  shows "a = b"
proof -
  have "parse_digits (max a b) 0 (show_nat a) = Some a" by (rule parse_digits_show_nat) simp
  moreover have "parse_digits (max a b) 0 (show_nat b) = Some b" by (rule parse_digits_show_nat) simp
  ultimately have "Some a = Some b" unfolding assms by (rule trans [OF sym])
  then show ?thesis by (rule option.inject [THEN iffD1])
qed

lemma parse_digits_bound: "parse_digits mx acc s = Some v \<Longrightarrow> acc \<le> mx \<Longrightarrow> v \<le> mx"
  by (induction s arbitrary: acc) (auto split: option.splits if_splits)

lemma parse_unsigned_bound: "parse_unsigned mx s = Some v \<Longrightarrow> v \<le> mx"
  by (auto simp: parse_unsigned_def simp del: parse_digits.simps
      dest: parse_digits_bound split: list.splits if_splits)

text \<open>\<open>str::parse::<f64>\<close>: an optional sign, then a case-insensitive \<open>inf\<close>, \<open>infinity\<close> or
  \<open>nan\<close>, or a decimal number with an optional fraction and exponent, with at least one digit
  before or after the point. A magnitude that rounds beyond the largest finite value is infinite.\<close>

definition is_digit :: "char \<Rightarrow> bool" where
  "is_digit c \<longleftrightarrow> digit_val c \<noteq> None"

definition digits_value :: "string \<Rightarrow> nat" where
  "digits_value ds = foldl (\<lambda>n c. n * 10 + (case digit_val c of Some d \<Rightarrow> d | None \<Rightarrow> 0)) 0 ds"

definition ascii_lower :: "char \<Rightarrow> char" where
  "ascii_lower c = (if 65 \<le> (of_char c :: nat) \<and> (of_char c :: nat) \<le> 90
     then char_of ((of_char c :: nat) + 32) else c)"

definition parse_exponent :: "string \<Rightarrow> int option" where
  "parse_exponent s = (case s of
     [] \<Rightarrow> Some 0
   | e # r \<Rightarrow> if ascii_lower e \<noteq> CHR ''e'' then None else
       (let (neg, ds) = (case r of CHR ''-'' # ds \<Rightarrow> (True, ds) | CHR ''+'' # ds \<Rightarrow> (False, ds) | _ \<Rightarrow> (False, r))
        in if ds = [] \<or> \<not> list_all is_digit ds then None
           else Some (if neg then - int (digits_value ds) else int (digits_value ds))))"

definition parse_decimal :: "string \<Rightarrow> real option" where
  "parse_decimal s =
     (let ip = takeWhile is_digit s; r = dropWhile is_digit s;
          (fp, r') = (case r of CHR ''.'' # t \<Rightarrow> (takeWhile is_digit t, dropWhile is_digit t) | _ \<Rightarrow> ([], r))
      in if ip = [] \<and> fp = [] then None
         else map_option (\<lambda>e. real (digits_value (ip @ fp)) * 10 powi (e - int (length fp))) (parse_exponent r'))"

definition F64_OVERFLOW :: real where "F64_OVERFLOW = 2 ^ 1024 - 2 ^ 970"

definition parse_f64 :: "string \<Rightarrow> f64 option" where
  "parse_f64 s =
     (let (neg, r) = (case s of CHR ''-'' # t \<Rightarrow> (True, t) | CHR ''+'' # t \<Rightarrow> (False, t) | _ \<Rightarrow> (False, s));
          l = map ascii_lower r
      in if l = ''inf'' \<or> l = ''infinity'' then Some (if neg then NInf else PInf)
         else if l = ''nan'' then Some NaN
         else map_option (\<lambda>v. if F64_OVERFLOW \<le> v then (if neg then NInf else PInf)
                             else Fin (if neg then - v else v)) (parse_decimal r))"

definition f64_div :: "f64 \<Rightarrow> real \<Rightarrow> f64" where
  "f64_div x d = (case x of Fin r \<Rightarrow> Fin (r / d) | _ \<Rightarrow> x)"

subsection \<open>Strings\<close>

definition starts_with :: "string \<Rightarrow> string \<Rightarrow> bool" where
  "starts_with s p \<longleftrightarrow> take (length p) s = p"

text \<open>\<open>str::split_once\<close> on one separator byte.\<close>

fun split_once :: "char \<Rightarrow> string \<Rightarrow> (string \<times> string) option" where
  "split_once c [] = None"
| "split_once c (x # xs) = (if x = c then Some ([], xs)
     else map_option (\<lambda>(a, b). (x # a, b)) (split_once c xs))"

lemma split_once_None: "split_once c s = None \<longleftrightarrow> c \<notin> set s"
  by (induction s) auto

lemma split_once_join: "c \<notin> set a \<Longrightarrow> split_once c (a @ c # b) = Some (a, b)"
  by (induction a) auto

lemma starts_with_append: "starts_with s p \<longleftrightarrow> (\<exists>r. s = p @ r)"
  by (metis append_eq_conv_conj append_take_drop_id starts_with_def)

end
