(* ===== verification/Core_Error.thy ===== *)
theory Core_Error
  imports Rust_Prelude
begin

text \<open>
  The error type every routing decision reads (\<open>routectl-core/src/error.rs\<close>), its convenience
  constructors, and the structured facts the router reads off an error
  (\<open>router/class_observe.rs\<close>). The payloads of the two wrapped library errors (\<open>Io\<close>,
  \<open>Json\<close>) are kept as text: no decision of the router looks inside them.
\<close>

datatype Error =
    Upstream (up_provider: string) (up_status: u16) (up_body: string)
      (up_retry_after: "duration option") (up_type: "string option") (up_code: "string option")
      (up_request_id: "string option")
  | NormalizeRequest string string
  | NormalizeResponse string string
  | UnknownProvider string
  | UnknownAlias string
  | Auth string
  | Config string
  | Internal string
  | Validation string
  | Streaming string
  | NotImplemented string string
  | Io string
  | Json string

definition upstream :: "string \<Rightarrow> u16 \<Rightarrow> string \<Rightarrow> Error" where
  "upstream provider status body = Upstream provider status body None None None None"

definition upstream_with_retry_after ::
  "string \<Rightarrow> u16 \<Rightarrow> string \<Rightarrow> duration option \<Rightarrow> Error" where
  "upstream_with_retry_after provider status body retry_after =
     Upstream provider status body retry_after None None None"

definition upstream_full ::
  "string \<Rightarrow> u16 \<Rightarrow> string \<Rightarrow> duration option \<Rightarrow> string option \<Rightarrow> string option \<Rightarrow> Error" where
  "upstream_full provider status body retry_after ty code =
     Upstream provider status body retry_after ty code None"

fun with_upstream_request_id :: "Error \<Rightarrow> string option \<Rightarrow> Error" where
  "with_upstream_request_id (Upstream p s b ra ty code rid) i = Upstream p s b ra ty code i"
| "with_upstream_request_id e i = e"

definition MAX_ERROR_BODY_BYTES :: nat where "MAX_ERROR_BODY_BYTES = 64 * 1024"

record UpstreamFacts =
  facts_status :: "u16 option"
  facts_type :: "string option"
  facts_code :: "string option"

fun upstream_facts :: "Error \<Rightarrow> UpstreamFacts" where
  "upstream_facts (Upstream p s b ra ty code rid) =
     \<lparr>facts_status = Some s, facts_type = ty, facts_code = code\<rparr>"
| "upstream_facts e = \<lparr>facts_status = None, facts_type = None, facts_code = None\<rparr>"

lemma is_Upstream_facts: "facts_status (upstream_facts e) = None \<longleftrightarrow> \<not> is_Upstream e"
  by (cases e) auto

end
