(* ===== verification/Failure_Class.thy ===== *)
theory Failure_Class
  imports Core_Error
begin

text \<open>
  The failure classifier of \<open>routectl-core/src/failure_class.rs\<close>: the class taxonomy and its
  tokens, the per-family token tables, the closed replay-rejection matcher, the status-driven
  classification itself and the status guidance the config migrator prints.

  JSON parsing belongs to \<open>serde_json\<close>, which is not part of the repository: the envelope
  reader takes the parser as the argument \<open>parse_json\<close>. Text is ASCII here, so
  \<open>str::to_lowercase\<close> and \<open>str::split_whitespace\<close> are the ASCII operations.
\<close>

subsection \<open>Taxonomy\<close>

datatype FailureClass =
    RateLimited | Auth | BadRequest | ContentPolicy | ContextWindow | ServerError | Timeout
  | NetworkError | Overloaded | FeatureUnsupported (capability: string) | Unknown

fun class_token :: "FailureClass \<Rightarrow> string option" where
  "class_token FailureClass.RateLimited = Some ''rate-limited''"
| "class_token FailureClass.Auth = Some ''auth''"
| "class_token FailureClass.BadRequest = Some ''bad-request''"
| "class_token FailureClass.ContentPolicy = Some ''content-policy''"
| "class_token FailureClass.ContextWindow = Some ''context-window''"
| "class_token FailureClass.ServerError = Some ''server-error''"
| "class_token FailureClass.Timeout = Some ''timeout''"
| "class_token FailureClass.NetworkError = Some ''network-error''"
| "class_token FailureClass.Overloaded = Some ''overloaded''"
| "class_token (FailureClass.FeatureUnsupported cap) = Some ''feature-unsupported''"
| "class_token FailureClass.Unknown = None"

datatype LastOutcome = Ok | RateLimited | Timeout | TransportError | Http4xx | Http5xx | CircuitOpen

fun last_outcome_of :: "FailureClass \<Rightarrow> LastOutcome" where
  "last_outcome_of FailureClass.RateLimited = LastOutcome.RateLimited"
| "last_outcome_of FailureClass.Timeout = LastOutcome.Timeout"
| "last_outcome_of FailureClass.NetworkError = LastOutcome.TransportError"
| "last_outcome_of FailureClass.Auth = LastOutcome.Http4xx"
| "last_outcome_of FailureClass.BadRequest = LastOutcome.Http4xx"
| "last_outcome_of FailureClass.ContentPolicy = LastOutcome.Http4xx"
| "last_outcome_of FailureClass.ContextWindow = LastOutcome.Http4xx"
| "last_outcome_of (FailureClass.FeatureUnsupported cap) = LastOutcome.Http4xx"
| "last_outcome_of FailureClass.ServerError = LastOutcome.Http5xx"
| "last_outcome_of FailureClass.Overloaded = LastOutcome.Http5xx"
| "last_outcome_of FailureClass.Unknown = LastOutcome.Http5xx"

datatype MatchedBy = Variant | Status | UpstreamType

record ClassifiedFailure =
  cf_class :: FailureClass
  cf_matched_by :: MatchedBy

definition by_variant :: "FailureClass \<Rightarrow> ClassifiedFailure" where
  "by_variant c = \<lparr>cf_class = c, cf_matched_by = Variant\<rparr>"

definition by_status :: "FailureClass \<Rightarrow> ClassifiedFailure" where
  "by_status c = \<lparr>cf_class = c, cf_matched_by = Status\<rparr>"

definition by_type :: "FailureClass \<Rightarrow> ClassifiedFailure" where
  "by_type c = \<lparr>cf_class = c, cf_matched_by = UpstreamType\<rparr>"

subsection \<open>Token tables\<close>

record FamilyTokens =
  ft_content_policy :: "string list"
  ft_context_window :: "string list"
  ft_overloaded :: "string list"
  ft_feature_unsupported :: "string list"

definition ANTHROPIC :: FamilyTokens where
  "ANTHROPIC = \<lparr>ft_content_policy = [], ft_context_window = [], ft_overloaded = [''overloaded_error''],
     ft_feature_unsupported = []\<rparr>"

definition OPENAI :: FamilyTokens where
  "OPENAI = \<lparr>
     ft_content_policy = [''content_policy_violation'', ''content_filter'', ''invalid_prompt''],
     ft_context_window = [''context_length_exceeded'', ''context_window_exceeded''],
     ft_overloaded = [],
     ft_feature_unsupported = [''unsupported_parameter'', ''unsupported_value'',
       ''unsupported_country_region_territory'']\<rparr>"

definition BEDROCK :: FamilyTokens where
  "BEDROCK = \<lparr>
     ft_content_policy = [''content_filtered'', ''guardrail_intervened'', ''invalid_prompt''],
     ft_context_window = [''model_context_window_exceeded'', ''context_window_exceeded''],
     ft_overloaded = [''overloaded_error''],
     ft_feature_unsupported = []\<rparr>"

definition UNION :: FamilyTokens where
  "UNION = \<lparr>
     ft_content_policy = [''content_policy_violation'', ''content_filter'', ''invalid_prompt'',
       ''content_filtered'', ''guardrail_intervened''],
     ft_context_window = [''context_length_exceeded'', ''context_window_exceeded'',
       ''model_context_window_exceeded''],
     ft_overloaded = [''overloaded_error''],
     ft_feature_unsupported = [''unsupported_parameter'', ''unsupported_value'',
       ''unsupported_country_region_territory'']\<rparr>"

definition family_for :: "string option \<Rightarrow> FamilyTokens" where
  "family_for kind =
     (if kind = Some ''anthropic-api'' then ANTHROPIC
      else if kind = Some ''openai-compat'' then OPENAI
      else if kind = Some ''bedrock'' then BEDROCK
      else UNION)"

definition matched_token :: "string option \<Rightarrow> string option \<Rightarrow> string list \<Rightarrow> string option" where
  "matched_token ty code toks =
     (case ty of
        Some t \<Rightarrow> if t \<in> set toks then Some t
                 else (case code of Some c \<Rightarrow> if c \<in> set toks then Some c else None | None \<Rightarrow> None)
      | None \<Rightarrow> (case code of Some c \<Rightarrow> if c \<in> set toks then Some c else None | None \<Rightarrow> None))"

definition token_in :: "string option \<Rightarrow> string option \<Rightarrow> string list \<Rightarrow> bool" where
  "token_in ty code toks \<longleftrightarrow> matched_token ty code toks \<noteq> None"

definition bad_request_row :: "string option \<Rightarrow> string option \<Rightarrow> FamilyTokens \<Rightarrow> ClassifiedFailure" where
  "bad_request_row ty code table =
     (if token_in ty code (ft_content_policy table) then by_type FailureClass.ContentPolicy
      else if token_in ty code (ft_context_window table) then by_type FailureClass.ContextWindow
      else (case matched_token ty code (ft_feature_unsupported table) of
              Some cap \<Rightarrow> by_type (FailureClass.FeatureUnsupported cap)
            | None \<Rightarrow> by_status FailureClass.BadRequest))"

subsection \<open>The replay-rejection matcher\<close>

datatype json = JNull | JBool bool | JNum string | JStr string | JArr "json list"
  | JObj "(string \<times> json) list"

fun json_get :: "json \<Rightarrow> string \<Rightarrow> json option" where
  "json_get (JObj kvs) k = map_of kvs k"
| "json_get j k = None"

definition string_at :: "json \<Rightarrow> string \<Rightarrow> string option" where
  "string_at v k = (case json_get v k of Some (JStr s) \<Rightarrow> Some s | _ \<Rightarrow> None)"

definition is_whitespace :: "char \<Rightarrow> bool" where
  "is_whitespace c \<longleftrightarrow> (of_char c :: nat) \<in> {9, 10, 11, 12, 13, 32}"

text \<open>\<open>split_whitespace().join(" ")\<close>: leading and trailing white space goes, inner runs become one
  blank. \<open>pending\<close> says that a blank is owed before the next visible character.\<close>

fun collapse_ws :: "bool \<Rightarrow> bool \<Rightarrow> string \<Rightarrow> string" where
  "collapse_ws started pending [] = []"
| "collapse_ws started pending (c # cs) =
     (if is_whitespace c then collapse_ws started started cs
      else (if pending then [CHR '' '', c] else [c]) @ collapse_ws True False cs)"

definition normalize :: "string \<Rightarrow> string" where
  "normalize text = map ascii_lower (collapse_ws False False text)"

definition CAPABILITY :: string where "CAPABILITY = ''reasoning_replay''"

definition REJECTION_STATUSES :: "u16 list" where "REJECTION_STATUSES = [400, 422]"

definition FIXTURE_BACKED_KINDS :: "string list" where "FIXTURE_BACKED_KINDS = [''openai-responses'']"

record ReplaySignature =
  sig_type :: "string option"
  sig_code :: "string option"
  sig_anchor :: "string option"

definition PROVEN_REJECTIONS :: "ReplaySignature list" where
  "PROVEN_REJECTIONS = [\<lparr>sig_type = Some ''invalid_request_error'',
     sig_code = Some ''validation_error'',
     sig_anchor = Some ''encrypted content missing recognized prefix''\<rparr>]"

text \<open>\<open>ReplayAttempt\<close> is its one field, the number of artifacts of unestablished scheme.\<close>

type_synonym ReplayAttempt = usize

definition no_attempt :: ReplayAttempt where "no_attempt = 0"

definition with_gray_artifacts :: "usize \<Rightarrow> ReplayAttempt" where "with_gray_artifacts count = count"

definition carried_gray_artifact :: "ReplayAttempt \<Rightarrow> bool" where
  "carried_gray_artifact a \<longleftrightarrow> a > 0"

record Envelope =
  env_type :: "string option"
  env_code :: "string option"
  env_message :: "string option"

definition empty_envelope :: Envelope where
  "empty_envelope = \<lparr>env_type = None, env_code = None, env_message = None\<rparr>"

definition read_envelope :: "(string \<Rightarrow> json option) \<Rightarrow> string \<Rightarrow> Envelope" where
  "read_envelope parse_json body =
     (if length body > MAX_ERROR_BODY_BYTES then empty_envelope
      else case parse_json body of
        None \<Rightarrow> empty_envelope
      | Some parsed \<Rightarrow> (case json_get parsed ''error'' of
          None \<Rightarrow> empty_envelope
        | Some err \<Rightarrow> \<lparr>env_type = string_at err ''type'', env_code = string_at err ''code'',
                       env_message = map_option normalize (string_at err ''message'')\<rparr>))"

definition option_or :: "'a option \<Rightarrow> 'a option \<Rightarrow> 'a option" where
  "option_or a b = (case a of Some x \<Rightarrow> Some x | None \<Rightarrow> b)"

definition signature_matches ::
  "ReplaySignature \<Rightarrow> string option \<Rightarrow> string option \<Rightarrow> Envelope \<Rightarrow> bool" where
  "signature_matches sig ty code env =
     (let effective_type = option_or ty (env_type env);
          effective_code = option_or code (env_code env)
      in if sig_type sig \<noteq> None \<and> sig_type sig \<noteq> effective_type then False
         else if sig_code sig \<noteq> None \<and> sig_code sig \<noteq> effective_code then False
         else (case sig_anchor sig of
                 None \<Rightarrow> True
               | Some anchor \<Rightarrow> (case env_message env of
                   None \<Rightarrow> False | Some m \<Rightarrow> starts_with m anchor)))"

definition is_replay_rejection ::
  "(string \<Rightarrow> json option) \<Rightarrow> u16 \<Rightarrow> string option \<Rightarrow> string option \<Rightarrow> string \<Rightarrow> string option \<Rightarrow>
   ReplayAttempt \<Rightarrow> bool" where
  "is_replay_rejection parse_json status ty code body kind attempt =
     (if status \<notin> set REJECTION_STATUSES \<or> \<not> carried_gray_artifact attempt then False
      else if \<not> (case kind of Some k \<Rightarrow> k \<in> set FIXTURE_BACKED_KINDS | None \<Rightarrow> False) then False
      else (let env = read_envelope parse_json body
            in list_ex (\<lambda>sig. signature_matches sig ty code env) PROVEN_REJECTIONS))"

definition replay_rejection ::
  "(string \<Rightarrow> json option) \<Rightarrow> u16 \<Rightarrow> string option \<Rightarrow> string option \<Rightarrow> string \<Rightarrow> string option \<Rightarrow>
   ReplayAttempt \<Rightarrow> ClassifiedFailure option" where
  "replay_rejection parse_json status ty code body kind attempt =
     (if is_replay_rejection parse_json status ty code body kind attempt
      then Some (by_type (FailureClass.FeatureUnsupported CAPABILITY)) else None)"

subsection \<open>Classification\<close>

definition classify_upstream_attempt ::
  "(string \<Rightarrow> json option) \<Rightarrow> u16 \<Rightarrow> string option \<Rightarrow> string option \<Rightarrow> string \<Rightarrow> string option \<Rightarrow>
   ReplayAttempt \<Rightarrow> ClassifiedFailure" where
  "classify_upstream_attempt parse_json status ty code body kind attempt =
     (if status = 0 then by_status FailureClass.NetworkError
      else let table = family_for kind in
        if status = 401 \<or> status = 403 \<or> status = 407 then by_status FailureClass.Auth
        else if status = 429 then by_status FailureClass.RateLimited
        else if 400 \<le> status \<and> status \<le> 499 then
          (let row = bad_request_row ty code table in
             if cf_class row \<noteq> FailureClass.BadRequest then row
             else case replay_rejection parse_json status ty code body kind attempt of
                 Some r \<Rightarrow> r | None \<Rightarrow> row)
        else if status = 529 then by_status FailureClass.Overloaded
        else if status = 503 \<and> token_in ty code (ft_overloaded table)
          then by_type FailureClass.Overloaded
        else if 500 \<le> status \<and> status \<le> 599 then by_status FailureClass.ServerError
        else by_status FailureClass.Unknown)"

definition classify_upstream ::
  "(string \<Rightarrow> json option) \<Rightarrow> u16 \<Rightarrow> string option \<Rightarrow> string option \<Rightarrow> string option \<Rightarrow>
   ClassifiedFailure" where
  "classify_upstream parse_json status ty code kind =
     classify_upstream_attempt parse_json status ty code [] kind no_attempt"

fun classify_with_attempt ::
  "(string \<Rightarrow> json option) \<Rightarrow> Error \<Rightarrow> string option \<Rightarrow> ReplayAttempt \<Rightarrow> ClassifiedFailure" where
  "classify_with_attempt pj (Upstream p status body ra ty code rid) kind attempt =
     classify_upstream_attempt pj status ty code body kind attempt"
| "classify_with_attempt pj (Error.Streaming s) kind attempt = by_variant FailureClass.NetworkError"
| "classify_with_attempt pj (Error.Auth s) kind attempt = by_variant FailureClass.Auth"
| "classify_with_attempt pj e kind attempt = by_variant FailureClass.Unknown"

definition classify :: "(string \<Rightarrow> json option) \<Rightarrow> Error \<Rightarrow> string option \<Rightarrow> ClassifiedFailure" where
  "classify pj e kind = classify_with_attempt pj e kind no_attempt"

subsection \<open>Status guidance\<close>

record StatusClassGuidance =
  guidance_status :: u16
  guidance_primary :: FailureClass
  guidance_alternatives :: "FailureClass list"

definition union_lift_tokens :: "string list" where
  "union_lift_tokens = ft_content_policy UNION @ ft_context_window UNION @ ft_overloaded UNION
     @ ft_feature_unsupported UNION"

fun drop_capability :: "FailureClass \<Rightarrow> FailureClass" where
  "drop_capability (FailureClass.FeatureUnsupported c) = FailureClass.FeatureUnsupported []"
| "drop_capability c = c"

definition class_guidance_for_status :: "(string \<Rightarrow> json option) \<Rightarrow> u16 \<Rightarrow> StatusClassGuidance" where
  "class_guidance_for_status pj status =
     (let primary = cf_class (classify_upstream pj status None None None);
          alternatives = foldl (\<lambda>alts token.
             let lifted = drop_capability (cf_class (classify_upstream pj status (Some token) (Some token) None))
             in if lifted \<noteq> primary \<and> lifted \<notin> set alts then alts @ [lifted] else alts)
             [] union_lift_tokens
      in \<lparr>guidance_status = status, guidance_primary = primary, guidance_alternatives = alternatives\<rparr>)"

subsection \<open>Lemmas\<close>

lemmas failure_class_defs = by_variant_def by_status_def by_type_def
lemmas token_tables = ANTHROPIC_def OPENAI_def BEDROCK_def UNION_def

lemma matched_token_mem: "matched_token ty code toks = Some t \<Longrightarrow> t \<in> set toks"
  by (auto simp: matched_token_def split: option.splits if_splits)

lemma feature_tokens:
  "set (ft_feature_unsupported (family_for kind)) \<subseteq>
     {''unsupported_parameter'', ''unsupported_value'', ''unsupported_country_region_territory''}"
  by (simp add: family_for_def token_tables)

text \<open>The four classes of the 4xx row.\<close>

lemma bad_request_row_classes:
  "drop_capability (cf_class (bad_request_row ty code table)) \<in>
     {FailureClass.BadRequest, FailureClass.ContentPolicy, FailureClass.ContextWindow,
      FailureClass.FeatureUnsupported []}"
  by (simp add: bad_request_row_def failure_class_defs split: option.split)

lemma replay_rejection_class:
  "replay_rejection pj s ty code body kind a = Some r \<Longrightarrow>
     cf_class r = FailureClass.FeatureUnsupported CAPABILITY"
  by (auto simp: replay_rejection_def by_type_def split: if_splits)

text \<open>A request that carried no gray artifact never reaches the body parser.\<close>

lemma replay_rejection_no_attempt [simp]:
  "replay_rejection pj s ty code body kind no_attempt = None"
  by (simp add: replay_rejection_def is_replay_rejection_def no_attempt_def carried_gray_artifact_def)

definition client_error_row :: "u16 \<Rightarrow> bool" where
  "client_error_row s \<longleftrightarrow> 400 \<le> s \<and> s \<le> 499 \<and> s \<notin> {401, 403, 407, 429}"

lemma classify_client_error_row:
  assumes "client_error_row s"
  shows "classify_upstream_attempt pj s ty code body kind a =
    (let row = bad_request_row ty code (family_for kind) in
       if cf_class row \<noteq> FailureClass.BadRequest then row
       else case replay_rejection pj s ty code body kind a of Some r \<Rightarrow> r | None \<Rightarrow> row)"
  using assms by (simp add: client_error_row_def classify_upstream_attempt_def Let_def)

lemma classify_other_row:
  assumes "\<not> client_error_row s" and "s \<noteq> 503"
  shows "classify_upstream_attempt pj s ty code body kind a =
         classify_upstream_attempt pj s None None [] None no_attempt"
  using assms by (auto simp: client_error_row_def classify_upstream_attempt_def Let_def)

lemma classify_503:
  "classify_upstream_attempt pj 503 ty code body kind a =
     (if token_in ty code (ft_overloaded (family_for kind)) then by_type FailureClass.Overloaded
      else by_status FailureClass.ServerError)"
  by (simp add: classify_upstream_attempt_def Let_def)

lemma primary_client_error:
  "client_error_row s \<Longrightarrow> cf_class (classify_upstream pj s None None None) = FailureClass.BadRequest"
  by (simp add: classify_upstream_def classify_client_error_row bad_request_row_def token_in_def
      matched_token_def by_status_def)

lemma primary_503: "cf_class (classify_upstream pj 503 None None None) = FailureClass.ServerError"
  by (simp add: classify_upstream_def classify_503 token_in_def matched_token_def by_status_def)

lemma union_disjoint:
  "t \<in> set (ft_context_window UNION) \<Longrightarrow> t \<notin> set (ft_content_policy UNION)"
  "t \<in> set (ft_feature_unsupported UNION) \<Longrightarrow> t \<notin> set (ft_content_policy UNION)"
  "t \<in> set (ft_feature_unsupported UNION) \<Longrightarrow> t \<notin> set (ft_context_window UNION)"
  "t \<in> set (ft_overloaded UNION) \<Longrightarrow> t \<notin> set (ft_content_policy UNION)"
  "t \<in> set (ft_overloaded UNION) \<Longrightarrow> t \<notin> set (ft_context_window UNION)"
  "t \<in> set (ft_overloaded UNION) \<Longrightarrow> t \<notin> set (ft_feature_unsupported UNION)"
  by (auto simp: UNION_def)

lemma matched_token_twice: "matched_token (Some t) (Some t) toks = (if t \<in> set toks then Some t else None)"
  by (simp add: matched_token_def)

lemma lifted_class:
  fixes pj :: "string \<Rightarrow> json option"
  assumes "client_error_row s"
  defines "l \<equiv> \<lambda>t. drop_capability (cf_class (classify_upstream pj s (Some t) (Some t) None))"
  shows "t \<in> set (ft_content_policy UNION) \<Longrightarrow> l t = FailureClass.ContentPolicy"
    and "t \<in> set (ft_context_window UNION) \<Longrightarrow> l t = FailureClass.ContextWindow"
    and "t \<in> set (ft_overloaded UNION) \<Longrightarrow> l t = FailureClass.BadRequest"
    and "t \<in> set (ft_feature_unsupported UNION) \<Longrightarrow> l t = FailureClass.FeatureUnsupported []"
  using assms(1)
  by (simp_all add: l_def classify_upstream_def classify_client_error_row bad_request_row_def
      token_in_def matched_token_twice failure_class_defs family_for_def union_disjoint)

lemma map_const_on: "(\<And>t. t \<in> set xs \<Longrightarrow> f t = c) \<Longrightarrow> map f xs = replicate (length xs) c"
  by (induction xs) auto

lemma foldl_map_step: "foldl (\<lambda>a t. g a (f t)) a xs = foldl g a (map f xs)"
  by (induction xs arbitrary: a) auto

lemma lift_fold_mem:
  "c \<in> set (foldl (\<lambda>alts t. if f t \<noteq> p \<and> f t \<notin> set alts then alts @ [f t] else alts) acc xs) \<Longrightarrow>
     c \<in> set acc \<or> c \<in> f ` set xs"
proof (induction xs arbitrary: acc)
  case (Cons x xs)
  show ?case
  proof (cases "f x \<noteq> p \<and> f x \<notin> set acc")
    case True
    then show ?thesis using Cons.IH [of "acc @ [f x]"] Cons.prems by auto
  next
    case False
    then show ?thesis using Cons.IH [of acc] Cons.prems by auto
  qed
qed simp

lemma guidance_fold:
  "guidance_alternatives (class_guidance_for_status pj s) =
     foldl (\<lambda>alts c. if c \<noteq> cf_class (classify_upstream pj s None None None) \<and> c \<notin> set alts
                    then alts @ [c] else alts) []
       (map (\<lambda>t. drop_capability (cf_class (classify_upstream pj s (Some t) (Some t) None)))
         union_lift_tokens)"
  by (simp add: class_guidance_for_status_def Let_def foldl_map_step [symmetric])

lemma union_lift_lengths:
  "length (ft_content_policy UNION) = 5" "length (ft_context_window UNION) = 3"
  "length (ft_overloaded UNION) = 1" "length (ft_feature_unsupported UNION) = 3"
  by (simp_all add: UNION_def)

lemma alternatives_of_status:
  "guidance_alternatives (class_guidance_for_status pj s) =
     (if client_error_row s
      then [FailureClass.ContentPolicy, FailureClass.ContextWindow, FailureClass.FeatureUnsupported []]
      else if s = 503 then [FailureClass.Overloaded] else [])"
proof -
  consider (row) "client_error_row s" | (ovl) "s = 503" | (other) "\<not> client_error_row s" "s \<noteq> 503"
    by blast
  then show ?thesis
  proof cases
    case row
    let ?l = "\<lambda>t. drop_capability (cf_class (classify_upstream pj s (Some t) (Some t) None))"
    have "map ?l union_lift_tokens = replicate 5 FailureClass.ContentPolicy
        @ replicate 3 FailureClass.ContextWindow @ replicate 1 FailureClass.BadRequest
        @ replicate 3 (FailureClass.FeatureUnsupported [])"
      by (simp add: union_lift_tokens_def map_const_on lifted_class [OF row] union_lift_lengths)
    then show ?thesis
      using row primary_client_error [OF row] by (simp add: guidance_fold eval_nat_numeral)
  next
    case ovl
    then show ?thesis
      by (simp add: class_guidance_for_status_def union_lift_tokens_def classify_upstream_def
          classify_503 token_in_def matched_token_def family_for_def UNION_def client_error_row_def
          failure_class_defs)
  next
    case other
    let ?p = "cf_class (classify_upstream pj s None None None)"
    have same: "cf_class (classify_upstream pj s (Some t) (Some t) None) = ?p" for t
      unfolding classify_upstream_def by (subst classify_other_row [OF other]) simp
    have "drop_capability ?p = ?p"
      using other
      by (auto simp: classify_upstream_def classify_upstream_attempt_def client_error_row_def
          failure_class_defs Let_def)
    with same other show ?thesis by (simp add: class_guidance_for_status_def union_lift_tokens_def UNION_def)
  qed
qed

lemma primary_of_status:
  "guidance_primary (class_guidance_for_status pj s) = cf_class (classify_upstream pj s None None None)"
  by (simp add: class_guidance_for_status_def Let_def)

lemma classify_upstream_guided:
  "drop_capability (cf_class (classify_upstream_attempt pj s ty code body kind a)) \<in>
     insert (guidance_primary (class_guidance_for_status pj s))
       (set (guidance_alternatives (class_guidance_for_status pj s)))"
proof -
  consider (row) "client_error_row s" | (ovl) "s = 503" | (other) "\<not> client_error_row s" "s \<noteq> 503"
    by blast
  then show ?thesis
  proof cases
    case row
    then show ?thesis using bad_request_row_classes [of ty code "family_for kind"]
      by (auto simp: classify_client_error_row alternatives_of_status primary_of_status
          primary_client_error Let_def replay_rejection_class split: option.splits)
  next
    case ovl
    then show ?thesis
      by (simp add: classify_503 alternatives_of_status client_error_row_def failure_class_defs
          primary_of_status classify_upstream_def token_in_def matched_token_def Let_def)
  next
    case other
    then have "drop_capability (cf_class (classify_upstream_attempt pj s None None [] None no_attempt))
      = cf_class (classify_upstream_attempt pj s None None [] None no_attempt)"
      by (auto simp: classify_upstream_attempt_def client_error_row_def failure_class_defs Let_def)
    then show ?thesis
      using classify_other_row [OF other, of pj ty code body kind a]
      by (simp add: primary_of_status classify_upstream_def)
  qed
qed

lemma bad_request_row_not_replay:
  "cf_class (bad_request_row ty code (family_for kind)) \<noteq> FailureClass.FeatureUnsupported CAPABILITY"
proof
  assume "cf_class (bad_request_row ty code (family_for kind)) = FailureClass.FeatureUnsupported CAPABILITY"
  then have "matched_token ty code (ft_feature_unsupported (family_for kind)) = Some CAPABILITY"
    by (simp add: bad_request_row_def failure_class_defs split: option.splits if_splits)
  then have "CAPABILITY \<in> set (ft_feature_unsupported (family_for kind))" by (rule matched_token_mem)
  then show False using feature_tokens [of kind] by (auto simp: CAPABILITY_def)
qed

lemma signature_match_proven:
  "list_ex (\<lambda>sig. signature_matches sig ty code env) PROVEN_REJECTIONS \<longleftrightarrow>
     option_or ty (env_type env) = Some ''invalid_request_error''
     \<and> option_or code (env_code env) = Some ''validation_error''
     \<and> (\<exists>m. env_message env = Some m \<and> starts_with m ''encrypted content missing recognized prefix'')"
  by (auto simp: PROVEN_REJECTIONS_def signature_matches_def Let_def split: option.splits)

lemma envelope_match:
  "option_or ty (env_type (read_envelope pj body)) = Some t
     \<and> option_or code (env_code (read_envelope pj body)) = Some c
     \<and> (\<exists>m. env_message (read_envelope pj body) = Some m \<and> starts_with m anchor) \<longleftrightarrow>
   length body \<le> MAX_ERROR_BODY_BYTES \<and>
     (\<exists>parsed err msg. pj body = Some parsed \<and> json_get parsed k = Some err
        \<and> option_or ty (string_at err ''type'') = Some t
        \<and> option_or code (string_at err ''code'') = Some c
        \<and> string_at err ''message'' = Some msg \<and> starts_with (normalize msg) anchor)"
  if "k = ''error''"
  unfolding that [symmetric]
  by (auto simp: read_envelope_def empty_envelope_def that [symmetric] split: option.splits)

lemma is_replay_rejection_iff:
  "is_replay_rejection pj s ty code body kind a \<longleftrightarrow>
     (s = 400 \<or> s = 422) \<and> a > 0 \<and> kind = Some ''openai-responses''
     \<and> length body \<le> MAX_ERROR_BODY_BYTES
     \<and> (\<exists>parsed err msg. pj body = Some parsed \<and> json_get parsed ''error'' = Some err
          \<and> option_or ty (string_at err ''type'') = Some ''invalid_request_error''
          \<and> option_or code (string_at err ''code'') = Some ''validation_error''
          \<and> string_at err ''message'' = Some msg
          \<and> starts_with (normalize msg) ''encrypted content missing recognized prefix'')"
  unfolding is_replay_rejection_def Let_def signature_match_proven envelope_match [OF refl]
  by (simp add: REJECTION_STATUSES_def carried_gray_artifact_def FIXTURE_BACKED_KINDS_def
      split: option.split)

lemma classify_upstream_not_timeout:
  "cf_class (classify_upstream_attempt pj s ty code body kind a) \<noteq> FailureClass.Timeout"
proof -
  consider (row) "client_error_row s" | (ovl) "s = 503" | (other) "\<not> client_error_row s" "s \<noteq> 503"
    by blast
  then show ?thesis
  proof cases
    case row
    then show ?thesis using bad_request_row_classes [of ty code "family_for kind"]
      by (auto simp: classify_client_error_row Let_def dest: replay_rejection_class
          split: option.split)
  next
    case ovl
    then show ?thesis by (simp add: classify_503 failure_class_defs)
  next
    case other
    then show ?thesis
      by (subst classify_other_row [OF other])
        (auto simp: classify_upstream_attempt_def client_error_row_def failure_class_defs Let_def)
  qed
qed

subsection \<open>Properties\<close>

text \<open>C34. A failure is classified as a proven replay rejection exactly when the four gates hold
  together: the status is 400 or 422, the attempt carried a gray artifact, the provider kind is one
  whose envelope was captured, and a proven signature matches the parsed error envelope; and no
  token lift of the 4xx row already named the cause.\<close>

theorem replay_lift_iff_all_gates:
  "cf_class (classify_with_attempt pj (Upstream p s body ra ty code rid) kind a)
     = FailureClass.FeatureUnsupported CAPABILITY
   \<longleftrightarrow> (s = 400 \<or> s = 422) \<and> a > 0 \<and> kind = Some ''openai-responses''
     \<and> cf_class (bad_request_row ty code UNION) = FailureClass.BadRequest
     \<and> length body \<le> MAX_ERROR_BODY_BYTES
     \<and> (\<exists>parsed err msg. pj body = Some parsed \<and> json_get parsed ''error'' = Some err
          \<and> option_or ty (string_at err ''type'') = Some ''invalid_request_error''
          \<and> option_or code (string_at err ''code'') = Some ''validation_error''
          \<and> string_at err ''message'' = Some msg
          \<and> starts_with (normalize msg) ''encrypted content missing recognized prefix'')"
  (is "?class = _ \<longleftrightarrow> ?gates")
proof (cases "client_error_row s")
  case True
  have kind: "kind = Some ''openai-responses'' \<Longrightarrow> family_for kind = UNION" by (simp add: family_for_def)
  have "?class = FailureClass.FeatureUnsupported CAPABILITY \<longleftrightarrow>
      cf_class (bad_request_row ty code (family_for kind)) = FailureClass.BadRequest
      \<and> is_replay_rejection pj s ty code body kind a"
    using True bad_request_row_not_replay [of ty code kind]
    by (simp add: classify_client_error_row replay_rejection_def by_type_def Let_def)
  then show ?thesis unfolding is_replay_rejection_iff using kind by metis
next
  case False
  then have "?class \<noteq> FailureClass.FeatureUnsupported CAPABILITY"
    by (auto simp: client_error_row_def classify_upstream_attempt_def failure_class_defs Let_def)
  moreover have "\<not> ?gates" using False by (auto simp: client_error_row_def)
  ultimately show ?thesis by blast
qed

text \<open>The status guidance printed by the migrator is sound and complete: a class other than the
  primary one is listed exactly when some upstream error of that status, for some provider kind and
  some replay attempt, is classified so (the capability text dropped); nothing is listed twice.\<close>

lemma guidance_sound_complete:
  "distinct (guidance_alternatives (class_guidance_for_status pj s)) \<and>
   set (guidance_alternatives (class_guidance_for_status pj s)) =
     {c. \<exists>p body ra ty code rid kind a.
          c = drop_capability (cf_class (classify_with_attempt pj (Upstream p s body ra ty code rid) kind a))}
     - {guidance_primary (class_guidance_for_status pj s)}"
  (is "?d \<and> set ?alts = ?reach - {?prim}")
proof -
  have "?d" by (simp add: alternatives_of_status)
  have "?reach \<subseteq> insert ?prim (set ?alts)"
    unfolding classify_with_attempt.simps using classify_upstream_guided by blast
  moreover have "?prim \<notin> set ?alts"
    by (auto simp: alternatives_of_status primary_of_status primary_client_error primary_503)
  moreover have "c \<in> ?reach" if "c \<in> set ?alts" for c
  proof -
    have "c \<in> (\<lambda>t. drop_capability (cf_class (classify_upstream pj s (Some t) (Some t) None)))
                ` set union_lift_tokens"
      using that by (auto simp: class_guidance_for_status_def Let_def dest: lift_fold_mem)
    then show ?thesis by (force simp: classify_upstream_def)
  qed
  ultimately show ?thesis using \<open>?d\<close> by blast
qed

text \<open>\<open>classify\<close> is total on every error and never answers \<open>Timeout\<close>, with any
  attempt; and with no replay attempt neither the error body nor the JSON parser can influence it.\<close>

lemma classify_never_timeout:
  "cf_class (classify_with_attempt pj e kind a) \<noteq> FailureClass.Timeout \<and>
   classify pj (Upstream p s body ra ty code rid) kind = classify pj' (Upstream p' s body' ra' ty code rid') kind"
proof -
  have "cf_class (classify_with_attempt pj e kind a) \<noteq> FailureClass.Timeout"
    by (cases e) (simp_all add: by_variant_def classify_upstream_not_timeout)
  moreover have "classify_upstream_attempt pj s ty code body kind no_attempt
      = classify_upstream_attempt pj' s ty code body' kind no_attempt"
    by (simp add: classify_upstream_attempt_def Let_def)
  ultimately show ?thesis by (simp add: classify_def)
qed

end
