(* ===== verification/BTree_Map.thy ===== *)
theory BTree_Map
  imports Rust_Prelude "HOL-Library.List_Lexorder" "HOL-Library.Char_ord"
begin

text \<open>
  \<open>BTreeMap\<close> as the routectl sources use it: an association list in strictly increasing key
  order, with insertion that reports the value it displaced, lookup, and iteration in key order.
  The interface \<open>ordered_map\<close> states the laws its clients rely on; the interpretation at the
  end discharges them for the list.
\<close>

type_synonym ('k, 'v) btree = "('k \<times> 'v) list"

definition bt_wf :: "('k::linorder, 'v) btree \<Rightarrow> bool" where
  "bt_wf m \<longleftrightarrow> sorted_wrt (<) (map fst m)"

definition bt_get :: "('k::linorder, 'v) btree \<Rightarrow> 'k \<Rightarrow> 'v option" where
  "bt_get m k = map_of m k"

fun bt_insert :: "'k::linorder \<Rightarrow> 'v \<Rightarrow> ('k, 'v) btree \<Rightarrow> ('k, 'v) btree" where
  "bt_insert k v [] = [(k, v)]"
| "bt_insert k v ((k', v') # m) =
     (if k < k' then (k, v) # (k', v') # m
      else if k = k' then (k, v) # m
      else (k', v') # bt_insert k v m)"

locale ordered_map =
  fixes wf :: "'m \<Rightarrow> bool" and empty :: 'm and insert' :: "'k \<Rightarrow> 'v \<Rightarrow> 'm \<Rightarrow> 'm"
    and entries :: "'m \<Rightarrow> ('k \<times> 'v) set"
  assumes wf_empty: "wf empty"
    and entries_empty: "entries empty = {}"
    and wf_insert: "wf m \<Longrightarrow> wf (insert' k v m)"
    and entries_insert: "wf m \<Longrightarrow> entries (insert' k v m) = insert (k, v) {e \<in> entries m. fst e \<noteq> k}"
    and ext: "wf m \<Longrightarrow> wf m' \<Longrightarrow> entries m = entries m' \<Longrightarrow> m = m'"
begin

definition insert_all :: "('k \<times> 'v) list \<Rightarrow> 'm \<Rightarrow> 'm" where
  "insert_all es m = foldl (\<lambda>acc e. insert' (fst e) (snd e) acc) m es"

lemma wf_insert_all: "wf m \<Longrightarrow> wf (insert_all es m)"
  by (induction es arbitrary: m) (simp_all add: insert_all_def wf_insert)

text \<open>Inserting entries with fresh, distinct keys adds exactly those entries.\<close>

lemma entries_insert_all:
  assumes "wf m" and "distinct (map fst es)" and "\<And>e. e \<in> entries m \<Longrightarrow> fst e \<notin> fst ` set es"
  shows "entries (insert_all es m) = entries m \<union> set es"
  using assms
proof (induction es arbitrary: m)
  case (Cons e es)
  let ?m = "insert' (fst e) (snd e) m"
  have ent: "entries ?m = insert e (entries m)"
    using Cons.prems entries_insert [of m "fst e" "snd e"] by (auto simp: image_iff)
  have "entries (insert_all es ?m) = entries ?m \<union> set es"
    using Cons.prems by (intro Cons.IH) (auto simp: wf_insert ent)
  then show ?case by (simp add: insert_all_def ent)
qed (simp add: insert_all_def)

lemma insert_all_unique:
  assumes "wf m'" and "distinct (map fst es)" and "entries m' = set es"
  shows "insert_all es empty = m'"
proof (rule ext)
  show "entries (insert_all es empty) = entries m'"
    using assms by (subst entries_insert_all) (simp_all add: wf_empty entries_empty)
qed (use assms in \<open>simp_all add: wf_insert_all wf_empty\<close>)

end

lemma set_bt_insert_fst: "fst ` set (bt_insert k v m) = insert k (fst ` set m)"
proof (induction m)
  case (Cons e m)
  then show ?case by (cases e) auto
qed simp

lemma bt_wf_Cons: "bt_wf ((k, v) # m) \<longleftrightarrow> bt_wf m \<and> (\<forall>x \<in> fst ` set m. k < x)"
  by (auto simp: bt_wf_def)

lemma bt_wf_insert: "bt_wf m \<Longrightarrow> bt_wf (bt_insert k v m)"
proof (induction m)
  case (Cons e m)
  then show ?case
    by (cases e) (auto simp: bt_wf_Cons set_bt_insert_fst dest: less_trans split: if_splits)
qed (simp add: bt_wf_def)

lemma bt_entries_insert:
  "bt_wf m \<Longrightarrow> set (bt_insert k v m) = insert (k, v) {e \<in> set m. fst e \<noteq> k}"
proof (induction m)
  case (Cons e m)
  obtain k' v' where e: "e = (k', v')" by force
  have "k \<le> k' \<Longrightarrow> {e \<in> set m. fst e \<noteq> k} = set m" using Cons.prems by (force simp: bt_wf_Cons e)
  with Cons show ?case by (auto simp: bt_wf_Cons e)
qed simp

lemma bt_wf_distinct: "bt_wf m \<Longrightarrow> distinct (map fst m)"
  unfolding bt_wf_def strict_sorted_iff by simp

lemma bt_ext:
  assumes "bt_wf m" and "bt_wf m'" and "set m = set m'"
  shows "m = m'"
proof (rule map_sorted_distinct_set_unique)
  show "inj_on fst (set m \<union> set m')" using assms bt_wf_distinct by (metis distinct_map sup.idem)
qed (use assms bt_wf_distinct in \<open>auto simp: bt_wf_def strict_sorted_iff\<close>)

interpretation bt: ordered_map bt_wf "[]" bt_insert set
  by unfold_locales (simp_all add: bt_wf_def [of "[]"] bt_wf_insert bt_entries_insert bt_ext)

lemma bt_get_insert: "bt_wf m \<Longrightarrow> bt_get (bt_insert k v m) = (bt_get m)(k \<mapsto> v)"
proof (induction m)
  case (Cons e m)
  then show ?case by (cases e) (auto simp: bt_get_def bt_wf_Cons fun_eq_iff)
qed (simp add: bt_get_def fun_eq_iff)

lemma bt_get_None: "bt_get m k = None \<longleftrightarrow> k \<notin> fst ` set m"
  by (simp add: bt_get_def map_of_eq_None_iff)

lemma bt_get_mem: "bt_get m k = Some v \<Longrightarrow> (k, v) \<in> set m"
  by (simp add: bt_get_def map_of_SomeD)

end
