(* ===== verification/Class_Policy.thy ===== *)
theory Class_Policy
  imports Failure_Class BTree_Map
begin

text \<open>
  The config-facing failure classes and their overlay (\<open>routectl-router/src/class_policy.rs\<close>), the
  retry policy they layer over (\<open>config/schema.rs\<close>), and the pure decision predicates the
  dispatch loop asks (\<open>router/dispatch.rs\<close>): remap, debit, fallback, same-provider retry, reset
  hint, probe fast-fail and backoff arithmetic.
\<close>

subsection \<open>Config classes\<close>

definition OPERATOR_REMAP_CAPABILITY :: string where
  "OPERATOR_REMAP_CAPABILITY = ''operator-remap''"

datatype ConfigFailureClass =
    RateLimited | Auth | BadRequest | ContentPolicy | ContextWindow | ServerError | Timeout
  | NetworkError | Overloaded | FeatureUnsupported

text \<open>The derived \<open>Ord\<close> is declaration order.\<close>

fun variant_index :: "ConfigFailureClass \<Rightarrow> nat" where
  "variant_index ConfigFailureClass.RateLimited = 0"
| "variant_index ConfigFailureClass.Auth = 1"
| "variant_index ConfigFailureClass.BadRequest = 2"
| "variant_index ConfigFailureClass.ContentPolicy = 3"
| "variant_index ConfigFailureClass.ContextWindow = 4"
| "variant_index ConfigFailureClass.ServerError = 5"
| "variant_index ConfigFailureClass.Timeout = 6"
| "variant_index ConfigFailureClass.NetworkError = 7"
| "variant_index ConfigFailureClass.Overloaded = 8"
| "variant_index ConfigFailureClass.FeatureUnsupported = 9"

lemma variant_index_inj: "variant_index a = variant_index b \<Longrightarrow> a = b"
  by (cases a; cases b) simp_all

instantiation ConfigFailureClass :: linorder
begin

definition less_eq_ConfigFailureClass :: "ConfigFailureClass \<Rightarrow> ConfigFailureClass \<Rightarrow> bool" where
  "less_eq_ConfigFailureClass a b \<longleftrightarrow> variant_index a \<le> variant_index b"

definition less_ConfigFailureClass :: "ConfigFailureClass \<Rightarrow> ConfigFailureClass \<Rightarrow> bool" where
  "less_ConfigFailureClass a b \<longleftrightarrow> variant_index a < variant_index b"

instance
  by standard (auto simp: less_eq_ConfigFailureClass_def less_ConfigFailureClass_def
      intro: variant_index_inj)

end

record ClassPolicy =
  cp_retry :: "u32 option"
  cp_fallback :: "bool option"

fun to_failure_class :: "ConfigFailureClass \<Rightarrow> FailureClass" where
  "to_failure_class ConfigFailureClass.RateLimited = FailureClass.RateLimited"
| "to_failure_class ConfigFailureClass.Auth = FailureClass.Auth"
| "to_failure_class ConfigFailureClass.BadRequest = FailureClass.BadRequest"
| "to_failure_class ConfigFailureClass.ContentPolicy = FailureClass.ContentPolicy"
| "to_failure_class ConfigFailureClass.ContextWindow = FailureClass.ContextWindow"
| "to_failure_class ConfigFailureClass.ServerError = FailureClass.ServerError"
| "to_failure_class ConfigFailureClass.Timeout = FailureClass.Timeout"
| "to_failure_class ConfigFailureClass.NetworkError = FailureClass.NetworkError"
| "to_failure_class ConfigFailureClass.Overloaded = FailureClass.Overloaded"
| "to_failure_class ConfigFailureClass.FeatureUnsupported =
     FailureClass.FeatureUnsupported OPERATOR_REMAP_CAPABILITY"

fun from_failure_class :: "FailureClass \<Rightarrow> ConfigFailureClass option" where
  "from_failure_class FailureClass.RateLimited = Some ConfigFailureClass.RateLimited"
| "from_failure_class FailureClass.Auth = Some ConfigFailureClass.Auth"
| "from_failure_class FailureClass.BadRequest = Some ConfigFailureClass.BadRequest"
| "from_failure_class FailureClass.ContentPolicy = Some ConfigFailureClass.ContentPolicy"
| "from_failure_class FailureClass.ContextWindow = Some ConfigFailureClass.ContextWindow"
| "from_failure_class FailureClass.ServerError = Some ConfigFailureClass.ServerError"
| "from_failure_class FailureClass.Timeout = Some ConfigFailureClass.Timeout"
| "from_failure_class FailureClass.NetworkError = Some ConfigFailureClass.NetworkError"
| "from_failure_class FailureClass.Overloaded = Some ConfigFailureClass.Overloaded"
| "from_failure_class (FailureClass.FeatureUnsupported c) = Some ConfigFailureClass.FeatureUnsupported"
| "from_failure_class FailureClass.Unknown = None"

subsection \<open>Retry policy\<close>

record RetryPolicy =
  max_attempts :: u32
  initial_backoff_ms :: u64
  backoff_multiplier :: f64
  jitter_ms :: u64
  retry_on_429 :: "u32 option"
  retry_on_5xx :: "u32 option"
  retry_on_network :: "u32 option"
  request_timeout_ms :: "u64 option"
  stream_first_byte_timeout_ms :: "u64 option"
  probe_max_tokens :: u32
  max_honored_retry_after_ms :: "u64 option"
  classes :: "(ConfigFailureClass, ClassPolicy) btree"

definition DEFAULT_MAX_HONORED_RETRY_AFTER_MS :: u64 where
  "DEFAULT_MAX_HONORED_RETRY_AFTER_MS = 3600000"

definition default_retry_policy :: RetryPolicy where
  "default_retry_policy = \<lparr>max_attempts = 2, initial_backoff_ms = 250, backoff_multiplier = Fin 2,
     jitter_ms = 50, retry_on_429 = None, retry_on_5xx = None, retry_on_network = None,
     request_timeout_ms = None, stream_first_byte_timeout_ms = Some 600000, probe_max_tokens = 1,
     max_honored_retry_after_ms = None, classes = []\<rparr>"

definition unwrap_or :: "'a option \<Rightarrow> 'a \<Rightarrow> 'a" where
  "unwrap_or x d = (case x of Some v \<Rightarrow> v | None \<Rightarrow> d)"

definition hard_retry_cap :: "RetryPolicy \<Rightarrow> u32" where
  "hard_retry_cap p =
     max (max (max (max (max (max_attempts p) (unwrap_or (retry_on_429 p) 0))
       (unwrap_or (retry_on_5xx p) 0)) (unwrap_or (retry_on_network p) 0))
       (foldl max 0 (List.map_filter (\<lambda>(k, c). cp_retry c) (classes p)))) 1"

definition max_honored_retry_after :: "RetryPolicy \<Rightarrow> duration" where
  "max_honored_retry_after p =
     from_millis (unwrap_or (max_honored_retry_after_ms p) DEFAULT_MAX_HONORED_RETRY_AFTER_MS)"

fun baked_class_defaults :: "RetryPolicy \<Rightarrow> FailureClass \<Rightarrow> u32 \<times> bool" where
  "baked_class_defaults p FailureClass.RateLimited = (unwrap_or (retry_on_429 p) (max_attempts p), True)"
| "baked_class_defaults p FailureClass.ServerError = (unwrap_or (retry_on_5xx p) (max_attempts p), True)"
| "baked_class_defaults p FailureClass.Overloaded = (unwrap_or (retry_on_5xx p) (max_attempts p), True)"
| "baked_class_defaults p FailureClass.Timeout = (unwrap_or (retry_on_network p) (max_attempts p), True)"
| "baked_class_defaults p FailureClass.NetworkError =
     (unwrap_or (retry_on_network p) (max_attempts p), True)"
| "baked_class_defaults p FailureClass.Auth = (0, True)"
| "baked_class_defaults p FailureClass.BadRequest = (0, True)"
| "baked_class_defaults p FailureClass.ContentPolicy = (0, True)"
| "baked_class_defaults p FailureClass.ContextWindow = (0, True)"
| "baked_class_defaults p (FailureClass.FeatureUnsupported c) = (0, True)"
| "baked_class_defaults p FailureClass.Unknown = (0, False)"

definition resolved_class :: "RetryPolicy \<Rightarrow> FailureClass \<Rightarrow> u32 \<times> bool" where
  "resolved_class p cls =
     (let (retry_cap, fallback) = baked_class_defaults p cls in
      case Option.bind (from_failure_class cls) (bt_get (classes p)) of
        None \<Rightarrow> (retry_cap, fallback)
      | Some overlay \<Rightarrow> (unwrap_or (cp_retry overlay) retry_cap, unwrap_or (cp_fallback overlay) fallback))"

subsection \<open>Status override keys\<close>

datatype KeyError = KeyOutOfRange string | KeyNotInteger string | KeyDuplicate string u16

definition parse_status_code :: "string \<Rightarrow> KeyError + u16" where
  "parse_status_code key = (case parse_unsigned U16_MAX key of
     Some code \<Rightarrow> Inr code
   | None \<Rightarrow> Inl (if parses_i64 key then KeyOutOfRange key else KeyNotInteger key))"

definition serialize_overrides ::
  "(u16, ConfigFailureClass) btree \<Rightarrow> (string, ConfigFailureClass) btree" where
  "serialize_overrides m = foldl (\<lambda>acc (code, cls). bt_insert (show_nat code) cls acc) [] m"

fun deserialize_loop ::
  "(u16, ConfigFailureClass) btree \<Rightarrow> (string \<times> ConfigFailureClass) list \<Rightarrow>
   KeyError + (u16, ConfigFailureClass) btree" where
  "deserialize_loop acc [] = Inr acc"
| "deserialize_loop acc ((key, cls) # rest) = (case parse_status_code key of
     Inl e \<Rightarrow> Inl e
   | Inr code \<Rightarrow> (if bt_get acc code \<noteq> None then Inl (KeyDuplicate key code)
                  else deserialize_loop (bt_insert code cls acc) rest))"

definition deserialize_overrides ::
  "(string, ConfigFailureClass) btree \<Rightarrow> KeyError + (u16, ConfigFailureClass) btree" where
  "deserialize_overrides s = deserialize_loop [] s"

subsection \<open>Decision predicates of the dispatch loop\<close>

fun probe_fast_fail_status :: "Error \<Rightarrow> u16 option" where
  "probe_fast_fail_status (Upstream p s b ra ty code rid) =
     (if s = 429 \<or> s = 529 then Some s else None)"
| "probe_fast_fail_status e = None"

fun forwarded_terminal_status :: "Error \<Rightarrow> u16 option" where
  "forwarded_terminal_status (Upstream p s b ra ty code rid) =
     (if s = 401 \<or> s = 403 \<or> s = 429 then Some s else None)"
| "forwarded_terminal_status e = None"

fun rate_limit_reset_hint :: "Error \<Rightarrow> RetryPolicy \<Rightarrow> duration option" where
  "rate_limit_reset_hint (Upstream p s b (Some d) ty code rid) pol =
     (let h = min d (max_honored_retry_after pol) in if h = 0 then None else Some h)"
| "rate_limit_reset_hint e pol = None"

fun is_capability_error :: "Error \<Rightarrow> bool" where
  "is_capability_error (NotImplemented a b) = True"
| "is_capability_error (Upstream p s b ra ty code rid) = (s = 501)"
| "is_capability_error e = False"

definition retry_cap_for :: "FailureClass \<Rightarrow> RetryPolicy \<Rightarrow> u32" where
  "retry_cap_for cls p = fst (resolved_class p cls)"

fun upstream_status_for_remap :: "Error \<Rightarrow> u16 option" where
  "upstream_status_for_remap (Upstream p s b ra ty code rid) =
     (if 400 \<le> s \<and> s \<le> 599 then Some s else None)"
| "upstream_status_for_remap e = None"

definition apply_remap ::
  "ClassifiedFailure \<Rightarrow> u16 option \<Rightarrow> (u16, FailureClass) btree \<Rightarrow> ClassifiedFailure \<times> bool" where
  "apply_remap native status overrides = (case Option.bind status (bt_get overrides) of
     Some cls \<Rightarrow> (\<lparr>cf_class = cls, cf_matched_by = cf_matched_by native\<rparr>, True)
   | None \<Rightarrow> (native, False))"

fun class_debits :: "FailureClass \<Rightarrow> bool" where
  "class_debits FailureClass.RateLimited = True"
| "class_debits FailureClass.ServerError = True"
| "class_debits FailureClass.Timeout = True"
| "class_debits FailureClass.NetworkError = True"
| "class_debits FailureClass.Overloaded = True"
| "class_debits cls = False"

definition should_fallback :: "Error \<Rightarrow> FailureClass \<Rightarrow> RetryPolicy \<Rightarrow> bool \<Rightarrow> bool" where
  "should_fallback err cls p is_probe =
     (if is_probe \<and> probe_fast_fail_status err \<noteq> None then False
      else case err of UnknownProvider s \<Rightarrow> True | _ \<Rightarrow> snd (resolved_class p cls))"

definition should_retry_same_provider ::
  "Error \<Rightarrow> FailureClass \<Rightarrow> RetryPolicy \<Rightarrow> u32 \<Rightarrow> bool \<Rightarrow> bool" where
  "should_retry_same_provider err cls p attempts_made is_probe =
     (if is_probe \<and> probe_fast_fail_status err \<noteq> None then False
      else attempts_made < retry_cap_for cls p)"

text \<open>\<open>subsec\<close> is the wall clock's sub-second part.\<close>

definition add_jitter :: "nat \<Rightarrow> duration \<Rightarrow> u64 \<Rightarrow> duration" where
  "add_jitter subsec base jitter =
     (if jitter = 0 then base else min (base + from_millis (subsec mod jitter)) DURATION_MAX)"

text \<open>The product, \<open>f64::min\<close> against \<open>u64::MAX as f64\<close> (which is \<open>2 ^ 64\<close>, and is what a
  NaN product becomes) and the saturating \<open>as u64\<close> cast.\<close>

definition mul_duration :: "duration \<Rightarrow> f64 \<Rightarrow> duration" where
  "mul_duration d factor = (case factor of
     Fin r \<Rightarrow> min (nat \<lfloor>min (real d * r) (2 ^ 64)\<rfloor>) U64_MAX
   | PInf \<Rightarrow> U64_MAX
   | NInf \<Rightarrow> (if d = 0 then U64_MAX else 0)
   | NaN \<Rightarrow> U64_MAX)"

record ProviderRuntimePolicy =
  prp_rpm_limit :: "u32 option"
  prp_circuit_failures :: "u32 option"
  prp_circuit_cooldown_ms :: "u64 option"
  prp_request_timeout_ms :: "u64 option"
  prp_stream_first_byte_timeout_ms :: "u64 option"
  prp_unsupported_features :: "string list"
  prp_class_overrides :: "(u16, ConfigFailureClass) btree"

definition compose_attempt_policy ::
  "(string \<rightharpoonup> ProviderRuntimePolicy) \<Rightarrow> RetryPolicy \<Rightarrow> string \<Rightarrow> u64 option \<Rightarrow> RetryPolicy" where
  "compose_attempt_policy providers base provider_name model_override =
     (let rt = providers provider_name;
          out = (if request_timeout_ms base = None
                 then base\<lparr>request_timeout_ms := Option.bind rt prp_request_timeout_ms\<rparr> else base)
      in case model_override of
           Some ms \<Rightarrow> out\<lparr>stream_first_byte_timeout_ms := Some ms\<rparr>
         | None \<Rightarrow> (if stream_first_byte_timeout_ms out = None
             then out\<lparr>stream_first_byte_timeout_ms := Option.bind rt prp_stream_first_byte_timeout_ms\<rparr>
             else out))"

subsection \<open>Lemmas\<close>

lemma from_to_failure_class [simp]: "from_failure_class (to_failure_class c) = Some c"
  by (cases c) simp_all

lemma from_failure_class_Some:
  "from_failure_class cls = Some c \<longleftrightarrow> drop_capability cls = drop_capability (to_failure_class c)"
  by (cases cls; cases c) simp_all

lemma baked_drop_capability [simp]: "baked_class_defaults p (drop_capability c) = baked_class_defaults p c"
  by (cases c) simp_all

lemma class_debits_drop_capability [simp]: "class_debits (drop_capability c) = class_debits c"
  by (cases c) simp_all

lemma foldl_max_ge: "(m::nat) \<le> foldl max m xs"
  by (induction xs arbitrary: m) (simp_all, meson max.boundedE)

lemma foldl_max_mem: "x \<in> set xs \<Longrightarrow> (x::nat) \<le> foldl max m xs"
proof (induction xs arbitrary: m)
  case (Cons y ys)
  then show ?case using foldl_max_ge [of "max m y" ys] by auto
qed simp

lemma overlay_cap_bound:
  assumes "bt_get (classes p) c = Some overlay" and "cp_retry overlay = Some n"
  shows "n \<le> foldl max 0 (List.map_filter (\<lambda>(k, c). cp_retry c) (classes p))"
proof -
  have "n \<in> set (List.map_filter (\<lambda>(k, c). cp_retry c) (classes p))"
    using bt_get_mem [OF assms(1)] assms(2) by (force simp: List.map_filter_def)
  then show ?thesis by (rule foldl_max_mem)
qed

lemma baked_cap_bound: "fst (baked_class_defaults p cls) \<le> hard_retry_cap p"
proof -
  have "max_attempts p \<le> hard_retry_cap p" "unwrap_or (retry_on_429 p) 0 \<le> hard_retry_cap p"
    "unwrap_or (retry_on_5xx p) 0 \<le> hard_retry_cap p" "unwrap_or (retry_on_network p) 0 \<le> hard_retry_cap p"
    by (simp_all add: hard_retry_cap_def le_max_iff_disj)
  then show ?thesis
    by (cases cls; cases "retry_on_429 p"; cases "retry_on_5xx p"; cases "retry_on_network p")
      (simp_all add: unwrap_or_def)
qed

lemma resolved_cap_bound: "fst (resolved_class p cls) \<le> hard_retry_cap p"
proof (cases "Option.bind (from_failure_class cls) (bt_get (classes p))")
  case None
  then show ?thesis using baked_cap_bound [of p cls] by (simp add: resolved_class_def split: prod.splits)
next
  case (Some overlay)
  then obtain c where c: "bt_get (classes p) c = Some overlay" by (auto simp: bind_eq_Some_conv)
  show ?thesis
  proof (cases "cp_retry overlay")
    case None
    with Some show ?thesis using baked_cap_bound [of p cls]
      by (cases "baked_class_defaults p cls") (simp add: resolved_class_def unwrap_or_def)
  next
    case cap: (Some n)
    have "n \<le> hard_retry_cap p" using overlay_cap_bound [OF c cap] by (simp add: hard_retry_cap_def)
    with Some cap show ?thesis by (simp add: resolved_class_def unwrap_or_def split: prod.splits)
  qed
qed

lemma hard_retry_cap_pos: "0 < hard_retry_cap p"
  by (simp add: hard_retry_cap_def)

text \<open>The string-keyed table is the status table with every key printed.\<close>

lemma serialize_insert_all:
  "serialize_overrides m = bt.insert_all (map (\<lambda>(code, cls). (show_nat code, cls)) m) []"
proof -
  have "foldl (\<lambda>acc (code, cls). bt_insert (show_nat code) cls acc) a m
      = bt.insert_all (map (\<lambda>(code, cls). (show_nat code, cls)) m) a" for a
    by (induction m arbitrary: a) (auto simp: bt.insert_all_def)
  then show ?thesis by (simp add: serialize_overrides_def)
qed

lemma serialize_wf: "bt_wf (serialize_overrides m)"
  unfolding serialize_insert_all by (rule bt.wf_insert_all [OF bt.wf_empty])

lemma serialize_set:
  assumes "bt_wf m"
  shows "set (serialize_overrides m) = (\<lambda>(code, cls). (show_nat code, cls)) ` set m"
proof -
  have "inj_on show_nat (set (map fst m))" by (rule inj_onI) (rule show_nat_inj)
  then have "distinct (map (show_nat \<circ> fst) m)"
    using bt_wf_distinct [OF assms] by (simp add: distinct_map comp_inj_on)
  then have "distinct (map fst (map (\<lambda>(code, cls). (show_nat code, cls)) m))"
    by (simp add: comp_def case_prod_unfold)
  then show ?thesis
    unfolding serialize_insert_all by (subst bt.entries_insert_all) (simp_all add: bt.wf_empty)
qed

text \<open>What the deserialising loop accepts, and what it then holds.\<close>

lemma deserialize_loop_ok:
  assumes "bt_wf acc"
    and "\<forall>(key, cls) \<in> set s. parse_status_code key = Inr (f key)"
    and "distinct (map (f \<circ> fst) s)" and "fst ` set acc \<inter> (f \<circ> fst) ` set s = {}"
  shows "deserialize_loop acc s = Inr (bt.insert_all (map (\<lambda>(key, cls). (f key, cls)) s) acc)"
  using assms
proof (induction s arbitrary: acc)
  case (Cons e s)
  obtain key cls where e: "e = (key, cls)" by force
  have "bt_get acc (f key) = None" using Cons.prems(4) by (auto simp: e bt_get_None)
  moreover have "deserialize_loop (bt_insert (f key) cls acc) s
      = Inr (bt.insert_all (map (\<lambda>(key, cls). (f key, cls)) s) (bt_insert (f key) cls acc))"
    using Cons.prems by (intro Cons.IH) (auto simp: e bt_wf_insert set_bt_insert_fst)
  ultimately show ?case using Cons.prems(2) by (simp add: e bt.insert_all_def)
qed (simp add: bt.insert_all_def)

lemma deserialize_loop_sound:
  assumes "deserialize_loop acc s = Inr m" and "bt_wf acc"
  shows "bt_wf m \<and> length m = length acc + length s \<and>
    set m = set acc \<union> {(code, cls). \<exists>key. (key, cls) \<in> set s \<and> parse_status_code key = Inr code}"
  using assms
proof (induction s arbitrary: acc)
  case (Cons e s)
  obtain key cls where e: "e = (key, cls)" by force
  from Cons.prems obtain code where code: "parse_status_code key = Inr code" "bt_get acc code = None"
    "deserialize_loop (bt_insert code cls acc) s = Inr m"
    by (auto simp: e split: sum.splits if_splits)
  have fresh: "{x \<in> set acc. fst x \<noteq> code} = set acc" using code(2) by (force simp: bt_get_None)
  have "length (bt_insert code cls acc) = Suc (length acc)"
    using code(2) by (induction acc) (auto simp: bt_get_def split: if_splits)
  with Cons.IH [OF code(3) bt_wf_insert [OF Cons.prems(2)]] code(1) fresh
  show ?case by (auto simp: e bt_entries_insert [OF Cons.prems(2)])
qed auto

text \<open>Every class a status can reach sits in the routing row of its primary class.\<close>

lemma resolved_class_empty: "classes p = [] \<Longrightarrow> resolved_class p cls = baked_class_defaults p cls"
  by (cases "from_failure_class cls") (simp_all add: resolved_class_def bt_get_def split: prod.split)

lemma routing_row_of_status:
  defines "prim \<equiv> \<lambda>pj s. guidance_primary (class_guidance_for_status pj s)"
  shows "baked_class_defaults p (cf_class (classify_upstream_attempt pj s ty code body kind a))
      = baked_class_defaults p (prim pj s)"
    and "class_debits (cf_class (classify_upstream_attempt pj s ty code body kind a))
      = class_debits (prim pj s)"
proof -
  let ?c = "cf_class (classify_upstream_attempt pj s ty code body kind a)"
  have "drop_capability ?c = prim pj s
      \<or> drop_capability ?c \<in> set (guidance_alternatives (class_guidance_for_status pj s))"
    using classify_upstream_guided [of pj s ty code body kind a] by (simp add: prim_def)
  moreover have "baked_class_defaults p d = baked_class_defaults p (prim pj s)
      \<and> class_debits d = class_debits (prim pj s)"
    if "d \<in> set (guidance_alternatives (class_guidance_for_status pj s))" for d
    using that
    by (auto simp: prim_def alternatives_of_status primary_of_status primary_client_error primary_503
        split: if_splits)
  ultimately show "baked_class_defaults p ?c = baked_class_defaults p (prim pj s)"
    "class_debits ?c = class_debits (prim pj s)"
    using baked_drop_capability [of p ?c] class_debits_drop_capability [of ?c] by metis+
qed

subsection \<open>Properties\<close>

text \<open>The ceiling folds every overlay: whatever the operator configures, the per-class retry cap
  never exceeds the hard cap the dispatch loop enforces, so a retry the class policy allows is also
  under the ceiling; and the ceiling is at least one attempt.\<close>

lemma resolved_cap_le_hard_cap:
  "fst (resolved_class p cls) \<le> hard_retry_cap p \<and> 1 \<le> hard_retry_cap p \<and>
   \<not> should_retry_same_provider e cls p (hard_retry_cap p) is_probe"
  using resolved_cap_bound [of p cls] hard_retry_cap_pos [of p]
  by (simp add: should_retry_same_provider_def retry_cap_for_def not_less)

text \<open>A token lift never crosses a routing row: under an empty overlay two upstream failures of
  the same status get the same retry cap, the same fallback verdict and the same breaker debit,
  whatever their tokens, bodies, provider kinds and replay attempts are.\<close>

lemma lift_keeps_routing_row:
  "resolved_class (p\<lparr>classes := []\<rparr>) (cf_class (classify_with_attempt pj (Upstream n s body ra ty code rid) kind a))
     = resolved_class (p\<lparr>classes := []\<rparr>)
         (cf_class (classify_with_attempt pj (Upstream n' s body' ra' ty' code' rid') kind' a')) \<and>
   class_debits (cf_class (classify_with_attempt pj (Upstream n s body ra ty code rid) kind a))
     = class_debits (cf_class (classify_with_attempt pj (Upstream n' s body' ra' ty' code' rid') kind' a'))"
  by (simp add: resolved_class_empty routing_row_of_status)

text \<open>The status-override table survives its string-keyed form: what the serialiser writes, the
  deserialiser reads back unchanged.\<close>

lemma overrides_roundtrip:
  assumes "bt_wf m" and "\<forall>(code, cls) \<in> set m. code \<le> U16_MAX"
  shows "deserialize_overrides (serialize_overrides m) = Inr m"
proof -
  let ?s = "serialize_overrides m"
  let ?f = "\<lambda>key. the (parse_unsigned U16_MAX key)"
  have parse: "parse_unsigned U16_MAX (show_nat code) = Some code" if "(code, cls) \<in> set m" for code cls
    using assms(2) that by (intro parse_unsigned_show_nat) auto
  have keys: "\<forall>(key, cls) \<in> set ?s. parse_status_code key = Inr (?f key)"
    using parse by (auto simp: serialize_set [OF assms(1)] parse_status_code_def)
  have inj: "inj_on ?f (fst ` set ?s)"
    by (rule inj_onI) (auto simp: serialize_set [OF assms(1)] parse)
  then have dist: "distinct (map (?f \<circ> fst) ?s)"
    using bt_wf_distinct [OF serialize_wf] by (metis distinct_map list.map_comp list.set_map)
  have printed: "set (map (\<lambda>(key, cls). (?f key, cls)) ?s) = set m"
    using parse by (force simp: serialize_set [OF assms(1)])
  have "deserialize_loop [] ?s = Inr (bt.insert_all (map (\<lambda>(key, cls). (?f key, cls)) ?s) [])"
    by (rule deserialize_loop_ok) (use keys dist in \<open>simp_all add: bt.wf_empty\<close>)
  moreover have "bt.insert_all (map (\<lambda>(key, cls). (?f key, cls)) ?s) [] = m"
    using dist by (intro bt.insert_all_unique) (simp_all add: assms(1) printed [symmetric] comp_def case_prod_unfold)
  ultimately show ?thesis by (simp add: deserialize_overrides_def)
qed

lemma overrides_roundtrip_witness:
  "deserialize_overrides (serialize_overrides
     [(429, ConfigFailureClass.RateLimited), (1000, ConfigFailureClass.Timeout)])
   = Inr [(429, ConfigFailureClass.RateLimited), (1000, ConfigFailureClass.Timeout)]"
  by (rule overrides_roundtrip) (simp_all add: bt_wf_def U16_MAX_def)

text \<open>No override is lost silently: a table that deserialises has one entry per key that was
  written, each under the code its key parses to; two spellings of one code are refused.\<close>

lemma overrides_no_silent_loss:
  assumes "deserialize_overrides s = Inr m"
  shows "length m = length s \<and>
    set m = {(code, cls). \<exists>key. (key, cls) \<in> set s \<and> parse_unsigned U16_MAX key = Some code}"
  using deserialize_loop_sound [of "[]" s m] assms
  by (auto simp: deserialize_overrides_def bt.wf_empty parse_status_code_def split: option.splits)

lemma overrides_no_silent_loss_witness:
  "length [(429 :: u16, ConfigFailureClass.Timeout)] = length [(''+429'', ConfigFailureClass.Timeout)] \<and>
   set [(429 :: u16, ConfigFailureClass.Timeout)] =
     {(code, cls). \<exists>key. (key, cls) \<in> set [(''+429'', ConfigFailureClass.Timeout)] \<and>
        parse_unsigned U16_MAX key = Some code}"
  by (rule overrides_no_silent_loss)
    (simp add: deserialize_overrides_def parse_status_code_def parse_unsigned_def digit_val_def
      U16_MAX_def bt_get_def)

text \<open>With the retry block at its defaults the per-provider first-content timeout is never
  consulted: the global default wins whatever the provider sets, and only a per-model override
  changes it.\<close>

lemma provider_first_byte_timeout_shadowed:
  "stream_first_byte_timeout_ms (compose_attempt_policy providers default_retry_policy name override)
     = (case override of Some ms \<Rightarrow> Some ms | None \<Rightarrow> Some 600000)"
  by (simp add: compose_attempt_policy_def default_retry_policy_def Let_def split: option.split)

end
