(* ===== verification/Runtime_State.thy ===== *)
theory Runtime_State
  imports Class_Policy
begin

text \<open>
  The per-target runtime gate of \<open>routectl-router/src/runtime_state.rs\<close>: a token bucket and a
  passive circuit breaker, read and updated in one critical section. Each method is a function on
  the state record; the clock is the argument \<open>now\<close>, as in the source. The token level is an
  exact real (the source's \<open>f64\<close> without its rounding).
\<close>

subsection \<open>State and operations\<close>

definition DEFAULT_CIRCUIT_COOLDOWN_MS :: u64 where "DEFAULT_CIRCUIT_COOLDOWN_MS = 30000"
definition RPM_WINDOW_MS :: u64 where "RPM_WINDOW_MS = 60000"

record ProviderState =
  rpm_capacity :: "real option"
  rpm_tokens :: real
  rpm_last_refill :: instant
  circuit_failure_threshold :: "u32 option"
  circuit_cooldown :: duration
  active_cooldown :: duration
  consecutive_failures :: u32
  circuit_opened_at :: "instant option"
  half_open_in_flight :: bool
  last_outcome :: "LastOutcome option"
  last_outcome_at :: "instant option"

datatype AdmissionKind = ClientDispatch | BackgroundProbe

datatype GateDecision = Allow | RateLimited | CircuitOpen

record GateAdmission =
  decision :: GateDecision
  claimed_half_open :: bool

definition refused :: "GateDecision \<Rightarrow> GateAdmission" where
  "refused d = \<lparr>decision = d, claimed_half_open = False\<rparr>"

definition new_state :: "ProviderRuntimePolicy \<Rightarrow> instant \<Rightarrow> ProviderState" where
  "new_state policy now =
     (let cooldown = from_millis (unwrap_or (prp_circuit_cooldown_ms policy) DEFAULT_CIRCUIT_COOLDOWN_MS)
      in \<lparr>rpm_capacity = map_option real (prp_rpm_limit policy),
          rpm_tokens = (case prp_rpm_limit policy of None \<Rightarrow> 0 | Some r \<Rightarrow> real r),
          rpm_last_refill = now,
          circuit_failure_threshold = prp_circuit_failures policy,
          circuit_cooldown = cooldown,
          active_cooldown = cooldown,
          consecutive_failures = 0,
          circuit_opened_at = None,
          half_open_in_flight = False,
          last_outcome = None,
          last_outcome_at = None\<rparr>)"

definition projected_tokens :: "ProviderState \<Rightarrow> instant \<Rightarrow> real \<Rightarrow> real" where
  "projected_tokens s now capacity =
     (let elapsed_ms = real (as_millis (duration_since now (rpm_last_refill s)))
      in if elapsed_ms \<le> 0 then rpm_tokens s
         else min (capacity / real RPM_WINDOW_MS * elapsed_ms + rpm_tokens s) capacity)"

definition refill_tokens :: "ProviderState \<Rightarrow> instant \<Rightarrow> real \<Rightarrow> ProviderState" where
  "refill_tokens s now capacity =
     (if as_millis (duration_since now (rpm_last_refill s)) = 0 then s
      else s\<lparr>rpm_tokens := projected_tokens s now capacity, rpm_last_refill := now\<rparr>)"

text \<open>The RPM half of \<open>try_dispatch_inner\<close>, entered with the half-open claim already decided.\<close>

definition rpm_gate :: "ProviderState \<Rightarrow> instant \<Rightarrow> bool \<Rightarrow> ProviderState \<times> GateAdmission" where
  "rpm_gate s now claimed = (case rpm_capacity s of
     None \<Rightarrow> (s, \<lparr>decision = Allow, claimed_half_open = claimed\<rparr>)
   | Some capacity \<Rightarrow>
       (let s = refill_tokens s now capacity in
        if rpm_tokens s < 1
        then ((if circuit_opened_at s \<noteq> None then s\<lparr>half_open_in_flight := False\<rparr> else s),
              refused GateDecision.RateLimited)
        else (s\<lparr>rpm_tokens := rpm_tokens s - 1\<rparr>, \<lparr>decision = Allow, claimed_half_open = claimed\<rparr>)))"

definition try_dispatch_inner ::
  "ProviderState \<Rightarrow> instant \<Rightarrow> AdmissionKind \<Rightarrow> ProviderState \<times> GateAdmission" where
  "try_dispatch_inner s now kind = (case circuit_opened_at s of
     Some opened_at \<Rightarrow>
       (if duration_since now opened_at < active_cooldown s then (s, refused CircuitOpen)
        else if half_open_in_flight s then (s, refused CircuitOpen)
        else if kind = BackgroundProbe then (s, refused CircuitOpen)
        else rpm_gate (s\<lparr>half_open_in_flight := True\<rparr>) now True)
   | None \<Rightarrow> rpm_gate s now False)"

definition try_dispatch_admitting :: "ProviderState \<Rightarrow> instant \<Rightarrow> ProviderState \<times> GateAdmission" where
  "try_dispatch_admitting s now = try_dispatch_inner s now ClientDispatch"

definition try_dispatch_probe :: "ProviderState \<Rightarrow> instant \<Rightarrow> ProviderState \<times> GateAdmission" where
  "try_dispatch_probe s now = try_dispatch_inner s now BackgroundProbe"

definition try_dispatch :: "ProviderState \<Rightarrow> instant \<Rightarrow> ProviderState \<times> GateDecision" where
  "try_dispatch s now = (let (s', a) = try_dispatch_admitting s now in (s', decision a))"

definition record_success :: "ProviderState \<Rightarrow> instant \<Rightarrow> ProviderState" where
  "record_success s now = s\<lparr>consecutive_failures := 0, circuit_opened_at := None,
     half_open_in_flight := False, active_cooldown := circuit_cooldown s,
     last_outcome := Some LastOutcome.Ok, last_outcome_at := Some now\<rparr>"

definition record_failure :: "ProviderState \<Rightarrow> instant \<Rightarrow> LastOutcome \<Rightarrow> ProviderState \<times> bool" where
  "record_failure s now outcome =
     (let was_half_open_probe = half_open_in_flight s;
          s = s\<lparr>half_open_in_flight := False, last_outcome := Some outcome, last_outcome_at := Some now\<rparr>;
          s = s\<lparr>consecutive_failures := saturating_add_u32 (consecutive_failures s) 1\<rparr>
      in case circuit_failure_threshold s of
           Some threshold \<Rightarrow>
             (if was_half_open_probe \<or> threshold \<le> consecutive_failures s
              then (s\<lparr>circuit_opened_at := Some now, active_cooldown := circuit_cooldown s\<rparr>, True)
              else (s, False))
         | None \<Rightarrow> (s, False))"

definition force_open :: "ProviderState \<Rightarrow> instant \<Rightarrow> duration \<Rightarrow> ProviderState" where
  "force_open s now cooldown =
     s\<lparr>circuit_opened_at := Some now, active_cooldown := cooldown, half_open_in_flight := False\<rparr>"

definition release_probe_slot :: "ProviderState \<Rightarrow> ProviderState" where
  "release_probe_slot s = s\<lparr>half_open_in_flight := False\<rparr>"

definition half_open_probe_in_flight :: "ProviderState \<Rightarrow> bool" where
  "half_open_probe_in_flight s = half_open_in_flight s"

datatype CircuitPhase = Closed | Open | HalfOpenReady

record CapacitySnapshot =
  rpm_available :: "real option"
  circuit :: CircuitPhase

definition capacity_snapshot :: "ProviderState \<Rightarrow> instant \<Rightarrow> CapacitySnapshot" where
  "capacity_snapshot s now =
     \<lparr>rpm_available = map_option (projected_tokens s now) (rpm_capacity s),
      circuit = (case circuit_opened_at s of
        None \<Rightarrow> Closed
      | Some opened_at \<Rightarrow>
          (let cooldown_elapsed = active_cooldown s \<le> duration_since now opened_at
           in if \<not> cooldown_elapsed \<or> half_open_in_flight s then Open else HalfOpenReady))\<rparr>"

definition is_dispatchable :: "CapacitySnapshot \<Rightarrow> bool" where
  "is_dispatchable snap \<longleftrightarrow> circuit snap \<noteq> Open \<and>
     (case rpm_available snap of None \<Rightarrow> True | Some tokens \<Rightarrow> 1 \<le> tokens)"

record ProviderGateStatus =
  gs_rpm_available :: "real option"
  gs_circuit :: CircuitPhase
  gs_half_open_probe_in_flight :: bool
  gs_circuit_open_elapsed :: "duration option"
  gs_last_outcome :: "LastOutcome option"
  gs_last_outcome_elapsed :: "duration option"

definition gate_status :: "ProviderState \<Rightarrow> instant \<Rightarrow> ProviderGateStatus" where
  "gate_status s now =
     (let snapshot = capacity_snapshot s now
      in \<lparr>gs_rpm_available = rpm_available snapshot,
          gs_circuit = circuit snapshot,
          gs_half_open_probe_in_flight = half_open_in_flight s,
          gs_circuit_open_elapsed = map_option (duration_since now) (circuit_opened_at s),
          gs_last_outcome = last_outcome s,
          gs_last_outcome_elapsed = map_option (duration_since now) (last_outcome_at s)\<rparr>)"

subsection \<open>The breaker as a step relation\<close>

text \<open>What the router can do to one slot, in any interleaving. The outcome a failure stamps is always
  derived from a failure class, as every call site does.\<close>

datatype gate_event =
    Dispatch instant AdmissionKind
  | Success instant
  | Failure instant FailureClass
  | Park instant duration
  | Release

fun gate_exec :: "gate_event \<Rightarrow> ProviderState \<Rightarrow> ProviderState" where
  "gate_exec (Dispatch now kind) s = fst (try_dispatch_inner s now kind)"
| "gate_exec (Success now) s = record_success s now"
| "gate_exec (Failure now cls) s = fst (record_failure s now (last_outcome_of cls))"
| "gate_exec (Park now d) s = force_open s now d"
| "gate_exec Release s = release_probe_slot s"

inductive gate_step :: "ProviderState \<Rightarrow> gate_event \<Rightarrow> ProviderState \<Rightarrow> bool" where
  dispatch: "try_dispatch_inner s now kind = (s', a) \<Longrightarrow> gate_step s (Dispatch now kind) s'"
| success: "gate_step s (Success now) (record_success s now)"
| failure: "record_failure s now (last_outcome_of cls) = (s', tripped) \<Longrightarrow>
    gate_step s (Failure now cls) s'"
| park: "gate_step s (Park now d) (force_open s now d)"
| release: "gate_step s Release (release_probe_slot s)"

inductive gate_reachable :: "ProviderRuntimePolicy \<Rightarrow> ProviderState \<Rightarrow> bool" for policy where
  init: "gate_reachable policy (new_state policy now)"
| step: "gate_reachable policy s \<Longrightarrow> gate_step s ev s' \<Longrightarrow> gate_reachable policy s'"

inductive_cases gate_stepE: "gate_step s ev s'"

lemma gate_step_exec: "gate_step s ev s' \<longleftrightarrow> s' = gate_exec ev s"
  by (cases ev) (auto elim: gate_stepE intro: gate_step.intros simp: prod_eq_iff
      intro!: gate_step.dispatch gate_step.failure)

subsection \<open>Invariant\<close>

definition bucket_ok :: "ProviderState \<Rightarrow> bool" where
  "bucket_ok s \<longleftrightarrow> (case rpm_capacity s of None \<Rightarrow> True | Some c \<Rightarrow> 0 \<le> rpm_tokens s \<and> rpm_tokens s \<le> c)"

definition breaker_ok :: "ProviderState \<Rightarrow> bool" where
  "breaker_ok s \<longleftrightarrow>
     (half_open_in_flight s \<longrightarrow> circuit_opened_at s \<noteq> None)
     \<and> (circuit_opened_at s = None \<longrightarrow> active_cooldown s = circuit_cooldown s)
     \<and> consecutive_failures s \<le> U32_MAX
     \<and> last_outcome s \<noteq> Some LastOutcome.CircuitOpen
     \<and> (last_outcome s = None \<longleftrightarrow> last_outcome_at s = None)"

definition policy_ok :: "ProviderRuntimePolicy \<Rightarrow> ProviderState \<Rightarrow> bool" where
  "policy_ok policy s \<longleftrightarrow> rpm_capacity s = map_option real (prp_rpm_limit policy)
     \<and> circuit_failure_threshold s = prp_circuit_failures policy
     \<and> circuit_cooldown s =
         from_millis (unwrap_or (prp_circuit_cooldown_ms policy) DEFAULT_CIRCUIT_COOLDOWN_MS)"

definition gate_inv :: "ProviderRuntimePolicy \<Rightarrow> ProviderState \<Rightarrow> bool" where
  "gate_inv policy s \<longleftrightarrow> policy_ok policy s \<and> bucket_ok s \<and> breaker_ok s"

lemmas settle_defs = record_success_def record_failure_def force_open_def release_probe_slot_def

lemma last_outcome_of_not_open [simp]: "last_outcome_of c \<noteq> LastOutcome.CircuitOpen"
  by (cases c) simp_all

lemma projected_tokens_bounds:
  assumes "0 \<le> rpm_tokens s" and "rpm_tokens s \<le> c"
  shows "0 \<le> projected_tokens s now c" and "projected_tokens s now c \<le> c"
  using assms by (auto simp: projected_tokens_def Let_def)

text \<open>A refill changes the bucket and nothing else, and it agrees with the projection.\<close>

lemma refill_frame:
  "refill_tokens s now c = s\<lparr>rpm_tokens := projected_tokens s now c,
     rpm_last_refill := rpm_last_refill (refill_tokens s now c)\<rparr>"
  by (simp add: refill_tokens_def projected_tokens_def)

lemma refill_fields [simp]:
  "rpm_tokens (refill_tokens s now c) = projected_tokens s now c"
  "rpm_capacity (refill_tokens s now c) = rpm_capacity s"
  "circuit_failure_threshold (refill_tokens s now c) = circuit_failure_threshold s"
  "circuit_cooldown (refill_tokens s now c) = circuit_cooldown s"
  "active_cooldown (refill_tokens s now c) = active_cooldown s"
  "consecutive_failures (refill_tokens s now c) = consecutive_failures s"
  "circuit_opened_at (refill_tokens s now c) = circuit_opened_at s"
  "half_open_in_flight (refill_tokens s now c) = half_open_in_flight s"
  "last_outcome (refill_tokens s now c) = last_outcome s"
  "last_outcome_at (refill_tokens s now c) = last_outcome_at s"
  by (simp_all add: refill_tokens_def projected_tokens_def)

lemma projected_tokens_update [simp]:
  "projected_tokens (s\<lparr>half_open_in_flight := b\<rparr>) now c = projected_tokens s now c"
  by (simp add: projected_tokens_def)

text \<open>Every outcome of an admission, as one case rule.\<close>

lemma try_dispatch_inner_cases:
  obtains (blocked) t where "circuit_opened_at s = Some t"
      "duration_since now t < active_cooldown s \<or> half_open_in_flight s \<or> kind = BackgroundProbe"
      "try_dispatch_inner s now kind = (s, refused CircuitOpen)"
  | (recover) t where "circuit_opened_at s = Some t" "active_cooldown s \<le> duration_since now t"
      "\<not> half_open_in_flight s" "kind = ClientDispatch"
      "try_dispatch_inner s now kind = rpm_gate (s\<lparr>half_open_in_flight := True\<rparr>) now True"
  | (closed) "circuit_opened_at s = None" "try_dispatch_inner s now kind = rpm_gate s now False"
proof (cases "circuit_opened_at s")
  case None
  then show ?thesis using closed by (simp add: try_dispatch_inner_def)
next
  case (Some t)
  show ?thesis
  proof (cases "duration_since now t < active_cooldown s \<or> half_open_in_flight s \<or> kind = BackgroundProbe")
    case True
    then show ?thesis using blocked Some by (auto simp: try_dispatch_inner_def)
  next
    case False
    then show ?thesis using recover Some by (cases kind) (auto simp: try_dispatch_inner_def)
  qed
qed

lemma rpm_gate_policy: "policy_ok policy s \<Longrightarrow> policy_ok policy (fst (rpm_gate s now b))"
  by (simp add: rpm_gate_def policy_ok_def Let_def split: option.split)

lemma rpm_gate_bucket: "bucket_ok s \<Longrightarrow> bucket_ok (fst (rpm_gate s now b))"
  by (auto simp: rpm_gate_def bucket_ok_def Let_def not_less projected_tokens_bounds
      dest!: projected_tokens_bounds(2) [of s _ now] split: option.split)

lemma rpm_gate_breaker: "breaker_ok s \<Longrightarrow> breaker_ok (fst (rpm_gate s now b))"
  by (auto simp: rpm_gate_def breaker_ok_def Let_def split: option.split)

lemma claim_frame:
  "policy_ok policy (s\<lparr>half_open_in_flight := b\<rparr>) = policy_ok policy s"
  "bucket_ok (s\<lparr>half_open_in_flight := b\<rparr>) = bucket_ok s"
  by (simp_all add: policy_ok_def bucket_ok_def split: option.split)

lemma claim_inv:
  "circuit_opened_at s \<noteq> None \<Longrightarrow> gate_inv policy s \<Longrightarrow> gate_inv policy (s\<lparr>half_open_in_flight := True\<rparr>)"
  by (simp add: gate_inv_def claim_frame) (simp add: breaker_ok_def)

lemma dispatch_inv [inv_intros]:
  assumes "gate_inv policy s"
  shows "gate_inv policy (fst (try_dispatch_inner s now kind))"
proof (cases rule: try_dispatch_inner_cases [of s now kind])
  case (recover t)
  then show ?thesis using claim_inv [OF _ assms]
    by (simp add: gate_inv_def rpm_gate_policy rpm_gate_bucket rpm_gate_breaker)
qed (use assms in \<open>simp_all add: gate_inv_def rpm_gate_policy rpm_gate_bucket rpm_gate_breaker\<close>)

lemma settle_policy:
  "policy_ok policy (record_success s now) = policy_ok policy s"
  "policy_ok policy (fst (record_failure s now out)) = policy_ok policy s"
  "policy_ok policy (force_open s now d) = policy_ok policy s"
  "policy_ok policy (release_probe_slot s) = policy_ok policy s"
  by (simp_all add: settle_defs policy_ok_def Let_def split: option.split)

lemma settle_bucket:
  "bucket_ok (record_success s now) = bucket_ok s"
  "bucket_ok (fst (record_failure s now out)) = bucket_ok s"
  "bucket_ok (force_open s now d) = bucket_ok s"
  "bucket_ok (release_probe_slot s) = bucket_ok s"
  by (simp_all add: settle_defs bucket_ok_def Let_def split: option.split)

lemma settle_breaker:
  assumes "breaker_ok s"
  shows "breaker_ok (record_success s now)"
    and "breaker_ok (fst (record_failure s now (last_outcome_of cls)))"
    and "breaker_ok (force_open s now d)"
    and "breaker_ok (release_probe_slot s)"
  using assms
  by (simp_all add: settle_defs breaker_ok_def Let_def saturating_add_u32_bound split: option.split)

lemma settle_inv [inv_intros]:
  assumes "gate_inv policy s"
  shows "gate_inv policy (record_success s now)"
    and "gate_inv policy (fst (record_failure s now (last_outcome_of cls)))"
    and "gate_inv policy (force_open s now d)"
    and "gate_inv policy (release_probe_slot s)"
  using assms by (simp_all add: gate_inv_def settle_policy settle_bucket settle_breaker)

lemma new_state_inv [inv_intros]: "gate_inv policy (new_state policy now)"
  by (simp add: new_state_def gate_inv_def policy_ok_def bucket_ok_def breaker_ok_def Let_def
      split: option.split)

lemma gate_exec_inv: "gate_inv policy s \<Longrightarrow> gate_inv policy (gate_exec ev s)"
  by (cases ev) (simp_all add: inv_intros)

lemma gate_reachable_gate_inv: "gate_reachable policy s \<Longrightarrow> gate_inv policy s"
  by (induction rule: gate_reachable.induct) (simp_all add: new_state_inv gate_step_exec gate_exec_inv)

subsection \<open>Behaviour of an admission\<close>

lemma rpm_gate_decision:
  "decision (snd (rpm_gate s now b)) = (case rpm_capacity s of None \<Rightarrow> Allow
     | Some c \<Rightarrow> if projected_tokens s now c < 1 then GateDecision.RateLimited else Allow)"
  "claimed_half_open (snd (rpm_gate s now b)) \<longleftrightarrow> b \<and> decision (snd (rpm_gate s now b)) = Allow"
  by (simp_all add: rpm_gate_def refused_def Let_def split: option.split)

lemma dispatch_blocked:
  assumes "circuit_opened_at s = Some t"
    and "duration_since now t < active_cooldown s \<or> half_open_in_flight s \<or> kind = BackgroundProbe"
  shows "try_dispatch_inner s now kind = (s, refused CircuitOpen)"
  using assms by (auto simp: try_dispatch_inner_def)

lemma admission_phase:
  "decision (snd (try_dispatch_admitting s now)) = Allow \<longleftrightarrow> is_dispatchable (capacity_snapshot s now)"
  "claimed_half_open (snd (try_dispatch_admitting s now)) \<longleftrightarrow>
     is_dispatchable (capacity_snapshot s now) \<and> circuit (capacity_snapshot s now) = HalfOpenReady"
  by (auto simp: try_dispatch_admitting_def try_dispatch_inner_def is_dispatchable_def refused_def
      capacity_snapshot_def rpm_gate_decision not_less Let_def split: option.split)

lemma full_bucket:
  assumes "gate_inv policy s" and "rpm_capacity s = Some c" and "prp_rpm_limit policy \<noteq> Some 0"
    and "rpm_last_refill s + 60000 * NANOS_PER_MILLI \<le> now"
  shows "1 \<le> projected_tokens s now c"
proof -
  obtain r where r: "c = real r" "0 < r" "0 \<le> rpm_tokens s"
    using assms(1-3) by (cases "prp_rpm_limit policy") (auto simp: gate_inv_def policy_ok_def bucket_ok_def)
  have ms: "60000 \<le> as_millis (duration_since now (rpm_last_refill s))"
    using assms(4) by (simp add: as_millis_def duration_since_def NANOS_PER_MILLI_def)
  have "real 60000 \<le> real (as_millis (duration_since now (rpm_last_refill s)))"
    using ms by (simp only: of_nat_le_iff)
  then have "c / 60000 * 60000 \<le> c / 60000 * real (as_millis (duration_since now (rpm_last_refill s)))"
    using r(1) by (intro mult_left_mono) simp_all
  then have "c \<le> projected_tokens s now c"
    using ms r(3) by (simp add: projected_tokens_def RPM_WINDOW_MS_def)
  then show ?thesis using r by linarith
qed

text \<open>Once an admission claims the slot, further admissions bounce off an unchanged state.\<close>

lemma claim_state:
  assumes "claimed_half_open (snd (try_dispatch_inner s now kind))"
  shows "half_open_in_flight (fst (try_dispatch_inner s now kind))"
    and "circuit_opened_at (fst (try_dispatch_inner s now kind)) = circuit_opened_at s"
    and "circuit_opened_at s \<noteq> None" and "\<not> half_open_in_flight s"
proof -
  have "half_open_in_flight (fst (try_dispatch_inner s now kind)) \<and>
    circuit_opened_at (fst (try_dispatch_inner s now kind)) = circuit_opened_at s \<and>
    circuit_opened_at s \<noteq> None \<and> \<not> half_open_in_flight s"
    by (cases rule: try_dispatch_inner_cases [of s now kind])
      (use assms in \<open>auto simp: refused_def rpm_gate_def Let_def split: option.splits if_splits\<close>)
  then show "half_open_in_flight (fst (try_dispatch_inner s now kind))"
    and "circuit_opened_at (fst (try_dispatch_inner s now kind)) = circuit_opened_at s"
    and "circuit_opened_at s \<noteq> None" and "\<not> half_open_in_flight s" by blast+
qed

fun run_dispatches :: "(instant \<times> AdmissionKind) list \<Rightarrow> ProviderState \<Rightarrow> ProviderState \<times> GateAdmission list" where
  "run_dispatches [] s = (s, [])"
| "run_dispatches ((now, kind) # rest) s =
     (let (s', a) = try_dispatch_inner s now kind; (s'', as) = run_dispatches rest s' in (s'', a # as))"

lemma run_dispatches_blocked:
  assumes "half_open_in_flight s" and "circuit_opened_at s \<noteq> None"
  shows "run_dispatches ds s = (s, replicate (length ds) (refused CircuitOpen))"
  using assms by (induction ds) (auto simp: dispatch_blocked)

subsection \<open>The rate bound\<close>

text \<open>Tokens per nanosecond, and the potential that no event raises: what is in the bucket less what
  has been poured in since time zero.\<close>

definition pour_rate :: "real \<Rightarrow> real" where
  "pour_rate c = c / (real RPM_WINDOW_MS * real NANOS_PER_MILLI)"

definition bucket_potential :: "ProviderState \<Rightarrow> real \<Rightarrow> real" where
  "bucket_potential s c = rpm_tokens s - pour_rate c * real (rpm_last_refill s)"

lemma as_millis_le: "real (as_millis d) \<le> real d / real NANOS_PER_MILLI"
proof -
  have "real (d div NANOS_PER_MILLI * NANOS_PER_MILLI) \<le> real d" by (simp only: of_nat_le_iff) simp
  then show ?thesis by (simp add: as_millis_def pos_le_divide_eq NANOS_PER_MILLI_def)
qed

lemma refill_potential:
  assumes "0 \<le> c"
  shows "bucket_potential (refill_tokens s now c) c \<le> bucket_potential s c"
proof (cases "as_millis (duration_since now (rpm_last_refill s)) = 0")
  case True
  then show ?thesis by (simp add: refill_tokens_def)
next
  case False
  let ?l = "rpm_last_refill s"
  have le: "?l \<le> now" using False by (auto simp: as_millis_def duration_since_def intro: ccontr)
  have "c / real RPM_WINDOW_MS * real (as_millis (now - ?l))
      \<le> c / real RPM_WINDOW_MS * (real (now - ?l) / real NANOS_PER_MILLI)"
    using assms by (intro mult_left_mono as_millis_le) (simp add: RPM_WINDOW_MS_def)
  also have "\<dots> = pour_rate c * (real now - real ?l)"
    using le by (simp add: pour_rate_def of_nat_diff)
  finally have "projected_tokens s now c \<le> pour_rate c * (real now - real ?l) + rpm_tokens s"
    using False by (simp add: projected_tokens_def duration_since_def Let_def)
  then show ?thesis
    using False by (simp add: bucket_potential_def refill_tokens_def right_diff_distrib)
qed

lemma refill_anchor:
  "rpm_last_refill (refill_tokens s now c) \<le> max (rpm_last_refill s) now"
  by (simp add: refill_tokens_def)

definition allow_count :: "GateAdmission \<Rightarrow> nat" where
  "allow_count a = (if decision a = Allow then 1 else 0)"

lemma rpm_gate_potential:
  assumes "rpm_capacity s = Some c" and "0 \<le> c"
  shows "bucket_potential (fst (rpm_gate s now b)) c + real (allow_count (snd (rpm_gate s now b)))
      \<le> bucket_potential s c"
    and "rpm_last_refill (fst (rpm_gate s now b)) \<le> max (rpm_last_refill s) now"
    and "rpm_capacity (fst (rpm_gate s now b)) = rpm_capacity s"
  using refill_potential [OF assms(2), of s now] refill_anchor [of s now c] assms(1)
  by (auto simp: rpm_gate_def Let_def allow_count_def refused_def bucket_potential_def)

lemma dispatch_potential:
  assumes "rpm_capacity s = Some c" and "0 \<le> c"
  shows "bucket_potential (fst (try_dispatch_inner s now kind)) c
        + real (allow_count (snd (try_dispatch_inner s now kind))) \<le> bucket_potential s c \<and>
      rpm_last_refill (fst (try_dispatch_inner s now kind)) \<le> max (rpm_last_refill s) now \<and>
      rpm_capacity (fst (try_dispatch_inner s now kind)) = rpm_capacity s"
proof (cases rule: try_dispatch_inner_cases [of s now kind])
  case (recover t)
  have "bucket_potential (s\<lparr>half_open_in_flight := True\<rparr>) c = bucket_potential s c"
    by (simp add: bucket_potential_def)
  then show ?thesis
    using recover assms rpm_gate_potential [of "s\<lparr>half_open_in_flight := True\<rparr>" c now True] by simp
qed (use assms rpm_gate_potential [of s c now False] in \<open>simp_all add: refused_def allow_count_def\<close>)

text \<open>Admissions of a whole history of events.\<close>

fun event_time :: "gate_event \<Rightarrow> instant" where
  "event_time (Dispatch now kind) = now"
| "event_time (Success now) = now"
| "event_time (Failure now cls) = now"
| "event_time (Park now d) = now"
| "event_time Release = 0"

fun admitted :: "gate_event list \<Rightarrow> ProviderState \<Rightarrow> nat" where
  "admitted [] s = 0"
| "admitted (ev # evs) s =
     (case ev of Dispatch now kind \<Rightarrow> allow_count (snd (try_dispatch_inner s now kind)) | _ \<Rightarrow> 0)
     + admitted evs (gate_exec ev s)"

lemma settle_potential:
  assumes "\<And>now kind. ev \<noteq> Dispatch now kind"
  shows "rpm_tokens (gate_exec ev s) = rpm_tokens s"
    and "rpm_last_refill (gate_exec ev s) = rpm_last_refill s"
    and "rpm_capacity (gate_exec ev s) = rpm_capacity s"
  using assms by (cases ev; simp add: settle_defs Let_def split: option.split)+

lemma admitted_bound:
  assumes "rpm_capacity s = Some c" and "0 \<le> c" and "bucket_ok s"
    and "rpm_last_refill s \<le> t" and "\<forall>ev \<in> set evs. event_time ev \<le> t"
  shows "real (admitted evs s) \<le> bucket_potential s c + pour_rate c * real t"
  using assms
proof (induction evs arbitrary: s)
  case Nil
  have "pour_rate c * real (rpm_last_refill s) \<le> pour_rate c * real t"
    using Nil by (intro mult_left_mono) (simp_all add: pour_rate_def)
  moreover have "0 \<le> rpm_tokens s" using Nil by (simp add: bucket_ok_def)
  ultimately show ?case by (simp add: bucket_potential_def)
next
  case (Cons ev evs)
  let ?s = "gate_exec ev s"
  have ok: "bucket_ok ?s"
  proof (cases ev)
    case (Dispatch now kind)
    show ?thesis
      by (cases rule: try_dispatch_inner_cases [of s now kind])
        (use Cons.prems(3) Dispatch in \<open>simp_all add: rpm_gate_bucket claim_frame\<close>)
  qed (use Cons.prems(3) in \<open>simp_all add: settle_bucket\<close>)
  show ?case
  proof (cases "\<exists>now kind. ev = Dispatch now kind")
    case True
    then obtain now kind where ev: "ev = Dispatch now kind" by blast
    note step = dispatch_potential [OF Cons.prems(1,2), of now kind]
    have "rpm_last_refill ?s \<le> t" using step Cons.prems(4,5) by (auto simp: ev)
    then show ?thesis using Cons.IH [of ?s] Cons.prems ok step by (simp add: ev)
  next
    case False
    then have "admitted (ev # evs) s = admitted evs ?s" by (cases ev) simp_all
    then show ?thesis
      using Cons.IH [of ?s] Cons.prems ok settle_potential [of ev s] False
      by (simp add: bucket_potential_def)
  qed
qed

subsection \<open>Consecutive failures\<close>

definition fail_run :: "FailureClass list \<Rightarrow> instant \<Rightarrow> ProviderState \<Rightarrow> ProviderState" where
  "fail_run cs now s = foldl (\<lambda>s c. fst (record_failure s now (last_outcome_of c))) s cs"

lemma fail_run_closed:
  assumes "circuit_failure_threshold s = Some n" and "circuit_opened_at s = None"
    and "\<not> half_open_in_flight s" and "consecutive_failures s + length cs < n" and "n \<le> U32_MAX"
  shows "circuit_opened_at (fail_run cs now s) = None \<and> \<not> half_open_in_flight (fail_run cs now s) \<and>
    consecutive_failures (fail_run cs now s) = consecutive_failures s + length cs \<and>
    circuit_failure_threshold (fail_run cs now s) = Some n"
  using assms
proof (induction cs arbitrary: s)
  case (Cons c cs)
  let ?s = "fst (record_failure s now (last_outcome_of c))"
  have "circuit_opened_at ?s = None" "\<not> half_open_in_flight ?s" "circuit_failure_threshold ?s = Some n"
    "consecutive_failures ?s = Suc (consecutive_failures s)"
    using Cons.prems by (simp_all add: record_failure_def Let_def saturating_add_u32_def)
  then show ?case using Cons.IH [of ?s] Cons.prems by (simp add: fail_run_def)
qed (simp add: fail_run_def)

text \<open>The failure that reaches the threshold opens the circuit, and an open circuit stays open under
  further failures.\<close>

lemma record_failure_trips:
  assumes "circuit_failure_threshold s = Some n" and "n \<le> Suc (consecutive_failures s)" and "n \<le> U32_MAX"
  shows "circuit_opened_at (fst (record_failure s now out)) = Some now"
  using assms by (simp add: record_failure_def Let_def saturating_add_u32_def)

lemma record_failure_opened_mono:
  "circuit_opened_at s \<noteq> None \<Longrightarrow> circuit_opened_at (fst (record_failure s now out)) \<noteq> None"
  by (simp add: record_failure_def Let_def split: option.split)

lemma fail_run_opened_mono: "circuit_opened_at s \<noteq> None \<Longrightarrow> circuit_opened_at (fail_run cs now s) \<noteq> None"
proof (induction cs arbitrary: s)
  case (Cons c cs)
  then show ?case using record_failure_opened_mono [OF Cons.prems] by (simp add: fail_run_def)
qed (simp add: fail_run_def)

lemma fail_run_append: "fail_run (cs @ ds) now s = fail_run ds now (fail_run cs now s)"
  by (simp add: fail_run_def)

lemma fail_run_trips:
  assumes "circuit_failure_threshold s = Some n" and "circuit_opened_at s = None"
    and "\<not> half_open_in_flight s" and "consecutive_failures s = 0" and "n \<le> U32_MAX"
    and "max n 1 \<le> length cs"
  shows "circuit_opened_at (fail_run cs now s) \<noteq> None"
proof -
  let ?k = "max n 1 - 1"
  let ?s = "fail_run (take ?k cs) now s"
  have k: "?k < length cs" using assms(6) by (cases cs) (auto simp: max_def split: if_splits)
  have pre: "circuit_failure_threshold ?s = Some n \<and> n \<le> Suc (consecutive_failures ?s)"
  proof (cases "n = 0")
    case True
    then show ?thesis using assms by (simp add: fail_run_def)
  next
    case False
    then show ?thesis using fail_run_closed [OF assms(1-3), of "take ?k cs" now] assms(4-6) k by simp
  qed
  have "cs = take ?k cs @ [cs ! ?k] @ drop (Suc ?k) cs" using id_take_nth_drop [OF k] by simp
  then have "fail_run cs now s = fail_run (drop (Suc ?k) cs) now (fail_run [cs ! ?k] now ?s)"
    by (metis fail_run_append)
  moreover have "circuit_opened_at (fail_run [cs ! ?k] now ?s) \<noteq> None"
    using record_failure_trips [of ?s n now] pre assms(5) by (simp add: fail_run_def)
  ultimately show ?thesis using fail_run_opened_mono by metis
qed

subsection \<open>Properties\<close>

text \<open>C39. Every state the gate can reach from its policy keeps the invariant: the bucket level stays
  between zero and the capacity, a claimed half-open slot implies an open circuit, a closed circuit
  runs on the baseline cooldown, the stored outcome is never the derived \<open>CircuitOpen\<close>, and the
  configured limits never change.\<close>

theorem gate_reachable_inv:
  assumes "gate_reachable policy s"
  shows "gate_inv policy s"
  using gate_reachable_gate_inv [OF assms] .

definition gate_policy :: ProviderRuntimePolicy where
  "gate_policy = \<lparr>prp_rpm_limit = Some 5, prp_circuit_failures = Some 2, prp_circuit_cooldown_ms = None,
     prp_request_timeout_ms = None, prp_stream_first_byte_timeout_ms = None,
     prp_unsupported_features = [], prp_class_overrides = []\<rparr>"

theorem gate_reachable_inv_witness:
  "gate_inv gate_policy (force_open (new_state gate_policy 7) 9 3)"
  by (rule gate_reachable_inv) (rule gate_reachable.step [OF gate_reachable.init gate_step.park])

text \<open>The read-only snapshot predicts the mutating admission exactly: a client dispatch is allowed
  if and only if the snapshot taken at the same instant says so, and it claims the half-open slot if
  and only if the phase then reads half-open-ready.\<close>

lemma snapshot_predicts_dispatch:
  "(snd (try_dispatch s now) = Allow \<longleftrightarrow> is_dispatchable (capacity_snapshot s now)) \<and>
   (claimed_half_open (snd (try_dispatch_admitting s now)) \<longleftrightarrow>
      is_dispatchable (capacity_snapshot s now) \<and> circuit (capacity_snapshot s now) = HalfOpenReady)"
  using admission_phase [of s now] by (simp add: try_dispatch_def case_prod_unfold Let_def)

text \<open>C7. One probe at a time: after an admission claims the half-open slot, every further admission,
  of either kind and at any times, is refused with \<open>CircuitOpen\<close> and leaves the state as it was,
  until something settles the slot.\<close>

theorem single_half_open_probe:
  assumes "try_dispatch_inner s now kind = (s', a)" and "claimed_half_open a"
  shows "run_dispatches ds s' = (s', replicate (length ds) (refused CircuitOpen))"
  using claim_state [of s now kind] assms by (intro run_dispatches_blocked) simp_all

definition probe_ready_state :: ProviderState where
  "probe_ready_state = \<lparr>rpm_capacity = None, rpm_tokens = 0, rpm_last_refill = 0,
     circuit_failure_threshold = Some 1, circuit_cooldown = 10, active_cooldown = 10,
     consecutive_failures = 1, circuit_opened_at = Some 0, half_open_in_flight = False,
     last_outcome = Some LastOutcome.Http5xx, last_outcome_at = Some 0\<rparr>"

theorem single_half_open_probe_witness:
  "run_dispatches [(10, ClientDispatch), (99, BackgroundProbe)] (probe_ready_state\<lparr>half_open_in_flight := True\<rparr>)
     = (probe_ready_state\<lparr>half_open_in_flight := True\<rparr>, [refused CircuitOpen, refused CircuitOpen])"
  using single_half_open_probe [of probe_ready_state 10 ClientDispatch
      "probe_ready_state\<lparr>half_open_in_flight := True\<rparr>" "\<lparr>decision = Allow, claimed_half_open = True\<rparr>"
      "[(10, ClientDispatch), (99, BackgroundProbe)]"]
  by (simp add: probe_ready_state_def try_dispatch_inner_def rpm_gate_def duration_since_def eval_nat_numeral)

text \<open>A background probe never takes the recovery attempt and never pays for it: on an open
  circuit, whatever its phase, it is refused with the whole state unchanged, and it never claims.\<close>

lemma background_probe_defers:
  "(circuit_opened_at s \<noteq> None \<longrightarrow> try_dispatch_probe s now = (s, refused CircuitOpen)) \<and>
   \<not> claimed_half_open (snd (try_dispatch_probe s now))"
proof -
  have "\<not> claimed_half_open (snd (try_dispatch_inner s now BackgroundProbe))"
    by (cases rule: try_dispatch_inner_cases [of s now BackgroundProbe])
      (simp_all add: refused_def rpm_gate_decision)
  then show ?thesis by (auto simp: try_dispatch_probe_def dispatch_blocked)
qed

lemma background_probe_defers_witness:
  "try_dispatch_probe probe_ready_state 50 = (probe_ready_state, refused CircuitOpen)"
  using background_probe_defers [of probe_ready_state 50] by (simp add: probe_ready_state_def)

text \<open>C8. The rate limit holds over every history: from a fresh gate with limit \<open>r\<close> per minute,
  however admissions, settlements, parks and releases interleave, the number of admitted dispatches
  up to time \<open>t\<close> is at most \<open>r\<close> plus \<open>r\<close> per elapsed minute.\<close>

theorem rpm_rate_bound:
  assumes "prp_rpm_limit policy = Some r" and "t0 \<le> t" and "\<forall>ev \<in> set evs. event_time ev \<le> t"
  shows "real (admitted evs (new_state policy t0))
    \<le> real r + real r * (real (t - t0) / (60000 * 1000000))"
proof -
  let ?s = "new_state policy t0"
  have "real (admitted evs ?s) \<le> bucket_potential ?s (real r) + pour_rate (real r) * real t"
    using assms new_state_inv [of policy t0]
    by (intro admitted_bound) (simp_all add: gate_inv_def new_state_def Let_def)
  then show ?thesis
    using assms(1,2)
    by (simp add: bucket_potential_def new_state_def pour_rate_def RPM_WINDOW_MS_def
        NANOS_PER_MILLI_def Let_def of_nat_diff right_diff_distrib diff_divide_distrib)
qed

theorem rpm_rate_bound_witness:
  "real (admitted [Dispatch 8 ClientDispatch, Success 9] (new_state gate_policy 7))
    \<le> real 5 + real 5 * (real (9 - 7 :: nat) / (60000 * 1000000))"
  by (rule rpm_rate_bound) (simp_all add: gate_policy_def)

text \<open>The breaker trips exactly at its threshold: from a closed gate with no failure on record,
  a run of consecutive failures opens the circuit if and only if it is at least as long as the
  threshold (a zero threshold behaves as one).\<close>

lemma trips_exactly_at_threshold:
  assumes "circuit_failure_threshold s = Some n" and "circuit_opened_at s = None"
    and "\<not> half_open_in_flight s" and "consecutive_failures s = 0" and "n \<le> U32_MAX"
  shows "circuit_opened_at (fail_run cs now s) \<noteq> None \<longleftrightarrow> max n 1 \<le> length cs"
proof (cases "max n 1 \<le> length cs")
  case True
  then show ?thesis using fail_run_trips [OF assms] by blast
next
  case False
  then consider "cs = []" | "length cs < n" by (cases cs) (auto simp: max_def split: if_splits)
  then show ?thesis
    using False fail_run_closed [OF assms(1-3), of cs now] assms(2,4,5)
    by cases (simp_all add: fail_run_def)
qed

lemma trips_exactly_at_threshold_witness:
  "circuit_opened_at (fail_run [FailureClass.Timeout, FailureClass.ServerError] 9 (new_state gate_policy 7)) \<noteq> None
     \<longleftrightarrow> max 2 1 \<le> length [FailureClass.Timeout, FailureClass.ServerError]"
  by (rule trips_exactly_at_threshold) (simp_all add: gate_policy_def new_state_def U32_MAX_def Let_def)

text \<open>C11. An open breaker never latches: in every reachable state whose half-open slot is free there
  is a time from which every client dispatch is admitted, provided the configured rate limit is not
  zero; and one success after it closes the circuit on the baseline cooldown.\<close>

theorem breaker_recovers:
  assumes "gate_reachable policy s" and "\<not> half_open_in_flight s" and "prp_rpm_limit policy \<noteq> Some 0"
  shows "\<exists>t. \<forall>now \<ge> t. snd (try_dispatch s now) = Allow \<and>
    circuit (capacity_snapshot (record_success (fst (try_dispatch s now)) now) now) = Closed"
proof -
  let ?t = "max (case circuit_opened_at s of None \<Rightarrow> 0 | Some o' \<Rightarrow> o' + active_cooldown s)
      (rpm_last_refill s + 60000 * NANOS_PER_MILLI)"
  have "is_dispatchable (capacity_snapshot s now)" if "?t \<le> now" for now
  proof -
    have "circuit (capacity_snapshot s now) \<noteq> Open"
      using that assms(2) by (auto simp: capacity_snapshot_def duration_since_def split: option.splits)
    moreover have "1 \<le> projected_tokens s now c" if c: "rpm_capacity s = Some c" for c
    proof (rule full_bucket [OF _ c])
      show "gate_inv policy s" using assms(1) by (rule gate_reachable_gate_inv)
    qed (use \<open>?t \<le> now\<close> assms(3) in simp_all)
    ultimately show ?thesis
      by (simp add: is_dispatchable_def) (simp add: capacity_snapshot_def split: option.split)
  qed
  moreover have "circuit (capacity_snapshot (record_success s' now) now) = Closed" for s' now
    by (simp add: capacity_snapshot_def record_success_def)
  ultimately show ?thesis
    by (intro exI [of _ ?t]) (simp add: admission_phase try_dispatch_def case_prod_unfold Let_def)
qed

theorem breaker_recovers_witness:
  "\<exists>t. snd (try_dispatch (force_open (new_state gate_policy 7) 9 3) t) = Allow \<and>
    circuit (capacity_snapshot (record_success
      (fst (try_dispatch (force_open (new_state gate_policy 7) 9 3) t)) t) t) = Closed"
  using breaker_recovers [of gate_policy, OF gate_reachable.step [OF gate_reachable.init [of gate_policy 7]
        gate_step.park [of _ 9 3]]]
  by (auto simp: gate_policy_def force_open_def)

end
