(* ===== verification/Quota_Reduce.thy ===== *)
theory Quota_Reduce
  imports Rust_Prelude
begin

text \<open>
  Subscription-quota readings (\<open>routectl-router/src/quota\<close>): the normalized window values
  (\<open>window.rs\<close>), the freshness and plausibility bounds (\<open>freshness.rs\<close>), the curated table
  (\<open>curation.rs\<close>) and the reducers that turn the two vendor families carried by a response
  (\<open>routectl-core/src/upstream_meta.rs\<close>) into a snapshot (\<open>reduce.rs\<close>).
\<close>

subsection \<open>Windows\<close>

datatype Utilization = Utilization (fraction_of: real)

definition utilization_new :: "f64 \<Rightarrow> Utilization option" where
  "utilization_new raw = (case raw of
     Fin r \<Rightarrow> (if r < 0 then None else Some (Utilization (min r 1)))
   | _ \<Rightarrow> None)"

datatype WindowRole = Fast | Slow

datatype Billing = Unknown | Included | Overage

record ObservationStamp =
  wall :: instant
  monotonic :: instant

datatype ResetRejection = Expired | Implausible | Overflow

datatype ValidatedReset = ValidatedReset (reset_instant: instant)

datatype QuotaWindow = Unknown | Known (utilization_of: Utilization) (reset_at_of: ValidatedReset)

definition accept_reset ::
  "instant \<Rightarrow> ObservationStamp \<Rightarrow> duration \<Rightarrow> duration \<Rightarrow> ResetRejection + ValidatedReset" where
  "accept_reset reset_at observed window_duration tolerance =
     (if reset_at \<le> wall observed then Inl Expired
      else case duration_checked_add window_duration tolerance of
        None \<Rightarrow> Inl ResetRejection.Overflow
      | Some reach \<Rightarrow> (case system_time_checked_add (wall observed) reach of
          None \<Rightarrow> Inl ResetRejection.Overflow
        | Some latest_plausible \<Rightarrow>
            (if latest_plausible < reset_at then Inl Implausible else Inr (ValidatedReset reset_at))))"

definition is_fresh :: "instant \<Rightarrow> ObservationStamp \<Rightarrow> ObservationStamp \<Rightarrow> duration \<Rightarrow> bool" where
  "is_fresh reset_at observed now max_age =
     (case checked_duration_since (monotonic now) (monotonic observed) of
        None \<Rightarrow> False
      | Some age \<Rightarrow> age \<le> max_age \<and> wall now < reset_at)"

subsection \<open>Curated windows\<close>

definition ANTHROPIC_PROVIDER_KIND :: string where "ANTHROPIC_PROVIDER_KIND = ''anthropic-api''"
definition CODEX_PROVIDER_KIND :: string where "CODEX_PROVIDER_KIND = ''openai-responses''"
definition ANTHROPIC_FAST_SOURCE_ID :: string where "ANTHROPIC_FAST_SOURCE_ID = ''5h''"
definition RESET_TOLERANCE :: duration where "RESET_TOLERANCE = from_mins 5"

record CuratedWindow =
  cw_provider_kind :: string
  cw_source_id :: string
  cw_role :: WindowRole
  cw_duration :: duration
  cw_threshold :: real

definition CURATED_WINDOWS :: "CuratedWindow list" where
  "CURATED_WINDOWS =
     [\<lparr>cw_provider_kind = ANTHROPIC_PROVIDER_KIND, cw_source_id = ANTHROPIC_FAST_SOURCE_ID,
       cw_role = Fast, cw_duration = from_hours 5, cw_threshold = 5 / 10\<rparr>,
      \<lparr>cw_provider_kind = ANTHROPIC_PROVIDER_KIND, cw_source_id = ''7d'',
       cw_role = Slow, cw_duration = from_hours (24 * 7), cw_threshold = 9 / 10\<rparr>,
      \<lparr>cw_provider_kind = CODEX_PROVIDER_KIND, cw_source_id = ''primary'',
       cw_role = Slow, cw_duration = from_hours (24 * 7), cw_threshold = 9 / 10\<rparr>]"

definition rows_for :: "string \<Rightarrow> CuratedWindow list" where
  "rows_for provider_kind = filter (\<lambda>row. cw_provider_kind row = provider_kind) CURATED_WINDOWS"

definition row_for :: "string \<Rightarrow> WindowRole \<Rightarrow> CuratedWindow option" where
  "row_for provider_kind role = List.find (\<lambda>row. cw_role row = role) (rows_for provider_kind)"

subsection \<open>Vendor families\<close>

record AnthropicUnifiedQuota =
  aq_status :: "string option"
  aq_overage_status :: "string option"
  aq_utilization :: "string option"
  aq_overage_utilization :: "string option"
  aq_representative_claim :: "string option"
  aq_reset :: "string option"
  aq_extras :: "(string \<times> string) list"

definition OVERAGE_CLAIM :: string where "OVERAGE_CLAIM = ''overage''"

definition is_overage :: "AnthropicUnifiedQuota \<Rightarrow> bool" where
  "is_overage q \<longleftrightarrow> aq_representative_claim q = Some OVERAGE_CLAIM"

record CodexQuota =
  cq_active_limit :: "string option"
  cq_primary_used_percent :: "string option"
  cq_primary_reset_at :: "string option"
  cq_extras :: "(string \<times> string) list"

text \<open>The two fields of \<open>UpstreamMeta\<close> the quota feed reads.\<close>

record UpstreamMeta =
  um_anthropic_unified :: "AnthropicUnifiedQuota option"
  um_codex :: "CodexQuota option"

definition has_quota_family :: "UpstreamMeta \<Rightarrow> bool" where
  "has_quota_family meta \<longleftrightarrow> um_anthropic_unified meta \<noteq> None \<or> um_codex meta \<noteq> None"

subsection \<open>Reducers\<close>

definition PERCENT_SCALE :: real where "PERCENT_SCALE = 100"

datatype RejectionReason = InvalidUtilization | ExpiredReset | ImplausibleReset | Overflow

fun from_reset :: "ResetRejection \<Rightarrow> RejectionReason" where
  "from_reset Expired = ExpiredReset"
| "from_reset Implausible = ImplausibleReset"
| "from_reset ResetRejection.Overflow = RejectionReason.Overflow"

record QuotaSnapshot =
  qs_observed :: ObservationStamp
  qs_fast :: QuotaWindow
  qs_slow :: QuotaWindow
  qs_billing :: Billing

record Reduction =
  red_snapshot :: QuotaSnapshot
  red_rejections :: "RejectionReason list"

definition extra :: "(string \<times> string) list \<Rightarrow> string \<Rightarrow> string option" where
  "extra extras suffix = map_option snd (List.find (\<lambda>(key, v). key = suffix) extras)"

definition fraction :: "string \<Rightarrow> Utilization option" where
  "fraction raw = Option.bind (parse_f64 raw) utilization_new"

definition percent_as_fraction :: "string \<Rightarrow> Utilization option" where
  "percent_as_fraction raw = Option.bind (parse_f64 raw) (\<lambda>v. utilization_new (f64_div v PERCENT_SCALE))"

definition epoch_seconds :: "string \<Rightarrow> instant option" where
  "epoch_seconds raw = Option.bind (parse_unsigned U64_MAX raw)
     (\<lambda>secs. system_time_checked_add 0 (from_secs secs))"

definition assemble ::
  "string option \<Rightarrow> string option \<Rightarrow> ObservationStamp \<Rightarrow> CuratedWindow \<Rightarrow>
   (string \<Rightarrow> Utilization option) \<Rightarrow> RejectionReason list \<Rightarrow> QuotaWindow \<times> RejectionReason list" where
  "assemble raw_utilization raw_reset observed row parse_utilization rejections =
     (case raw_utilization of
        None \<Rightarrow> (QuotaWindow.Unknown, rejections)
      | Some raw_u \<Rightarrow> (case parse_utilization raw_u of
          None \<Rightarrow> (QuotaWindow.Unknown, rejections @ [InvalidUtilization])
        | Some utilization \<Rightarrow> (case raw_reset of
            None \<Rightarrow> (QuotaWindow.Unknown, rejections)
          | Some raw_r \<Rightarrow> (case epoch_seconds raw_r of
              None \<Rightarrow> (QuotaWindow.Unknown, rejections @ [RejectionReason.Overflow])
            | Some reset_at \<Rightarrow>
                (case accept_reset reset_at observed (cw_duration row) RESET_TOLERANCE of
                   Inr reset_at \<Rightarrow> (Known utilization reset_at, rejections)
                 | Inl rejection \<Rightarrow> (QuotaWindow.Unknown, rejections @ [from_reset rejection]))))))"

definition anthropic_window ::
  "AnthropicUnifiedQuota \<Rightarrow> ObservationStamp \<Rightarrow> WindowRole \<Rightarrow> RejectionReason list \<Rightarrow>
   QuotaWindow \<times> RejectionReason list" where
  "anthropic_window quota observed role rejections = (case row_for ANTHROPIC_PROVIDER_KIND role of
     None \<Rightarrow> (QuotaWindow.Unknown, rejections)
   | Some row \<Rightarrow>
       (let raw_utilization = (if cw_source_id row = ANTHROPIC_FAST_SOURCE_ID then aq_utilization quota
              else extra (aq_extras quota) (cw_source_id row @ ''-utilization''));
            raw_reset = extra (aq_extras quota) (cw_source_id row @ ''-reset'')
        in assemble raw_utilization raw_reset observed row fraction rejections))"

definition codex_window ::
  "CodexQuota \<Rightarrow> ObservationStamp \<Rightarrow> WindowRole \<Rightarrow> RejectionReason list \<Rightarrow>
   QuotaWindow \<times> RejectionReason list" where
  "codex_window quota observed role rejections = (case row_for CODEX_PROVIDER_KIND role of
     None \<Rightarrow> (QuotaWindow.Unknown, rejections)
   | Some row \<Rightarrow> assemble (cq_primary_used_percent quota) (cq_primary_reset_at quota) observed row
       percent_as_fraction rejections)"

definition anthropic_billing :: "AnthropicUnifiedQuota \<Rightarrow> Billing" where
  "anthropic_billing quota = (case aq_representative_claim quota of
     None \<Rightarrow> Billing.Unknown
   | Some claim \<Rightarrow> if claim = [] then Billing.Unknown
       else if claim = OVERAGE_CLAIM then Overage else Included)"

definition reduce_anthropic :: "AnthropicUnifiedQuota \<Rightarrow> ObservationStamp \<Rightarrow> Reduction" where
  "reduce_anthropic quota observed =
     (let (fast, rejections) = anthropic_window quota observed Fast [];
          (slow, rejections) = anthropic_window quota observed Slow rejections
      in \<lparr>red_snapshot = \<lparr>qs_observed = observed, qs_fast = fast, qs_slow = slow,
            qs_billing = anthropic_billing quota\<rparr>,
          red_rejections = rejections\<rparr>)"

definition reduce_codex :: "CodexQuota \<Rightarrow> ObservationStamp \<Rightarrow> Reduction" where
  "reduce_codex quota observed =
     (let (fast, rejections) = codex_window quota observed Fast [];
          (slow, rejections) = codex_window quota observed Slow rejections
      in \<lparr>red_snapshot = \<lparr>qs_observed = observed, qs_fast = fast, qs_slow = slow,
            qs_billing = Billing.Unknown\<rparr>,
          red_rejections = rejections\<rparr>)"

subsection \<open>Trusted windows\<close>

text \<open>What a \<open>Known\<close> window guarantees, relative to the observation it came from and the curated
  row it was read under.\<close>

definition window_ok :: "CuratedWindow \<Rightarrow> ObservationStamp \<Rightarrow> QuotaWindow \<Rightarrow> bool" where
  "window_ok row observed w = (case w of QuotaWindow.Unknown \<Rightarrow> True
     | Known u r \<Rightarrow> 0 \<le> fraction_of u \<and> fraction_of u \<le> 1 \<and> wall observed < reset_instant r
         \<and> reset_instant r \<le> wall observed + cw_duration row + RESET_TOLERANCE)"

lemma utilization_new_range: "utilization_new v = Some u \<Longrightarrow> 0 \<le> fraction_of u \<and> fraction_of u \<le> 1"
  by (auto simp: utilization_new_def split: f64.splits if_splits)

lemma fraction_range: "fraction s = Some u \<Longrightarrow> 0 \<le> fraction_of u \<and> fraction_of u \<le> 1"
  by (auto simp: fraction_def bind_eq_Some_conv dest: utilization_new_range)

lemma percent_range: "percent_as_fraction s = Some u \<Longrightarrow> 0 \<le> fraction_of u \<and> fraction_of u \<le> 1"
  by (auto simp: percent_as_fraction_def bind_eq_Some_conv dest: utilization_new_range)

lemma accept_reset_iff:
  "accept_reset t obs d tol = Inr r \<longleftrightarrow> r = ValidatedReset t \<and> wall obs < t \<and> t \<le> wall obs + d + tol
     \<and> d + tol \<le> DURATION_MAX \<and> wall obs + d + tol \<le> SYSTEM_TIME_MAX"
  by (auto simp: accept_reset_def duration_checked_add_def system_time_checked_add_def)

lemma assemble_ok:
  assumes "\<And>s u. parse s = Some u \<Longrightarrow> 0 \<le> fraction_of u \<and> fraction_of u \<le> 1"
    and "assemble u r obs row parse rej = (w, rej')"
  shows "window_ok row obs w"
  using assms by (auto simp: assemble_def window_ok_def accept_reset_iff add.assoc
      split: option.splits sum.splits)

lemma row_for_cases:
  "row_for ANTHROPIC_PROVIDER_KIND Fast = Some (CURATED_WINDOWS ! 0)"
  "row_for ANTHROPIC_PROVIDER_KIND Slow = Some (CURATED_WINDOWS ! 1)"
  "row_for CODEX_PROVIDER_KIND Fast = None"
  "row_for CODEX_PROVIDER_KIND Slow = Some (CURATED_WINDOWS ! 2)"
  by (simp_all add: row_for_def rows_for_def CURATED_WINDOWS_def ANTHROPIC_PROVIDER_KIND_def
      CODEX_PROVIDER_KIND_def)

text \<open>A refusal and a missing report never touch the other window, and only a refused report is
  counted.\<close>

lemma assemble_rejections:
  "assemble u r obs row parse rej = (fst (assemble u r obs row parse []), rej @ snd (assemble u r obs row parse []))"
  by (simp add: assemble_def split: option.split sum.split)

lemma reduced_windows:
  "window_ok (CURATED_WINDOWS ! 0) obs (qs_fast (red_snapshot (reduce_anthropic q obs)))"
  "window_ok (CURATED_WINDOWS ! 1) obs (qs_slow (red_snapshot (reduce_anthropic q obs)))"
  "qs_fast (red_snapshot (reduce_codex c obs)) = QuotaWindow.Unknown"
  "window_ok (CURATED_WINDOWS ! 2) obs (qs_slow (red_snapshot (reduce_codex c obs)))"
  using assemble_ok [OF fraction_range] assemble_ok [OF percent_range]
  by (auto simp: reduce_anthropic_def reduce_codex_def anthropic_window_def codex_window_def
      row_for_cases Let_def split: prod.split)

subsection \<open>Properties\<close>

text \<open>Reducers only mint trusted windows: every known window carries a utilization in the unit
  interval and a reset strictly after the observation and no further than the curated duration plus
  tolerance; Codex never yields a fast window, and a snapshot is stamped with its own observation.\<close>

lemma reducers_trusted:
  "window_ok (CURATED_WINDOWS ! 0) obs (qs_fast (red_snapshot (reduce_anthropic q obs))) \<and>
   window_ok (CURATED_WINDOWS ! 1) obs (qs_slow (red_snapshot (reduce_anthropic q obs))) \<and>
   qs_fast (red_snapshot (reduce_codex c obs)) = QuotaWindow.Unknown \<and>
   window_ok (CURATED_WINDOWS ! 2) obs (qs_slow (red_snapshot (reduce_codex c obs))) \<and>
   qs_observed (red_snapshot (reduce_anthropic q obs)) = obs \<and>
   qs_observed (red_snapshot (reduce_codex c obs)) = obs"
  by (intro conjI reduced_windows) (simp_all add: reduce_anthropic_def reduce_codex_def Let_def
      split: prod.split)

text \<open>A reset reported in milliseconds can never pass for one in seconds: whenever the seconds
  value is accepted under a curated row, the same instant scaled by a thousand is refused as
  implausible (for any observation at least twelve days after the epoch).\<close>

lemma millis_as_seconds_refused:
  assumes "row \<in> set CURATED_WINDOWS" and "from_secs 1000000 \<le> wall obs"
    and "accept_reset (from_secs r) obs (cw_duration row) RESET_TOLERANCE = Inr v"
  shows "accept_reset (from_secs (r * 1000)) obs (cw_duration row) RESET_TOLERANCE = Inl Implausible"
proof -
  have "cw_duration row + RESET_TOLERANCE \<le> from_secs 605100"
    using assms(1) by (auto simp: CURATED_WINDOWS_def RESET_TOLERANCE_def from_hours_def from_mins_def
        from_secs_def NANOS_PER_SEC_def)
  also have "from_secs 605100 < 999 * from_secs 1000000" by (simp add: from_secs_def NANOS_PER_SEC_def)
  also have "999 * from_secs 1000000 \<le> 999 * wall obs" using assms(2) by simp
  finally have "wall obs + (cw_duration row + RESET_TOLERANCE) < 1000 * wall obs" by simp
  also have "1000 * wall obs < 1000 * from_secs r" using assms(3) by (simp add: accept_reset_iff)
  finally have "wall obs + (cw_duration row + RESET_TOLERANCE) < from_secs (r * 1000)"
    by (simp add: from_secs_def)
  moreover have "cw_duration row + RESET_TOLERANCE \<le> DURATION_MAX"
    "wall obs + (cw_duration row + RESET_TOLERANCE) \<le> SYSTEM_TIME_MAX"
    using assms(3) by (simp_all add: accept_reset_iff add.assoc)
  ultimately show ?thesis
    by (simp add: accept_reset_def duration_checked_add_def system_time_checked_add_def)
qed

lemma millis_as_seconds_refused_witness:
  "accept_reset (from_secs (1000100 * 1000)) \<lparr>wall = from_secs 1000000, monotonic = 0\<rparr>
     (cw_duration (CURATED_WINDOWS ! 0)) RESET_TOLERANCE = Inl Implausible"
  by (rule millis_as_seconds_refused [of _ _ _ "ValidatedReset (from_secs 1000100)"])
    (simp_all add: CURATED_WINDOWS_def accept_reset_iff from_secs_def from_hours_def from_mins_def
      NANOS_PER_SEC_def RESET_TOLERANCE_def DURATION_MAX_def SYSTEM_TIME_MAX_def U64_MAX_def I64_MAX_def)

end
