(* ===== verification/Quota_Store.thy ===== *)
theory Quota_Store
  imports Quota_Reduce
begin

text \<open>
  The per-seat quota readings (\<open>routectl-router/src/quota/store.rs\<close>), the feed that writes them
  from response metadata (\<open>feed.rs\<close>) and the seat keys (\<open>key.rs\<close>). The mutexes of the store are
  held across each operation, so an operation is one step on the record; the counters are 64 bit
  words, since \<open>AtomicU64\<close> wraps. Clock readings are arguments.
\<close>

subsection \<open>Readings\<close>

definition MAX_OBSERVATION_AGE :: duration where "MAX_OBSERVATION_AGE = from_hours (24 * 8)"

datatype SeatKey = SeatKey (as_str: string)

record StoredWindow =
  sw_window :: QuotaWindow
  sw_observed :: ObservationStamp

definition effective :: "StoredWindow \<Rightarrow> ObservationStamp \<Rightarrow> QuotaWindow" where
  "effective sw now = (case sw_window sw of
     QuotaWindow.Unknown \<Rightarrow> QuotaWindow.Unknown
   | Known u r \<Rightarrow> (if is_fresh (reset_instant r) (sw_observed sw) now MAX_OBSERVATION_AGE
                   then sw_window sw else QuotaWindow.Unknown))"

definition window_merged :: "StoredWindow \<Rightarrow> QuotaWindow \<Rightarrow> ObservationStamp \<Rightarrow> StoredWindow" where
  "window_merged sw incoming observed =
     (if monotonic observed < monotonic (sw_observed sw) then sw
      else case incoming of
        Known u r \<Rightarrow> \<lparr>sw_window = incoming, sw_observed = observed\<rparr>
      | QuotaWindow.Unknown \<Rightarrow> (case effective sw observed of
          QuotaWindow.Unknown \<Rightarrow> \<lparr>sw_window = QuotaWindow.Unknown, sw_observed = observed\<rparr>
        | Known u r \<Rightarrow> sw))"

record StoredReading =
  sr_latest :: ObservationStamp
  sr_fast :: StoredWindow
  sr_slow :: StoredWindow
  sr_billing :: Billing
  sr_billing_observed :: ObservationStamp

definition first_reading :: "QuotaSnapshot \<Rightarrow> StoredReading" where
  "first_reading s = \<lparr>sr_latest = qs_observed s,
     sr_fast = \<lparr>sw_window = qs_fast s, sw_observed = qs_observed s\<rparr>,
     sr_slow = \<lparr>sw_window = qs_slow s, sw_observed = qs_observed s\<rparr>,
     sr_billing = qs_billing s, sr_billing_observed = qs_observed s\<rparr>"

definition within_ceiling :: "ObservationStamp \<Rightarrow> ObservationStamp \<Rightarrow> bool" where
  "within_ceiling observed now =
     (case checked_duration_since (monotonic now) (monotonic observed) of
        None \<Rightarrow> False | Some age \<Rightarrow> age \<le> MAX_OBSERVATION_AGE)"

definition merged_billing :: "StoredReading \<Rightarrow> QuotaSnapshot \<Rightarrow> Billing" where
  "merged_billing sr s =
     (if qs_billing s \<noteq> Billing.Unknown
      then (if monotonic (qs_observed s) < monotonic (sr_billing_observed sr) then sr_billing sr
            else qs_billing s)
      else if within_ceiling (sr_billing_observed sr) (qs_observed s) then sr_billing sr
      else Billing.Unknown)"

definition reading_merged :: "StoredReading \<Rightarrow> QuotaSnapshot \<Rightarrow> StoredReading" where
  "reading_merged sr s = \<lparr>
     sr_latest = (if monotonic (qs_observed s) < monotonic (sr_latest sr) then sr_latest sr
                  else qs_observed s),
     sr_fast = window_merged (sr_fast sr) (qs_fast s) (qs_observed s),
     sr_slow = window_merged (sr_slow sr) (qs_slow s) (qs_observed s),
     sr_billing = merged_billing sr s,
     sr_billing_observed =
       (if qs_billing s = Billing.Unknown
           \<or> monotonic (qs_observed s) < monotonic (sr_billing_observed sr)
        then sr_billing_observed sr else qs_observed s)\<rparr>"

definition as_of :: "StoredReading \<Rightarrow> ObservationStamp \<Rightarrow> QuotaSnapshot" where
  "as_of sr now = \<lparr>qs_observed = sr_latest sr,
     qs_fast = effective (sr_fast sr) now,
     qs_slow = effective (sr_slow sr) now,
     qs_billing = (if within_ceiling (sr_billing_observed sr) now then sr_billing sr else Billing.Unknown)\<rparr>"

subsection \<open>The store\<close>

record RejectionCounters =
  rc_invalid_utilization :: "64 word"
  rc_expired_reset :: "64 word"
  rc_implausible_reset :: "64 word"
  rc_overflow :: "64 word"
  rc_last_warn_epoch_secs :: u64

record QuotaStore =
  qst_seats :: "SeatKey \<rightharpoonup> StoredReading"
  qst_admitted :: "SeatKey set"
  qst_rejections :: RejectionCounters
  qst_refused_by_admission :: "64 word"

definition REJECTION_WARN_INTERVAL_SECS :: u64 where "REJECTION_WARN_INTERVAL_SECS = 300"

fun incr :: "RejectionReason \<Rightarrow> RejectionCounters \<Rightarrow> RejectionCounters \<times> 64 word" where
  "incr InvalidUtilization c =
     (c\<lparr>rc_invalid_utilization := rc_invalid_utilization c + 1\<rparr>, rc_invalid_utilization c + 1)"
| "incr ExpiredReset c = (c\<lparr>rc_expired_reset := rc_expired_reset c + 1\<rparr>, rc_expired_reset c + 1)"
| "incr ImplausibleReset c =
     (c\<lparr>rc_implausible_reset := rc_implausible_reset c + 1\<rparr>, rc_implausible_reset c + 1)"
| "incr RejectionReason.Overflow c = (c\<lparr>rc_overflow := rc_overflow c + 1\<rparr>, rc_overflow c + 1)"

text \<open>The compare-and-swap succeeds when no other claimant intervenes; \<open>saturating_sub\<close> is
  subtraction on naturals.\<close>

definition claim_warn :: "u64 \<Rightarrow> RejectionCounters \<Rightarrow> RejectionCounters \<times> bool" where
  "claim_warn now_secs c =
     (if now_secs - rc_last_warn_epoch_secs c < REJECTION_WARN_INTERVAL_SECS then (c, False)
      else (c\<lparr>rc_last_warn_epoch_secs := now_secs\<rparr>, True))"

definition empty_store :: QuotaStore where
  "empty_store = \<lparr>qst_seats = Map.empty, qst_admitted = {},
     qst_rejections = \<lparr>rc_invalid_utilization = 0, rc_expired_reset = 0, rc_implausible_reset = 0,
       rc_overflow = 0, rc_last_warn_epoch_secs = 0\<rparr>,
     qst_refused_by_admission = 0\<rparr>"

definition admit_seats :: "SeatKey list \<Rightarrow> QuotaStore \<Rightarrow> QuotaStore" where
  "admit_seats keys st =
     (let new_admitted = set keys
      in st\<lparr>qst_admitted := new_admitted, qst_seats := qst_seats st |` new_admitted\<rparr>)"

definition admits :: "QuotaStore \<Rightarrow> SeatKey \<Rightarrow> bool" where
  "admits st key \<longleftrightarrow> key \<in> qst_admitted st"

definition observe :: "SeatKey \<Rightarrow> QuotaSnapshot \<Rightarrow> QuotaStore \<Rightarrow> QuotaStore \<times> bool" where
  "observe key observed st =
     (if \<not> admits st key
      then (st\<lparr>qst_refused_by_admission := qst_refused_by_admission st + 1\<rparr>, False)
      else (let merged = (case qst_seats st key of
                  Some stored \<Rightarrow> reading_merged stored observed
                | None \<Rightarrow> first_reading observed)
            in (st\<lparr>qst_seats := (qst_seats st)(key \<mapsto> merged)\<rparr>, True)))"

definition reading_for :: "QuotaStore \<Rightarrow> SeatKey \<Rightarrow> ObservationStamp \<Rightarrow> QuotaSnapshot option" where
  "reading_for st key now = map_option (\<lambda>stored. as_of stored now) (qst_seats st key)"

definition record_rejection :: "u64 \<Rightarrow> RejectionReason \<Rightarrow> QuotaStore \<Rightarrow> QuotaStore" where
  "record_rejection now_secs reason st =
     (let counters = fst (incr reason (qst_rejections st))
      in st\<lparr>qst_rejections := fst (claim_warn now_secs counters)\<rparr>)"

subsection \<open>The feed\<close>

definition feed_meta ::
  "ObservationStamp \<Rightarrow> u64 \<Rightarrow> SeatKey \<Rightarrow> UpstreamMeta \<Rightarrow> QuotaStore \<Rightarrow> QuotaStore" where
  "feed_meta observed now_secs seat meta st =
     (case (case um_anthropic_unified meta of
              Some quota \<Rightarrow> Some (reduce_anthropic quota observed)
            | None \<Rightarrow> (case um_codex meta of
                Some quota \<Rightarrow> Some (reduce_codex quota observed) | None \<Rightarrow> None)) of
        None \<Rightarrow> st
      | Some reduction \<Rightarrow>
          fst (observe seat (red_snapshot reduction)
            (foldl (\<lambda>st reason. record_rejection now_secs reason st) st (red_rejections reduction))))"

definition feed_response ::
  "ObservationStamp \<Rightarrow> u64 \<Rightarrow> SeatKey option \<Rightarrow> UpstreamMeta option \<Rightarrow> QuotaStore \<Rightarrow> QuotaStore" where
  "feed_response observed now_secs seat meta st = (case (seat, meta) of
     (Some seat, Some meta) \<Rightarrow> feed_meta observed now_secs seat meta st
   | _ \<Rightarrow> st)"

text \<open>\<open>FirstChunkFeed\<close> is its armed seat; the store it shares is passed along.\<close>

record FirstChunkFeed =
  fcf_seat :: "SeatKey option"

definition armed_feed :: "SeatKey option \<Rightarrow> FirstChunkFeed" where
  "armed_feed seat = \<lparr>fcf_seat = seat\<rparr>"

definition offer ::
  "ObservationStamp \<Rightarrow> u64 \<Rightarrow> UpstreamMeta option \<Rightarrow> FirstChunkFeed \<times> QuotaStore \<Rightarrow>
   FirstChunkFeed \<times> QuotaStore" where
  "offer observed now_secs chunk_meta fs =
     (let (feed, st) = fs in
      case chunk_meta of
        None \<Rightarrow> (feed, st)
      | Some meta \<Rightarrow>
          (if \<not> has_quota_family meta then (feed, st)
           else case fcf_seat feed of
             None \<Rightarrow> (feed, st)
           | Some seat \<Rightarrow> (feed\<lparr>fcf_seat := None\<rparr>, feed_meta observed now_secs seat meta st)))"

subsection \<open>Merging one window\<close>

definition is_Known :: "QuotaWindow \<Rightarrow> bool" where
  "is_Known w \<longleftrightarrow> w \<noteq> QuotaWindow.Unknown"

lemma effective_Known:
  "effective sw now = Known u r \<longleftrightarrow> sw_window sw = Known u r
     \<and> is_fresh (reset_instant r) (sw_observed sw) now MAX_OBSERVATION_AGE"
  by (auto simp: effective_def split: QuotaWindow.splits)

lemma effective_fresh:
  "effective sw now = (if sw_window sw \<noteq> QuotaWindow.Unknown
       \<and> is_fresh (reset_instant (reset_at_of (sw_window sw))) (sw_observed sw) now MAX_OBSERVATION_AGE
     then sw_window sw else QuotaWindow.Unknown)"
  by (auto simp: effective_def split: QuotaWindow.splits)

text \<open>Whatever is stored as known was observed, with the stamp it is stored under.\<close>

lemma window_merged_source:
  "sw_window (window_merged sw w o') \<noteq> QuotaWindow.Unknown \<Longrightarrow>
     window_merged sw w o' = sw \<or> window_merged sw w o' = \<lparr>sw_window = w, sw_observed = o'\<rparr>"
  by (auto simp: window_merged_def split: QuotaWindow.splits if_splits)

lemma window_merged_stamp:
  "sw_observed (window_merged sw w o') = sw_observed sw \<or> sw_observed (window_merged sw w o') = o'"
  by (auto simp: window_merged_def split: QuotaWindow.splits)

definition merge_run :: "StoredWindow \<Rightarrow> (QuotaWindow \<times> ObservationStamp) list \<Rightarrow> StoredWindow" where
  "merge_run sw hs = foldl (\<lambda>sw (w, o'). window_merged sw w o') sw hs"

lemma merge_run_snoc: "merge_run sw (hs @ [(w, o')]) = window_merged (merge_run sw hs) w o'"
  by (simp add: merge_run_def)

lemma merge_run_stamp:
  "sw_observed (merge_run sw hs) \<in> insert (sw_observed sw) (snd ` set hs)"
proof (induction hs rule: rev_induct)
  case (snoc h hs)
  obtain w o' where h: "h = (w, o')" by force
  from window_merged_stamp [of "merge_run sw hs" w o'] snoc.IH
  show ?case unfolding h merge_run_snoc by (elim disjE) auto
qed (simp add: merge_run_def)

definition not_before :: "ObservationStamp \<Rightarrow> ObservationStamp \<Rightarrow> bool" where
  "not_before a b \<longleftrightarrow> monotonic a \<le> monotonic b \<and> wall a \<le> wall b"

lemma is_fresh_earlier:
  assumes "is_fresh r k now age" and "not_before o' now" and "monotonic k \<le> monotonic o'"
  shows "is_fresh r k o' age"
  using assms by (auto simp: is_fresh_def checked_duration_since_def not_before_def split: if_splits)

text \<open>The newest known entry of a history, and the reading it yields at a time.\<close>

definition last_known :: "(QuotaWindow \<times> ObservationStamp) list \<Rightarrow> (QuotaWindow \<times> ObservationStamp) option" where
  "last_known hs = List.find (\<lambda>(w, o'). is_Known w) (rev hs)"

definition reading_of :: "(QuotaWindow \<times> ObservationStamp) list \<Rightarrow> ObservationStamp \<Rightarrow> QuotaWindow" where
  "reading_of hs now = (case last_known hs of
     Some (w, o') \<Rightarrow> effective \<lparr>sw_window = w, sw_observed = o'\<rparr> now
   | None \<Rightarrow> QuotaWindow.Unknown)"

lemma last_known_snoc:
  "last_known (hs @ [(w, o')]) = (if is_Known w then Some (w, o') else last_known hs)"
  by (simp add: last_known_def)

lemma last_known_mem: "last_known hs = Some (w, o') \<Longrightarrow> (w, o') \<in> set hs"
  by (auto simp: last_known_def dest: find_Some_mem)

lemma effective_earlier:
  assumes "effective sw o' = QuotaWindow.Unknown" and "not_before o' now"
    and "monotonic (sw_observed sw) \<le> monotonic o'"
  shows "effective sw now = QuotaWindow.Unknown"
  using assms is_fresh_earlier by (fastforce simp: effective_def split: QuotaWindow.splits if_splits)

lemma merge_run_reading:
  assumes "sorted_wrt not_before (o0 # map snd hs @ [now])"
  shows "effective (merge_run \<lparr>sw_window = w0, sw_observed = o0\<rparr> hs) now = reading_of ((w0, o0) # hs) now"
  using assms
proof (induction hs arbitrary: now rule: rev_induct)
  case Nil
  show ?case
    by (simp add: merge_run_def reading_of_def last_known_def is_Known_def effective_def)
next
  case (snoc h hs)
  obtain w o' where h: "h = (w, o')" by force
  let ?sw = "merge_run \<lparr>sw_window = w0, sw_observed = o0\<rparr> hs"
  have ord: "sorted_wrt not_before (o0 # map snd hs @ [o'])" "sorted_wrt not_before (o0 # map snd hs @ [now])"
    "not_before o' now" "\<forall>o'' \<in> insert o0 (snd ` set hs). not_before o'' o'"
    using snoc.prems by (auto simp: h sorted_wrt_append)
  have stamp: "monotonic (sw_observed ?sw) \<le> monotonic o'"
    using merge_run_stamp [of "\<lparr>sw_window = w0, sw_observed = o0\<rparr>" hs] ord(4)
    by (auto simp: not_before_def)
  show ?case
  proof (cases "is_Known w")
    case True
    then show ?thesis
      using stamp last_known_snoc [of "(w0, o0) # hs" w o']
      by (auto simp: h merge_run_snoc window_merged_def reading_of_def is_Known_def split: QuotaWindow.splits)
  next
    case False
    have spec: "reading_of ((w0, o0) # hs @ [h]) now = effective ?sw now"
      using False last_known_snoc [of "(w0, o0) # hs" w o'] snoc.IH [OF ord(2)]
      by (simp add: h reading_of_def)
    show ?thesis
    proof (cases "effective ?sw o'")
      case Unknown
      then have "effective ?sw now = QuotaWindow.Unknown" using effective_earlier ord(3) stamp by blast
      with Unknown False stamp spec show ?thesis
        by (simp add: h merge_run_snoc window_merged_def is_Known_def effective_def [of "\<lparr>sw_window = _, sw_observed = _\<rparr>"])
    next
      case (Known u r)
      with False stamp spec show ?thesis by (simp add: h merge_run_snoc window_merged_def is_Known_def)
    qed
  qed
qed

subsection \<open>The store as a sequence of operations\<close>

lemma fast_run:
  "sr_fast (foldl reading_merged r ss) = merge_run (sr_fast r) (map (\<lambda>s. (qs_fast s, qs_observed s)) ss)"
  by (induction ss arbitrary: r) (simp_all add: merge_run_def reading_merged_def)

lemma slow_run:
  "sr_slow (foldl reading_merged r ss) = merge_run (sr_slow r) (map (\<lambda>s. (qs_slow s, qs_observed s)) ss)"
  by (induction ss arbitrary: r) (simp_all add: merge_run_def reading_merged_def)

definition observe_all :: "SeatKey \<Rightarrow> QuotaSnapshot list \<Rightarrow> QuotaStore \<Rightarrow> QuotaStore" where
  "observe_all key ss st = foldl (\<lambda>st s. fst (observe key s st)) st ss"

lemma observe_admitted [simp]: "qst_admitted (fst (observe key s st)) = qst_admitted st"
  by (simp add: observe_def Let_def)

lemma observe_all_stored:
  assumes "admits st key" and "qst_seats st key = Some r"
  shows "qst_seats (observe_all key ss st) key = Some (foldl reading_merged r ss)"
  using assms
proof (induction ss arbitrary: st r)
  case (Cons s ss)
  have "qst_seats (observe_all key ss (fst (observe key s st))) key
      = Some (foldl reading_merged (reading_merged r s) ss)"
    using Cons.prems by (intro Cons.IH) (simp_all add: admits_def observe_def)
  then show ?case by (simp add: observe_all_def)
qed (simp add: observe_all_def)

lemma observe_all_first:
  assumes "admits st key" and "qst_seats st key = None"
  shows "qst_seats (observe_all key (s # ss) st) key = Some (foldl reading_merged (first_reading s) ss)"
proof -
  have "qst_seats (observe_all key ss (fst (observe key s st))) key
      = Some (foldl reading_merged (first_reading s) ss)"
    using assms by (intro observe_all_stored) (simp_all add: admits_def observe_def)
  then show ?thesis by (simp add: observe_all_def)
qed

text \<open>Histories of the store: observations of any seat, declarations of the seat set, rejections.\<close>

datatype store_event = Observed SeatKey QuotaSnapshot | Declared "SeatKey list" | Rejected u64 RejectionReason

fun store_exec :: "store_event \<Rightarrow> QuotaStore \<Rightarrow> QuotaStore" where
  "store_exec (Observed key s) st = fst (observe key s st)"
| "store_exec (Declared keys) st = admit_seats keys st"
| "store_exec (Rejected now_secs reason) st = record_rejection now_secs reason st"

definition store_run :: "store_event list \<Rightarrow> QuotaStore" where
  "store_run evs = foldl (\<lambda>st ev. store_exec ev st) empty_store evs"

text \<open>A stored window comes from an observation of its own seat.\<close>

definition window_from :: "(QuotaSnapshot \<Rightarrow> QuotaWindow) \<Rightarrow> QuotaSnapshot set \<Rightarrow> StoredWindow \<Rightarrow> bool" where
  "window_from sel S sw \<longleftrightarrow> sw_window sw = QuotaWindow.Unknown
     \<or> (\<exists>s \<in> S. sw_window sw = sel s \<and> sw_observed sw = qs_observed s)"

definition reading_from :: "QuotaSnapshot set \<Rightarrow> StoredReading \<Rightarrow> bool" where
  "reading_from S r \<longleftrightarrow> window_from qs_fast S (sr_fast r) \<and> window_from qs_slow S (sr_slow r)"

lemma window_from_merged:
  "window_from sel S sw \<Longrightarrow> s \<in> S \<Longrightarrow> window_from sel S (window_merged sw (sel s) (qs_observed s))"
  using window_merged_source [of sw "sel s" "qs_observed s"]
  by (cases "sw_window (window_merged sw (sel s) (qs_observed s)) = QuotaWindow.Unknown")
    (auto simp: window_from_def)

lemma reading_from_merged: "reading_from S r \<Longrightarrow> s \<in> S \<Longrightarrow> reading_from S (reading_merged r s)"
  by (simp add: reading_from_def reading_merged_def window_from_merged)

lemma reading_from_first: "s \<in> S \<Longrightarrow> reading_from S (first_reading s)"
  by (auto simp: reading_from_def first_reading_def window_from_def)

lemma reading_from_mono: "reading_from S r \<Longrightarrow> S \<subseteq> T \<Longrightarrow> reading_from T r"
  by (auto simp: reading_from_def window_from_def)

definition observations :: "store_event list \<Rightarrow> SeatKey \<Rightarrow> QuotaSnapshot set" where
  "observations evs key = {s. Observed key s \<in> set evs}"

lemma store_run_snoc: "store_run (evs @ [ev]) = store_exec ev (store_run evs)"
  by (simp add: store_run_def)

lemma record_rejection_frame [simp]:
  "qst_seats (record_rejection n reason st) = qst_seats st"
  "qst_admitted (record_rejection n reason st) = qst_admitted st"
  by (simp_all add: record_rejection_def Let_def)

lemma observe_seats:
  "qst_seats (fst (observe key s st)) key' =
     (if key' = key \<and> admits st key
      then Some (case qst_seats st key of Some r \<Rightarrow> reading_merged r s | None \<Rightarrow> first_reading s)
      else qst_seats st key')"
  by (simp add: observe_def)

lemma store_run_inv:
  "qst_seats (store_run evs) key = Some r \<Longrightarrow>
     reading_from (observations evs key) r \<and> key \<in> qst_admitted (store_run evs)"
proof (induction evs arbitrary: r rule: rev_induct)
  case Nil
  then show ?case by (simp add: store_run_def empty_store_def)
next
  case (snoc ev evs)
  let ?S = "observations (evs @ [ev]) key"
  have mono: "observations evs key \<subseteq> ?S" by (auto simp: observations_def)
  have kept: "reading_from ?S r' \<and> key \<in> qst_admitted (store_run evs)"
    if "qst_seats (store_run evs) key = Some r'" for r'
    using snoc.IH [OF that] reading_from_mono [OF _ mono] by blast
  show ?case
  proof (cases ev)
    case (Observed k s)
    show ?thesis
    proof (cases "k = key \<and> admits (store_run evs) key")
      case True
      then have s: "s \<in> ?S" by (simp add: observations_def Observed)
      have "r = (case qst_seats (store_run evs) key of Some r \<Rightarrow> reading_merged r s | None \<Rightarrow> first_reading s)"
        using snoc.prems True by (simp add: store_run_snoc Observed observe_seats)
      then have "reading_from ?S r"
        using kept s by (auto simp: reading_from_merged reading_from_first split: option.splits)
      then show ?thesis using True by (simp add: store_run_snoc Observed admits_def)
    next
      case False
      then have "qst_seats (store_run evs) key = Some r"
        using snoc.prems by (auto simp: store_run_snoc Observed observe_seats split: if_splits)
      then show ?thesis using kept by (simp add: store_run_snoc Observed)
    qed
  next
    case (Declared keys)
    then show ?thesis using snoc.prems kept
      by (auto simp: store_run_snoc admit_seats_def restrict_map_def Let_def split: if_splits)
  next
    case (Rejected n reason)
    then show ?thesis using snoc.prems kept by (simp add: store_run_snoc)
  qed
qed

subsection \<open>Properties\<close>

text \<open>A reading is never invented and never outlives its bounds: whatever the history of the
  store, a known window it reports at \<open>now\<close> was reported by an observation of that very seat, is
  within the age ceiling of that observation and before its reset; and the seat is in the declared
  set.\<close>

lemma reading_sound:
  assumes "reading_for (store_run evs) key now = Some rd" and "qs_fast rd = Known u r"
  shows "key \<in> qst_admitted (store_run evs) \<and>
    (\<exists>s. Observed key s \<in> set evs \<and> qs_fast s = Known u r
        \<and> is_fresh (reset_instant r) (qs_observed s) now MAX_OBSERVATION_AGE)"
proof -
  obtain sr where sr: "qst_seats (store_run evs) key = Some sr" "rd = as_of sr now"
    using assms(1) by (auto simp: reading_for_def)
  then show ?thesis
    using store_run_inv [OF sr(1)] assms(2)
    by (auto simp: as_of_def effective_Known reading_from_def window_from_def observations_def)
qed

text \<open>Two snapshots of a seat, ten seconds apart; the second carries no window and no claim.\<close>

definition stamp_at :: "u64 \<Rightarrow> ObservationStamp" where
  "stamp_at s = \<lparr>wall = from_secs (1000000 + s), monotonic = from_secs s\<rparr>"

definition sample_known :: QuotaSnapshot where
  "sample_known = \<lparr>qs_observed = stamp_at 10, qs_fast = Known (Utilization (1 / 4)) (ValidatedReset (from_secs 1000100)),
     qs_slow = QuotaWindow.Unknown, qs_billing = Overage\<rparr>"

definition sample_unknown :: QuotaSnapshot where
  "sample_unknown = \<lparr>qs_observed = stamp_at 20, qs_fast = QuotaWindow.Unknown,
     qs_slow = QuotaWindow.Unknown, qs_billing = Billing.Unknown\<rparr>"

lemmas sample_defs = sample_known_def sample_unknown_def stamp_at_def from_secs_def NANOS_PER_SEC_def
  from_hours_def MAX_OBSERVATION_AGE_def is_fresh_def checked_duration_since_def

lemma reading_sound_witness:
  "SeatKey ''a'' \<in> qst_admitted (store_run [Declared [SeatKey ''a''], Observed (SeatKey ''a'') sample_known]) \<and>
    (\<exists>s. Observed (SeatKey ''a'') s \<in> set [Declared [SeatKey ''a''], Observed (SeatKey ''a'') sample_known]
        \<and> qs_fast s = Known (Utilization (1 / 4)) (ValidatedReset (from_secs 1000100))
        \<and> is_fresh (reset_instant (ValidatedReset (from_secs 1000100))) (qs_observed s) (stamp_at 30) MAX_OBSERVATION_AGE)"
  by (rule reading_sound [of _ _ _ "as_of (first_reading sample_known) (stamp_at 30)"])
    (simp_all add: store_run_def empty_store_def admit_seats_def observe_def admits_def reading_for_def
      as_of_def first_reading_def effective_def sample_defs)

text \<open>C36. With responses merged in order, the store reports exactly the newest known reading of each
  window, while it is fresh: unknown-bearing responses in between neither erase it nor extend it.\<close>

theorem newest_known_reading:
  assumes "admits st key" and "qst_seats st key = None"
    and "sorted_wrt not_before (map qs_observed (s # ss) @ [now])"
  shows "map_option qs_fast (reading_for (observe_all key (s # ss) st) key now)
      = Some (reading_of (map (\<lambda>s. (qs_fast s, qs_observed s)) (s # ss)) now) \<and>
    map_option qs_slow (reading_for (observe_all key (s # ss) st) key now)
      = Some (reading_of (map (\<lambda>s. (qs_slow s, qs_observed s)) (s # ss)) now)"
  using assms(3) merge_run_reading [of "qs_observed s" "map (\<lambda>s. (qs_fast s, qs_observed s)) ss" now "qs_fast s"]
    merge_run_reading [of "qs_observed s" "map (\<lambda>s. (qs_slow s, qs_observed s)) ss" now "qs_slow s"]
  by (simp add: reading_for_def observe_all_first [OF assms(1,2)] as_of_def fast_run slow_run
      first_reading_def comp_def)

theorem newest_known_reading_witness:
  "map_option qs_fast (reading_for (observe_all (SeatKey ''a'') [sample_known, sample_unknown]
        (admit_seats [SeatKey ''a''] empty_store)) (SeatKey ''a'') (stamp_at 30))
      = Some (reading_of (map (\<lambda>s. (qs_fast s, qs_observed s)) [sample_known, sample_unknown]) (stamp_at 30)) \<and>
    map_option qs_slow (reading_for (observe_all (SeatKey ''a'') [sample_known, sample_unknown]
        (admit_seats [SeatKey ''a''] empty_store)) (SeatKey ''a'') (stamp_at 30))
      = Some (reading_of (map (\<lambda>s. (qs_slow s, qs_observed s)) [sample_known, sample_unknown]) (stamp_at 30))"
  by (rule newest_known_reading)
    (simp_all add: admits_def admit_seats_def empty_store_def not_before_def sample_defs)

text \<open>A late response without a billing claim erases a newer one: merged after a newer snapshot
  that reported overage, it resets the stored billing to unknown although the windows it carries are
  discarded as older.\<close>

lemma late_unknown_billing_erases:
  assumes "sr_billing sr = Overage" and "qs_billing s = Billing.Unknown"
    and "monotonic (qs_observed s) < monotonic (sr_billing_observed sr)"
    and "sw_observed (sr_fast sr) = sr_billing_observed sr"
  shows "sr_billing (reading_merged sr s) = Billing.Unknown \<and> sr_fast (reading_merged sr s) = sr_fast sr"
  using assms
  by (simp add: reading_merged_def merged_billing_def within_ceiling_def checked_duration_since_def
      window_merged_def)

lemma late_unknown_billing_erases_witness:
  "sr_billing (reading_merged (first_reading (sample_known\<lparr>qs_observed := stamp_at 30\<rparr>)) sample_unknown)
      = Billing.Unknown \<and>
    sr_fast (reading_merged (first_reading (sample_known\<lparr>qs_observed := stamp_at 30\<rparr>)) sample_unknown)
      = sr_fast (first_reading (sample_known\<lparr>qs_observed := stamp_at 30\<rparr>))"
  by (rule late_unknown_billing_erases) (simp_all add: first_reading_def sample_defs)

end
