(* ===== verification/Quota_Placement.thy ===== *)
theory Quota_Placement
  imports Quota_Store
begin

text \<open>
  The quota partition of a seat pick (\<open>routectl-router/src/quota/placement.rs\<close>): the tier of each
  seat, and the restriction of the eligible seats to the tier quota decides on. The interface
  \<open>reading_source\<close> states what the partition relies on from whatever holds the readings; the
  quota store provides it.
\<close>

subsection \<open>Tiers\<close>

datatype SeatQuota = Unknown | BelowCap (below_remaining: real) | AtCap (at_remaining: real)

datatype QuotaDecision = Dormant | BelowCapTier | AllCappedMostRemaining | MixedUnknownFallback
  | AllUnknownFallback

definition placed :: "QuotaDecision \<Rightarrow> bool" where
  "placed d \<longleftrightarrow> d = BelowCapTier \<or> d = AllCappedMostRemaining"

definition tier_of_window :: "CuratedWindow \<Rightarrow> QuotaWindow option \<Rightarrow> SeatQuota" where
  "tier_of_window row w = (case w of
     Some (Known utilization reset) \<Rightarrow>
       (let spent = fraction_of utilization; remaining = 1 - spent
        in if spent < cw_threshold row then BelowCap remaining else AtCap remaining)
   | _ \<Rightarrow> SeatQuota.Unknown)"

definition seat_tiers ::
  "QuotaStore \<Rightarrow> SeatKey option list \<Rightarrow> string option \<Rightarrow> ObservationStamp \<Rightarrow> SeatQuota list" where
  "seat_tiers store keys provider_kind now =
     (case Option.bind provider_kind (\<lambda>kind. row_for kind Fast) of
        None \<Rightarrow> []
      | Some row \<Rightarrow> map (\<lambda>key. case key of
            None \<Rightarrow> SeatQuota.Unknown
          | Some key \<Rightarrow> tier_of_window row (map_option qs_fast (reading_for store key now))) keys)"

definition remaining_score :: "SeatQuota list \<Rightarrow> usize \<Rightarrow> f64" where
  "remaining_score quota idx = (case get_at quota idx of
     Some (BelowCap r) \<Rightarrow> Fin r | Some (AtCap r) \<Rightarrow> Fin r | _ \<Rightarrow> NInf)"

definition most_remaining :: "usize list \<Rightarrow> SeatQuota list \<Rightarrow> usize list" where
  "most_remaining candidates quota = tied_best (remaining_score quota) candidates"

definition tier_at :: "SeatQuota list \<Rightarrow> usize \<Rightarrow> SeatQuota" where
  "tier_at quota idx = (case get_at quota idx of Some q \<Rightarrow> q | None \<Rightarrow> SeatQuota.Unknown)"

definition restrict_by_quota :: "usize list \<Rightarrow> SeatQuota list \<Rightarrow> QuotaDecision \<times> usize list option" where
  "restrict_by_quota eligible quota =
     (if quota = [] \<or> eligible = [] then (Dormant, None)
      else let below = filter (\<lambda>i. is_BelowCap (tier_at quota i)) eligible in
        if below \<noteq> [] then (BelowCapTier, Some (most_remaining below quota))
        else if list_ex (\<lambda>i. tier_at quota i = SeatQuota.Unknown) eligible
        then ((if list_all (\<lambda>i. tier_at quota i = SeatQuota.Unknown) eligible
               then AllUnknownFallback else MixedUnknownFallback), None)
        else (AllCappedMostRemaining, Some (most_remaining eligible quota)))"

subsection \<open>What the partition relies on\<close>

locale reading_source =
  fixes reading :: "'st \<Rightarrow> SeatKey \<Rightarrow> ObservationStamp \<Rightarrow> QuotaSnapshot option" and ok :: "'st \<Rightarrow> bool"
  assumes in_range: "ok st \<Longrightarrow> reading st key now = Some rd \<Longrightarrow> qs_fast rd = Known u r \<Longrightarrow>
      0 \<le> fraction_of u \<and> fraction_of u \<le> 1"
    and not_expired: "ok st \<Longrightarrow> reading st key now = Some rd \<Longrightarrow> qs_fast rd = Known u r \<Longrightarrow>
      wall now < reset_instant r"
begin

definition tier :: "CuratedWindow \<Rightarrow> 'st \<Rightarrow> ObservationStamp \<Rightarrow> SeatKey option \<Rightarrow> SeatQuota" where
  "tier row st now key = (case key of None \<Rightarrow> SeatQuota.Unknown
     | Some key \<Rightarrow> tier_of_window row (map_option qs_fast (reading st key now)))"

lemma tier_remaining:
  assumes "ok st"
  shows "tier row st now key = BelowCap x \<Longrightarrow> 1 - cw_threshold row < x \<and> x \<le> 1"
    and "tier row st now key = AtCap x \<Longrightarrow> 0 \<le> x \<and> x \<le> 1 - cw_threshold row"
  using in_range [OF assms]
  by (fastforce simp: tier_def tier_of_window_def Let_def split: option.splits QuotaWindow.splits if_splits)+

lemma tier_evidence:
  assumes "ok st" and "tier row st now key \<noteq> SeatQuota.Unknown"
  obtains k rd u r where "key = Some k" "reading st k now = Some rd" "qs_fast rd = Known u r"
    "wall now < reset_instant r"
  using assms not_expired
  by (auto simp: tier_def tier_of_window_def split: option.splits QuotaWindow.splits)

end

text \<open>A store whose every stored window was built from a utilization in range.\<close>

definition stored_ok :: "StoredWindow \<Rightarrow> bool" where
  "stored_ok sw = (case sw_window sw of QuotaWindow.Unknown \<Rightarrow> True
     | Known u r \<Rightarrow> 0 \<le> fraction_of u \<and> fraction_of u \<le> 1)"

definition store_ok :: "QuotaStore \<Rightarrow> bool" where
  "store_ok st \<longleftrightarrow> (\<forall>key r. qst_seats st key = Some r \<longrightarrow> stored_ok (sr_fast r))"

interpretation quota_store: reading_source reading_for store_ok
proof unfold_locales
  fix st key now rd u r
  assume ok: "store_ok st" and rd: "reading_for st key now = Some rd" and k: "qs_fast rd = Known u r"
  from rd obtain sr where sr: "qst_seats st key = Some sr" "rd = as_of sr now"
    by (auto simp: reading_for_def)
  then have "stored_ok (sr_fast sr)" using ok by (simp add: store_ok_def)
  with sr k show "0 \<le> fraction_of u \<and> fraction_of u \<le> 1" "wall now < reset_instant r"
    by (simp_all add: stored_ok_def as_of_def effective_Known is_fresh_def split: option.splits)
qed

lemma seat_tiers_tier:
  "provider_kind = Some kind \<Longrightarrow> row_for kind Fast = Some row \<Longrightarrow>
     seat_tiers store keys provider_kind now = map (quota_store.tier row store now) keys"
  by (simp add: seat_tiers_def quota_store.tier_def)

lemma seat_tiers_length:
  "seat_tiers store keys kind now = [] \<or> length (seat_tiers store keys kind now) = length keys"
  by (simp add: seat_tiers_def split: option.split)

text \<open>Feeding reduced metadata keeps the store in that form.\<close>

lemma window_merged_stored_ok:
  "stored_ok sw \<Longrightarrow> stored_ok \<lparr>sw_window = w, sw_observed = o'\<rparr> \<Longrightarrow> stored_ok (window_merged sw w o')"
  by (auto simp: window_merged_def stored_ok_def split: QuotaWindow.splits)

lemma observe_store_ok:
  assumes "store_ok st" and "stored_ok \<lparr>sw_window = qs_fast s, sw_observed = qs_observed s\<rparr>"
  shows "store_ok (fst (observe key s st))"
  using assms window_merged_stored_ok
  by (auto simp: store_ok_def observe_seats reading_merged_def first_reading_def split: option.splits if_splits)

lemma rejection_store_ok [simp]: "store_ok (record_rejection n reason st) = store_ok st"
  by (simp add: store_ok_def)

lemma rejections_store_ok:
  "store_ok st \<Longrightarrow> store_ok (foldl (\<lambda>st reason. record_rejection n reason st) st rs)"
  by (induction rs arbitrary: st) simp_all

lemma reduced_stored_ok:
  "stored_ok \<lparr>sw_window = qs_fast (red_snapshot (reduce_anthropic q obs)), sw_observed = o1\<rparr>"
  "stored_ok \<lparr>sw_window = qs_fast (red_snapshot (reduce_codex c obs)), sw_observed = o2\<rparr>"
  using reduced_windows(1) [of obs q] reduced_windows(3) [of c obs]
  by (auto simp: stored_ok_def window_ok_def split: QuotaWindow.splits)

lemma feed_meta_store_ok: "store_ok st \<Longrightarrow> store_ok (feed_meta obs n seat meta st)"
  by (auto simp: feed_meta_def split: option.split
      intro!: observe_store_ok rejections_store_ok reduced_stored_ok)

lemma admit_seats_store_ok: "store_ok st \<Longrightarrow> store_ok (admit_seats keys st)"
  by (auto simp: store_ok_def admit_seats_def restrict_map_def Let_def split: if_splits)

subsection \<open>The restriction\<close>

lemma remaining_score_not_NaN [simp]: "remaining_score quota i \<noteq> NaN"
  by (simp add: remaining_score_def split: option.split SeatQuota.split)

lemma most_remaining_props:
  "set (most_remaining xs quota) \<subseteq> set xs"
  "xs \<noteq> [] \<Longrightarrow> most_remaining xs quota \<noteq> []"
  "x \<in> set (most_remaining xs quota) \<Longrightarrow> y \<in> set xs \<Longrightarrow>
     \<not> f64_lt (remaining_score quota x) (remaining_score quota y)"
  unfolding most_remaining_def by (simp_all add: tied_best_subset tied_best_nonempty tied_best_maximal)

text \<open>A seat no eligible seat beats: it has a reading, no seat is in a better tier, and none of its own
  tier has more remaining.\<close>

definition unbeaten :: "SeatQuota list \<Rightarrow> usize list \<Rightarrow> usize \<Rightarrow> bool" where
  "unbeaten quota eligible x \<longleftrightarrow> tier_at quota x \<noteq> SeatQuota.Unknown \<and>
     (\<forall>y \<in> set eligible. (is_BelowCap (tier_at quota y) \<longrightarrow> is_BelowCap (tier_at quota x)) \<and>
        (is_BelowCap (tier_at quota y) = is_BelowCap (tier_at quota x) \<longrightarrow>
           \<not> f64_lt (remaining_score quota x) (remaining_score quota y)))"

lemma unbeaten_below:
  assumes "x \<in> set (most_remaining (filter (\<lambda>i. is_BelowCap (tier_at quota i)) eligible) quota)"
  shows "unbeaten quota eligible x"
proof -
  have mem: "x \<in> set eligible \<and> is_BelowCap (tier_at quota x)" using most_remaining_props(1) assms by fastforce
  have "\<not> f64_lt (remaining_score quota x) (remaining_score quota y)"
    if "y \<in> set eligible" "is_BelowCap (tier_at quota y)" for y
    using most_remaining_props(3) [OF assms] that by simp
  then show ?thesis using mem by (auto simp: unbeaten_def)
qed

lemma unbeaten_capped:
  assumes "x \<in> set (most_remaining eligible quota)"
    and "\<forall>i \<in> set eligible. tier_at quota i \<noteq> SeatQuota.Unknown \<and> \<not> is_BelowCap (tier_at quota i)"
  shows "unbeaten quota eligible x"
  using most_remaining_props(1) assms(2) subsetD [OF most_remaining_props(1) assms(1)]
    most_remaining_props(3) [OF assms(1)]
  by (simp add: unbeaten_def)

lemma restrict_result:
  assumes "restrict_by_quota eligible quota = (d, Some xs)"
  shows "xs \<noteq> []" and "set xs \<subseteq> set eligible"
proof -
  have "eligible \<noteq> []" using assms by (auto simp: restrict_by_quota_def)
  with assms obtain ys where "xs = most_remaining ys quota" "ys \<noteq> []" "set ys \<subseteq> set eligible"
    by (auto simp: restrict_by_quota_def Let_def split: if_splits)
  then show "xs \<noteq> []" and "set xs \<subseteq> set eligible"
    using most_remaining_props(1) [of ys quota] most_remaining_props(2) [of ys quota] by auto
qed

subsection \<open>Properties\<close>

text \<open>Quota never empties or widens a pick: whenever it restricts, the result is a non-empty
  part of the eligible seats, none of which another eligible seat beats (below cap before capped,
  then most remaining); and it declines exactly when there is nothing to decide on, or no eligible
  seat is known below its cap while one is unknown.\<close>

lemma restrict_by_quota_spec:
  "(placed (fst (restrict_by_quota eligible quota)) \<longleftrightarrow> snd (restrict_by_quota eligible quota) \<noteq> None) \<and>
   (snd (restrict_by_quota eligible quota) = None \<longleftrightarrow> quota = [] \<or> eligible = [] \<or>
      (\<forall>i \<in> set eligible. \<not> is_BelowCap (tier_at quota i)) \<and>
      (\<exists>i \<in> set eligible. tier_at quota i = SeatQuota.Unknown)) \<and>
   (\<forall>xs. snd (restrict_by_quota eligible quota) = Some xs \<longrightarrow>
      xs \<noteq> [] \<and> set xs \<subseteq> set eligible \<and> (\<forall>x \<in> set xs. unbeaten quota eligible x))"
proof -
  let ?below = "filter (\<lambda>i. is_BelowCap (tier_at quota i)) eligible"
  consider (dormant) "quota = [] \<or> eligible = []"
    | (below) "quota \<noteq> []" "eligible \<noteq> []" "?below \<noteq> []"
    | (unknown) "quota \<noteq> []" "eligible \<noteq> []" "?below = []" "\<exists>i \<in> set eligible. tier_at quota i = SeatQuota.Unknown"
    | (capped) "quota \<noteq> []" "eligible \<noteq> []" "?below = []" "\<forall>i \<in> set eligible. tier_at quota i \<noteq> SeatQuota.Unknown"
    by blast
  then show ?thesis
  proof cases
    case dormant
    then show ?thesis by (auto simp: restrict_by_quota_def placed_def)
  next
    case below
    then have "restrict_by_quota eligible quota = (BelowCapTier, Some (most_remaining ?below quota))"
      by (simp add: restrict_by_quota_def Let_def)
    moreover have "set (most_remaining ?below quota) \<subseteq> set eligible"
      using most_remaining_props(1) [of ?below quota] by auto
    moreover have "\<exists>i \<in> set eligible. is_BelowCap (tier_at quota i)"
      using below(3) by (auto simp: filter_empty_conv)
    ultimately show ?thesis
      using below(1,2) most_remaining_props(2) [OF below(3), of quota] unbeaten_below
      by (simp add: placed_def)
  next
    case unknown
    then have "snd (restrict_by_quota eligible quota) = None"
      "\<not> placed (fst (restrict_by_quota eligible quota))"
      by (auto simp: restrict_by_quota_def Let_def list_ex_iff placed_def)
    then show ?thesis using unknown by (simp add: filter_empty_conv)
  next
    case capped
    then have "restrict_by_quota eligible quota = (AllCappedMostRemaining, Some (most_remaining eligible quota))"
      by (simp add: restrict_by_quota_def Let_def list_ex_iff)
    moreover have "\<forall>i \<in> set eligible. tier_at quota i \<noteq> SeatQuota.Unknown \<and> \<not> is_BelowCap (tier_at quota i)"
      using capped(3,4) by (simp add: filter_empty_conv)
    ultimately show ?thesis
      using capped(1,2) most_remaining_props(1) [of eligible quota] most_remaining_props(2) [OF capped(2), of quota]
        unbeaten_capped [of _ eligible quota]
      by (simp add: placed_def)
  qed
qed

lemma restrict_by_quota_spec_witness:
  "unbeaten [AtCap 0, BelowCap (3 / 4)] [0, 1] 1"
  using restrict_by_quota_spec [of "[0, 1]" "[AtCap 0, BelowCap (3 / 4)]"]
  by (simp add: restrict_by_quota_def most_remaining_def tied_best_def max_score_def remaining_score_def
      tier_at_def get_at_def f64_max_def f64_eq_def)

text \<open>A seat only enters a tier on live evidence: with the store as feeding reduced metadata keeps
  it, a known tier means the seat has an account key whose stored fast window has not reached its
  reset, and its remaining share lies on the right side of the curated cap.\<close>

lemma seat_tiers_evidence:
  assumes "store_ok store" and "row_for kind Fast = Some row" and "i < length keys"
    and "seat_tiers store keys (Some kind) now ! i \<noteq> SeatQuota.Unknown"
  shows "\<exists>key rd u r. keys ! i = Some key \<and> reading_for store key now = Some rd \<and> qs_fast rd = Known u r
      \<and> wall now < reset_instant r
      \<and> (case seat_tiers store keys (Some kind) now ! i of
           BelowCap x \<Rightarrow> 1 - cw_threshold row < x \<and> x \<le> 1
         | AtCap x \<Rightarrow> 0 \<le> x \<and> x \<le> 1 - cw_threshold row
         | SeatQuota.Unknown \<Rightarrow> False)"
proof -
  have t: "seat_tiers store keys (Some kind) now ! i = quota_store.tier row store now (keys ! i)"
    using seat_tiers_tier [OF refl assms(2)] assms(3) by simp
  obtain k rd u r where "keys ! i = Some k" "reading_for store k now = Some rd" "qs_fast rd = Known u r"
    "wall now < reset_instant r"
    using quota_store.tier_evidence [OF assms(1), of row now "keys ! i"] assms(4) t by metis
  then show ?thesis
    using quota_store.tier_remaining [OF assms(1), of row now "keys ! i"] assms(4)
    by (auto simp: t split: SeatQuota.split)
qed

lemma seat_tiers_evidence_witness:
  "\<exists>key rd u r. [Some (SeatKey ''a'')] ! 0 = Some key
      \<and> reading_for (store_run [Declared [SeatKey ''a''], Observed (SeatKey ''a'') sample_known]) key (stamp_at 30) = Some rd
      \<and> qs_fast rd = Known u r \<and> wall (stamp_at 30) < reset_instant r
      \<and> (case seat_tiers (store_run [Declared [SeatKey ''a''], Observed (SeatKey ''a'') sample_known])
              [Some (SeatKey ''a'')] (Some ANTHROPIC_PROVIDER_KIND) (stamp_at 30) ! 0 of
           BelowCap x \<Rightarrow> 1 - cw_threshold (CURATED_WINDOWS ! 0) < x \<and> x \<le> 1
         | AtCap x \<Rightarrow> 0 \<le> x \<and> x \<le> 1 - cw_threshold (CURATED_WINDOWS ! 0)
         | SeatQuota.Unknown \<Rightarrow> False)"
  by (rule seat_tiers_evidence)
    (simp_all add: row_for_cases store_ok_def stored_ok_def seat_tiers_def tier_of_window_def CURATED_WINDOWS_def
      store_run_def empty_store_def admit_seats_def observe_def admits_def reading_for_def
      as_of_def first_reading_def effective_def sample_defs)

end
