(* ===== verification/Seat_Pool.thy ===== *)
theory Seat_Pool
  imports Runtime_State Quota_Placement "HOL-Library.Multiset"
begin

text \<open>
  Seat pools (\<open>routectl-router/src/seat_pool.rs\<close>): seat identities and runtime-state keys,
  round-robin cursors, and the pure selection functions. A cursor is an \<open>Arc<AtomicUsize>\<close> that
  two routers may share across a reload, so cursors are addresses into an explicit heap of cells;
  \<open>fetch_add\<close> wraps at 64 bits. A function that indexes a slice uses \<open>!\<close>; the properties show
  that every index it uses is in range.
\<close>

subsection \<open>Identities and keys\<close>

datatype SecretRef = Env string | File string | Literal string
  | OAuth (oauth_provider: string) (oauth_label: "string option")

definition seat_key :: "string \<Rightarrow> string option \<Rightarrow> string" where
  "seat_key provider label = (case label of
     Some l \<Rightarrow> provider @ ''#'' @ l | None \<Rightarrow> provider)"

fun secret_ref_scheme :: "SecretRef \<Rightarrow> string" where
  "secret_ref_scheme (OAuth p l) = ''oauth://''"
| "secret_ref_scheme (Env v) = ''env://''"
| "secret_ref_scheme (File p) = ''file://''"
| "secret_ref_scheme (Literal l) = ''literal:''"

record SeatTarget =
  seat_provider :: nat
  seat_provider_name :: string
  seat_auth_secret_ref :: "SecretRef option"

definition SEAT_KEY_SEPARATOR :: char where "SEAT_KEY_SEPARATOR = CHR ''#''"

definition seat_state_key :: "string \<Rightarrow> string option \<Rightarrow> string" where
  "seat_state_key nickname label = (case label of
     Some l \<Rightarrow> nickname @ [SEAT_KEY_SEPARATOR] @ l | None \<Rightarrow> nickname)"

definition state_key_for :: "SeatTarget \<Rightarrow> string \<Rightarrow> string" where
  "state_key_for seat nickname = seat_state_key nickname (Some (seat_provider_name seat))"

definition split_seat_state_key :: "string \<Rightarrow> (string \<times> string) option" where
  "split_seat_state_key state_key = split_once SEAT_KEY_SEPARATOR state_key"

definition check_state_key_name :: "string \<Rightarrow> string \<Rightarrow> string + unit" where
  "check_state_key_name role name =
     (if SEAT_KEY_SEPARATOR \<in> set name
      then Inl (role @ '' `'' @ name @ ''` must not contain `#` (reserved as the seat-pool state-key separator)'')
      else Inr ())"

definition seat_identity :: "SecretRef option \<Rightarrow> string option" where
  "seat_identity secret_ref = (case secret_ref of
     Some (OAuth provider label) \<Rightarrow> Some (seat_key provider label) | _ \<Rightarrow> None)"

definition seat_key_for_secret_ref :: "SecretRef option \<Rightarrow> SeatKey option" where
  "seat_key_for_secret_ref secret_ref = map_option SeatKey (seat_identity secret_ref)"

definition seat_key_for_served_identity :: "string \<Rightarrow> SeatKey" where
  "seat_key_for_served_identity served_identity = SeatKey served_identity"

subsection \<open>Round-robin cursors\<close>

type_synonym cells = "nat \<Rightarrow> 64 word"

record RoundRobinCursors =
  cursors :: "string \<rightharpoonup> nat"

text \<open>\<open>register\<close> allocates a fresh cell at the address \<open>new\<close> when the key has none.\<close>

definition register :: "nat \<Rightarrow> string \<Rightarrow> RoundRobinCursors \<times> cells \<Rightarrow> RoundRobinCursors \<times> cells" where
  "register new rotation_key = (\<lambda>(rr, heap). case cursors rr rotation_key of
     Some a \<Rightarrow> (rr, heap)
   | None \<Rightarrow> (rr\<lparr>cursors := (cursors rr)(rotation_key \<mapsto> new)\<rparr>, heap(new := 0)))"

definition next_start :: "RoundRobinCursors \<Rightarrow> string \<Rightarrow> cells \<Rightarrow> cells \<times> 64 word option" where
  "next_start rr rotation_key heap = (case cursors rr rotation_key of
     None \<Rightarrow> (heap, None)
   | Some a \<Rightarrow> (heap(a := heap a + 1), Some (heap a)))"

definition carry_over_from :: "RoundRobinCursors \<Rightarrow> RoundRobinCursors \<Rightarrow> RoundRobinCursors" where
  "carry_over_from self previous = self\<lparr>cursors := (\<lambda>key.
     case cursors self key of None \<Rightarrow> None
     | Some slot \<Rightarrow> (case cursors previous key of Some cursor \<Rightarrow> Some cursor | None \<Rightarrow> Some slot))\<rparr>"

subsection \<open>Selection\<close>

datatype SeatSelection = FillFirst | RoundRobin | StickyLeastLoaded

record SeatPin =
  pin_member :: string
  pin_repinned :: bool

definition STICKY_PIN_CAPACITY :: usize where "STICKY_PIN_CAPACITY = 4096"

definition seat_order_for_request ::
  "string \<Rightarrow> usize \<Rightarrow> SeatSelection \<Rightarrow> RoundRobinCursors \<Rightarrow> cells \<Rightarrow> cells \<times> usize list" where
  "seat_order_for_request rotation_key seat_count selection rr heap =
     (if seat_count \<le> 1 then (heap, [0..<seat_count])
      else let (heap, start) = (case selection of
               RoundRobin \<Rightarrow> (let (heap, s) = next_start rr rotation_key heap
                              in (heap, (case s of Some w \<Rightarrow> unat w | None \<Rightarrow> 0) mod seat_count))
             | FillFirst \<Rightarrow> (heap, 0)
             | StickyLeastLoaded \<Rightarrow> (heap, 0))
           in (heap, map (\<lambda>i. (start + i) mod seat_count) [0..<seat_count]))"

definition order_home_first :: "usize \<Rightarrow> usize \<Rightarrow> usize list" where
  "order_home_first home seat_count = home # filter (\<lambda>i. i \<noteq> home) [0..<seat_count]"

datatype SelectionOutcome = Birth (outcome_home: usize) | Stay (outcome_home: usize)
  | OverflowRepin (outcome_home: usize) | DeferNoHealthy

definition eligible_candidates :: "usize list \<Rightarrow> CapacitySnapshot list \<Rightarrow> usize list" where
  "eligible_candidates candidates snapshots =
     (let dispatchable = filter (\<lambda>i. case get_at snapshots i of
            Some s \<Rightarrow> is_dispatchable s | None \<Rightarrow> False) candidates
      in if dispatchable = [] then dispatchable
         else let has_closed = list_ex (\<lambda>i. circuit (snapshots ! i) = Closed) dispatchable
              in if has_closed then filter (\<lambda>i. circuit (snapshots ! i) = Closed) dispatchable
                 else dispatchable)"

definition headroom :: "CapacitySnapshot list \<Rightarrow> usize \<Rightarrow> f64" where
  "headroom snapshots idx = (case rpm_available (snapshots ! idx) of Some r \<Rightarrow> Fin r | None \<Rightarrow> PInf)"

definition pick_least_loaded ::
  "usize list \<Rightarrow> CapacitySnapshot list \<Rightarrow> usize \<Rightarrow> SeatQuota list \<Rightarrow> QuotaDecision \<Rightarrow>
   usize option \<times> QuotaDecision" where
  "pick_least_loaded candidates snapshots tiebreak quota qd =
     (let preferred = eligible_candidates candidates snapshots in
      if preferred = [] then (None, qd)
      else case restrict_by_quota preferred quota of
        (qd, Some tied) \<Rightarrow> (Some (tied ! (tiebreak mod length tied)), qd)
      | (qd, None) \<Rightarrow>
          (let tied = tied_best (headroom snapshots) preferred
           in (Some (tied ! (tiebreak mod length tied)), qd)))"

definition keyless_quota_order ::
  "usize \<Rightarrow> CapacitySnapshot list \<Rightarrow> SeatQuota list \<Rightarrow> usize \<Rightarrow> QuotaDecision \<Rightarrow>
   usize list option \<times> QuotaDecision" where
  "keyless_quota_order seat_count snapshots quota tiebreak qd =
     (if seat_count \<le> 1 then (None, qd)
      else let preferred = eligible_candidates [0..<seat_count] snapshots in
        case restrict_by_quota preferred quota of
          (qd, None) \<Rightarrow> (None, qd)
        | (qd, Some tied) \<Rightarrow>
            (let lead = tied ! (tiebreak mod length tied)
             in (Some (lead # filter (\<lambda>i. i \<noteq> lead) [0..<seat_count]), qd)))"

definition sticky_least_loaded_order ::
  "usize \<Rightarrow> usize option \<Rightarrow> bool \<Rightarrow> CapacitySnapshot list \<Rightarrow> usize \<Rightarrow> SeatQuota list \<Rightarrow>
   usize list \<times> SelectionOutcome \<times> QuotaDecision" where
  "sticky_least_loaded_order seat_count pinned_index already_repinned snapshots tiebreak quota =
     (if seat_count \<le> 1 then ([0..<seat_count], Stay 0, Dormant)
      else case pinned_index of
        Some home \<Rightarrow>
          (if is_dispatchable (snapshots ! home) then (order_home_first home seat_count, Stay home, Dormant)
           else if already_repinned then (order_home_first home seat_count, Stay home, Dormant)
           else (case pick_least_loaded (filter (\<lambda>i. i \<noteq> home) [0..<seat_count]) snapshots tiebreak [] Dormant of
                   (Some new_home, qd) \<Rightarrow>
                     (order_home_first new_home seat_count, OverflowRepin new_home, qd)
                 | (None, qd) \<Rightarrow> (order_home_first home seat_count, Stay home, qd)))
      | None \<Rightarrow>
          (case pick_least_loaded [0..<seat_count] snapshots tiebreak quota Dormant of
             (Some home, qd) \<Rightarrow> (order_home_first home seat_count, Birth home, qd)
           | (None, qd) \<Rightarrow> (order_home_first 0 seat_count, DeferNoHealthy, qd)))"

subsection \<open>Candidates and orders\<close>

lemma eligible_subset: "set (eligible_candidates cs snaps) \<subseteq> set cs"
  by (auto simp: eligible_candidates_def Let_def)

lemma eligible_dispatchable:
  "i \<in> set (eligible_candidates cs snaps) \<Longrightarrow> i < length snaps \<and> is_dispatchable (snaps ! i)"
  by (auto simp: eligible_candidates_def get_at_def Let_def split: if_splits)

lemma eligible_empty:
  "eligible_candidates cs snaps = [] \<longleftrightarrow> (\<forall>i \<in> set cs. i < length snaps \<longrightarrow> \<not> is_dispatchable (snaps ! i))"
  by (auto simp: eligible_candidates_def get_at_def filter_empty_conv list_ex_iff Let_def)

lemma eligible_closed:
  assumes "i \<in> set (eligible_candidates cs snaps)" and "j \<in> set cs" and "j < length snaps"
    and "is_dispatchable (snaps ! j)" and "circuit (snaps ! j) = Closed"
  shows "circuit (snaps ! i) = Closed"
  using assms by (auto simp: eligible_candidates_def get_at_def list_ex_iff Let_def split: if_splits)

lemma headroom_not_NaN [simp]: "headroom snaps i \<noteq> NaN"
  by (simp add: headroom_def split: option.split)

lemma pick_mem:
  assumes "pick_least_loaded cs snaps tb quota d = (Some h, d')"
  shows "h \<in> set (eligible_candidates cs snaps)"
proof -
  let ?p = "eligible_candidates cs snaps"
  have ne: "?p \<noteq> []" using assms by (auto simp: pick_least_loaded_def)
  obtain qd res where r: "restrict_by_quota ?p quota = (qd, res)" by force
  show ?thesis
  proof (cases res)
    case None
    have "tied_best (headroom snaps) ?p \<noteq> []" using ne by (intro tied_best_nonempty) simp_all
    then have "h \<in> set (tied_best (headroom snaps) ?p)"
      using assms ne r None by (auto simp: pick_least_loaded_def Let_def)
    then show ?thesis using tied_best_subset by force
  next
    case (Some tied)
    have "tied \<noteq> []" "set tied \<subseteq> set ?p"
      using restrict_result [of ?p quota qd tied] r Some by auto
    then show ?thesis using assms ne r Some by (auto simp: pick_least_loaded_def Let_def)
  qed
qed

lemma pick_None:
  "fst (pick_least_loaded cs snaps tb quota d) = None \<longleftrightarrow> eligible_candidates cs snaps = []"
  by (auto simp: pick_least_loaded_def Let_def split: prod.split option.split)

lemma pick_no_quota:
  assumes "pick_least_loaded cs snaps tb [] d = (Some h, d')" and "i \<in> set (eligible_candidates cs snaps)"
  shows "\<not> f64_lt (headroom snaps h) (headroom snaps i)"
proof -
  let ?p = "eligible_candidates cs snaps"
  have ne: "?p \<noteq> []" using assms(2) by auto
  have "tied_best (headroom snaps) ?p \<noteq> []" using ne by (intro tied_best_nonempty) simp_all
  then have "h \<in> set (tied_best (headroom snaps) ?p)"
    using assms(1) ne by (auto simp: pick_least_loaded_def restrict_by_quota_def Let_def)
  then show ?thesis using assms(2) by (intro tied_best_maximal [of ?p]) simp_all
qed

lemma perm_upt: "distinct xs \<Longrightarrow> set xs = set [0..<n] \<Longrightarrow> mset xs = mset [0..<n]"
  using set_eq_iff_mset_eq_distinct [of xs "[0..<n]"] distinct_upt by blast

lemma order_home_first_perm:
  assumes "home < n"
  shows "mset (order_home_first home n) = mset [0..<n]"
proof -
  have "distinct (order_home_first home n)" by (simp add: order_home_first_def)
  moreover have "set (order_home_first home n) = set [0..<n]" using assms by (auto simp: order_home_first_def)
  ultimately show ?thesis by (rule perm_upt)
qed

lemma rotation_inj:
  assumes "i < n" and "j < n" and "(s + i) mod n = (s + j) mod n" and "i \<le> j"
  shows "i = (j::nat)"
proof -
  have "n dvd (s + j) - (s + i)"
    using assms(3,4) mod_eq_dvd_iff_nat [of "s + i" "s + j" n] by simp
  then have "n dvd j - i" by simp
  moreover have "j - i < n" using assms(2) by simp
  ultimately have "j - i = 0" using nat_dvd_not_less by blast
  then show ?thesis using assms(4) by simp
qed

lemma rotation_perm: "mset (map (\<lambda>i. (s + i) mod n) [0..<n]) = mset [0..<n]" if "0 < n"
proof -
  have "inj_on (\<lambda>i. (s + i) mod n) {0..<n}"
  proof (rule inj_onI)
    fix i j assume ij: "i \<in> {0..<n}" "j \<in> {0..<n}" and eq: "(s + i) mod n = (s + j) mod n"
    show "i = j" using ij eq rotation_inj [of i n j s] rotation_inj [of j n i s] by (cases "i \<le> j") auto
  qed
  then have d: "distinct (map (\<lambda>i. (s + i) mod n) [0..<n])" by (simp add: distinct_map)
  moreover have "set (map (\<lambda>i. (s + i) mod n) [0..<n]) \<subseteq> {0..<n}" using that by auto
  moreover have "card (set (map (\<lambda>i. (s + i) mod n) [0..<n])) = n" using distinct_card [OF d] by simp
  ultimately have "set (map (\<lambda>i. (s + i) mod n) [0..<n]) = set [0..<n]"
    by (metis card_atLeastLessThan card_subset_eq diff_zero finite_atLeastLessThan set_upt)
  then show ?thesis by (rule perm_upt [OF d])
qed

subsection \<open>A session over time\<close>

text \<open>What one keyed request does to its pin: the selector is asked with the pin's seat and marker, and
  a birth or a migration writes the pin. The environment of a request is its snapshots, tiebreak and
  quota tiers.\<close>

type_synonym pick_env = "CapacitySnapshot list \<times> usize \<times> SeatQuota list"

definition pin_after :: "(usize \<times> bool) option \<Rightarrow> SelectionOutcome \<Rightarrow> (usize \<times> bool) option" where
  "pin_after pin outcome = (case outcome of
     Birth home \<Rightarrow> Some (home, False)
   | OverflowRepin home \<Rightarrow> Some (home, True)
   | Stay home \<Rightarrow> pin
   | DeferNoHealthy \<Rightarrow> pin)"

definition session_outcome :: "usize \<Rightarrow> (usize \<times> bool) option \<Rightarrow> pick_env \<Rightarrow> SelectionOutcome" where
  "session_outcome n pin env = (case env of (snaps, tb, quota) \<Rightarrow>
     fst (snd (sticky_least_loaded_order n (map_option fst pin)
       (case pin of Some (h, r) \<Rightarrow> r | None \<Rightarrow> False) snaps tb quota)))"

fun session_run :: "usize \<Rightarrow> (usize \<times> bool) option \<Rightarrow> pick_env list \<Rightarrow> SelectionOutcome list" where
  "session_run n pin [] = []"
| "session_run n pin (env # envs) =
     (let out = session_outcome n pin env in out # session_run n (pin_after pin out) envs)"

lemma session_outcome_pinned:
  "session_outcome n (Some (h, r)) (snaps, tb, quota) \<in> {Stay h, Stay 0} \<or>
   (\<exists>h'. session_outcome n (Some (h, r)) (snaps, tb, quota) = OverflowRepin h' \<and> \<not> r \<and> h' \<noteq> h)"
  using pick_mem [of "filter (\<lambda>i. i \<noteq> h) [0..<n]" snaps tb "[]" Dormant]
    eligible_subset [of "filter (\<lambda>i. i \<noteq> h) [0..<n]" snaps]
  by (auto simp: session_outcome_def sticky_least_loaded_order_def split: prod.split option.split)

lemma session_run_repinned: "\<forall>out \<in> set (session_run n (Some (h, True)) envs). is_Stay out"
proof (induction envs)
  case (Cons env envs)
  obtain snaps tb quota where env: "env = (snaps, tb, quota)" by (cases env)
  have "is_Stay (session_outcome n (Some (h, True)) env)"
    using session_outcome_pinned [of n h True snaps tb quota] by (auto simp: env)
  then show ?case using Cons by (cases "session_outcome n (Some (h, True)) env") (auto simp: pin_after_def Let_def)
qed simp

lemma session_run_born:
  "length (filter is_OverflowRepin (session_run n (Some (h, r)) envs)) \<le> 1 \<and>
   \<not> list_ex is_Birth (session_run n (Some (h, r)) envs)"
proof (induction envs)
  case (Cons env envs)
  obtain snaps tb quota where env: "env = (snaps, tb, quota)" by (cases env)
  let ?o = "session_outcome n (Some (h, r)) env"
  consider (stay) x where "?o = Stay x" | (move) h' where "?o = OverflowRepin h'"
    using session_outcome_pinned [of n h r snaps tb quota] by (auto simp: env)
  then show ?case
  proof cases
    case stay
    then show ?thesis using Cons by (simp add: pin_after_def Let_def)
  next
    case move
    have "filter is_OverflowRepin (session_run n (Some (h', True)) envs) = []"
      "\<not> list_ex is_Birth (session_run n (Some (h', True)) envs)"
      using session_run_repinned [of n h' envs]
      by (auto simp: filter_empty_conv list_ex_iff is_Stay_def)
    then show ?thesis using move by (simp add: pin_after_def Let_def)
  qed
qed simp

lemma seat_order_perm: "mset (snd (seat_order_for_request key n sel rr heap)) = mset [0..<n]"
proof (cases "n \<le> 1")
  case False
  show ?thesis
  proof (cases sel)
    case RoundRobin
    obtain heap' s where ns: "next_start rr key heap = (heap', s)" by force
    show ?thesis
      using False rotation_perm [of n "(case s of Some w \<Rightarrow> unat w | None \<Rightarrow> 0) mod n"]
      by (simp add: seat_order_for_request_def RoundRobin ns)
  qed (use False rotation_perm [of n 0] in \<open>simp_all add: seat_order_for_request_def\<close>)
qed (simp add: seat_order_for_request_def)

lemma keyless_perm:
  assumes "fst (keyless_quota_order n snaps quota tb d) = Some order"
  shows "mset order = mset [0..<n]"
proof -
  let ?p = "eligible_candidates [0..<n] snaps"
  obtain tied qd where r: "restrict_by_quota ?p quota = (qd, Some tied)"
    and order: "order = order_home_first (tied ! (tb mod length tied)) n"
    using assms by (auto simp: keyless_quota_order_def order_home_first_def Let_def split: if_splits prod.splits option.splits)
  have "tied ! (tb mod length tied) \<in> set ?p"
    using restrict_result [OF r] mod_length_mem [of tied tb] by blast
  then have "tied ! (tb mod length tied) < n" using eligible_subset [of "[0..<n]" snaps] by auto
  then show ?thesis unfolding order by (rule order_home_first_perm)
qed

lemma pick_bound:
  assumes "pick_least_loaded cs snaps tb q d = (Some h, qd)" and "set cs \<subseteq> {0..<n}"
  shows "h < n"
  using pick_mem [OF assms(1)] eligible_subset [of cs snaps] assms(2) by auto

lemma sticky_order_shape:
  assumes "1 < n" and "\<And>h. pinned = Some h \<Longrightarrow> h < n"
    and "sticky_least_loaded_order n pinned repinned snaps tb quota = (order, out, qd)"
  shows "\<exists>h < n. order = order_home_first h n \<and> h = (if out = DeferNoHealthy then 0 else outcome_home out)"
proof (cases pinned)
  case None
  obtain pick d where p: "pick_least_loaded [0..<n] snaps tb quota Dormant = (pick, d)" by force
  show ?thesis
  proof (cases pick)
    case (Some h)
    then have "h < n" using pick_bound [of "[0..<n]" snaps tb quota Dormant h d n] p by simp
    then show ?thesis using assms(1,3) None p Some by (auto simp: sticky_least_loaded_order_def)
  qed (use assms None p in \<open>auto simp: sticky_least_loaded_order_def\<close>)
next
  case (Some h)
  let ?cs = "filter (\<lambda>i. i \<noteq> h) [0..<n]"
  obtain pick d where p: "pick_least_loaded ?cs snaps tb [] Dormant = (pick, d)" by force
  have h: "h < n" using assms(2) Some .
  show ?thesis
  proof (cases "is_dispatchable (snaps ! h) \<or> repinned \<or> pick = None")
    case True
    then show ?thesis using assms(1,3) Some p h by (auto simp: sticky_least_loaded_order_def split: if_splits)
  next
    case False
    then obtain h' where h': "pick = Some h'" by blast
    have "h' < n" by (rule pick_bound [of ?cs snaps tb "[]" Dormant h' d]) (use p h' in auto)
    then show ?thesis using False assms(1,3) Some p h' by (auto simp: sticky_least_loaded_order_def)
  qed
qed

text \<open>Requests of one rotation key spread over routers that share cursors.\<close>

fun starts :: "RoundRobinCursors list \<Rightarrow> string \<Rightarrow> cells \<Rightarrow> 64 word option list" where
  "starts [] key heap = []"
| "starts (rr # rrs) key heap = (let (heap', s) = next_start rr key heap in s # starts rrs key heap')"

lemma starts_shared:
  assumes "\<forall>rr \<in> set rrs. cursors rr key = Some a"
  shows "starts rrs key heap = map (\<lambda>i. Some (heap a + of_nat i)) [0..<length rrs]"
  using assms
proof (induction rrs arbitrary: heap)
  case (Cons rr rrs)
  have "map (\<lambda>i. Some (heap a + of_nat i)) [0..<Suc (length rrs)]
      = Some (heap a) # map (\<lambda>i. Some ((heap(a := heap a + 1)) a + of_nat i)) [0..<length rrs]"
    by (simp add: upt_conv_Cons map_Suc_upt [symmetric] add.assoc comp_def del: upt_Suc map_Suc_upt)
  then show ?case using Cons by (simp add: next_start_def)
qed simp

subsection \<open>Properties\<close>

text \<open>Every seat order is a permutation of the pool: round-robin, fill-first, the keyless quota
  walk and the sticky walk try each seat exactly once, so no seat is lost from the fallback walk;
  and the sticky walk starts at the seat its outcome names.\<close>

lemma seat_orders_are_permutations:
  assumes "\<forall>h. pinned = Some h \<longrightarrow> h < n"
  shows "mset (snd (seat_order_for_request key n sel rr heap)) = mset [0..<n] \<and>
    (\<forall>order. fst (keyless_quota_order n snaps quota tb d) = Some order \<longrightarrow> mset order = mset [0..<n]) \<and>
    (case sticky_least_loaded_order n pinned repinned snaps tb quota of (order, outcome, qd) \<Rightarrow>
       mset order = mset [0..<n] \<and>
       (1 < n \<longrightarrow> hd order = (if outcome = DeferNoHealthy then 0 else outcome_home outcome)))"
proof (intro conjI)
  show "mset (snd (seat_order_for_request key n sel rr heap)) = mset [0..<n]"
    by (rule seat_order_perm)
  show "\<forall>order. fst (keyless_quota_order n snaps quota tb d) = Some order \<longrightarrow> mset order = mset [0..<n]"
    using keyless_perm by blast
  obtain order out qd where s: "sticky_least_loaded_order n pinned repinned snaps tb quota = (order, out, qd)"
    by (cases "sticky_least_loaded_order n pinned repinned snaps tb quota") auto
  show "case sticky_least_loaded_order n pinned repinned snaps tb quota of (order, outcome, qd) \<Rightarrow>
       mset order = mset [0..<n] \<and>
       (1 < n \<longrightarrow> hd order = (if outcome = DeferNoHealthy then 0 else outcome_home outcome))"
  proof (cases "1 < n")
    case True
    obtain h where h: "h < n" "order = order_home_first h n"
      "h = (if out = DeferNoHealthy then 0 else outcome_home out)"
      using sticky_order_shape [OF True _ s] assms by blast
    have "hd order = h" by (simp add: h(2) order_home_first_def)
    then show ?thesis unfolding s prod.case using h order_home_first_perm [OF h(1)] by simp
  next
    case False
    then show ?thesis unfolding s prod.case using s by (simp add: sticky_least_loaded_order_def)
  qed
qed

lemma seat_orders_are_permutations_witness:
  "mset (snd (seat_order_for_request ''p'' 2 RoundRobin \<lparr>cursors = [''p'' \<mapsto> 0]\<rparr> (\<lambda>_. 7))) = mset [0..<2]"
  using seat_orders_are_permutations [of "Some 1" 2 "''p''" RoundRobin "\<lparr>cursors = [''p'' \<mapsto> 0]\<rparr>" "\<lambda>_. 7"]
  by simp

text \<open>A warm session is never moved by a budget: for a pinned session neither the walk, nor the
  outcome, nor the decision depends on the quota tiers, and a pin whose seat is dispatchable is kept
  with that seat first and without a tiebreak being consulted.\<close>

lemma pinned_ignores_quota:
  assumes "1 < n"
  shows "sticky_least_loaded_order n (Some h) r snaps tb quota = sticky_least_loaded_order n (Some h) r snaps tb quota' \<and>
    (is_dispatchable (snaps ! h) \<longrightarrow>
       sticky_least_loaded_order n (Some h) r snaps tb quota = (order_home_first h n, Stay h, Dormant))"
  using assms by (simp add: sticky_least_loaded_order_def)

text \<open>A pool of two seats, the first parked.\<close>

definition sample_snaps :: "CapacitySnapshot list" where
  "sample_snaps = [\<lparr>rpm_available = None, circuit = Open\<rparr>, \<lparr>rpm_available = None, circuit = Closed\<rparr>]"

lemmas sample_snaps_simps = sample_snaps_def is_dispatchable_def sticky_least_loaded_order_def
  pick_least_loaded_def eligible_candidates_def get_at_def restrict_by_quota_def tied_best_def max_score_def
  headroom_def f64_max_def f64_eq_def order_home_first_def

lemma pinned_ignores_quota_witness:
  "sticky_least_loaded_order 2 (Some 1) False sample_snaps 5 [AtCap 0, AtCap 0] = (order_home_first 1 2, Stay 1, Dormant)"
  using pinned_ignores_quota [of 2 1 False sample_snaps 5 "[AtCap 0, AtCap 0]" "[]", THEN conjunct2]
  by (simp add: sample_snaps_def is_dispatchable_def)

text \<open>A session migrates at most once: after its birth, whatever the capacity, quota and
  tiebreaks of its later requests, at most one of them moves it and none is a new birth; after the
  move it stays for good, so it can never flap back.\<close>

lemma session_migrates_at_most_once:
  "length (filter is_OverflowRepin (session_run n (Some (h, r)) envs)) \<le> 1 \<and>
   (\<forall>out \<in> set (session_run n (Some (h, r)) envs). \<not> is_Birth out) \<and>
   (r \<longrightarrow> (\<forall>out \<in> set (session_run n (Some (h, r)) envs). is_Stay out))"
  using session_run_born [of n h r envs] session_run_repinned [of n h envs]
  by (cases r) (auto simp: list_ex_iff)

lemma session_migrates_at_most_once_witness:
  "length (filter is_OverflowRepin (session_run 2 (Some (0, True)) [(sample_snaps, 0, [])])) \<le> 1 \<and>
   is_Stay (hd (session_run 2 (Some (0, True)) [(sample_snaps, 0, [])]))"
  using session_migrates_at_most_once [of 2 0 True "[(sample_snaps, 0, [])]"] by (simp add: Let_def)

text \<open>A birth picks a healthy seat: the chosen seat exists and is dispatchable, is closed whenever
  some dispatchable seat is closed, and without quota has the most request headroom among the
  eligible; the pick is deferred exactly when no seat is dispatchable.\<close>

lemma birth_picks_healthy:
  assumes "1 < n" and "length snaps = n"
    and "sticky_least_loaded_order n None False snaps tb quota = (order, outcome, qd)"
  shows "(outcome = DeferNoHealthy \<longleftrightarrow> (\<forall>i < n. \<not> is_dispatchable (snaps ! i))) \<and>
    (\<forall>home. outcome = Birth home \<longrightarrow> home < n \<and> is_dispatchable (snaps ! home) \<and>
       ((\<exists>i < n. is_dispatchable (snaps ! i) \<and> circuit (snaps ! i) = Closed) \<longrightarrow> circuit (snaps ! home) = Closed) \<and>
       (quota = [] \<longrightarrow> (\<forall>i \<in> set (eligible_candidates [0..<n] snaps).
          \<not> f64_lt (headroom snaps home) (headroom snaps i))))"
proof -
  obtain pick d where p: "pick_least_loaded [0..<n] snaps tb quota Dormant = (pick, d)" by force
  have none: "pick = None \<longleftrightarrow> (\<forall>i < n. \<not> is_dispatchable (snaps ! i))"
    using pick_None [of "[0..<n]" snaps tb quota Dormant] p assms(2) by (auto simp: eligible_empty)
  show ?thesis
  proof (cases pick)
    case None
    then show ?thesis using assms(1,3) p none by (auto simp: sticky_least_loaded_order_def)
  next
    case (Some home)
    then have o: "outcome = Birth home" using assms(1,3) p by (simp add: sticky_least_loaded_order_def)
    have mem: "home \<in> set (eligible_candidates [0..<n] snaps)" using pick_mem p Some by blast
    have "\<forall>i < n. is_dispatchable (snaps ! i) \<and> circuit (snaps ! i) = Closed \<longrightarrow> circuit (snaps ! home) = Closed"
      using eligible_closed [OF mem] assms(2) by auto
    moreover have "quota = [] \<Longrightarrow> \<forall>i \<in> set (eligible_candidates [0..<n] snaps).
        \<not> f64_lt (headroom snaps home) (headroom snaps i)"
      using pick_no_quota [of "[0..<n]" snaps tb Dormant home d] p Some by blast
    ultimately show ?thesis
      using o none Some eligible_dispatchable [OF mem] assms(2) by auto
  qed
qed

lemma birth_picks_healthy_witness:
  "1 < (2::usize) \<and> is_dispatchable (sample_snaps ! 1) \<and> circuit (sample_snaps ! 1) = Closed"
  using birth_picks_healthy [of 2 sample_snaps 3 "[]" "[1, 0]" "Birth 1" Dormant]
  by (simp add: sample_snaps_simps upt_rec)

text \<open>Runtime-state keys are unambiguous: with names that pass the name check, the keys of two
  seats (or direct models) agree only if their models and members agree, and splitting a key gives
  back its halves.\<close>

lemma state_keys_unambiguous:
  assumes "check_state_key_name r1 n1 = Inr ()" and "check_state_key_name r2 n2 = Inr ()"
  shows "(seat_state_key n1 l1 = seat_state_key n2 l2 \<longleftrightarrow> n1 = n2 \<and> l1 = l2) \<and>
    split_seat_state_key (seat_state_key n1 l1) = map_option (Pair n1) l1"
proof -
  have sep: "SEAT_KEY_SEPARATOR \<notin> set n1" "SEAT_KEY_SEPARATOR \<notin> set n2"
    using assms by (auto simp: check_state_key_name_def split: if_splits)
  have split: "split_seat_state_key (seat_state_key n l) = map_option (Pair n) l"
    if "SEAT_KEY_SEPARATOR \<notin> set n" for n l
    using that by (cases l) (simp_all add: split_seat_state_key_def seat_state_key_def split_once_join split_once_None)
  have "n1 = n2 \<and> l1 = l2" if eq: "seat_state_key n1 l1 = seat_state_key n2 l2"
  proof -
    have "map_option (Pair n1) l1 = map_option (Pair n2) l2" using split sep eq by metis
    then show ?thesis using eq by (cases l1; cases l2) (auto simp: seat_state_key_def)
  qed
  then show ?thesis using split sep by auto
qed

lemma state_keys_unambiguous_witness:
  "(seat_state_key ''m'' None = seat_state_key ''m'' (Some ''a#b'') \<longleftrightarrow> ''m'' = ''m'' \<and> None = Some ''a#b'') \<and>
    split_seat_state_key (seat_state_key ''m'' None) = map_option (Pair ''m'') None"
  by (rule state_keys_unambiguous [of "''model''" _ "''model''"]) (simp_all add: check_state_key_name_def SEAT_KEY_SEPARATOR_def)

text \<open>A reload never hands out a start twice: requests interleaved in any order over the outgoing
  router and the incoming one that adopted its cursors see one counter, advanced by one each.\<close>

lemma cursor_shared_across_reload:
  assumes "cursors old key = Some a" and "cursors fresh key \<noteq> None"
    and "set rrs \<subseteq> {old, carry_over_from fresh old}"
  shows "starts rrs key heap = map (\<lambda>i. Some (heap a + of_nat i)) [0..<length rrs]"
  using assms by (intro starts_shared) (auto simp: carry_over_from_def)

lemma cursor_shared_across_reload_witness:
  "starts [\<lparr>cursors = [''p'' \<mapsto> 0]\<rparr>, carry_over_from \<lparr>cursors = [''p'' \<mapsto> 9]\<rparr> \<lparr>cursors = [''p'' \<mapsto> 0]\<rparr>] ''p'' (\<lambda>_. 7)
     = map (\<lambda>i. Some (7 + of_nat i)) [0..<2]"
  using cursor_shared_across_reload [of "\<lparr>cursors = [''p'' \<mapsto> 0]\<rparr>" "''p''" 0 "\<lparr>cursors = [''p'' \<mapsto> 9]\<rparr>"
      "[\<lparr>cursors = [''p'' \<mapsto> 0]\<rparr>, carry_over_from \<lparr>cursors = [''p'' \<mapsto> 9]\<rparr> \<lparr>cursors = [''p'' \<mapsto> 0]\<rparr>]" "\<lambda>_. 7"]
  by (simp add: eval_nat_numeral)

end
