(* ===== verification/Runtime_Gate.thy ===== *)
theory Runtime_Gate
  imports Runtime_State
begin

text \<open>
  The router's use of the per-target gates (\<open>routectl-router/src/router/runtime_gate.rs\<close>): the map
  of slots by state key, admission with its refusal errors, the settlement calls, and the drop guard
  that releases a claimed half-open slot. A guard holds the slot it may release; here that is the
  state key, since one router never replaces the slot behind a key. The clock reading each method
  takes is the argument \<open>now\<close>. The guards over the learned-capability registry are not part of
  this theory.
\<close>

subsection \<open>Slots and guards\<close>

type_synonym gates = "string \<rightharpoonup> ProviderState"

record ProbeSlotGuard =
  guard_slot :: "string option"

definition guard_new :: "string option \<Rightarrow> ProbeSlotGuard" where
  "guard_new slot = \<lparr>guard_slot = slot\<rparr>"

definition disarm :: "ProbeSlotGuard \<Rightarrow> ProbeSlotGuard" where
  "disarm g = g\<lparr>guard_slot := None\<rparr>"

definition guard_drop :: "ProbeSlotGuard \<Rightarrow> gates \<Rightarrow> gates" where
  "guard_drop g gs = (case guard_slot g of
     None \<Rightarrow> gs
   | Some key \<Rightarrow> (case gs key of None \<Rightarrow> gs | Some s \<Rightarrow> gs(key \<mapsto> release_probe_slot s)))"

subsection \<open>Admission\<close>

definition refusal_of :: "GateDecision \<Rightarrow> string \<Rightarrow> (string \<times> Error) option" where
  "refusal_of d provider = (case d of
     Allow \<Rightarrow> None
   | GateDecision.RateLimited \<Rightarrow> Some (''rate_limit'', upstream provider 0 ''local rpm_limit exceeded'')
   | CircuitOpen \<Rightarrow> Some (''circuit_breaker'', upstream provider 0 ''circuit breaker open''))"

definition admit ::
  "gates \<Rightarrow> instant \<Rightarrow> string \<Rightarrow> string \<Rightarrow> AdmissionKind \<Rightarrow>
   gates \<times> (string \<times> Error) option \<times> ProbeSlotGuard" where
  "admit gs now state_key provider kind = (case gs state_key of
     None \<Rightarrow> (gs, None, guard_new None)
   | Some state \<Rightarrow>
       (let (state', admission) = (case kind of
              ClientDispatch \<Rightarrow> try_dispatch_admitting state now
            | BackgroundProbe \<Rightarrow> try_dispatch_probe state now);
            guard = (if claimed_half_open admission then guard_new (Some state_key) else guard_new None)
        in (gs(state_key \<mapsto> state'), refusal_of (decision admission) provider, guard)))"

definition admit_dispatch ::
  "gates \<Rightarrow> instant \<Rightarrow> string \<Rightarrow> string \<Rightarrow> gates \<times> (string \<times> Error) option \<times> ProbeSlotGuard" where
  "admit_dispatch gs now state_key provider = admit gs now state_key provider ClientDispatch"

definition admit_probe_dispatch ::
  "gates \<Rightarrow> instant \<Rightarrow> string \<Rightarrow> string \<Rightarrow> gates \<times> (string \<times> Error) option \<times> ProbeSlotGuard" where
  "admit_probe_dispatch gs now state_key provider = admit gs now state_key provider BackgroundProbe"

definition gate_check :: "gates \<Rightarrow> instant \<Rightarrow> string \<Rightarrow> string \<Rightarrow> gates \<times> (string \<times> Error) option" where
  "gate_check gs now state_key provider =
     (let (gs', refusal, guard) = admit_dispatch gs now state_key provider
      in (guard_drop (disarm guard) gs', refusal))"

subsection \<open>Settlement\<close>

definition with_slot :: "string \<Rightarrow> (ProviderState \<Rightarrow> ProviderState) \<Rightarrow> gates \<Rightarrow> gates" where
  "with_slot key f gs = (case gs key of None \<Rightarrow> gs | Some s \<Rightarrow> gs(key \<mapsto> f s))"

definition gate_record_success :: "gates \<Rightarrow> instant \<Rightarrow> string \<Rightarrow> gates" where
  "gate_record_success gs now key = with_slot key (\<lambda>s. record_success s now) gs"

definition record_failure_opened :: "gates \<Rightarrow> instant \<Rightarrow> string \<Rightarrow> LastOutcome \<Rightarrow> gates \<times> bool" where
  "record_failure_opened gs now key outcome = (case gs key of
     None \<Rightarrow> (gs, False)
   | Some s \<Rightarrow> (let (s', opened) = record_failure s now outcome in (gs(key \<mapsto> s'), opened)))"

definition gate_record_failure :: "gates \<Rightarrow> instant \<Rightarrow> string \<Rightarrow> LastOutcome \<Rightarrow> gates" where
  "gate_record_failure gs now key outcome = fst (record_failure_opened gs now key outcome)"

definition park_provider :: "gates \<Rightarrow> instant \<Rightarrow> string \<Rightarrow> duration \<Rightarrow> gates" where
  "park_provider gs now key cooldown = with_slot key (\<lambda>s. force_open s now cooldown) gs"

definition gate_release_probe_slot :: "gates \<Rightarrow> string \<Rightarrow> gates" where
  "gate_release_probe_slot gs key = with_slot key release_probe_slot gs"

definition is_half_open_probe :: "gates \<Rightarrow> string \<Rightarrow> bool" where
  "is_half_open_probe gs key = (case gs key of None \<Rightarrow> False | Some s \<Rightarrow> half_open_probe_in_flight s)"

definition probe_slot_guard :: "gates \<Rightarrow> string \<Rightarrow> ProbeSlotGuard" where
  "probe_slot_guard gs key =
     (if is_half_open_probe gs key
      then guard_new (case gs key of None \<Rightarrow> None | Some s \<Rightarrow> Some key)
      else guard_new None)"

definition is_probe_request :: "u32 option \<Rightarrow> RetryPolicy \<Rightarrow> bool" where
  "is_probe_request max_tokens policy \<longleftrightarrow> 0 < probe_max_tokens policy \<and>
     (case max_tokens of None \<Rightarrow> False | Some m \<Rightarrow> m \<le> probe_max_tokens policy)"

subsection \<open>The slot contract\<close>

text \<open>What a holder of a claimed slot relies on: admission claims only a free slot and reports the
  claim it took, a refusal claims nothing, and every settlement frees the slot.\<close>

locale probe_slot =
  fixes in_flight :: "'s \<Rightarrow> bool" and admit_slot :: "'t \<Rightarrow> 's \<Rightarrow> 's \<times> bool"
    and settle :: "'e \<Rightarrow> 's \<Rightarrow> 's" and free :: "'s \<Rightarrow> 's"
  assumes claim_free: "admit_slot t s = (s', True) \<Longrightarrow> \<not> in_flight s \<and> in_flight s'"
    and no_claim: "admit_slot t s = (s', False) \<Longrightarrow> in_flight s' \<longrightarrow> in_flight s"
    and settle_frees: "\<not> in_flight (settle e s)"
    and free_frees: "\<not> in_flight (free s)"
begin

text \<open>Read right after an admission that found the slot free, the slot's bit tells whether that admission
  claimed it; while the slot is held no admission claims.\<close>

lemma bit_is_own_claim: "\<not> in_flight s \<Longrightarrow> admit_slot t s = (s', c) \<Longrightarrow> in_flight s' \<longleftrightarrow> c"
  using claim_free no_claim by (cases c) auto

lemma held_slot_not_claimed:
  "in_flight s \<Longrightarrow> admit_slot t s = (s', c) \<Longrightarrow> \<not> c"
  using claim_free by (cases c) auto

end

datatype settlement = Succeeded instant | Failed instant FailureClass | Parked instant duration | Freed

fun settle_slot :: "settlement \<Rightarrow> ProviderState \<Rightarrow> ProviderState" where
  "settle_slot (Succeeded now) s = record_success s now"
| "settle_slot (Failed now cls) s = fst (record_failure s now (last_outcome_of cls))"
| "settle_slot (Parked now d) s = force_open s now d"
| "settle_slot Freed s = release_probe_slot s"

definition admit_slot_of :: "instant \<times> AdmissionKind \<Rightarrow> ProviderState \<Rightarrow> ProviderState \<times> bool" where
  "admit_slot_of tk s = map_prod id claimed_half_open (try_dispatch_inner s (fst tk) (snd tk))"

lemma rpm_gate_in_flight:
  "half_open_in_flight (fst (rpm_gate s now b)) \<Longrightarrow> half_open_in_flight s"
  "half_open_in_flight (fst (rpm_gate s now True)) \<Longrightarrow> circuit_opened_at s \<noteq> None \<Longrightarrow>
     claimed_half_open (snd (rpm_gate s now True))"
  by (auto simp: rpm_gate_def Let_def split: option.splits if_splits)

lemma unclaimed_in_flight:
  assumes "\<not> claimed_half_open (snd (try_dispatch_inner s now kind))"
    and "half_open_in_flight (fst (try_dispatch_inner s now kind))"
  shows "half_open_in_flight s"
proof (cases rule: try_dispatch_inner_cases [of s now kind])
  case (recover t)
  then show ?thesis
    using assms rpm_gate_in_flight(2) [of "s\<lparr>half_open_in_flight := True\<rparr>" now] by simp
qed (use assms rpm_gate_in_flight(1) in auto)

lemma settle_slot_frees: "\<not> half_open_in_flight (settle_slot e s)"
  by (cases e) (simp_all add: settle_defs Let_def split: option.split)

interpretation breaker_slot: probe_slot half_open_in_flight admit_slot_of settle_slot release_probe_slot
proof unfold_locales
  fix tk s s'
  show "\<not> half_open_in_flight s \<and> half_open_in_flight s'" if "admit_slot_of tk s = (s', True)"
    using that claim_state [of s "fst tk" "snd tk"] by (auto simp: admit_slot_of_def map_prod_def split: prod.splits)
  show "half_open_in_flight s' \<longrightarrow> half_open_in_flight s" if "admit_slot_of tk s = (s', False)"
    using that unclaimed_in_flight [of s "fst tk" "snd tk"]
    by (auto simp: admit_slot_of_def map_prod_def split: prod.splits)
qed (simp_all add: settle_slot_frees release_probe_slot_def)

subsection \<open>The operations on one slot\<close>

lemma settle_slot_ops:
  "gate_record_success gs now key = with_slot key (settle_slot (Succeeded now)) gs"
  "gate_record_failure gs now key (last_outcome_of cls) = with_slot key (settle_slot (Failed now cls)) gs"
  "park_provider gs now key d = with_slot key (settle_slot (Parked now d)) gs"
  "gate_release_probe_slot gs key = with_slot key (settle_slot Freed) gs"
  by (auto simp: gate_record_success_def gate_record_failure_def park_provider_def
      gate_release_probe_slot_def record_failure_opened_def with_slot_def split: option.split prod.split)

lemma admit_dispatch_slot:
  assumes "gs key = Some s"
  shows "admit_dispatch gs now key provider =
    (gs(key \<mapsto> fst (try_dispatch_admitting s now)),
     refusal_of (decision (snd (try_dispatch_admitting s now))) provider,
     guard_new (if claimed_half_open (snd (try_dispatch_admitting s now)) then Some key else None))"
  using assms by (simp add: admit_dispatch_def admit_def case_prod_unfold Let_def)

lemma admit_dispatch_no_slot:
  "gs key = None \<Longrightarrow> admit_dispatch gs now key provider = (gs, None, guard_new None)"
  by (simp add: admit_dispatch_def admit_def)

lemma guard_drop_simps [simp]:
  "guard_slot (guard_new slot) = slot"
  "guard_drop (guard_new None) gs = gs"
  "guard_drop (disarm g) gs = gs"
  "guard_drop (guard_new (Some key)) gs = with_slot key release_probe_slot gs"
  by (simp_all add: guard_drop_def guard_new_def disarm_def with_slot_def split: option.split)

lemma gate_check_slot:
  "gate_check gs now key provider =
     (fst (admit_dispatch gs now key provider), fst (snd (admit_dispatch gs now key provider)))"
  by (simp add: gate_check_def case_prod_unfold Let_def)

lemma refusal_of_None [simp]: "refusal_of d provider = None \<longleftrightarrow> d = Allow"
  by (cases d) (simp_all add: refusal_of_def)

lemma refusal_of_Allow [simp]: "refusal_of Allow provider = None"
  by simp

subsection \<open>The guard of a dispatch\<close>

text \<open>A granted dispatch found the slot free; it has claimed it, or the circuit is closed.\<close>

lemma granted_dispatch:
  assumes inv: "breaker_ok s" and allow: "decision (snd (try_dispatch_admitting s now)) = Allow"
  shows "\<not> half_open_in_flight s"
    and "half_open_in_flight (fst (try_dispatch_admitting s now)) \<longleftrightarrow> claimed_half_open (snd (try_dispatch_admitting s now))"
    and "half_open_in_flight (fst (try_dispatch_admitting s now)) \<longleftrightarrow> circuit_opened_at (fst (try_dispatch_admitting s now)) \<noteq> None"
proof -
  show free: "\<not> half_open_in_flight s"
  proof
    assume "half_open_in_flight s"
    moreover from this have "circuit_opened_at s \<noteq> None"
      using inv by (auto simp: breaker_ok_def)
    ultimately show False using allow by (auto simp: try_dispatch_admitting_def dispatch_blocked refused_def)
  qed
  show own: "half_open_in_flight (fst (try_dispatch_admitting s now)) \<longleftrightarrow> claimed_half_open (snd (try_dispatch_admitting s now))"
    using breaker_slot.bit_is_own_claim [OF free, of "(now, ClientDispatch)"]
    by (simp add: admit_slot_of_def try_dispatch_admitting_def map_prod_def split: prod.splits)
  show "half_open_in_flight (fst (try_dispatch_admitting s now)) \<longleftrightarrow> circuit_opened_at (fst (try_dispatch_admitting s now)) \<noteq> None"
    unfolding own
    by (cases rule: try_dispatch_inner_cases [of s now ClientDispatch])
      (use allow in \<open>auto simp: try_dispatch_admitting_def refused_def rpm_gate_def refill_tokens_def Let_def split: option.splits if_splits\<close>)
qed

text \<open>What the gate checks of other dispatches do to a slot that is held, or whose circuit is closed.\<close>

lemma gate_check_other_key: "k \<noteq> key \<Longrightarrow> fst (gate_check gs t k p) key = gs key"
  by (cases "gs k") (simp_all add: gate_check_slot admit_dispatch_no_slot admit_dispatch_slot)

lemma gate_check_held:
  assumes "gs key = Some s" and "half_open_in_flight s" and "circuit_opened_at s \<noteq> None"
  shows "fst (gate_check gs t key p) key = Some s"
  using assms by (auto simp: gate_check_slot admit_dispatch_slot [of gs key s] try_dispatch_admitting_def dispatch_blocked)

lemma gate_check_closed:
  assumes "gs key = Some s" and "\<not> half_open_in_flight s" and "circuit_opened_at s = None"
  shows "\<exists>s'. fst (gate_check gs t key p) key = Some s' \<and> \<not> half_open_in_flight s' \<and> circuit_opened_at s' = None"
  using assms by (simp add: gate_check_slot admit_dispatch_slot [of gs key s] try_dispatch_admitting_def
      try_dispatch_inner_def rpm_gate_def refill_tokens_def Let_def split: option.split)

lemma gate_checks_held:
  assumes "gs key = Some s" and "half_open_in_flight s" and "circuit_opened_at s \<noteq> None"
  shows "foldl (\<lambda>gs (t, k, p). fst (gate_check gs t k p)) gs others key = Some s"
  using assms(1)
proof (induction others arbitrary: gs)
  case (Cons x xs)
  obtain t k p where x: "x = (t, k, p)" by (cases x)
  have "fst (gate_check gs t k p) key = Some s"
    using gate_check_held [of gs key s t p, OF Cons.prems assms(2,3)] gate_check_other_key [of k key gs t p] Cons.prems by (cases "k = key") auto
  from Cons.IH [of "fst (gate_check gs t k p)", OF this] show ?case by (simp add: x)
qed simp

lemma gate_checks_closed:
  assumes "gs key = Some s" and "\<not> half_open_in_flight s" and "circuit_opened_at s = None"
  shows "\<exists>s'. foldl (\<lambda>gs (t, k, p). fst (gate_check gs t k p)) gs others key = Some s' \<and> \<not> half_open_in_flight s'"
  using assms
proof (induction others arbitrary: gs s)
  case (Cons x xs)
  obtain t k p where x: "x = (t, k, p)" by (cases x)
  obtain s' where "fst (gate_check gs t k p) key = Some s'" "\<not> half_open_in_flight s'" "circuit_opened_at s' = None"
    using gate_check_closed [of gs key s t p, OF Cons.prems] gate_check_other_key [of k key gs t p] Cons.prems by (cases "k = key") auto
  from Cons.IH [of "fst (gate_check gs t k p)", OF this] show ?case by (simp add: x)
qed simp

lemma gate_checks_absent:
  "gs key = None \<Longrightarrow> foldl (\<lambda>gs (t, k, p). fst (gate_check gs t k p)) gs others key = None"
proof (induction others arbitrary: gs)
  case (Cons x xs)
  obtain t k p where x: "x = (t, k, p)" by (cases x)
  have "fst (gate_check gs t k p) key = None"
    using gate_check_other_key [of k key gs t p] Cons.prems
    by (cases "k = key") (auto simp: gate_check_slot admit_dispatch_no_slot)
  from Cons.IH [of "fst (gate_check gs t k p)", OF this] show ?case by (simp add: x)
qed simp

subsection \<open>Properties\<close>

text \<open>C9. The guard a dispatch holds owns exactly its own claim. The gate check discards the guard of its
  admission, and the dispatch derives it again from the shared bit: from any gate state that keeps the
  breaker invariant (every reachable one does, C39), the guard derived right after a granted check is the
  one the admission had, armed exactly when this dispatch claimed the half-open slot. Dropped later,
  whatever gate checks other dispatches of any target ran in between, it leaves the slot free and every
  other target's gate alone; and if it is armed, none of those checks changed the gate it holds. (A
  settlement in between ends the claim.)\<close>

theorem rederived_guard_owns_claim:
  assumes "\<forall>s. gs key = Some s \<longrightarrow> breaker_ok s"
    and "gate_check gs now key provider = (gs', None)"
    and "later = foldl (\<lambda>gs (t, k, p). fst (gate_check gs t k p)) gs' others"
  shows "probe_slot_guard gs' key = snd (snd (admit_dispatch gs now key provider))
    \<and> (guard_slot (probe_slot_guard gs' key) = Some key \<or> guard_slot (probe_slot_guard gs' key) = None)
    \<and> (guard_slot (probe_slot_guard gs' key) = Some key \<longrightarrow> \<not> is_half_open_probe gs key \<and> later key = gs' key)
    \<and> (guard_slot (probe_slot_guard gs' key) = None \<longrightarrow> guard_drop (probe_slot_guard gs' key) later = later)
    \<and> \<not> is_half_open_probe (guard_drop (probe_slot_guard gs' key) later) key
    \<and> (\<forall>k. k \<noteq> key \<longrightarrow> guard_drop (probe_slot_guard gs' key) later k = later k)"
proof (cases "gs key")
  case None
  then have "gs' = gs" and "probe_slot_guard gs' key = guard_new None"
    using assms(2) by (auto simp: gate_check_slot admit_dispatch_no_slot probe_slot_guard_def is_half_open_probe_def)
  moreover from this have "later key = None" using gate_checks_absent None assms(3) by simp
  ultimately show ?thesis using None
    by (simp add: admit_dispatch_no_slot is_half_open_probe_def guard_new_def guard_drop_def)
next
  case (Some s)
  let ?d = "try_dispatch_admitting s now"
  have allow: "decision (snd ?d) = Allow" and gs': "gs' = gs(key \<mapsto> fst ?d)"
    using assms(2) by (auto simp: gate_check_slot admit_dispatch_slot [of gs key s, OF Some])
  note granted = granted_dispatch [OF assms(1) [rule_format, OF Some] allow]
  have bit: "is_half_open_probe gs' key \<longleftrightarrow> half_open_in_flight (fst ?d)"
    by (simp add: gs' is_half_open_probe_def half_open_probe_in_flight_def)
  have own: "probe_slot_guard gs' key = snd (snd (admit_dispatch gs now key provider))"
    unfolding probe_slot_guard_def bit using granted(2) by (simp add: admit_dispatch_slot [of gs key s, OF Some] gs')
  show ?thesis
  proof (cases "half_open_in_flight (fst ?d)")
    case True
    then have guard: "probe_slot_guard gs' key = guard_new (Some key)"
      by (simp add: probe_slot_guard_def bit) (simp add: gs')
    have "later key = Some (fst ?d)"
      using gate_checks_held [of gs' key "fst ?d" others] True granted(3) by (simp add: assms(3) gs')
    moreover have "snd (snd (admit_dispatch gs now key provider)) = guard_new (Some key)" using own guard by simp
    ultimately show ?thesis
      using granted(1) Some unfolding guard
      by (simp add: gs' is_half_open_probe_def half_open_probe_in_flight_def with_slot_def release_probe_slot_def)
  next
    case False
    then have guard: "probe_slot_guard gs' key = guard_new None"
      by (simp add: probe_slot_guard_def bit)
    obtain s' where "later key = Some s'" "\<not> half_open_in_flight s'"
      using gate_checks_closed [of gs' key "fst ?d" others] False granted(3) assms(3) gs' by auto
    moreover have "snd (snd (admit_dispatch gs now key provider)) = guard_new None" using own guard by simp
    ultimately show ?thesis
      unfolding guard by (simp add: is_half_open_probe_def half_open_probe_in_flight_def)
  qed
qed

theorem rederived_guard_owns_claim_witness:
  "guard_slot (probe_slot_guard (fst (gate_check [''m'' \<mapsto> probe_ready_state] 10 ''m'' ''p'')) ''m'') = Some ''m''
    \<and> \<not> is_half_open_probe (guard_drop (probe_slot_guard (fst (gate_check [''m'' \<mapsto> probe_ready_state] 10 ''m'' ''p'')) ''m'')
        (fst (gate_check (fst (gate_check [''m'' \<mapsto> probe_ready_state] 10 ''m'' ''p'')) 99 ''m'' ''q''))) ''m''"
proof -
  let ?gs = "[''m'' \<mapsto> probe_ready_state]"
  have inv: "\<forall>s. ?gs ''m'' = Some s \<longrightarrow> breaker_ok s"
    by (simp add: breaker_ok_def probe_ready_state_def U32_MAX_def)
  have claim: "try_dispatch_admitting probe_ready_state 10
      = (probe_ready_state\<lparr>half_open_in_flight := True\<rparr>, \<lparr>decision = Allow, claimed_half_open = True\<rparr>)"
    by (simp add: try_dispatch_admitting_def try_dispatch_inner_def probe_ready_state_def rpm_gate_def duration_since_def)
  have granted: "gate_check ?gs 10 ''m'' ''p'' = (fst (gate_check ?gs 10 ''m'' ''p''), None)"
    by (simp add: gate_check_slot admit_dispatch_slot [of _ _ probe_ready_state] claim)
  have armed: "guard_slot (probe_slot_guard (fst (gate_check ?gs 10 ''m'' ''p'')) ''m'') = Some ''m''"
    by (simp add: gate_check_slot admit_dispatch_slot [of _ _ probe_ready_state] claim probe_slot_guard_def
        is_half_open_probe_def half_open_probe_in_flight_def guard_new_def)
  let ?later = "fst (gate_check (fst (gate_check ?gs 10 ''m'' ''p'')) 99 ''m'' ''q'')"
  have "?later = foldl (\<lambda>gs (t, k, p). fst (gate_check gs t k p)) (fst (gate_check ?gs 10 ''m'' ''p'')) [(99, ''m'', ''q'')]"
    by simp
  from rederived_guard_owns_claim [OF inv granted this] armed show ?thesis by blast
qed

text \<open>A gate refusal looks like a network failure to the dispatch loop: the error it returns
  carries status 0 and no retry hint, is classified as \<open>NetworkError\<close>, falls back under an empty
  overlay, and is returned exactly when the slot exists and its snapshot is not dispatchable.\<close>

lemma gate_refusal_is_fallbackable:
  "(snd (gate_check gs now key provider) \<noteq> None \<longleftrightarrow>
      (\<exists>s. gs key = Some s \<and> \<not> is_dispatchable (capacity_snapshot s now))) \<and>
   (\<forall>kind e. snd (gate_check gs now key provider) = Some (kind, e) \<longrightarrow>
      cf_class (classify pj e pk) = FailureClass.NetworkError \<and>
      should_fallback e FailureClass.NetworkError (p\<lparr>classes := []\<rparr>) is_probe \<and>
      rate_limit_reset_hint e p = None)"
proof -
  have err: "cf_class (classify pj e pk) = FailureClass.NetworkError \<and>
      should_fallback e FailureClass.NetworkError (p\<lparr>classes := []\<rparr>) is_probe \<and>
      rate_limit_reset_hint e p = None" if "refusal_of d provider = Some (kind, e)" for d kind e
    using that
    by (cases d) (auto simp: refusal_of_def upstream_def classify_def classify_upstream_attempt_def
        by_status_def should_fallback_def resolved_class_empty)
  show ?thesis
  proof (cases "gs key")
    case None
    then show ?thesis by (simp add: gate_check_slot admit_dispatch_no_slot)
  next
    case (Some s)
    then show ?thesis
      using err by (auto simp: gate_check_slot admit_dispatch_slot [of gs key s, OF Some] admission_phase
          simp del: not_None_eq)
  qed
qed

lemma gate_refusal_is_fallbackable_witness:
  "snd (gate_check [''m'' \<mapsto> probe_ready_state] 5 ''m'' ''p'') \<noteq> None"
  using gate_refusal_is_fallbackable [of "[''m'' \<mapsto> probe_ready_state]" 5 "''m''" "''p''"]
  by (simp add: is_dispatchable_def capacity_snapshot_def probe_ready_state_def duration_since_def)

end
