(* ===== verification/Sticky.thy ===== *)
theory Sticky
  imports Seat_Pool Runtime_Gate
begin

text \<open>
  Session affinity at the router (\<open>routectl-router/src/router/sticky.rs\<close> and the pin map of
  \<open>seat_pool.rs\<close>): the pin of a session is read, the pure selector asked, and the pin written
  back. The pin map is an \<open>LruCache\<close> of the \<open>lru\<close> crate, which is not part of the repository: its
  operations are the argument \<open>ops\<close>, and the locale \<open>lru_cache\<close> states what the code relies on.
  Log lines and their counters are not modelled.
\<close>

subsection \<open>The pin map\<close>

record 'l LruOps =
  lru_get :: "'l \<Rightarrow> string \<Rightarrow> 'l \<times> SeatPin option"
  lru_put :: "'l \<Rightarrow> string \<Rightarrow> SeatPin \<Rightarrow> 'l"
  lru_iter_mut :: "'l \<Rightarrow> (SeatPin \<Rightarrow> SeatPin) \<Rightarrow> 'l"
  lru_values :: "'l \<Rightarrow> SeatPin list"

record 'l StickyPins =
  sp_pins :: 'l
  sp_tiebreak :: "64 word"

definition pins_get :: "'l LruOps \<Rightarrow> string \<Rightarrow> 'l StickyPins \<Rightarrow> 'l StickyPins \<times> SeatPin option" where
  "pins_get ops key st = (let (l, p) = lru_get ops (sp_pins st) key in (st\<lparr>sp_pins := l\<rparr>, p))"

definition next_tiebreak :: "'l StickyPins \<Rightarrow> 'l StickyPins \<times> usize" where
  "next_tiebreak st = (st\<lparr>sp_tiebreak := sp_tiebreak st + 1\<rparr>, unat (sp_tiebreak st))"

definition pins_put :: "'l LruOps \<Rightarrow> string \<Rightarrow> SeatPin \<Rightarrow> 'l StickyPins \<Rightarrow> 'l StickyPins" where
  "pins_put ops key pin st = st\<lparr>sp_pins := lru_put ops (sp_pins st) key pin\<rparr>"

definition repick_members ::
  "'l LruOps \<Rightarrow> (string \<Rightarrow> string option) \<Rightarrow> 'l StickyPins \<Rightarrow> 'l StickyPins \<times> usize" where
  "repick_members ops survivor_for st =
     (let moved = length (filter (\<lambda>p. survivor_for (pin_member p) \<noteq> None) (lru_values ops (sp_pins st)));
          repick = (\<lambda>p. case survivor_for (pin_member p) of
             Some survivor \<Rightarrow> p\<lparr>pin_member := survivor, pin_repinned := False\<rparr> | None \<Rightarrow> p)
      in (st\<lparr>sp_pins := lru_iter_mut ops (sp_pins st) repick\<rparr>, moved))"

text \<open>Documented behaviour of the cache: a read returns the stored value and changes no contents, a
  write stores its value and may evict other keys but never adds or alters them, and a walk over
  the values rewrites each in place.\<close>

locale lru_cache =
  fixes ops :: "'l LruOps" and contents :: "'l \<Rightarrow> string \<Rightarrow> SeatPin option"
  assumes get_value: "snd (lru_get ops l k) = contents l k"
    and get_contents: "contents (fst (lru_get ops l k)) = contents l"
    and put_self: "contents (lru_put ops l k v) k = Some v"
    and put_other: "k' \<noteq> k \<Longrightarrow> contents (lru_put ops l k v) k' \<in> {contents l k', None}"
    and iter_contents: "contents (lru_iter_mut ops l f) k = map_option f (contents l k)"
begin

definition pin_of :: "string \<Rightarrow> 'l StickyPins \<Rightarrow> SeatPin option" where
  "pin_of key st = contents (sp_pins st) key"

lemma pins_get_spec:
  "snd (pins_get ops key st) = pin_of key st"
  "pin_of k (fst (pins_get ops key st)) = pin_of k st"
  "sp_tiebreak (fst (pins_get ops key st)) = sp_tiebreak st"
  using get_value [of "sp_pins st" key] get_contents [of "sp_pins st" key]
  by (simp_all add: pins_get_def pin_of_def case_prod_unfold Let_def)

lemma pin_of_put: "pin_of key (pins_put ops key pin st) = Some pin"
  by (simp add: pin_of_def pins_put_def put_self)

lemma pin_of_put_other: "k \<noteq> key \<Longrightarrow> pin_of k (pins_put ops key pin st) \<in> {pin_of k st, None}"
  using put_other [of k key "sp_pins st" pin] by (simp add: pin_of_def pins_put_def)

lemma pin_of_tiebreak [simp]: "pin_of k (fst (next_tiebreak st)) = pin_of k st"
  by (simp add: pin_of_def next_tiebreak_def)

lemma pin_of_repick:
  "pin_of k (fst (repick_members ops survivor_for st)) = map_option (\<lambda>p.
     case survivor_for (pin_member p) of
       Some survivor \<Rightarrow> p\<lparr>pin_member := survivor, pin_repinned := False\<rparr> | None \<Rightarrow> p) (pin_of k st)"
  by (simp add: pin_of_def repick_members_def iter_contents Let_def)

end

text \<open>A bounded list in recency order satisfies the contract, at the capacity the code constructs.\<close>

definition list_lru :: "nat \<Rightarrow> (string \<times> SeatPin) list LruOps" where
  "list_lru cap = \<lparr>
     lru_get = (\<lambda>l k. case map_of l k of
        None \<Rightarrow> (l, None)
      | Some v \<Rightarrow> ((k, v) # filter (\<lambda>e. fst e \<noteq> k) l, Some v)),
     lru_put = (\<lambda>l k v. take cap ((k, v) # filter (\<lambda>e. fst e \<noteq> k) l)),
     lru_iter_mut = (\<lambda>l f. map (\<lambda>(k, v). (k, f v)) l),
     lru_values = map snd\<rparr>"

lemma map_of_filter_key: "map_of (filter (\<lambda>e. fst e \<noteq> k) l) k' = (if k' = k then None else map_of l k')"
  by (induction l) auto

lemma map_of_take: "map_of (take n l) k \<in> {map_of l k, None}"
proof (induction l arbitrary: n)
  case (Cons e l)
  then show ?case by (cases n) auto
qed simp

interpretation lru: lru_cache "list_lru STICKY_PIN_CAPACITY" map_of
proof unfold_locales
  fix l :: "(string \<times> SeatPin) list" and k k' v f
  show "snd (lru_get (list_lru STICKY_PIN_CAPACITY) l k) = map_of l k"
    by (simp add: list_lru_def split: option.split)
  show "map_of (fst (lru_get (list_lru STICKY_PIN_CAPACITY) l k)) = map_of l"
    by (auto simp: list_lru_def map_of_filter_key split: option.split)
  show "map_of (lru_put (list_lru STICKY_PIN_CAPACITY) l k v) k = Some v"
    by (simp add: list_lru_def STICKY_PIN_CAPACITY_def take_Cons')
  show "map_of (lru_put (list_lru STICKY_PIN_CAPACITY) l k v) k' \<in> {map_of l k', None}" if "k' \<noteq> k"
    using map_of_take [of STICKY_PIN_CAPACITY "(k, v) # filter (\<lambda>e. fst e \<noteq> k) l" k'] that
    by (simp add: list_lru_def map_of_filter_key)
  show "map_of (lru_iter_mut (list_lru STICKY_PIN_CAPACITY) l f) k = map_option f (map_of l k)"
    by (simp add: list_lru_def map_of_map)
qed

subsection \<open>Capacity and quota of a pool\<close>

definition capacity_snapshot_for :: "gates \<Rightarrow> string \<Rightarrow> instant \<Rightarrow> CapacitySnapshot option" where
  "capacity_snapshot_for gs state_key now = map_option (\<lambda>s. capacity_snapshot s now) (gs state_key)"

definition gather_capacity_snapshots ::
  "gates \<Rightarrow> SeatTarget list \<Rightarrow> string \<Rightarrow> instant \<Rightarrow> CapacitySnapshot list" where
  "gather_capacity_snapshots gs seats nickname now =
     map (\<lambda>s. case capacity_snapshot_for gs (state_key_for s nickname) now of
            Some snap \<Rightarrow> snap | None \<Rightarrow> \<lparr>rpm_available = Some 0, circuit = Open\<rparr>) seats"

text \<open>The two parts of the router's configuration that quota placement reads: the \<open>[seat_quota]\<close>
  switch and the kind of a member's \<open>[providers]\<close> entry.\<close>

record PlacementConfig =
  pc_seat_quota_enabled :: bool
  pc_provider_kind :: "string \<Rightarrow> string option"

definition quota_tiers_for_birth ::
  "PlacementConfig \<Rightarrow> QuotaStore \<Rightarrow> SeatTarget list \<Rightarrow> ObservationStamp \<Rightarrow> SeatQuota list" where
  "quota_tiers_for_birth cfg store seats now =
     (if \<not> pc_seat_quota_enabled cfg then []
      else let provider_kind = (case seats of [] \<Rightarrow> None | seat # _ \<Rightarrow> pc_provider_kind cfg (seat_provider_name seat));
               keys = map (\<lambda>seat. seat_key_for_secret_ref (seat_auth_secret_ref seat)) seats
           in seat_tiers store keys provider_kind now)"

subsection \<open>Orders\<close>

definition keyless_seat_order ::
  "PlacementConfig \<Rightarrow> gates \<Rightarrow> QuotaStore \<Rightarrow> instant \<Rightarrow> ObservationStamp \<Rightarrow> RoundRobinCursors \<Rightarrow> cells \<Rightarrow>
   SeatTarget list \<Rightarrow> string \<Rightarrow> string \<Rightarrow> 'l StickyPins \<Rightarrow> 'l StickyPins \<times> cells \<times> usize list \<times> string" where
  "keyless_seat_order cfg gs store now stamp rr heap seats nickname rotation_key st =
     (let quota = quota_tiers_for_birth cfg store seats stamp;
          (st, ordered) = (if quota = [] then (st, None)
             else let snapshots = gather_capacity_snapshots gs seats nickname now;
                      (st, tb) = next_tiebreak st
                  in (st, fst (keyless_quota_order (length seats) snapshots quota tb Dormant)))
      in case ordered of
           Some order \<Rightarrow> (st, heap, order, ''keyless_quota'')
         | None \<Rightarrow> (let (heap, order) = seat_order_for_request rotation_key (length seats) StickyLeastLoaded rr heap
                   in (st, heap, order, ''keyless_fill_first'')))"

definition apply_sticky_outcome ::
  "'l LruOps \<Rightarrow> string \<Rightarrow> SeatTarget list \<Rightarrow> SelectionOutcome \<Rightarrow> 'l StickyPins \<Rightarrow> 'l StickyPins \<times> string" where
  "apply_sticky_outcome ops key seats outcome st = (case outcome of
     Birth home \<Rightarrow>
       (pins_put ops key \<lparr>pin_member = seat_provider_name (seats ! home), pin_repinned = False\<rparr> st, ''birth_pick'')
   | OverflowRepin home \<Rightarrow>
       (pins_put ops key \<lparr>pin_member = seat_provider_name (seats ! home), pin_repinned = True\<rparr> st, ''overflow_repin'')
   | Stay home \<Rightarrow> (st, ''sticky_stay'')
   | DeferNoHealthy \<Rightarrow> (st, ''defer_no_healthy''))"

definition pin_index :: "SeatTarget list \<Rightarrow> SeatPin option \<Rightarrow> (usize \<times> bool) option" where
  "pin_index seats pin = Option.bind pin (\<lambda>p.
     map_option (\<lambda>i. (i, pin_repinned p)) (position (\<lambda>s. seat_provider_name s = pin_member p) seats))"

definition will_attempt_pick :: "(usize \<times> bool) option \<Rightarrow> CapacitySnapshot list \<Rightarrow> bool" where
  "will_attempt_pick pin snapshots = (case pin of None \<Rightarrow> True
     | Some (home, repinned) \<Rightarrow> \<not> is_dispatchable (snapshots ! home) \<and> \<not> repinned)"

definition sticky_seat_order ::
  "'l LruOps \<Rightarrow> PlacementConfig \<Rightarrow> gates \<Rightarrow> QuotaStore \<Rightarrow> instant \<Rightarrow> ObservationStamp \<Rightarrow>
   SeatTarget list \<Rightarrow> string \<Rightarrow> string \<Rightarrow> 'l StickyPins \<Rightarrow> 'l StickyPins \<times> usize list \<times> string" where
  "sticky_seat_order ops cfg gs store now stamp seats key nickname st =
     (let (st, p) = pins_get ops key st;
          pin = pin_index seats p;
          snapshots = gather_capacity_snapshots gs seats nickname now;
          (st, tiebreak) = (if will_attempt_pick pin snapshots then next_tiebreak st else (st, 0));
          quota = (if pin = None then quota_tiers_for_birth cfg store seats stamp else []);
          (order, outcome, quota_decision) = sticky_least_loaded_order (length seats) (map_option fst pin)
            (case pin of Some (_, r) \<Rightarrow> r | None \<Rightarrow> False) snapshots tiebreak quota;
          (st, token) = apply_sticky_outcome ops key seats outcome st
      in (st, order, token))"

subsection \<open>Refinement of the session machine\<close>

lemma position_nth:
  "distinct (map f xs) \<Longrightarrow> i < length xs \<Longrightarrow> position (\<lambda>x. f x = f (xs ! i)) xs = Some i"
proof (induction xs arbitrary: i)
  case (Cons x xs)
  then show ?case by (cases i) (auto simp: image_iff)
qed simp

lemma pin_index_home:
  "distinct (map seat_provider_name seats) \<Longrightarrow> home < length seats \<Longrightarrow>
     pin_index seats (Some \<lparr>pin_member = seat_provider_name (seats ! home), pin_repinned = b\<rparr>) = Some (home, b)"
  by (simp add: pin_index_def position_nth)

lemma pin_index_bound: "pin_index seats p = Some (h, r) \<Longrightarrow> h < length seats"
  by (auto simp: pin_index_def bind_eq_Some_conv dest: position_Some)

lemma gather_length [simp]: "length (gather_capacity_snapshots gs seats nickname now) = length seats"
  by (simp add: gather_capacity_snapshots_def)

lemma sticky_seat_order_perm:
  assumes "sticky_seat_order ops cfg gs store now stamp seats key nickname st = (st', order, token)"
    and "1 < length seats"
  shows "mset order = mset [0..<length seats]"
proof -
  let ?p = "pin_index seats (snd (pins_get ops key st))"
  obtain tb outcome qd where s: "sticky_least_loaded_order (length seats) (map_option fst ?p)
      (case ?p of Some (x, r) \<Rightarrow> r | None \<Rightarrow> False) (gather_capacity_snapshots gs seats nickname now) tb
      (if ?p = None then quota_tiers_for_birth cfg store seats stamp else []) = (order, outcome, qd)"
    using assms(1) by (auto simp: sticky_seat_order_def Let_def split: prod.splits)
  have "h < length seats" if "map_option fst ?p = Some h" for h using that pin_index_bound by force
  from sticky_order_shape [OF assms(2) this s] show ?thesis using order_home_first_perm by metis
qed

lemma keyless_seat_order_perm:
  assumes "keyless_seat_order cfg gs store now stamp rr heap seats nickname rotation_key st = (st', heap', order, token)"
  shows "mset order = mset [0..<length seats]"
  using assms keyless_perm seat_order_perm [of rotation_key "length seats" StickyLeastLoaded rr heap]
  by (auto simp: keyless_seat_order_def Let_def split: prod.splits option.splits if_splits)

text \<open>The outcome the router computes is the session machine's, for the tiebreak it drew.\<close>

lemma sticky_outcome_session:
  "fst (snd (sticky_least_loaded_order n (map_option fst pin)
      (case pin of Some (x, r) \<Rightarrow> r | None \<Rightarrow> False) snaps tb (if pin = None then tiers else [])))
    = session_outcome n pin (snaps, tb, tiers)"
  by (cases pin) (auto simp: session_outcome_def sticky_least_loaded_order_def split: prod.split)

lemma sticky_seat_order_state:
  assumes "pins_get ops key st = (st1, p)"
    and "(if will_attempt_pick (pin_index seats p) (gather_capacity_snapshots gs seats nickname now)
          then next_tiebreak st1 else (st1, 0)) = (st2, tb)"
  shows "fst (sticky_seat_order ops cfg gs store now stamp seats key nickname st)
    = fst (apply_sticky_outcome ops key seats (session_outcome (length seats) (pin_index seats p)
        (gather_capacity_snapshots gs seats nickname now, tb, quota_tiers_for_birth cfg store seats stamp)) st2)"
  unfolding sticky_seat_order_def assms(1) Let_def prod.case assms(2) sticky_outcome_session [symmetric]
  by (simp add: case_prod_unfold)

lemma session_outcome_home:
  assumes "\<And>h r. pin = Some (h, r) \<Longrightarrow> h < n"
    and "session_outcome n pin (snaps, tb, q) = Birth h \<or> session_outcome n pin (snaps, tb, q) = OverflowRepin h"
  shows "h < n"
proof -
  obtain order out qd where s: "sticky_least_loaded_order n (map_option fst pin)
      (case pin of Some (h, r) \<Rightarrow> r | None \<Rightarrow> False) snaps tb q = (order, out, qd)" by (metis prod_cases3)
  have out: "out = Birth h \<or> out = OverflowRepin h" using assms(2) s by (simp add: session_outcome_def)
  show ?thesis
  proof (cases "1 < n")
    case True
    have "\<And>h. map_option fst pin = Some h \<Longrightarrow> h < n" using assms(1) by auto
    then show ?thesis using sticky_order_shape [OF True _ s] out by fastforce
  next
    case False
    then show ?thesis using s out by (auto simp: sticky_least_loaded_order_def)
  qed
qed

context lru_cache begin

lemma apply_outcome_refines:
  assumes "distinct (map seat_provider_name seats)"
    and "\<And>h. out = Birth h \<or> out = OverflowRepin h \<Longrightarrow> h < length seats"
  shows "pin_index seats (pin_of key (fst (apply_sticky_outcome ops key seats out st)))
      = pin_after (pin_index seats (pin_of key st)) out"
    and "k \<noteq> key \<Longrightarrow> pin_of k (fst (apply_sticky_outcome ops key seats out st)) \<in> {pin_of k st, None}"
  using assms pin_of_put_other
  by (cases out; simp add: apply_sticky_outcome_def pin_of_put pin_index_home pin_after_def)+

lemma sticky_order_refines:
  assumes "distinct (map seat_provider_name seats)"
    and "sticky_seat_order ops cfg gs store now stamp seats key nickname st = (st', order, token)"
  shows "\<exists>tb. pin_index seats (pin_of key st') = pin_after (pin_index seats (pin_of key st))
      (session_outcome (length seats) (pin_index seats (pin_of key st))
        (gather_capacity_snapshots gs seats nickname now, tb, quota_tiers_for_birth cfg store seats stamp))
    \<and> (\<forall>k. k \<noteq> key \<longrightarrow> pin_of k st' \<in> {pin_of k st, None})"
proof -
  let ?snaps = "gather_capacity_snapshots gs seats nickname now"
  let ?tiers = "quota_tiers_for_birth cfg store seats stamp"
  obtain st1 p where get: "pins_get ops key st = (st1, p)" by force
  have p: "p = pin_of key st" and st1: "\<And>k. pin_of k st1 = pin_of k st"
    using pins_get_spec [where key = key and st = st] get by simp_all
  obtain st2 tb where tie: "(if will_attempt_pick (pin_index seats p) ?snaps
      then next_tiebreak st1 else (st1, 0)) = (st2, tb)" by force
  have st2: "pin_of k st2 = pin_of k st" for k
    using tie st1 pin_of_tiebreak [where k = k and st = st1] by (cases "next_tiebreak st1") (auto split: if_splits)
  let ?out = "session_outcome (length seats) (pin_index seats p) (?snaps, tb, ?tiers)"
  have st': "st' = fst (apply_sticky_outcome ops key seats ?out st2)"
    using sticky_seat_order_state [OF get tie, of cfg store stamp] assms(2) by simp
  have home: "h < length seats" if "?out = Birth h \<or> ?out = OverflowRepin h" for h
    using session_outcome_home [of "pin_index seats p" "length seats" ?snaps tb ?tiers h] pin_index_bound that
    by blast
  have "pin_index seats (pin_of key st') = pin_after (pin_index seats (pin_of key st)) ?out"
    unfolding st' using apply_outcome_refines(1) [OF assms(1) home, where key = key and st = st2] st2 by simp
  moreover have "\<forall>k. k \<noteq> key \<longrightarrow> pin_of k st' \<in> {pin_of k st, None}"
    unfolding st' using apply_outcome_refines(2) [OF assms(1) home, where key = key and st = st2] st2 by metis
  ultimately show ?thesis unfolding p by blast
qed

end

subsection \<open>Properties\<close>

text \<open>C12. The router's keyed selection implements the session machine: with an LRU cache that keeps
  its contract and distinct member names, one request moves the session's pin exactly as the machine
  does for that pool's snapshots and quota tiers, and it can at most evict, never alter, the pin of
  another session.\<close>

theorem sticky_refines_session:
  assumes "lru_cache ops contents" and "distinct (map seat_provider_name seats)"
    and "sticky_seat_order ops cfg gs store now stamp seats key nickname st = (st', order, token)"
  shows "\<exists>tb. pin_index seats (contents (sp_pins st') key) = pin_after (pin_index seats (contents (sp_pins st) key))
      (session_outcome (length seats) (pin_index seats (contents (sp_pins st) key))
        (gather_capacity_snapshots gs seats nickname now, tb, quota_tiers_for_birth cfg store seats stamp))
    \<and> (\<forall>k. k \<noteq> key \<longrightarrow> contents (sp_pins st') k \<in> {contents (sp_pins st) k, None})"
  using lru_cache.sticky_order_refines [OF assms] by (simp add: lru_cache.pin_of_def [OF assms(1)])

theorem sticky_refines_session_witness:
  "\<exists>tb. pin_index [\<lparr>seat_provider = 0, seat_provider_name = ''a'', seat_auth_secret_ref = None\<rparr>]
        (map_of (sp_pins (fst (sticky_seat_order (list_lru STICKY_PIN_CAPACITY) \<lparr>pc_seat_quota_enabled = False, pc_provider_kind = Map.empty\<rparr>
          Map.empty empty_store 0 (stamp_at 0) [\<lparr>seat_provider = 0, seat_provider_name = ''a'', seat_auth_secret_ref = None\<rparr>]
          ''s'' ''m'' \<lparr>sp_pins = [(''s'', \<lparr>pin_member = ''a'', pin_repinned = True\<rparr>)], sp_tiebreak = 0\<rparr>))) ''s'')
     = pin_after (Some (0, True)) (session_outcome 1 (Some (0, True))
        (gather_capacity_snapshots Map.empty [\<lparr>seat_provider = 0, seat_provider_name = ''a'', seat_auth_secret_ref = None\<rparr>] ''m'' 0, tb, []))"
proof -
  let ?seats = "[\<lparr>seat_provider = 0, seat_provider_name = ''a'', seat_auth_secret_ref = None\<rparr>]"
  let ?run = "sticky_seat_order (list_lru STICKY_PIN_CAPACITY) \<lparr>pc_seat_quota_enabled = False, pc_provider_kind = Map.empty\<rparr>
      Map.empty empty_store 0 (stamp_at 0) ?seats ''s'' ''m''
      \<lparr>sp_pins = [(''s'', \<lparr>pin_member = ''a'', pin_repinned = True\<rparr>)], sp_tiebreak = 0\<rparr>"
  obtain st' order token where run: "?run = (st', order, token)" by (metis prod_cases3)
  have "pin_index ?seats (Some \<lparr>pin_member = ''a'', pin_repinned = True\<rparr>) = Some (0, True)"
    by (simp add: pin_index_def)
  then show ?thesis
    using sticky_refines_session [OF lru.lru_cache_axioms _ run] run
    by (simp add: quota_tiers_for_birth_def)
qed

end
