(* ===== verification/Alias_Graph.thy ===== *)
theory Alias_Graph
  imports BTree_Map Core_Error
begin

text \<open>
  The \<open>[aliases]\<close> table and its startup validation: the value of an alias
  (\<open>config/schema.rs\<close>) and the validator of alias targets with its depth-first cycle search
  (\<open>factory/validate.rs\<close>). The validator accepts a table exactly when every alias has targets,
  every target is an alias or a selectable model, and the alias graph has no cycle.
\<close>

subsection \<open>Alias values\<close>

datatype AliasValue = Single string | Chain "string list"

fun nicknames :: "AliasValue \<Rightarrow> string list" where
  "nicknames (Single s) = [s]"
| "nicknames (Chain v) = v"

fun alias_is_empty :: "AliasValue \<Rightarrow> bool" where
  "alias_is_empty (Single s) = False"
| "alias_is_empty (Chain v) = (v = [])"

lemma alias_is_empty_iff: "alias_is_empty v \<longleftrightarrow> nicknames v = []"
  by (cases v) auto

type_synonym aliases = "(string, AliasValue) btree"

text \<open>The part of a \<open>[models.X]\<close> entry the validator reads.\<close>

record ModelEntry =
  selectable :: bool

subsection \<open>The cycle search\<close>

definition ARROW :: string where "ARROW = '' -> ''"

fun join_with :: "string \<Rightarrow> string list \<Rightarrow> string" where
  "join_with sep [] = []"
| "join_with sep [x] = x"
| "join_with sep (x # y # xs) = x @ sep @ join_with sep (y # xs)"

definition cycle_error :: "string \<Rightarrow> string list \<Rightarrow> string" where
  "cycle_error current path =
     (let idx = (case position (\<lambda>p. p = current) path of Some i \<Rightarrow> i | None \<Rightarrow> length path);
          cycle_path = drop idx path @ [current];
          entry_alias = hd cycle_path
      in ''alias `'' @ entry_alias @ ''`: cycle detected: '' @ join_with ARROW cycle_path)"

text \<open>Each level of the search pushes one more key of the finite table.\<close>

definition unexplored :: "aliases \<Rightarrow> string list \<Rightarrow> nat" where
  "unexplored aliases path = card (fst ` set aliases - set path)"

lemma unexplored_push:
  "bt_get aliases c = Some v \<Longrightarrow> c \<notin> set path \<Longrightarrow> unexplored aliases (path @ [c]) < unexplored aliases path"
  unfolding unexplored_def by (intro psubset_card_mono) (force dest: bt_get_mem)+

text \<open>The active recursion stack is \<open>path\<close>; the source's \<open>path_set\<close> holds the same names. The state
  is the set of fully explored aliases and the errors collected so far.\<close>

type_synonym dfs_state = "string set \<times> string list"

function (sequential) detect_alias_cycles_dfs :: "aliases \<Rightarrow> string \<Rightarrow> string list \<Rightarrow> dfs_state \<Rightarrow> dfs_state"
  and dfs_entries :: "aliases \<Rightarrow> string list \<Rightarrow> string list \<Rightarrow> dfs_state \<Rightarrow> dfs_state" where
  "detect_alias_cycles_dfs aliases current path (visited, errors) =
     (if current \<in> set path then (visited, errors @ [cycle_error current path])
      else if current \<in> visited then (visited, errors)
      else case bt_get aliases current of
             None \<Rightarrow> (visited, errors)
           | Some value \<Rightarrow>
               (let (visited', errors') = dfs_entries aliases (nicknames value) (path @ [current]) (visited, errors)
                in (insert current visited', errors')))"
| "dfs_entries aliases [] path st = st"
| "dfs_entries aliases (entry # entries) path st =
     dfs_entries aliases entries path (detect_alias_cycles_dfs aliases entry path st)"
  by pat_completeness auto

termination
  by (relation "measures
      [\<lambda>x. case x of Inl (al, c, path, st) \<Rightarrow> unexplored al path | Inr (al, es, path, st) \<Rightarrow> unexplored al path,
       \<lambda>x. case x of Inl _ \<Rightarrow> 0 | Inr (al, es, path, st) \<Rightarrow> Suc (length es)]")
    (auto simp: unexplored_push)

subsection \<open>The validator\<close>

definition target_errors :: "aliases \<Rightarrow> (string \<rightharpoonup> ModelEntry) \<Rightarrow> string \<Rightarrow> string \<Rightarrow> string list" where
  "target_errors aliases models al nickname =
     (if bt_get aliases nickname \<noteq> None then []
      else case models nickname of
             None \<Rightarrow> [''alias `'' @ al @ ''`: target `'' @ nickname @ ''` is not a known ''
               @ ''model nickname in [models] and is not an alias key'']
           | Some model \<Rightarrow> if \<not> selectable model
               then [''alias `'' @ al @ ''`: target `'' @ nickname @ ''` is declared but ''
                 @ ''`selectable = false`; alias chains must reference selectable models'']
               else [])"

definition alias_errors :: "aliases \<Rightarrow> (string \<rightharpoonup> ModelEntry) \<Rightarrow> string \<times> AliasValue \<Rightarrow> string list" where
  "alias_errors aliases models e = (case e of (al, value) \<Rightarrow>
     if alias_is_empty value
     then [''alias `'' @ al @ ''`: chain is empty -- an alias with no targets resolves to ''
       @ ''UnknownAlias at request time, which is the same as not declaring the alias at all'']
     else concat (map (target_errors aliases models al) (nicknames value)))"

definition cycle_start :: "aliases \<Rightarrow> dfs_state \<Rightarrow> string \<Rightarrow> dfs_state" where
  "cycle_start aliases st start =
     (if start \<in> fst st then st else detect_alias_cycles_dfs aliases start [] st)"

definition cycle_pass :: "aliases \<Rightarrow> dfs_state \<Rightarrow> dfs_state" where
  "cycle_pass aliases st = foldl (cycle_start aliases) st (map fst aliases)"

definition NEWLINE :: string where "NEWLINE = [CHR 0x0A]"

definition validate_alias_chain_targets :: "aliases \<Rightarrow> (string \<rightharpoonup> ModelEntry) \<Rightarrow> Error + unit" where
  "validate_alias_chain_targets aliases models =
     (let errors = concat (map (alias_errors aliases models) aliases);
          errors = snd (cycle_pass aliases ({}, errors))
      in if errors = [] then Inr () else Inl (Config (join_with NEWLINE errors)))"

subsection \<open>The search is exact\<close>

definition alias_edges :: "aliases \<Rightarrow> (string \<times> string) set" where
  "alias_edges aliases = {(a, b). \<exists>v. bt_get aliases a = Some v \<and> b \<in> set (nicknames v) \<and> bt_get aliases b \<noteq> None}"

text \<open>The search only adds: errors are appended, explored aliases stay explored.\<close>

lemma dfs_extends:
  "\<exists>es. snd (detect_alias_cycles_dfs aliases c path st) = snd st @ es"
  "\<exists>es. snd (dfs_entries aliases ns path st) = snd st @ es"
proof (induction aliases c path st and aliases ns path st rule: detect_alias_cycles_dfs_dfs_entries.induct)
  case (1 aliases current path visited errors)
  then show ?case by (auto split: option.split prod.split)
next
  case (3 aliases entry entries path st)
  then show ?case by (metis append.assoc dfs_entries.simps(2))
qed simp

text \<open>In an acyclic graph the stack is never met again: the stack leads to the visited name.\<close>

definition leads :: "aliases \<Rightarrow> string list \<Rightarrow> string \<Rightarrow> bool" where
  "leads aliases path n \<longleftrightarrow> (\<forall>p \<in> set path. bt_get aliases p \<noteq> None
     \<and> (bt_get aliases n \<noteq> None \<longrightarrow> (p, n) \<in> (alias_edges aliases)\<^sup>+))"

lemma leads_push:
  assumes "leads aliases path c" and "bt_get aliases c = Some v" and "n \<in> set (nicknames v)"
  shows "leads aliases (path @ [c]) n"
proof -
  have "bt_get aliases n \<noteq> None \<Longrightarrow> (c, n) \<in> alias_edges aliases" using assms(2,3) by (auto simp: alias_edges_def)
  then show ?thesis using assms(1,2) by (auto simp: leads_def intro: trancl_into_trancl)
qed

lemma dfs_complete:
  "acyclic (alias_edges aliases) \<Longrightarrow> leads aliases path c \<Longrightarrow>
     snd (detect_alias_cycles_dfs aliases c path st) = snd st"
  "acyclic (alias_edges aliases) \<Longrightarrow> \<forall>n \<in> set ns. leads aliases path n \<Longrightarrow>
     snd (dfs_entries aliases ns path st) = snd st"
proof (induction aliases c path st and aliases ns path st rule: detect_alias_cycles_dfs_dfs_entries.induct)
  case (1 aliases current path visited errors)
  have "current \<notin> set path" using 1(2,3) by (auto simp: leads_def acyclic_def)
  moreover have "snd (dfs_entries aliases (nicknames v) (path @ [current]) (visited, errors)) = errors"
    if "bt_get aliases current = Some v" "current \<notin> visited" for v
    using "1.IH" that 1(2,3) calculation leads_push by simp
  ultimately show ?case by (auto split: option.split prod.split)
qed simp_all

text \<open>Explored aliases are settled: their targets are explored and none of them is on a cycle.\<close>

definition settled :: "aliases \<Rightarrow> string set \<Rightarrow> bool" where
  "settled aliases V \<longleftrightarrow> (\<forall>v \<in> V. alias_edges aliases `` {v} \<subseteq> V) \<and> (\<forall>v \<in> V. (v, v) \<notin> (alias_edges aliases)\<^sup>+)"

lemma settled_closed:
  assumes "(v, w) \<in> (alias_edges aliases)\<^sup>*" and "settled aliases V" and "v \<in> V"
  shows "w \<in> V"
  using assms by (induction rule: rtrancl_induct) (auto simp: settled_def)

lemma settled_insert:
  assumes "settled aliases V" and "alias_edges aliases `` {c} \<subseteq> V"
  shows "settled aliases (insert c V)"
proof -
  have "(c, c) \<notin> (alias_edges aliases)\<^sup>+" if "c \<notin> V"
    using that assms settled_closed [OF _ assms(1)] by (blast dest: tranclD)
  then show ?thesis using assms by (cases "c \<in> V") (auto simp: settled_def insert_absorb)
qed

definition grown :: "aliases \<Rightarrow> string list \<Rightarrow> string list \<Rightarrow> string set \<Rightarrow> bool" where
  "grown aliases path ns V \<longleftrightarrow> settled aliases V \<and> set path \<inter> V = {}
     \<and> (\<forall>n \<in> set ns. bt_get aliases n \<noteq> None \<longrightarrow> n \<in> V)"

lemma dfs_sound:
  "settled aliases (fst st) \<Longrightarrow> set path \<inter> fst st = {} \<Longrightarrow>
     snd (detect_alias_cycles_dfs aliases c path st) = snd st \<Longrightarrow>
     fst st \<subseteq> fst (detect_alias_cycles_dfs aliases c path st) \<and>
     grown aliases path [c] (fst (detect_alias_cycles_dfs aliases c path st))"
  "settled aliases (fst st) \<Longrightarrow> set path \<inter> fst st = {} \<Longrightarrow>
     snd (dfs_entries aliases ns path st) = snd st \<Longrightarrow>
     fst st \<subseteq> fst (dfs_entries aliases ns path st) \<and>
     grown aliases path ns (fst (dfs_entries aliases ns path st))"
proof (induction aliases c path st and aliases ns path st rule: detect_alias_cycles_dfs_dfs_entries.induct)
  case (1 aliases c path visited errors)
  show ?case
  proof (cases "c \<in> set path \<or> c \<in> visited \<or> bt_get aliases c = None")
    case True
    then show ?thesis using 1(2-4) by (auto simp: grown_def)
  next
    case False
    then obtain v where v: "bt_get aliases c = Some v" by auto
    let ?r = "dfs_entries aliases (nicknames v) (path @ [c]) (visited, errors)"
    have eq: "detect_alias_cycles_dfs aliases c path (visited, errors) = (insert c (fst ?r), snd ?r)"
      using False v by (simp split: prod.split)
    then have IH: "visited \<subseteq> fst ?r" "grown aliases (path @ [c]) (nicknames v) (fst ?r)"
      using "1.IH" False v 1(2-4) by auto
    then have "alias_edges aliases `` {c} \<subseteq> fst ?r" using v by (auto simp: alias_edges_def grown_def)
    with IH False show ?thesis unfolding eq by (auto simp: grown_def settled_insert simp del: detect_alias_cycles_dfs.simps)
  qed
next
  case (2 aliases path st)
  then show ?case by (simp add: grown_def)
next
  case (3 aliases entry entries path st)
  let ?st = "detect_alias_cycles_dfs aliases entry path st"
  obtain a b where "snd ?st = snd st @ a" "snd (dfs_entries aliases entries path ?st) = snd ?st @ b"
    by (meson dfs_extends)
  then have "snd ?st = snd st" "snd (dfs_entries aliases entries path ?st) = snd ?st" using 3(5) by simp_all
  then show ?case using 3 by (auto simp: grown_def)
qed

lemma cycle_fold_extends: "\<exists>es. snd (foldl (cycle_start aliases) st ks) = snd st @ es"
proof (induction ks arbitrary: st)
  case (Cons k ks)
  obtain a where "snd (cycle_start aliases st k) = snd st @ a"
    using dfs_extends(1) [of aliases k "[]" st] by (fastforce simp: cycle_start_def simp del: detect_alias_cycles_dfs.simps)
  then show ?case using Cons.IH [of "cycle_start aliases st k"] by auto
qed simp

lemma cycle_fold_sound:
  assumes "settled aliases (fst st)" and "snd (foldl (cycle_start aliases) st ks) = snd st"
    and "\<forall>k \<in> set ks. bt_get aliases k \<noteq> None"
  shows "\<exists>V. settled aliases V \<and> fst st \<union> set ks \<subseteq> V"
  using assms
proof (induction ks arbitrary: st)
  case (Cons k ks)
  let ?st = "cycle_start aliases st k"
  obtain a where "snd ?st = snd st @ a" using cycle_fold_extends [of aliases st "[k]"] by auto
  moreover obtain b where "snd (foldl (cycle_start aliases) ?st ks) = snd ?st @ b"
    using cycle_fold_extends by blast
  ultimately have e: "snd ?st = snd st" "snd (foldl (cycle_start aliases) ?st ks) = snd ?st"
    using Cons.prems(2) by simp_all
  have "fst st \<subseteq> fst ?st \<and> settled aliases (fst ?st) \<and> k \<in> fst ?st"
  proof (cases "k \<in> fst st")
    case False
    then show ?thesis using dfs_sound(1) [of aliases st "[]" k] Cons.prems(1,3) e(1)
      by (simp add: cycle_start_def grown_def del: detect_alias_cycles_dfs.simps)
  qed (simp add: cycle_start_def Cons.prems(1))
  then show ?case using Cons.IH [OF _ e(2)] Cons.prems(3) by auto
qed auto

lemma cycle_fold_complete:
  "acyclic (alias_edges aliases) \<Longrightarrow> snd (foldl (cycle_start aliases) st ks) = snd st"
proof (induction ks arbitrary: st)
  case (Cons k ks)
  have "snd (cycle_start aliases st k) = snd st"
    using dfs_complete(1) [OF Cons.prems, of "[]" k st]
    by (simp add: cycle_start_def leads_def del: detect_alias_cycles_dfs.simps)
  then show ?case using Cons by simp
qed simp

lemma cycle_pass_exact:
  assumes "fst st = {}"
  shows "snd (cycle_pass aliases st) = snd st \<longleftrightarrow> acyclic (alias_edges aliases)"
proof
  assume "snd (cycle_pass aliases st) = snd st"
  then obtain V where V: "settled aliases V" "fst ` set aliases \<subseteq> V"
    using cycle_fold_sound [of aliases st "map fst aliases"] assms
    by (auto simp: cycle_pass_def settled_def bt_get_None)
  have "a \<in> V" if "(a, a) \<in> (alias_edges aliases)\<^sup>+" for a
    using tranclD [OF that] V(2) by (force simp: alias_edges_def dest: bt_get_mem)
  with V(1) show "acyclic (alias_edges aliases)" by (auto simp: acyclic_def settled_def)
qed (simp add: cycle_pass_def cycle_fold_complete)

lemma alias_errors_none:
  "alias_errors aliases models (al, value) = [] \<longleftrightarrow> nicknames value \<noteq> [] \<and>
     (\<forall>n \<in> set (nicknames value). target_errors aliases models al n = [])"
  by (auto simp: alias_errors_def alias_is_empty_iff)

lemma target_errors_none:
  "target_errors aliases models al n = [] \<longleftrightarrow>
     bt_get aliases n \<noteq> None \<or> (\<exists>m. models n = Some m \<and> selectable m)"
  by (auto simp: target_errors_def split: option.split)

lemma validation_iff:
  "validate_alias_chain_targets aliases models = Inr () \<longleftrightarrow>
     (\<forall>(al, value) \<in> set aliases. nicknames value \<noteq> [] \<and> (\<forall>n \<in> set (nicknames value).
        bt_get aliases n \<noteq> None \<or> (\<exists>m. models n = Some m \<and> selectable m))) \<and>
     acyclic (alias_edges aliases)"
proof -
  let ?es = "concat (map (alias_errors aliases models) aliases)"
  have "validate_alias_chain_targets aliases models = Inr () \<longleftrightarrow> snd (cycle_pass aliases ({}, ?es)) = []"
    by (simp add: validate_alias_chain_targets_def Let_def)
  also have "\<dots> \<longleftrightarrow> ?es = [] \<and> acyclic (alias_edges aliases)"
    using cycle_pass_exact [of "({}, ?es)" aliases] cycle_fold_extends [of aliases "({}, ?es)" "map fst aliases"]
    by (auto simp: cycle_pass_def)
  also have "?es = [] \<longleftrightarrow> (\<forall>(al, value) \<in> set aliases. alias_errors aliases models (al, value) = [])" by auto
  finally show ?thesis by (simp add: alias_errors_none target_errors_none)
qed

text \<open>C35. The alias validator is exact: it accepts a table precisely when every alias has targets,
  every target is another alias or a selectable model, and no alias reaches itself; the depth-first
  search with its explored set terminates and neither misses a cycle nor reports one that is not
  there.\<close>

theorem alias_validation_exact:
  "validate_alias_chain_targets aliases models = Inr () \<longleftrightarrow>
     (\<forall>(al, value) \<in> set aliases. nicknames value \<noteq> [] \<and> (\<forall>n \<in> set (nicknames value).
        bt_get aliases n \<noteq> None \<or> (\<exists>m. models n = Some m \<and> selectable m))) \<and>
     acyclic (alias_edges aliases)"
  by (rule validation_iff)

theorem alias_validation_exact_witness:
  "validate_alias_chain_targets [(''a'', Chain [''b'', ''m'']), (''b'', Single ''m'')]
     [''m'' \<mapsto> \<lparr>selectable = True\<rparr>] = Inr () \<and>
   \<not> validate_alias_chain_targets [(''a'', Single ''b''), (''b'', Single ''a'')]
     [''m'' \<mapsto> \<lparr>selectable = True\<rparr>] = Inr ()"
proof
  have "alias_edges [(''a'', Chain [''b'', ''m'']), (''b'', Single ''m'')] = {(''a'', ''b'')}"
    by (auto simp: alias_edges_def bt_get_def split: if_splits)
  then show "validate_alias_chain_targets [(''a'', Chain [''b'', ''m'']), (''b'', Single ''m'')]
     [''m'' \<mapsto> \<lparr>selectable = True\<rparr>] = Inr ()"
    by (simp add: alias_validation_exact bt_get_def acyclic_insert wf_acyclic)
  have e: "(''a'', ''b'') \<in> alias_edges [(''a'', Single ''b''), (''b'', Single ''a'')]"
    "(''b'', ''a'') \<in> alias_edges [(''a'', Single ''b''), (''b'', Single ''a'')]"
    by (auto simp: alias_edges_def bt_get_def)
  then have "(''a'', ''a'') \<in> (alias_edges [(''a'', Single ''b''), (''b'', Single ''a'')])\<^sup>+" by auto
  then show "\<not> validate_alias_chain_targets [(''a'', Single ''b''), (''b'', Single ''a'')]
     [''m'' \<mapsto> \<lparr>selectable = True\<rparr>] = Inr ()"
    by (auto simp: alias_validation_exact acyclic_def)
qed

end
