(* ===== verification/Resolved_Model.thy ===== *)
theory Resolved_Model
  imports Sticky Class_Policy Alias_Graph
begin

text \<open>
  The data that expansion turns into dispatch targets: the merged catalog row of a model
  (\<open>catalog.rs\<close>), the resolved model (\<open>resolved.rs\<close>), the provider and pool entries of the
  configuration as the router reads them, and the dispatch target with its two constructors
  (\<open>router/mod.rs\<close>, \<open>router/chain.rs\<close>). A provider instance is a trait object; it is carried as an
  opaque identity.
\<close>

subsection \<open>Catalog rows\<close>

datatype Source = Baked | Import | User

record CatalogRow =
  wm :: f64
  rm :: f64
  ttl_seconds :: u32
  min_prefix_tokens :: u32
  has_storage_rent :: bool
  storage_rent :: f64
  auto_cacher :: bool
  cr_tier :: "string option"
  cr_max_context_tokens :: "u32 option"
  cr_max_output_tokens :: "u32 option"
  input_cost_per_token :: "f64 option"
  output_cost_per_token :: "f64 option"
  capabilities :: "(string, bool) btree"

datatype EffectiveRow = Present CatalogRow Source string | Disabled | Missing

fun priced :: "EffectiveRow \<Rightarrow> CatalogRow option" where
  "priced (Present row source verified_at) = Some row"
| "priced Disabled = None"
| "priced Missing = None"

definition output_ceiling_tokens :: "EffectiveRow \<Rightarrow> u32 option" where
  "output_ceiling_tokens er = Option.bind (Option.bind (priced er) cr_max_output_tokens)
     (\<lambda>ceiling. if 0 < ceiling then Some ceiling else None)"

definition catalog_capabilities :: "EffectiveRow \<Rightarrow> (string, bool) btree" where
  "catalog_capabilities er = (case priced er of Some row \<Rightarrow> capabilities row | None \<Rightarrow> [])"

subsection \<open>Resolved models\<close>

datatype ReasoningDialect = Openai | Deepseek | Vllm | RawThinkTag | Openrouter | Passthrough
datatype HistoryReasoning = Auto | Strip | Preserve

record ResolvedModel =
  nickname :: string
  rm_provider_name :: string
  rm_provider :: nat
  rm_upstream :: string
  rm_supports_adaptive_thinking :: bool
  rm_effort_levels :: "string list"
  rm_max_thinking_budget :: u32
  rm_reasoning_dialect :: "ReasoningDialect option"
  rm_history_reasoning :: "HistoryReasoning option"
  rm_header_extras :: "(string, string) btree"
  rm_payload_extras :: "json option"
  rm_stream_first_byte_timeout_ms :: "u64 option"
  rm_max_output_tokens :: u32
  rm_reported_model :: "string option"
  rm_visible_routectl_provider :: bool
  rm_auth_secret_ref :: "SecretRef option"
  rm_seats :: "SeatTarget list option"
  effective_row :: EffectiveRow

definition resolved_model_new :: "string \<Rightarrow> string \<Rightarrow> nat \<Rightarrow> string \<Rightarrow> ResolvedModel" where
  "resolved_model_new nick provider_name provider up =
     \<lparr>nickname = nick, rm_provider_name = provider_name, rm_provider = provider, rm_upstream = up,
      rm_supports_adaptive_thinking = False, rm_effort_levels = [], rm_max_thinking_budget = 0,
      rm_reasoning_dialect = None, rm_history_reasoning = None, rm_header_extras = [], rm_payload_extras = None,
      rm_stream_first_byte_timeout_ms = None, rm_max_output_tokens = 0, rm_reported_model = None,
      rm_visible_routectl_provider = True, rm_auth_secret_ref = None, rm_seats = None, effective_row = Missing\<rparr>"

definition rotation_key :: "ResolvedModel \<Rightarrow> string" where
  "rotation_key m = (if rm_seats m \<noteq> None then rm_provider_name m else nickname m)"

definition context_window_tokens :: "ResolvedModel \<Rightarrow> u32 option" where
  "context_window_tokens m = Option.bind (Option.bind (priced (effective_row m)) cr_max_context_tokens)
     (\<lambda>window. if 0 < window then Some window else None)"

subsection \<open>Configuration entries\<close>

text \<open>Of each provider kind the fields dispatch reads: where its credential comes from, its base
  address and its runtime policy.\<close>

datatype CredentialSource = Own | Forwarded

datatype ProviderEntry =
    OpenaiCompat (runtime: ProviderRuntimePolicy)
  | AnthropicApi (credential_source: CredentialSource) (base_url: string) (runtime: ProviderRuntimePolicy)
  | Bedrock (runtime: ProviderRuntimePolicy)
  | OpenaiResponses (runtime: ProviderRuntimePolicy)
  | Gemini (runtime: ProviderRuntimePolicy)

fun kind_str :: "ProviderEntry \<Rightarrow> string" where
  "kind_str (OpenaiCompat r) = ''openai-compat''"
| "kind_str (AnthropicApi c u r) = ''anthropic-api''"
| "kind_str (Bedrock r) = ''bedrock''"
| "kind_str (OpenaiResponses r) = ''openai-responses''"
| "kind_str (Gemini r) = ''gemini''"

fun forwarded_base_url :: "ProviderEntry \<Rightarrow> string option" where
  "forwarded_base_url (AnthropicApi Forwarded u r) = Some u"
| "forwarded_base_url e = None"

record PoolEntry =
  pool_members :: "string list"
  pool_seat_selection :: SeatSelection
  pool_accepts_new_logins :: bool

record RouterConfig =
  cfg_aliases :: aliases
  cfg_providers :: "(string, ProviderEntry) btree"
  cfg_pools :: "(string, PoolEntry) btree"
  cfg_seat_quota_enabled :: bool

definition seat_selection_for :: "RouterConfig \<Rightarrow> string \<Rightarrow> SeatSelection" where
  "seat_selection_for cfg name = (case bt_get (cfg_pools cfg) name of
     Some pool \<Rightarrow> pool_seat_selection pool
   | None \<Rightarrow> (case List.find (\<lambda>pool. list_ex (\<lambda>member. member = name) (pool_members pool)) (map snd (cfg_pools cfg)) of
       Some pool \<Rightarrow> pool_seat_selection pool
     | None \<Rightarrow> FillFirst))"

definition provider_kind_for_target :: "RouterConfig \<Rightarrow> string \<Rightarrow> string" where
  "provider_kind_for_target cfg name = (case bt_get (cfg_providers cfg) name of
     Some entry \<Rightarrow> kind_str entry
   | None \<Rightarrow> (case Option.bind (bt_get (cfg_pools cfg) name)
         (\<lambda>pool. Option.bind (List.find (\<lambda>member. bt_get (cfg_providers cfg) member \<noteq> None) (pool_members pool))
            (\<lambda>member. bt_get (cfg_providers cfg) member)) of
       Some entry \<Rightarrow> kind_str entry
     | None \<Rightarrow> []))"

definition configured_member_count :: "RouterConfig \<Rightarrow> string \<Rightarrow> usize" where
  "configured_member_count cfg name = (case bt_get (cfg_pools cfg) name of
     Some pool \<Rightarrow> length (pool_members pool) | None \<Rightarrow> 0)"

subsection \<open>Dispatch targets\<close>

record DispatchTarget =
  dt_provider_name :: string
  dt_provider_kind :: "string option"
  use_forwarded_credential :: bool
  state_key :: string
  seat :: "string option"
  dt_upstream :: string
  dt_provider :: "nat option"
  dt_supports_adaptive_thinking :: bool
  dt_effort_levels :: "string list"
  strip_capabilities :: "string list"
  dt_nickname :: "string option"
  dt_model :: ResolvedModel
  dt_reasoning_dialect :: "ReasoningDialect option"
  dt_history_reasoning :: "HistoryReasoning option"
  dt_stream_first_byte_timeout_ms :: "u64 option"
  dt_max_thinking_budget :: u32
  dt_max_output_tokens :: u32
  dt_reported_model :: "string option"
  dt_visible_routectl_provider :: bool
  selection_decision :: "string option"
  class_overrides :: "(u16, FailureClass) btree"
  dt_capabilities :: "(string, bool) btree"

definition into_one_dispatch_target :: "ResolvedModel \<Rightarrow> DispatchTarget" where
  "into_one_dispatch_target m =
     \<lparr>dt_provider_name = rm_provider_name m, dt_provider_kind = None, use_forwarded_credential = False,
      state_key = nickname m, seat = seat_identity (rm_auth_secret_ref m), dt_upstream = rm_upstream m,
      dt_provider = Some (rm_provider m), dt_supports_adaptive_thinking = rm_supports_adaptive_thinking m,
      dt_effort_levels = rm_effort_levels m, strip_capabilities = [], dt_nickname = Some (nickname m),
      dt_model = m, dt_reasoning_dialect = rm_reasoning_dialect m, dt_history_reasoning = rm_history_reasoning m,
      dt_stream_first_byte_timeout_ms = rm_stream_first_byte_timeout_ms m,
      dt_max_thinking_budget = rm_max_thinking_budget m, dt_max_output_tokens = rm_max_output_tokens m,
      dt_reported_model = rm_reported_model m, dt_visible_routectl_provider = rm_visible_routectl_provider m,
      selection_decision = None, class_overrides = [],
      dt_capabilities = catalog_capabilities (effective_row m)\<rparr>"

definition dispatch_target_for_seat :: "ResolvedModel \<Rightarrow> SeatTarget \<Rightarrow> string option \<Rightarrow> DispatchTarget" where
  "dispatch_target_for_seat m s provider_kind =
     \<lparr>dt_provider_name = seat_provider_name s, dt_provider_kind = provider_kind, use_forwarded_credential = False,
      state_key = state_key_for s (nickname m), seat = seat_identity (seat_auth_secret_ref s), dt_upstream = rm_upstream m,
      dt_provider = Some (seat_provider s), dt_supports_adaptive_thinking = rm_supports_adaptive_thinking m,
      dt_effort_levels = rm_effort_levels m, strip_capabilities = [], dt_nickname = Some (nickname m),
      dt_model = m, dt_reasoning_dialect = rm_reasoning_dialect m, dt_history_reasoning = rm_history_reasoning m,
      dt_stream_first_byte_timeout_ms = rm_stream_first_byte_timeout_ms m,
      dt_max_thinking_budget = rm_max_thinking_budget m, dt_max_output_tokens = rm_max_output_tokens m,
      dt_reported_model = rm_reported_model m, dt_visible_routectl_provider = rm_visible_routectl_provider m,
      selection_decision = None, class_overrides = [],
      dt_capabilities = catalog_capabilities (effective_row m)\<rparr>"

definition capability_prior :: "DispatchTarget \<Rightarrow> string \<Rightarrow> bool option" where
  "capability_prior t feature = bt_get (dt_capabilities t) feature"

end
