(* ===== verification/Glob.thy ===== *)
theory Glob
  imports BTree_Map Core_Error
begin

text \<open>
  The alias patterns and their prefix index (\<open>routectl-router/src/glob.rs\<close>), and the index the
  router builds from the \<open>[aliases]\<close> table (\<open>Router::new\<close>). The interface \<open>prefix_table\<close> states
  what alias resolution relies on, and is interpreted on the index.
\<close>

datatype AliasPattern = Exact string | is_Prefix: Prefix string

definition STAR :: char where "STAR = CHR ''*''"

text \<open>\<open>AliasPattern::parse\<close>. The \<open>Err\<close> carries the message.\<close>

definition BARE_STAR_ERROR :: string where
  "BARE_STAR_ERROR = ''alias pattern `*` matches every wire model; use `default = ''
     @ [CHR 0x22] @ ''...'' @ [CHR 0x22] @ ''` instead''"

definition parse_pattern :: "string \<Rightarrow> string + AliasPattern" where
  "parse_pattern raw =
     (if raw = [STAR] then Inl BARE_STAR_ERROR
      else let asterisk_count = length (filter (\<lambda>c. c = STAR) raw)
           in if asterisk_count = 0 then Inr (Exact raw)
              else if asterisk_count = 1 \<and> last raw = STAR then
                (let prefix = take (length raw - 1) raw
                 in if prefix = [] then Inl BARE_STAR_ERROR else Inr (Prefix prefix))
              else Inl (''alias pattern `'' @ raw @ ''` is not supported; only exact strings and ''
                @ ''trailing-asterisk prefixes (e.g. `claude-opus-*`) are accepted''))"

fun matches :: "AliasPattern \<Rightarrow> string \<Rightarrow> bool" where
  "matches (Exact s) wire = (s = wire)"
| "matches (Prefix p) wire = starts_with wire p"

fun prefix_len :: "AliasPattern \<Rightarrow> usize" where
  "prefix_len (Exact s) = length s"
| "prefix_len (Prefix s) = length s"

record 'v PrefixIndex =
  pi_entries :: "(AliasPattern \<times> 'v) list"

definition index_new :: "'v PrefixIndex" where
  "index_new = \<lparr>pi_entries = []\<rparr>"

text \<open>A push followed by a stable sort on the reversed prefix length.\<close>

definition index_insert :: "AliasPattern \<Rightarrow> 'v \<Rightarrow> 'v PrefixIndex \<Rightarrow> 'v PrefixIndex" where
  "index_insert pattern value ix =
     \<lparr>pi_entries = sort_key (\<lambda>(p, _). - int (prefix_len p)) (pi_entries ix @ [(pattern, value)])\<rparr>"

definition longest_match :: "'v PrefixIndex \<Rightarrow> string \<Rightarrow> 'v option" where
  "longest_match ix wire = map_option snd (List.find (\<lambda>(pat, v). matches pat wire) (pi_entries ix))"

text \<open>The loop of \<open>Router::new\<close> over the \<open>[aliases]\<close> table: keys without an asterisk are skipped,
  an invalid pattern is logged and dropped.\<close>

definition index_key :: "'v PrefixIndex \<Rightarrow> string \<times> 'v \<Rightarrow> 'v PrefixIndex" where
  "index_key ix e = (if STAR \<notin> set (fst e) then ix
     else case parse_pattern (fst e) of
            Inr (Prefix p) \<Rightarrow> index_insert (Prefix p) (snd e) ix
          | Inr (Exact _) \<Rightarrow> ix
          | Inl _ \<Rightarrow> ix)"

definition build_glob_index :: "(string, 'v) btree \<Rightarrow> 'v PrefixIndex" where
  "build_glob_index aliases = foldl index_key index_new aliases"

text \<open>The startup check of the keys (\<open>factory/validate.rs\<close>): the first refused key, in key order.\<close>

fun validate_alias_patterns :: "(string, 'v) btree \<Rightarrow> Error + unit" where
  "validate_alias_patterns [] = Inr ()"
| "validate_alias_patterns ((key, v) # rest) = (case parse_pattern key of
     Inl e \<Rightarrow> Inl (Config (''[aliases.'' @ key @ '']: invalid pattern: '' @ e))
   | Inr _ \<Rightarrow> validate_alias_patterns rest)"

subsection \<open>The grammar\<close>

lemma parse_pattern_Prefix:
  "parse_pattern raw = Inr (Prefix p) \<longleftrightarrow> raw = p @ [STAR] \<and> p \<noteq> [] \<and> STAR \<notin> set p"
proof (cases raw rule: rev_cases)
  case (snoc ys y)
  then show ?thesis
    by (cases "STAR \<in> set ys") (auto simp: parse_pattern_def Let_def filter_empty_conv)
qed (simp add: parse_pattern_def)

lemma parse_pattern_Exact: "parse_pattern raw = Inr (Exact s) \<longleftrightarrow> raw = s \<and> STAR \<notin> set s"
  by (auto simp: parse_pattern_def Let_def filter_empty_conv split: if_splits)

subsection \<open>The interface of the index\<close>

text \<open>\<open>table ix\<close> are the stored prefixes with their values, \<open>ok\<close> the invariant of the index.\<close>

locale prefix_table =
  fixes ok :: "'i \<Rightarrow> bool" and table :: "'i \<Rightarrow> (string \<times> 'v) set" and lookup :: "'i \<Rightarrow> string \<Rightarrow> 'v option"
  assumes lookup_hit: "ok ix \<Longrightarrow> lookup ix w = Some v \<Longrightarrow>
      \<exists>p. (p, v) \<in> table ix \<and> starts_with w p
        \<and> (\<forall>q u. (q, u) \<in> table ix \<and> starts_with w q \<longrightarrow> length q \<le> length p)"
    and lookup_miss: "ok ix \<Longrightarrow> lookup ix w = None \<Longrightarrow> (p, v) \<in> table ix \<Longrightarrow> \<not> starts_with w p"
begin

definition longest :: "'i \<Rightarrow> string \<Rightarrow> string \<Rightarrow> bool" where
  "longest ix w p \<longleftrightarrow> starts_with w p
     \<and> (\<forall>q u. (q, u) \<in> table ix \<and> starts_with w q \<longrightarrow> length q \<le> length p)"

lemma longest_unique: "(p, v) \<in> table ix \<Longrightarrow> (q, u) \<in> table ix \<Longrightarrow> longest ix w p \<Longrightarrow> longest ix w q \<Longrightarrow> p = q"
  unfolding longest_def starts_with_def by (metis le_antisym)

lemma lookup_iff:
  assumes "ok ix" and fn: "\<And>p v u. (p, v) \<in> table ix \<Longrightarrow> (p, u) \<in> table ix \<Longrightarrow> v = u"
  shows "lookup ix w = Some v \<longleftrightarrow> (\<exists>p. (p, v) \<in> table ix \<and> longest ix w p)"
proof
  assume "lookup ix w = Some v"
  then show "\<exists>p. (p, v) \<in> table ix \<and> longest ix w p"
    using lookup_hit [OF assms(1)] by (auto simp: longest_def)
next
  assume "\<exists>p. (p, v) \<in> table ix \<and> longest ix w p"
  then obtain p where p: "(p, v) \<in> table ix" "longest ix w p" by blast
  show "lookup ix w = Some v"
  proof (cases "lookup ix w")
    case None
    then show ?thesis using p lookup_miss [OF assms(1)] by (auto simp: longest_def)
  next
    case (Some u)
    then obtain q where q: "(q, u) \<in> table ix" "longest ix w q"
      using lookup_hit [OF assms(1) Some] by (auto simp: longest_def)
    with p have "q = p" by (metis longest_unique)
    with p q fn Some show ?thesis by blast
  qed
qed

end

definition index_ok :: "'v PrefixIndex \<Rightarrow> bool" where
  "index_ok ix \<longleftrightarrow> sorted (map (\<lambda>(p, _). - int (prefix_len p)) (pi_entries ix))
     \<and> (\<forall>e \<in> set (pi_entries ix). is_Prefix (fst e))"

definition index_table :: "'v PrefixIndex \<Rightarrow> (string \<times> 'v) set" where
  "index_table ix = {(p, v). (Prefix p, v) \<in> set (pi_entries ix)}"

lemma find_sorted_first:
  assumes "sorted (map f xs)" and "List.find P xs = Some x" and "y \<in> set xs" and "P y"
  shows "f x \<le> f y"
  using assms by (induction xs) (auto split: if_splits dest: find_Some_mem)

interpretation glob: prefix_table index_ok index_table longest_match
proof
  fix ix :: "'v PrefixIndex" and w v
  assume ok: "index_ok ix" and hit: "longest_match ix w = Some v"
  then obtain pat where f: "List.find (\<lambda>(pat, v). matches pat w) (pi_entries ix) = Some (pat, v)"
    by (auto simp: longest_match_def)
  then have mem: "(pat, v) \<in> set (pi_entries ix)" "matches pat w" using find_Some_mem [OF f] by auto
  then obtain p where p: "pat = Prefix p" using ok by (cases pat) (auto simp: index_ok_def)
  show "\<exists>p. (p, v) \<in> index_table ix \<and> starts_with w p
      \<and> (\<forall>q u. (q, u) \<in> index_table ix \<and> starts_with w q \<longrightarrow> length q \<le> length p)"
  proof (intro exI [of _ p] conjI allI impI)
    fix q and u :: 'v assume "(q, u) \<in> index_table ix \<and> starts_with w q"
    then show "length q \<le> length p"
      using find_sorted_first [OF _ f, of "\<lambda>(p, _). - int (prefix_len p)" "(Prefix q, u)"] ok p
      by (simp add: index_ok_def index_table_def)
  qed (use mem p in \<open>auto simp: index_table_def\<close>)
next
  fix ix :: "'v PrefixIndex" and w p v
  assume "longest_match ix w = None" and "(p, v) \<in> index_table ix"
  then show "\<not> starts_with w p" by (force simp: longest_match_def find_None_iff index_table_def)
qed

subsection \<open>The index the router builds\<close>

lemma index_new_props: "index_ok index_new" "index_table index_new = {}"
  by (simp_all add: index_ok_def index_new_def index_table_def)

lemma index_insert_props:
  "index_ok ix \<Longrightarrow> index_ok (index_insert (Prefix p) v ix)"
  "index_table (index_insert (Prefix p) v ix) = insert (p, v) (index_table ix)"
  by (auto simp: index_ok_def index_insert_def index_table_def)

lemma index_key_props:
  "index_ok ix \<Longrightarrow> index_ok (index_key ix e)"
  "index_table (index_key ix (k, v)) = index_table ix \<union> {(p, v) |p. parse_pattern k = Inr (Prefix p)}"
  by (auto simp: index_key_def index_insert_props split: sum.splits AliasPattern.splits)
    (auto simp: parse_pattern_Prefix)

lemma build_index_props:
  "index_ok ix \<Longrightarrow> index_ok (foldl index_key ix es)"
  "index_table (foldl index_key ix es) = index_table ix \<union> {(p, v). \<exists>k. (k, v) \<in> set es \<and> parse_pattern k = Inr (Prefix p)}"
proof (induction es arbitrary: ix)
  case (Cons e es)
  obtain k v where e: "e = (k, v)" by force
  { case 1 with Cons(1) show ?case by (simp add: index_key_props) }
  { case 2 show ?case using Cons(2) [of "index_key ix e"] by (auto simp: e index_key_props) }
qed simp_all

lemma glob_index_ok [simp]: "index_ok (build_glob_index aliases)"
  by (simp add: build_glob_index_def build_index_props index_new_props)

lemma glob_table:
  assumes "bt_wf aliases"
  shows "(p, v) \<in> index_table (build_glob_index aliases)
    \<longleftrightarrow> bt_get aliases (p @ [STAR]) = Some v \<and> p \<noteq> [] \<and> STAR \<notin> set p"
  using bt_wf_distinct [OF assms]
  by (auto simp: build_glob_index_def build_index_props(2) parse_pattern_Prefix index_new_props bt_get_def)

lemma longest_match_iff:
  assumes "bt_wf aliases"
  shows "longest_match (build_glob_index aliases) w = Some v \<longleftrightarrow>
    (\<exists>p. (p, v) \<in> index_table (build_glob_index aliases) \<and> glob.longest (build_glob_index aliases) w p)"
  using assms by (intro glob.lookup_iff) (auto simp: glob_table)

lemma validate_alias_patterns_ok:
  "validate_alias_patterns aliases = Inr () \<Longrightarrow> (k, v) \<in> set aliases \<Longrightarrow> \<exists>p. parse_pattern k = Inr p"
  by (induction aliases) (auto split: sum.splits)

text \<open>The index finds the longest pattern: looking a wire model up gives the value of the key
  \<open>p*\<close> whose prefix \<open>p\<close> the model starts with and which no longer such key beats, and nothing
  exactly when no pattern key of the table matches; keys the grammar refuses never match.\<close>

lemma glob_longest_prefix:
  assumes "bt_wf aliases"
  shows "(longest_match (build_glob_index aliases) w = Some v \<longleftrightarrow>
      (\<exists>p. bt_get aliases (p @ [STAR]) = Some v \<and> parse_pattern (p @ [STAR]) = Inr (Prefix p) \<and> starts_with w p \<and>
        (\<forall>q. starts_with w q \<and> length p < length q \<and> q \<noteq> [] \<and> STAR \<notin> set q \<longrightarrow> bt_get aliases (q @ [STAR]) = None)))"
  unfolding longest_match_iff [OF assms] glob.longest_def glob_table [OF assms] parse_pattern_Prefix
  by (fastforce simp: not_le [symmetric])

lemma glob_longest_prefix_witness:
  "longest_match (build_glob_index [(''a*'', 1), (''a-b*'', 2), (''b'', 3 :: nat)]) ''a-bc'' = Some 2"
  by (subst glob_longest_prefix) (auto simp: bt_wf_def STAR_def bt_get_def parse_pattern_def starts_with_def
      intro!: exI [of _ "''a-b''"] split: if_splits)

end
