(* ===== verification/Alias_Resolve.thy ===== *)
theory Alias_Resolve
  imports Alias_Graph Glob
begin

text \<open>
  Resolution of a wire model through the \<open>[aliases]\<close> table (\<open>routectl-router/src/router/chain.rs\<close>):
  the exact-then-glob lookup, the depth-capped recursive expansion of nested aliases, and the
  catch-all. The specification \<open>expands\<close> is the expansion without the cap; the code computes it,
  or fails exactly when aliases nest more than eight deep.
\<close>

definition ALIAS_MAX_RECURSION_DEPTH :: usize where "ALIAS_MAX_RECURSION_DEPTH = 8"

definition depth_error :: Error where
  "depth_error = Config (''alias chain recursion exceeded depth '' @ show_nat ALIAS_MAX_RECURSION_DEPTH
     @ ''; possible cycle that startup validation missed -- run `routectl config check` to surface ''
     @ ''the offending alias'')"

text \<open>Levels left below the cap, then entries left in the current value.\<close>

definition levels_left :: "usize \<Rightarrow> nat" where
  "levels_left depth = (ALIAS_MAX_RECURSION_DEPTH + 1 - depth)"

text \<open>The resolved-model table is the argument \<open>resolve\<close> (\<open>Router::resolve_nickname\<close>).\<close>

function expand_alias_value ::
    "aliases \<Rightarrow> (string \<rightharpoonup> 'm) \<Rightarrow> AliasValue \<Rightarrow> 'm list \<Rightarrow> usize \<Rightarrow> Error + 'm list"
  and expand_entries ::
    "aliases \<Rightarrow> (string \<rightharpoonup> 'm) \<Rightarrow> string list \<Rightarrow> 'm list \<Rightarrow> usize \<Rightarrow> Error + 'm list" where
  "expand_alias_value aliases resolve value out depth =
     (if ALIAS_MAX_RECURSION_DEPTH < depth then Inl depth_error
      else expand_entries aliases resolve (nicknames value) out depth)"
| "expand_entries aliases resolve [] out depth = Inr out"
| "expand_entries aliases resolve (entry # entries) out depth =
     (case bt_get aliases entry of
        Some nested \<Rightarrow> (case expand_alias_value aliases resolve nested out (depth + 1) of
            Inl e \<Rightarrow> Inl e
          | Inr out' \<Rightarrow> expand_entries aliases resolve entries out' depth)
      | None \<Rightarrow> (case resolve entry of
            Some m \<Rightarrow> expand_entries aliases resolve entries (out @ [m]) depth
          | None \<Rightarrow> expand_entries aliases resolve entries out depth))"
  by pat_completeness auto

termination
  by (relation "measures
      [\<lambda>x. case x of Inl (al, r, v, out, d) \<Rightarrow> 2 * levels_left d | Inr (al, r, es, out, d) \<Rightarrow> max 1 (2 * levels_left d),
       \<lambda>x. case x of Inl (al, r, v, out, d) \<Rightarrow> Suc (length (nicknames v)) | Inr (al, r, es, out, d) \<Rightarrow> length es]")
    (auto simp: levels_left_def ALIAS_MAX_RECURSION_DEPTH_def)

definition resolve_v6_alias ::
  "aliases \<Rightarrow> AliasValue PrefixIndex \<Rightarrow> (string \<rightharpoonup> 'm) \<Rightarrow> string \<Rightarrow> Error + 'm list option" where
  "resolve_v6_alias aliases index resolve wire_model =
     (case (case bt_get aliases wire_model of Some v \<Rightarrow> Some v | None \<Rightarrow> longest_match index wire_model) of
        None \<Rightarrow> Inr None
      | Some value \<Rightarrow> (case expand_alias_value aliases resolve value [] 0 of
            Inl e \<Rightarrow> Inl e
          | Inr chain \<Rightarrow> Inr (if chain = [] then None else Some chain)))"

definition resolve_default_alias :: "aliases \<Rightarrow> (string \<rightharpoonup> 'm) \<Rightarrow> Error + 'm list option" where
  "resolve_default_alias aliases resolve =
     (case bt_get aliases ''default'' of
        None \<Rightarrow> Inr None
      | Some value \<Rightarrow> (case expand_alias_value aliases resolve value [] 0 of
            Inl e \<Rightarrow> Inl e
          | Inr chain \<Rightarrow> Inr (if chain = [] then None else Some chain)))"

definition first_chain_target ::
  "aliases \<Rightarrow> AliasValue PrefixIndex \<Rightarrow> (string \<rightharpoonup> 'm) \<Rightarrow> string \<Rightarrow> 'm option" where
  "first_chain_target aliases index resolve model =
     (case resolve_v6_alias aliases index resolve model of
        Inr (Some chain) \<Rightarrow> (case chain of [] \<Rightarrow> None | m # _ \<Rightarrow> Some m)
      | Inr None \<Rightarrow> resolve model
      | Inl _ \<Rightarrow> None)"

subsection \<open>The expansion without a cap\<close>

inductive expands :: "aliases \<Rightarrow> (string \<rightharpoonup> 'm) \<Rightarrow> string list \<Rightarrow> 'm list \<Rightarrow> bool" for aliases resolve where
  empty: "expands aliases resolve [] []"
| leaf: "bt_get aliases e = None \<Longrightarrow> expands aliases resolve es ms \<Longrightarrow>
     expands aliases resolve (e # es) (case resolve e of Some m \<Rightarrow> m # ms | None \<Rightarrow> ms)"
| nested: "bt_get aliases e = Some v \<Longrightarrow> expands aliases resolve (nicknames v) xs \<Longrightarrow>
     expands aliases resolve es ms \<Longrightarrow> expands aliases resolve (e # es) (xs @ ms)"

inductive_simps expands_Nil: "expands aliases resolve [] ms"
inductive_simps expands_Cons: "expands aliases resolve (e # es) ms"

lemma expands_leaf_iff:
  "bt_get aliases e = None \<Longrightarrow> expands aliases resolve (e # es) ms \<longleftrightarrow>
     (\<exists>ms'. expands aliases resolve es ms' \<and> ms = (case resolve e of Some m \<Rightarrow> m # ms' | None \<Rightarrow> ms'))"
  by (simp add: expands_Cons) blast

lemma expands_nested_iff:
  "bt_get aliases e = Some v \<Longrightarrow> expands aliases resolve (e # es) ms \<longleftrightarrow>
     (\<exists>xs ms'. expands aliases resolve (nicknames v) xs \<and> expands aliases resolve es ms' \<and> ms = xs @ ms')"
  by (simp add: expands_Cons) blast

lemma expands_deterministic:
  assumes "expands aliases resolve es ms" and "expands aliases resolve es ms'"
  shows "ms = ms'"
  using assms
proof (induction arbitrary: ms' rule: expands.induct)
  case empty
  then show ?case by (simp add: expands_Nil)
next
  case (leaf e es ms)
  then show ?case by (metis expands_leaf_iff)
next
  case (nested e v xs es ms)
  then show ?case by (metis expands_nested_iff)
qed

text \<open>A walk \<open>ns\<close> down the alias graph from the entries \<open>es\<close>: each name is an alias key and an entry
  of the value of the one before.\<close>

fun alias_walk :: "aliases \<Rightarrow> string list \<Rightarrow> string list \<Rightarrow> bool" where
  "alias_walk aliases es [] = True"
| "alias_walk aliases es (n # ns) = (n \<in> set es \<and>
     (case bt_get aliases n of None \<Rightarrow> False | Some v \<Rightarrow> alias_walk aliases (nicknames v) ns))"

definition too_deep :: "aliases \<Rightarrow> string list \<Rightarrow> nat \<Rightarrow> bool" where
  "too_deep aliases es d \<longleftrightarrow> (\<exists>ns. length ns = levels_left d \<and> alias_walk aliases es ns)"

lemma too_deep_Nil: "d \<le> 8 \<Longrightarrow> \<not> too_deep aliases [] d"
proof
  assume "d \<le> 8" "too_deep aliases [] d"
  then obtain ns where "length ns = levels_left d" "alias_walk aliases [] ns" by (auto simp: too_deep_def)
  with \<open>d \<le> 8\<close> show False by (cases ns) (auto simp: levels_left_def ALIAS_MAX_RECURSION_DEPTH_def)
qed

lemma too_deep_step:
  assumes "d \<le> 8"
  shows "too_deep aliases es d \<longleftrightarrow>
    (\<exists>n v. n \<in> set es \<and> bt_get aliases n = Some v \<and> too_deep aliases (nicknames v) (Suc d))"
proof -
  have "levels_left d = Suc (levels_left (Suc d))"
    using assms by (simp add: levels_left_def ALIAS_MAX_RECURSION_DEPTH_def)
  then have "too_deep aliases es d \<longleftrightarrow> (\<exists>n ns. length ns = levels_left (Suc d) \<and> alias_walk aliases es (n # ns))"
    unfolding too_deep_def by (metis length_Suc_conv)
  then show ?thesis by (fastforce simp: too_deep_def split: option.splits)
qed

lemma too_deep_Cons:
  assumes "d \<le> 8"
  shows "too_deep aliases (e # es) d \<longleftrightarrow>
    (\<exists>v. bt_get aliases e = Some v \<and> too_deep aliases (nicknames v) (Suc d)) \<or> too_deep aliases es d"
  unfolding too_deep_step [OF assms, of aliases "e # es"] too_deep_step [OF assms, of aliases es] by auto

lemma too_deep_over: "8 < d \<Longrightarrow> too_deep aliases es d"
  by (simp add: too_deep_def levels_left_def ALIAS_MAX_RECURSION_DEPTH_def)

lemma expand_cases:
  "if too_deep aliases (nicknames v0) d
   then expand_alias_value aliases resolve v0 out d = Inl depth_error
   else \<exists>ms. expands aliases resolve (nicknames v0) ms \<and> expand_alias_value aliases resolve v0 out d = Inr (out @ ms)"
  "d \<le> 8 \<Longrightarrow> if too_deep aliases es d
   then expand_entries aliases resolve es out d = Inl depth_error
   else \<exists>ms. expands aliases resolve es ms \<and> expand_entries aliases resolve es out d = Inr (out @ ms)"
proof (induction aliases resolve v0 out d and aliases resolve es out d rule: expand_alias_value_expand_entries.induct)
  case (1 aliases resolve v0 out d)
  then show ?case by (cases "8 < d") (auto simp: too_deep_over ALIAS_MAX_RECURSION_DEPTH_def)
next
  case (2 aliases resolve out d)
  then show ?case by (auto simp: too_deep_Nil intro: expands.empty)
next
  case (3 aliases resolve e es out d)
  show ?case
  proof (cases "bt_get aliases e")
    case None
    let ?out = "case resolve e of Some m \<Rightarrow> out @ [m] | None \<Rightarrow> out"
    have eq: "expand_entries aliases resolve (e # es) out d = expand_entries aliases resolve es ?out d"
      using None by (simp split: option.split)
    have "if too_deep aliases es d then expand_entries aliases resolve es ?out d = Inl depth_error
      else \<exists>ms. expands aliases resolve es ms \<and> expand_entries aliases resolve es ?out d = Inr (?out @ ms)"
    proof (cases "resolve e")
      case None
      then show ?thesis using "3.IH"(1) \<open>bt_get aliases e = None\<close> "3.prems" by simp
    next
      case (Some m)
      then show ?thesis using "3.IH"(2) \<open>bt_get aliases e = None\<close> "3.prems" by (auto split: if_splits)
    qed
    then have "if too_deep aliases es d then expand_entries aliases resolve es ?out d = Inl depth_error
      else \<exists>ms. expands aliases resolve (e # es) ms \<and> expand_entries aliases resolve es ?out d = Inr (out @ ms)"
      by (cases "resolve e") (auto simp: expands_leaf_iff [OF None] split: if_splits)
    moreover have "too_deep aliases (e # es) d \<longleftrightarrow> too_deep aliases es d"
      by (simp add: None too_deep_Cons [OF "3.prems"])
    ultimately show ?thesis unfolding eq by (simp only:)
  next
    case (Some v)
    show ?thesis
    proof (cases "too_deep aliases (nicknames v) (Suc d)")
      case True
      then show ?thesis using "3.IH"(3) Some by (simp add: too_deep_Cons [OF "3.prems"])
    next
      case False
      then obtain xs where xs: "expands aliases resolve (nicknames v) xs"
        "expand_alias_value aliases resolve v out (d + 1) = Inr (out @ xs)"
        using "3.IH"(3) Some by auto
      then have "if too_deep aliases es d then expand_entries aliases resolve es (out @ xs) d = Inl depth_error
        else \<exists>ms. expands aliases resolve es ms \<and> expand_entries aliases resolve es (out @ xs) d = Inr ((out @ xs) @ ms)"
        using "3.IH"(4) Some "3.prems" by blast
      moreover have "expand_entries aliases resolve (e # es) out d = expand_entries aliases resolve es (out @ xs) d"
        using Some xs(2) by simp
      ultimately show ?thesis using False Some expands.nested [OF Some xs(1)]
        unfolding too_deep_Cons [OF "3.prems"] by (cases "too_deep aliases es d") force+
    qed
  qed
qed

lemma levels_left_0: "levels_left 0 = 9"
  by (simp add: levels_left_def ALIAS_MAX_RECURSION_DEPTH_def)

text \<open>C37. Alias expansion is exact: the code returns \<open>ms\<close> precisely when \<open>ms\<close> is the full depth-first
  expansion in the operator's order and no nine aliases nest, and fails, always with the same
  configuration error, precisely when nine aliases nest below the value.\<close>

theorem alias_expansion_exact:
  "(expand_alias_value aliases resolve v [] 0 = Inr ms \<longleftrightarrow>
      expands aliases resolve (nicknames v) ms \<and> \<not> (\<exists>ns. length ns = 9 \<and> alias_walk aliases (nicknames v) ns)) \<and>
   (expand_alias_value aliases resolve v [] 0 = Inl e \<longleftrightarrow>
      e = depth_error \<and> (\<exists>ns. length ns = 9 \<and> alias_walk aliases (nicknames v) ns))"
  using expand_cases(1) [of aliases v 0 resolve "[]"] expands_deterministic [of aliases resolve "nicknames v"]
  unfolding too_deep_def levels_left_0
  by (cases "\<exists>ns. length ns = 9 \<and> alias_walk aliases (nicknames v) ns") auto

subsection \<open>Validated tables\<close>

definition installed :: "(string \<rightharpoonup> ModelEntry) \<Rightarrow> (string \<rightharpoonup> 'm) \<Rightarrow> bool" where
  "installed models resolve \<longleftrightarrow> (\<forall>n m. models n = Some m \<and> selectable m \<longrightarrow> resolve n \<noteq> None)"

definition targets_known :: "aliases \<Rightarrow> (string \<rightharpoonup> 'm) \<Rightarrow> bool" where
  "targets_known aliases resolve \<longleftrightarrow> (\<forall>(al, v) \<in> set aliases. nicknames v \<noteq> []
     \<and> (\<forall>n \<in> set (nicknames v). bt_get aliases n \<noteq> None \<or> resolve n \<noteq> None))"

lemma expands_nonempty:
  assumes "expands aliases resolve es ms" and "targets_known aliases resolve"
    and "es \<noteq> []" and "\<forall>n \<in> set es. bt_get aliases n \<noteq> None \<or> resolve n \<noteq> None"
  shows "ms \<noteq> []"
  using assms
proof (induction rule: expands.induct)
  case (nested e v xs es ms)
  then have "xs \<noteq> []" by (force simp: targets_known_def dest: bt_get_mem)
  then show ?case by simp
qed auto

lemma glob_value_mem:
  assumes "longest_match (build_glob_index aliases) w = Some v"
  shows "\<exists>k. (k, v) \<in> set aliases"
  using glob.lookup_hit [OF glob_index_ok assms]
  by (auto simp: build_glob_index_def build_index_props index_new_props)

lemma resolve_hit_nonempty:
  assumes "targets_known aliases resolve"
  shows "resolve_v6_alias aliases (build_glob_index aliases) resolve w = Inr None \<longleftrightarrow>
    bt_get aliases w = None \<and> longest_match (build_glob_index aliases) w = None"
proof (cases "case bt_get aliases w of Some v \<Rightarrow> Some v | None \<Rightarrow> longest_match (build_glob_index aliases) w")
  case None
  then show ?thesis by (auto simp: resolve_v6_alias_def split: option.splits)
next
  case (Some v)
  then obtain k where "(k, v) \<in> set aliases"
    by (auto split: option.splits dest: bt_get_mem glob_value_mem)
  with assms have "nicknames v \<noteq> []" "\<forall>n \<in> set (nicknames v). bt_get aliases n \<noteq> None \<or> resolve n \<noteq> None"
    by (auto simp: targets_known_def)
  then have "expand_alias_value aliases resolve v [] 0 \<noteq> Inr []"
    using expand_cases(1) [of aliases v 0 resolve "[]"] expands_nonempty [OF _ assms, of "nicknames v" "[]"]
    by (auto split: if_splits)
  with Some show ?thesis by (auto simp: resolve_v6_alias_def split: option.splits sum.splits)
qed

text \<open>A validated alias never falls through: when startup validation accepted the table and every
  selectable model is installed, an alias or pattern hit yields a non-empty chain or the depth
  error; resolution answers "no alias" exactly when neither an exact key nor a pattern matches.\<close>

lemma validated_alias_never_falls_through:
  assumes "validate_alias_chain_targets aliases models = Inr ()" and "installed models resolve"
  shows "resolve_v6_alias aliases (build_glob_index aliases) resolve w = Inr None \<longleftrightarrow>
    bt_get aliases w = None \<and> longest_match (build_glob_index aliases) w = None"
proof (rule resolve_hit_nonempty)
  have "\<forall>(al, v) \<in> set aliases. nicknames v \<noteq> [] \<and> (\<forall>n \<in> set (nicknames v).
      bt_get aliases n \<noteq> None \<or> (\<exists>m. models n = Some m \<and> selectable m))"
    using assms(1) by (simp add: validation_iff)
  with assms(2) show "targets_known aliases resolve" unfolding targets_known_def installed_def by blast
qed

lemma validated_alias_never_falls_through_witness:
  "resolve_v6_alias [(''a*'', Single ''m'')] (build_glob_index [(''a*'', Single ''m'')]) [''m'' \<mapsto> 7 :: nat] ''abc'' \<noteq> Inr None"
proof -
  have "longest_match (build_glob_index [(''a*'', Single ''m'')]) ''abc'' = Some (Single ''m'')"
    by (simp add: build_glob_index_def index_key_def parse_pattern_def STAR_def index_insert_def index_new_def
        longest_match_def starts_with_def)
  moreover have "validate_alias_chain_targets [(''a*'', Single ''m'')] [''m'' \<mapsto> \<lparr>selectable = True\<rparr>] = Inr ()"
    by (simp add: validation_iff bt_get_def) (auto simp: alias_edges_def bt_get_def acyclic_def)
  moreover have "installed [''m'' \<mapsto> \<lparr>selectable = True\<rparr>] [''m'' \<mapsto> 7 :: nat]" by (simp add: installed_def)
  ultimately show ?thesis
    using validated_alias_never_falls_through [of "[(''a*'', Single ''m'')]" "[''m'' \<mapsto> \<lparr>selectable = True\<rparr>]"
        "[''m'' \<mapsto> 7 :: nat]" "''abc''"] by simp
qed

text \<open>A ladder of ten aliases, each naming the next, the last naming a model.\<close>

definition ladder :: aliases where
  "ladder = [(''a0'', Single ''a1''), (''a1'', Single ''a2''), (''a2'', Single ''a3''), (''a3'', Single ''a4''),
    (''a4'', Single ''a5''), (''a5'', Single ''a6''), (''a6'', Single ''a7''), (''a7'', Single ''a8''),
    (''a8'', Single ''a9''), (''a9'', Single ''m'')]"

text \<open>Validation does not bound nesting: a ladder of ten acyclic aliases passes startup validation,
  yet every request for its head fails with the error that blames a cycle validation missed.\<close>

lemma deep_acyclic_alias_fails:
  "validate_alias_chain_targets ladder [''m'' \<mapsto> \<lparr>selectable = True\<rparr>] = Inr () \<and>
   resolve_v6_alias ladder (build_glob_index ladder) [''m'' \<mapsto> m] ''a0'' = Inl depth_error \<and>
   resolve_v6_alias ladder (build_glob_index ladder) [''m'' \<mapsto> m] ''a1'' = Inr (Some [m])"
  by (simp add: ladder_def validate_alias_chain_targets_def cycle_pass_def cycle_start_def alias_errors_def
      target_errors_def bt_get_def resolve_v6_alias_def ALIAS_MAX_RECURSION_DEPTH_def)

end
