(* ===== verification/Chain.thy ===== *)
theory Chain
  imports Resolved_Model Alias_Resolve
begin

text \<open>
  Chain resolution and expansion into dispatch targets
  (\<open>routectl-router/src/router/chain.rs\<close>): precedence of aliases, nicknames and the catch-all,
  the expansion of a pooled model into one target per seat, and the pass that reads each target's
  provider entry. The clocks are read once per request; the pool counters are kept, log lines are
  not.
\<close>

subsection \<open>State\<close>

record Router =
  config :: RouterConfig
  alias_glob_index :: "AliasValue PrefixIndex"
  resolved_models :: "string \<rightharpoonup> ResolvedModel"
  round_robin :: RoundRobinCursors

record PoolMetrics =
  pool_unavailable :: u64
  pool_dispatch :: u64
  pool_degraded_dispatch :: u64

text \<open>What expansion reads of the rest of the router: the gates, the quota store, the two clocks.\<close>

record Surroundings =
  sur_gates :: gates
  sur_quota_store :: QuotaStore
  sur_now :: instant
  sur_stamp :: ObservationStamp

record 'l RoutingState =
  sticky_pins :: "'l StickyPins"
  rr_cells :: cells
  metrics :: PoolMetrics

definition placement_config :: "RouterConfig \<Rightarrow> PlacementConfig" where
  "placement_config cfg = \<lparr>pc_seat_quota_enabled = cfg_seat_quota_enabled cfg,
     pc_provider_kind = (\<lambda>name. map_option kind_str (bt_get (cfg_providers cfg) name))\<rparr>"

subsection \<open>Keys and errors\<close>

definition sticky_pin_key :: "string \<Rightarrow> string \<Rightarrow> string" where
  "sticky_pin_key session pool = show_nat (length pool) @ '':'' @ pool @ '':'' @ session"

definition empty_pool_error :: "string \<Rightarrow> Error" where
  "empty_pool_error model = Core_Error.upstream model 503
     (''no usable credential seat is available for this route; ''
      @ ''every member of its pool is currently unusable'')"

subsection \<open>Expansion\<close>

definition count_pool_dispatch :: "RouterConfig \<Rightarrow> ResolvedModel \<Rightarrow> SeatTarget list \<Rightarrow> PoolMetrics \<Rightarrow> PoolMetrics" where
  "count_pool_dispatch cfg m seats mt =
     (let mt = mt\<lparr>pool_dispatch := pool_dispatch mt + 1\<rparr>
      in if length seats < configured_member_count cfg (rm_provider_name m)
         then mt\<lparr>pool_degraded_dispatch := pool_degraded_dispatch mt + 1\<rparr> else mt)"

definition seat_order ::
  "'l LruOps \<Rightarrow> Router \<Rightarrow> Surroundings \<Rightarrow> ResolvedModel \<Rightarrow> SeatTarget list \<Rightarrow> string option \<Rightarrow>
   'l RoutingState \<Rightarrow> 'l RoutingState \<times> usize list \<times> string option" where
  "seat_order ops r sur m seats session_key st =
     (let cfg = config r; pc = placement_config cfg;
          selection = seat_selection_for cfg (rm_provider_name m);
          fixed = (let (cs, order) = seat_order_for_request (rotation_key m) (length seats) selection
                     (round_robin r) (rr_cells st)
                   in (st\<lparr>rr_cells := cs\<rparr>, order, None))
      in if selection = StickyLeastLoaded \<and> 1 < length seats then
           (case session_key of
              Some key \<Rightarrow>
                (let (pins, order, tok) = sticky_seat_order ops pc (sur_gates sur) (sur_quota_store sur)
                       (sur_now sur) (sur_stamp sur) seats (sticky_pin_key key (rotation_key m)) (nickname m) (sticky_pins st)
                 in (st\<lparr>sticky_pins := pins\<rparr>, order, Some tok))
            | None \<Rightarrow>
                (let (pins, cs, order, tok) = keyless_seat_order pc (sur_gates sur) (sur_quota_store sur)
                       (sur_now sur) (sur_stamp sur) (round_robin r) (rr_cells st) seats (nickname m) (rotation_key m) (sticky_pins st)
                 in (st\<lparr>sticky_pins := pins, rr_cells := cs\<rparr>, order, Some tok)))
         else fixed)"

definition stamp_home :: "string option \<Rightarrow> DispatchTarget list \<Rightarrow> DispatchTarget list" where
  "stamp_home token ts = (case (token, ts) of
     (Some tok, t # rest) \<Rightarrow> t\<lparr>selection_decision := Some tok\<rparr> # rest | _ \<Rightarrow> ts)"

definition push_seat_targets ::
  "'l LruOps \<Rightarrow> Router \<Rightarrow> Surroundings \<Rightarrow> ResolvedModel \<Rightarrow> SeatTarget list \<Rightarrow> string option \<Rightarrow>
   'l RoutingState \<times> DispatchTarget list \<Rightarrow> 'l RoutingState \<times> DispatchTarget list" where
  "push_seat_targets ops r sur m seats session_key s = (case s of (st, out) \<Rightarrow>
     if seats = [] then
       (st\<lparr>metrics := (metrics st)\<lparr>pool_unavailable := pool_unavailable (metrics st) + 1\<rparr>\<rparr>, out)
     else
       (let st = st\<lparr>metrics := count_pool_dispatch (config r) m seats (metrics st)\<rparr>;
            (st, order, token) = seat_order ops r sur m seats session_key st;
            pushed = map (\<lambda>idx. let s = seats ! idx in dispatch_target_for_seat m s
              (map_option kind_str (bt_get (cfg_providers (config r)) (seat_provider_name s)))) order
        in (st, out @ stamp_home token pushed)))"

definition push_model ::
  "'l LruOps \<Rightarrow> Router \<Rightarrow> Surroundings \<Rightarrow> string option \<Rightarrow>
   'l RoutingState \<times> DispatchTarget list \<Rightarrow> ResolvedModel \<Rightarrow> 'l RoutingState \<times> DispatchTarget list" where
  "push_model ops r sur session_key s m = (case rm_seats m of
     None \<Rightarrow> (fst s, snd s @ [into_one_dispatch_target m])
   | Some seats \<Rightarrow> push_seat_targets ops r sur m seats session_key s)"

definition fill_target :: "RouterConfig \<Rightarrow> DispatchTarget \<Rightarrow> DispatchTarget" where
  "fill_target cfg target =
     (let entry = bt_get (cfg_providers cfg) (dt_provider_name target);
          target = (if dt_provider_kind target = None
            then target\<lparr>dt_provider_kind := map_option kind_str entry\<rparr> else target);
          target = target\<lparr>use_forwarded_credential := (case entry of None \<Rightarrow> False | Some e \<Rightarrow> forwarded_base_url e \<noteq> None)\<rparr>
      in case entry of
           Some e \<Rightarrow> if class_overrides target = []
             then target\<lparr>class_overrides := map (\<lambda>(status, cls). (status, to_failure_class cls)) (prp_class_overrides (runtime e))\<rparr>
             else target
         | None \<Rightarrow> target)"

definition expand_chain_to_targets ::
  "'l LruOps \<Rightarrow> Router \<Rightarrow> Surroundings \<Rightarrow> ResolvedModel list \<Rightarrow> string option \<Rightarrow>
   'l RoutingState \<Rightarrow> 'l RoutingState \<times> DispatchTarget list" where
  "expand_chain_to_targets ops r sur chain session_key st =
     (let (st, out) = foldl (push_model ops r sur session_key) (st, []) chain
      in (st, map (fill_target (config r)) out))"

definition expand_resolved_chain ::
  "'l LruOps \<Rightarrow> Router \<Rightarrow> Surroundings \<Rightarrow> string \<Rightarrow> ResolvedModel list \<Rightarrow> string option \<Rightarrow>
   'l RoutingState \<Rightarrow> 'l RoutingState \<times> (Error + DispatchTarget list)" where
  "expand_resolved_chain ops r sur model chain session_key st =
     (let (st, targets) = expand_chain_to_targets ops r sur chain session_key st
      in (st, if targets = [] then Inl (empty_pool_error model) else Inr targets))"

subsection \<open>Resolution\<close>

definition router_alias :: "Router \<Rightarrow> string \<Rightarrow> Error + ResolvedModel list option" where
  "router_alias r model = resolve_v6_alias (cfg_aliases (config r)) (alias_glob_index r) (resolved_models r) model"

definition router_default :: "Router \<Rightarrow> Error + ResolvedModel list option" where
  "router_default r = resolve_default_alias (cfg_aliases (config r)) (resolved_models r)"

definition dispatch_chain ::
  "'l LruOps \<Rightarrow> Router \<Rightarrow> Surroundings \<Rightarrow> string \<Rightarrow> string option \<Rightarrow>
   'l RoutingState \<Rightarrow> 'l RoutingState \<times> (Error + DispatchTarget list)" where
  "dispatch_chain ops r sur model session_key st = (case router_alias r model of
     Inl e \<Rightarrow> (st, Inl e)
   | Inr (Some chain) \<Rightarrow> expand_resolved_chain ops r sur model chain session_key st
   | Inr None \<Rightarrow> (case resolved_models r model of
       Some m \<Rightarrow> expand_resolved_chain ops r sur model [m] session_key st
     | None \<Rightarrow> (case router_default r of
         Inl e \<Rightarrow> (st, Inl e)
       | Inr (Some chain) \<Rightarrow> expand_resolved_chain ops r sur model chain session_key st
       | Inr None \<Rightarrow> (st, Inl (UnknownAlias model)))))"

definition context_window_for :: "Router \<Rightarrow> string \<Rightarrow> u32 option" where
  "context_window_for r model = Option.bind
     (first_chain_target (cfg_aliases (config r)) (alias_glob_index r) (resolved_models r) model) context_window_tokens"

subsection \<open>Lanes\<close>

text \<open>The lanes of a model: the provider entry and runtime-state key of each target it can become.\<close>

definition model_lanes :: "ResolvedModel \<Rightarrow> (string \<times> string) list" where
  "model_lanes m = (case rm_seats m of None \<Rightarrow> [(rm_provider_name m, nickname m)]
     | Some seats \<Rightarrow> map (\<lambda>s. (seat_provider_name s, state_key_for s (nickname m))) seats)"

definition lane_of :: "DispatchTarget \<Rightarrow> string \<times> string" where
  "lane_of t = (dt_provider_name t, state_key t)"

lemma seat_order_is_perm:
  assumes "seat_order ops r sur m seats session_key st = (st', order, token)"
  shows "mset order = mset [0..<length seats]"
proof (cases "seat_selection_for (config r) (rm_provider_name m) = StickyLeastLoaded \<and> 1 < length seats")
  case True
  then show ?thesis using assms
    by (auto simp: seat_order_def Let_def split: prod.splits option.splits
        dest: sticky_seat_order_perm keyless_seat_order_perm)
next
  case False
  then show ?thesis using assms
      seat_order_perm [of "rotation_key m" "length seats" "seat_selection_for (config r) (rm_provider_name m)"
        "round_robin r" "rr_cells st"]
    unfolding seat_order_def Let_def by (auto split: prod.splits)
qed

lemma stamp_home_lanes [simp]:
  "map lane_of (stamp_home tok ts) = map lane_of ts" "map dt_model (stamp_home tok ts) = map dt_model ts"
  by (auto simp: stamp_home_def lane_of_def split: option.splits list.splits)

lemma target_lane [simp]:
  "lane_of (dispatch_target_for_seat m s k) = (seat_provider_name s, state_key_for s (nickname m))"
  "lane_of (into_one_dispatch_target m) = (rm_provider_name m, nickname m)"
  "dt_model (dispatch_target_for_seat m s k) = m" "dt_model (into_one_dispatch_target m) = m"
  by (simp_all add: lane_of_def dispatch_target_for_seat_def into_one_dispatch_target_def)

lemma fill_target_lane [simp]: "lane_of (fill_target cfg t) = lane_of t" "dt_model (fill_target cfg t) = dt_model t"
  by (auto simp: fill_target_def lane_of_def Let_def split: option.split)

lemma push_model_lanes:
  assumes "push_model ops r sur session_key (st, out) m = (st', out')"
  shows "\<exists>ts. out' = out @ ts \<and> mset (map lane_of ts) = mset (model_lanes m)
    \<and> map dt_model ts = replicate (length (model_lanes m)) m"
proof (cases "rm_seats m")
  case None
  then show ?thesis using assms by (auto simp: push_model_def model_lanes_def)
next
  case (Some seats)
  show ?thesis
  proof (cases "seats = []")
    case True
    then show ?thesis using Some assms by (auto simp: push_model_def push_seat_targets_def model_lanes_def)
  next
    case False
    let ?st = "st\<lparr>metrics := count_pool_dispatch (config r) m seats (metrics st)\<rparr>"
    let ?target = "\<lambda>s. dispatch_target_for_seat m s (map_option kind_str (bt_get (cfg_providers (config r)) (seat_provider_name s)))"
    obtain st2 order token where so: "seat_order ops r sur m seats session_key ?st = (st2, order, token)"
      by (metis prod_cases3)
    have out: "out' = out @ stamp_home token (map (\<lambda>idx. ?target (seats ! idx)) order)"
      using assms so Some False by (simp add: push_model_def push_seat_targets_def Let_def)
    note perm = seat_order_is_perm [OF so]
    have "mset (map (\<lambda>i. f (seats ! i)) order) = mset (map f seats)" for f :: "SeatTarget \<Rightarrow> string \<times> string"
    proof -
      have "mset (map (\<lambda>i. f (seats ! i)) order) = mset (map (\<lambda>i. f (seats ! i)) [0..<length seats])"
        using perm by (metis mset_map)
      also have "map (\<lambda>i. f (seats ! i)) [0..<length seats] = map f seats"
        by (rule nth_equalityI) simp_all
      finally show ?thesis .
    qed
    moreover have "length order = length seats" using mset_eq_length [OF perm] by simp
    ultimately show ?thesis unfolding out
      by (intro exI [of _ "stamp_home token (map (\<lambda>idx. ?target (seats ! idx)) order)"])
        (simp add: Some model_lanes_def comp_def map_replicate_const)
  qed
qed

lemma push_models_lanes:
  assumes "foldl (push_model ops r sur session_key) (st, out) chain = (st', out')"
  shows "\<exists>tss. out' = out @ concat tss
    \<and> list_all2 (\<lambda>m ts. mset (map lane_of ts) = mset (model_lanes m) \<and> map dt_model ts = replicate (length (model_lanes m)) m) chain tss"
  using assms
proof (induction chain arbitrary: st out)
  case (Cons m chain)
  obtain st1 out1 where p: "push_model ops r sur session_key (st, out) m = (st1, out1)" by force
  obtain ts where ts: "out1 = out @ ts" "mset (map lane_of ts) = mset (model_lanes m)"
      "map dt_model ts = replicate (length (model_lanes m)) m"
    using push_model_lanes [OF p] by blast
  obtain tss where "out' = out1 @ concat tss" "list_all2 (\<lambda>m ts. mset (map lane_of ts) = mset (model_lanes m)
      \<and> map dt_model ts = replicate (length (model_lanes m)) m) chain tss"
    using Cons.IH [of st1 out1] Cons.prems p by auto
  with ts show ?case by (intro exI [of _ "ts # tss"]) simp
qed simp

lemma expansion_lanes:
  "mset (map lane_of (snd (expand_chain_to_targets ops r sur chain session_key st))) = mset (concat (map model_lanes chain)) \<and>
   map dt_model (snd (expand_chain_to_targets ops r sur chain session_key st))
     = concat (map (\<lambda>m. replicate (length (model_lanes m)) m) chain)"
proof -
  obtain st' out where f: "foldl (push_model ops r sur session_key) (st, []) chain = (st', out)" by force
  obtain tss where out: "out = concat tss" and t: "list_all2 (\<lambda>m ts. mset (map lane_of ts) = mset (model_lanes m)
      \<and> map dt_model ts = replicate (length (model_lanes m)) m) chain tss"
    using push_models_lanes [OF f] by auto
  have "mset (map lane_of (concat tss)) = mset (concat (map model_lanes chain)) \<and>
      map dt_model (concat tss) = concat (map (\<lambda>m. replicate (length (model_lanes m)) m) chain)"
    using t by (induction rule: list_all2_induct) simp_all
  then show ?thesis by (simp add: expand_chain_to_targets_def f out comp_def)
qed

lemmas expansion_models = expansion_lanes [THEN conjunct2]

text \<open>C10. Expansion loses and invents no lane, and keeps the operator's order: the targets of a chain
  are, model after model, one per lane of the model (its seats in some order), and each carries its
  model.\<close>

theorem expansion_keeps_lanes:
  "mset (map lane_of (snd (expand_chain_to_targets ops r sur chain session_key st))) = mset (concat (map model_lanes chain)) \<and>
   map dt_model (snd (expand_chain_to_targets ops r sur chain session_key st))
     = concat (map (\<lambda>m. replicate (length (model_lanes m)) m) chain)"
  by (rule expansion_lanes)

subsection \<open>Configuration facts of a target\<close>

text \<open>A seat target already carries the kind of its own entry; the pass fills every other field from
  the same entry.\<close>

definition kind_anchored :: "RouterConfig \<Rightarrow> DispatchTarget \<Rightarrow> bool" where
  "kind_anchored cfg t \<longleftrightarrow> (dt_provider_kind t = None
     \<or> dt_provider_kind t = map_option kind_str (bt_get (cfg_providers cfg) (dt_provider_name t)))
     \<and> class_overrides t = []"

lemma stamp_home_anchored:
  "t \<in> set (stamp_home tok ts) \<Longrightarrow> \<forall>t \<in> set ts. kind_anchored cfg t \<Longrightarrow> kind_anchored cfg t"
  by (auto simp: stamp_home_def kind_anchored_def split: option.splits list.splits)

lemma target_kind_anchored [simp]:
  "kind_anchored cfg (into_one_dispatch_target m)"
  "kind_anchored cfg (dispatch_target_for_seat m s (map_option kind_str (bt_get (cfg_providers cfg) (seat_provider_name s))))"
  by (simp_all add: kind_anchored_def into_one_dispatch_target_def dispatch_target_for_seat_def)

lemma push_model_anchored:
  assumes "push_model ops r sur session_key (st, out) m = (st', out')" and "\<forall>t \<in> set out. kind_anchored (config r) t"
  shows "\<forall>t \<in> set out'. kind_anchored (config r) t"
proof (cases "\<exists>seats. rm_seats m = Some seats \<and> seats \<noteq> []")
  case True
  let ?target = "\<lambda>s. dispatch_target_for_seat m s (map_option kind_str (bt_get (cfg_providers (config r)) (seat_provider_name s)))"
  obtain token ss where out: "out' = out @ stamp_home token (map ?target ss)"
  proof -
    from True obtain seats where s: "rm_seats m = Some seats" "seats \<noteq> []" by blast
    obtain st2 order token where so: "seat_order ops r sur m seats session_key
        (st\<lparr>metrics := count_pool_dispatch (config r) m seats (metrics st)\<rparr>) = (st2, order, token)"
      by (metis prod_cases3)
    have "out' = out @ stamp_home token (map ?target (map ((!) seats) order))"
      using assms(1) so s by (simp add: push_model_def push_seat_targets_def Let_def comp_def)
    then show thesis by (rule that)
  qed
  have targets: "\<forall>t \<in> set (map ?target ss). kind_anchored (config r) t" by simp
  show ?thesis using assms(2) out stamp_home_anchored [OF _ targets] by auto
next
  case False
  then show ?thesis using assms by (auto simp: push_model_def push_seat_targets_def split: option.splits)
qed

lemma push_models_anchored:
  assumes "foldl (push_model ops r sur session_key) (st, out) chain = (st', out')"
    and "\<forall>t \<in> set out. kind_anchored (config r) t"
  shows "\<forall>t \<in> set out'. kind_anchored (config r) t"
  using assms
proof (induction chain arbitrary: st out)
  case (Cons m chain)
  obtain st1 out1 where p: "push_model ops r sur session_key (st, out) m = (st1, out1)" by force
  then show ?case using Cons.IH [of st1 out1] Cons.prems push_model_anchored [OF p] by simp
qed simp

definition anchored :: "RouterConfig \<Rightarrow> DispatchTarget \<Rightarrow> bool" where
  "anchored cfg t \<longleftrightarrow> (let entry = bt_get (cfg_providers cfg) (dt_provider_name t) in
     dt_provider_kind t = map_option kind_str entry \<and>
     (use_forwarded_credential t \<longleftrightarrow> (\<exists>e. entry = Some e \<and> forwarded_base_url e \<noteq> None)) \<and>
     class_overrides t = (case entry of None \<Rightarrow> [] | Some e \<Rightarrow>
       map (\<lambda>(status, cls). (status, to_failure_class cls)) (prp_class_overrides (runtime e))))"

lemma fill_target_anchored: "kind_anchored cfg t \<Longrightarrow> anchored cfg (fill_target cfg t)"
  by (auto simp: kind_anchored_def anchored_def fill_target_def Let_def split: option.splits)

text \<open>A target is anchored to the entry that egresses: its kind, its forwarded-credential flag and
  its status remaps are those of the provider entry it dispatches to, a pool member's own entry
  included; the forwarded credential is used only if that very entry is configured forwarded.\<close>

lemma targets_anchored:
  "list_all (anchored (config r)) (snd (expand_chain_to_targets ops r sur chain session_key st))"
proof -
  obtain st' out where f: "foldl (push_model ops r sur session_key) (st, []) chain = (st', out)" by force
  then have "\<forall>t \<in> set out. kind_anchored (config r) t" using push_models_anchored [OF f] by simp
  then show ?thesis by (simp add: expand_chain_to_targets_def f list_all_iff fill_target_anchored)
qed

subsection \<open>Resolution order\<close>

definition no_lanes :: "ResolvedModel list \<Rightarrow> bool" where
  "no_lanes chain \<longleftrightarrow> concat (map model_lanes chain) = []"

lemma expansion_empty_iff:
  "snd (expand_chain_to_targets ops r sur chain session_key st) = [] \<longleftrightarrow> no_lanes chain"
proof -
  obtain st' out where f: "foldl (push_model ops r sur session_key) (st, []) chain = (st', out)" by force
  obtain tss where out: "out = concat tss" and t: "list_all2 (\<lambda>m ts. mset (map lane_of ts) = mset (model_lanes m)
      \<and> map dt_model ts = replicate (length (model_lanes m)) m) chain tss"
    using push_models_lanes [OF f] by auto
  have "concat tss = [] \<longleftrightarrow> no_lanes chain"
    using t by (induction rule: list_all2_induct) (auto simp: no_lanes_def)
  then show ?thesis by (simp add: expand_chain_to_targets_def f out)
qed

lemma expand_resolved_snd:
  "snd (expand_resolved_chain ops r sur model chain session_key st) =
     (if no_lanes chain then Inl (empty_pool_error model)
      else Inr (snd (expand_chain_to_targets ops r sur chain session_key st)))"
  using expansion_empty_iff [of ops r sur chain session_key st]
  by (simp add: expand_resolved_chain_def Let_def split_beta)

text \<open>The chain a wire model routes to: alias or pattern, then the nickname itself, then the
  catch-all.\<close>

definition routed :: "Router \<Rightarrow> string \<Rightarrow> Error + ResolvedModel list" where
  "routed r model = (case router_alias r model of
     Inl e \<Rightarrow> Inl e
   | Inr (Some chain) \<Rightarrow> Inr chain
   | Inr None \<Rightarrow> (case resolved_models r model of
       Some m \<Rightarrow> Inr [m]
     | None \<Rightarrow> (case router_default r of
         Inl e \<Rightarrow> Inl e
       | Inr (Some chain) \<Rightarrow> Inr chain
       | Inr None \<Rightarrow> Inl (UnknownAlias model))))"

lemma dispatch_chain_routed:
  "snd (dispatch_chain ops r sur model session_key st) = (case routed r model of
     Inl e \<Rightarrow> Inl e
   | Inr chain \<Rightarrow> if no_lanes chain then Inl (empty_pool_error model)
       else Inr (snd (expand_chain_to_targets ops r sur chain session_key st)))"
  by (auto simp: dispatch_chain_def routed_def expand_resolved_snd split: sum.split option.split)

lemma expand_never_unknown: "expand_alias_value aliases resolve v out d = Inl e \<Longrightarrow> e = depth_error"
  using expand_cases(1) [of aliases v d resolve out] by (auto split: if_splits simp del: expand_alias_value.simps)

lemma router_alias_error: "router_alias r model = Inl e \<Longrightarrow> e = depth_error"
  by (auto simp: router_alias_def resolve_v6_alias_def split: option.splits sum.splits if_splits simp del: expand_alias_value.simps
      dest: expand_never_unknown)

lemma router_default_error: "router_default r = Inl e \<Longrightarrow> e = depth_error"
  by (auto simp: router_default_def resolve_default_alias_def split: option.splits sum.splits if_splits simp del: expand_alias_value.simps
      dest: expand_never_unknown)

text \<open>Dispatch resolution never returns an empty chain and keeps its errors apart: a request fails
  as an unknown alias exactly when no alias, pattern, nickname or catch-all resolves it, as a
  retryable 503 exactly when it routes to models none of whose seats is usable, and otherwise only
  because aliases nest too deep; a 503 of this kind is classified as a server error that falls back.\<close>

lemma dispatch_chain_outcomes:
  "snd (dispatch_chain ops r sur model session_key st) \<noteq> Inr [] \<and>
   (snd (dispatch_chain ops r sur model session_key st) = Inl (UnknownAlias model) \<longleftrightarrow>
      router_alias r model = Inr None \<and> resolved_models r model = None \<and> router_default r = Inr None) \<and>
   (snd (dispatch_chain ops r sur model session_key st) = Inl (empty_pool_error model) \<longleftrightarrow>
      (\<exists>chain. routed r model = Inr chain \<and> no_lanes chain)) \<and>
   snd (dispatch_chain ops r sur model session_key st)
      \<in> range Inr \<union> Inl ` {UnknownAlias model, empty_pool_error model, depth_error} \<and>
   cf_class (classify parse_json (empty_pool_error model) kind) = FailureClass.ServerError"
proof -
  let ?d = "snd (dispatch_chain ops r sur model session_key st)"
  have err: "routed r model = Inl e \<Longrightarrow> e = depth_error \<or> e = UnknownAlias model \<and> router_alias r model = Inr None
      \<and> resolved_models r model = None \<and> router_default r = Inr None" for e
    by (auto simp: routed_def dest: router_alias_error router_default_error split: sum.splits option.splits)
  have unk: "router_alias r model = Inr None \<Longrightarrow> resolved_models r model = None \<Longrightarrow> router_default r = Inr None
      \<Longrightarrow> routed r model = Inl (UnknownAlias model)"
    by (simp add: routed_def)
  have distinct: "depth_error \<noteq> UnknownAlias model" "depth_error \<noteq> empty_pool_error model"
      "empty_pool_error model \<noteq> UnknownAlias model"
    by (simp_all add: depth_error_def empty_pool_error_def Core_Error.upstream_def)
  have cls: "cf_class (classify parse_json (empty_pool_error model) kind) = FailureClass.ServerError"
    by (simp add: classify_def empty_pool_error_def Core_Error.upstream_def classify_503
        token_in_def matched_token_def by_status_def)
  show ?thesis
  proof (cases "routed r model")
    case (Inl e)
    then have "?d = Inl e" by (simp add: dispatch_chain_routed)
    with Inl err [OF Inl] unk distinct cls show ?thesis by auto
  next
    case (Inr chain)
    then have d: "?d = (if no_lanes chain then Inl (empty_pool_error model)
        else Inr (snd (expand_chain_to_targets ops r sur chain session_key st)))"
      by (simp add: dispatch_chain_routed)
    have "\<not> (router_alias r model = Inr None \<and> resolved_models r model = None \<and> router_default r = Inr None)"
      using unk Inr by auto
    with Inr distinct cls expansion_empty_iff [of ops r sur chain session_key st] show ?thesis
      unfolding d by (cases "no_lanes chain") auto
  qed
qed

lemma colon_not_digit: "CHR '':'' \<notin> set (show_nat n)"
proof (induction n rule: show_nat.induct)
  case (1 n)
  have "CHR '':'' \<noteq> char_of (48 + d)" if "d < 10" for d :: nat
  proof
    assume "CHR '':'' = char_of (48 + d)"
    then have "(of_char (CHR '':'') :: nat) = of_char (char_of (48 + d) :: char)" by simp
    then show False using that by simp
  qed
  then show ?case using 1 by (cases "n < 10") (simp_all add: show_nat.simps [of n])
qed

text \<open>Pin keys of different sessions or pools never collide, whatever bytes the names hold.\<close>

lemma sticky_pin_key_injective:
  "sticky_pin_key session pool = sticky_pin_key session' pool' \<longleftrightarrow> session = session' \<and> pool = pool'"
proof
  assume eq: "sticky_pin_key session pool = sticky_pin_key session' pool'"
  have key: "split_once (CHR '':'') (sticky_pin_key s p) = Some (show_nat (length p), p @ '':'' @ s)" for s p
    unfolding sticky_pin_key_def using split_once_join [OF colon_not_digit] by simp
  from key [of session pool] key [of session' pool'] eq
  have "show_nat (length pool) = show_nat (length pool')" "pool @ '':'' @ session = pool' @ '':'' @ session'" by simp_all
  then show "session = session' \<and> pool = pool'" by (auto dest: show_nat_inj)
qed simp

subsection \<open>Discovery\<close>

text \<open>Discovery describes the head of the route: when a wire model resolves through an alias, a
  pattern or its own nickname, the context window reported for it is that of the first model of the
  chain; and when that model has a lane, it is the model of the first dispatch target.\<close>

lemma discovery_reports_route_head:
  assumes "routed r model = Inr (m # chain)"
    and "router_alias r model \<noteq> Inr None \<or> resolved_models r model \<noteq> None"
  shows "context_window_for r model = context_window_tokens m \<and>
    (model_lanes m = [] \<or> (\<exists>t ts. snd (dispatch_chain ops r sur model session_key st) = Inr (t # ts) \<and> dt_model t = m))"
proof -
  have "first_chain_target (cfg_aliases (config r)) (alias_glob_index r) (resolved_models r) model = Some m"
    using assms by (auto simp: routed_def router_alias_def first_chain_target_def split: sum.splits option.splits)
  then have w: "context_window_for r model = context_window_tokens m" by (simp add: context_window_for_def)
  let ?ts = "snd (expand_chain_to_targets ops r sur (m # chain) session_key st)"
  have "\<exists>t ts. snd (dispatch_chain ops r sur model session_key st) = Inr (t # ts) \<and> dt_model t = m" if lanes: "model_lanes m \<noteq> []"
  proof -
    have ne: "\<not> no_lanes (m # chain)" using lanes by (simp add: no_lanes_def)
    obtain l ls where l: "model_lanes m = l # ls" using lanes by (meson neq_Nil_conv)
    have "map dt_model ?ts = concat (map (\<lambda>m. replicate (length (model_lanes m)) m) (m # chain))"
      by (rule expansion_models)
    then obtain t ts where "?ts = t # ts" "dt_model t = m" using l by (cases ?ts) auto
    then show ?thesis using assms(1) ne by (simp add: dispatch_chain_routed)
  qed
  with w show ?thesis by blast
qed

text \<open>A router with one directly served model.\<close>

definition sample_router :: Router where
  "sample_router = \<lparr>config = \<lparr>cfg_aliases = [], cfg_providers = [], cfg_pools = [], cfg_seat_quota_enabled = True\<rparr>,
     alias_glob_index = build_glob_index [], resolved_models = [''m'' \<mapsto> resolved_model_new ''m'' ''p'' 0 ''up''],
     round_robin = \<lparr>cursors = Map.empty\<rparr>\<rparr>"

lemma discovery_reports_route_head_witness:
  "context_window_for sample_router ''m'' = None"
proof -
  have "routed sample_router ''m'' = Inr [resolved_model_new ''m'' ''p'' 0 ''up'']"
    "resolved_models sample_router ''m'' \<noteq> None"
    by (simp_all add: sample_router_def routed_def router_alias_def resolve_v6_alias_def bt_get_def
        build_glob_index_def index_new_def longest_match_def)
  from discovery_reports_route_head [OF this(1) disjI2 [OF this(2)], THEN conjunct1] show ?thesis
    by (simp add: context_window_tokens_def resolved_model_new_def)
qed

end
