(* ===== verification/Stream_Commit.thy ===== *)
theory Stream_Commit
  imports Runtime_Gate Quota_Store Class_Policy
begin

text \<open>
  The streaming seams of the dispatch loop (\<open>routectl-router/src/router/dispatch.rs\<close>): the pull
  loop that commits a provider only on its first content-bearing chunk
  (\<open>try_stream_with_first_content\<close>), and the wrap that settles the circuit breaker once and feeds
  the quota store while the caller consumes the stream (\<open>wrap_with_breaker_accounting\<close>).
  An upstream is the list of what it delivers, each item with its arrival time since the attempt
  began; a list without an end marker is an upstream that hangs.
\<close>

subsection \<open>Chunks\<close>

record ChunkDelta =
  cd_content :: "string option"
  cd_reasoning :: "string option"
  cd_reasoning_details :: "json list"
  cd_tool_calls :: "json list option"

record ChatChunk =
  chunk_model :: string
  chunk_choices :: "ChunkDelta list"
  opaque_events :: "json list"
  upstream_meta :: "UpstreamMeta option"

datatype item = Chunk ChatChunk | Fail Error

definition nonempty_text :: "string option \<Rightarrow> bool" where
  "nonempty_text t = (case t of None \<Rightarrow> False | Some s \<Rightarrow> s \<noteq> [])"

definition is_content_bearing :: "ChatChunk \<Rightarrow> bool" where
  "is_content_bearing chunk =
     (if opaque_events chunk \<noteq> [] then True
      else list_ex (\<lambda>delta. nonempty_text (cd_content delta) \<or> nonempty_text (cd_reasoning delta)
          \<or> cd_reasoning_details delta \<noteq> []
          \<or> (case cd_tool_calls delta of None \<Rightarrow> False | Some calls \<Rightarrow> calls \<noteq> [])) (chunk_choices chunk))"

definition MAX_PRECONTENT_CHUNKS :: nat where "MAX_PRECONTENT_CHUNKS = 8"

subsection \<open>The pull loop\<close>

text \<open>What the upstream delivers after its response headers: timed items, then the end of the
  stream at a time, or nothing more ever.\<close>

record Upstream =
  arrivals :: "(duration \<times> item) list"
  eos :: "duration option"

definition overflow_error :: "string \<Rightarrow> Error" where
  "overflow_error provider_name = Error.Streaming (provider_name @ '' emitted more than ''
     @ show_nat MAX_PRECONTENT_CHUNKS @ '' content-free chunks before any content'')"

definition closed_error :: "string \<Rightarrow> Error" where
  "closed_error provider_name = Error.Streaming (provider_name @ '' stream closed before any content arrived'')"

text \<open>One run of the loop: \<open>None\<close> when the upstream hangs, else the time at which the loop ends and
  its result; on success the merged stream, head, first content and tail.\<close>

fun pull_loop ::
  "string \<Rightarrow> ChatChunk list \<Rightarrow> (duration \<times> item) list \<Rightarrow> duration option \<Rightarrow> (duration \<times> (Error + item list)) option" where
  "pull_loop provider_name buffered [] end_at =
     map_option (\<lambda>t. (t, Inl (closed_error provider_name))) end_at"
| "pull_loop provider_name buffered ((t, Fail e) # rest) end_at = Some (t, Inl e)"
| "pull_loop provider_name buffered ((t, Chunk chunk) # rest) end_at =
     (if is_content_bearing chunk
      then Some (t, Inr (map Chunk buffered @ Chunk chunk # map snd rest))
      else if MAX_PRECONTENT_CHUNKS \<le> length buffered then Some (t, Inl (overflow_error provider_name))
      else pull_loop provider_name (buffered @ [chunk]) rest end_at)"

definition first_content_timeout :: "string \<Rightarrow> u64 \<Rightarrow> Error" where
  "first_content_timeout provider_name ms = upstream provider_name 0
     (''stream first-content timeout after '' @ show_nat ms @ ''ms; content-free leading chunks ''
      @ ''(role opener, id/model metadata) do not satisfy the deadline'')"

text \<open>\<open>tokio::time::timeout\<close> around a future: \<open>run\<close> is its result and time, \<open>None\<close> when it never
  completes. A result that is ready at the deadline wins, as the timer is polled after the future.\<close>

definition with_deadline ::
  "(u64 \<Rightarrow> Error) \<Rightarrow> u64 option \<Rightarrow> (duration \<times> (Error + 'a)) option \<Rightarrow> (duration \<times> (Error + 'a)) option" where
  "with_deadline expired deadline run = (case deadline of
     None \<Rightarrow> run
   | Some ms \<Rightarrow> (case run of
       Some (t, r) \<Rightarrow> if t \<le> from_millis ms then Some (t, r) else Some (from_millis ms, Inl (expired ms))
     | None \<Rightarrow> Some (from_millis ms, Inl (expired ms))))"

text \<open>The deadline covers the stream open as well: \<open>opened\<close> is the provider's answer to \<open>stream()\<close>.\<close>

definition try_stream_with_first_content ::
  "string \<Rightarrow> RetryPolicy \<Rightarrow> (duration \<times> (Error + Upstream)) option \<Rightarrow> (duration \<times> (Error + item list)) option" where
  "try_stream_with_first_content provider_name policy opened =
     with_deadline (first_content_timeout provider_name) (stream_first_byte_timeout_ms policy)
       (case opened of
          None \<Rightarrow> None
        | Some (t, Inl e) \<Rightarrow> Some (t, Inl e)
        | Some (t, Inr up) \<Rightarrow> pull_loop provider_name [] (arrivals up) (eos up))"

subsection \<open>Breaker accounting of a committed stream\<close>

record BreakerAccounting =
  acc_state :: "string option"
  settled :: bool

definition accounting_new :: "string option \<Rightarrow> BreakerAccounting" where
  "accounting_new key = \<lparr>acc_state = key, settled = False\<rparr>"

definition acc_record_success :: "instant \<Rightarrow> BreakerAccounting \<times> gates \<Rightarrow> BreakerAccounting \<times> gates" where
  "acc_record_success now s = (case s of (acc, gs) \<Rightarrow>
     if settled acc then (acc, gs)
     else (acc\<lparr>settled := True\<rparr>,
       case acc_state acc of None \<Rightarrow> gs | Some key \<Rightarrow> gate_record_success gs now key))"

definition acc_record_failure ::
  "instant \<Rightarrow> LastOutcome \<Rightarrow> BreakerAccounting \<times> gates \<Rightarrow> BreakerAccounting \<times> gates" where
  "acc_record_failure now outcome s = (case s of (acc, gs) \<Rightarrow>
     if settled acc then (acc, gs)
     else (acc\<lparr>settled := True\<rparr>,
       case acc_state acc of None \<Rightarrow> gs | Some key \<Rightarrow> gate_record_failure gs now key outcome))"

text \<open>\<open>Drop\<close> of the accounting: an unsettled stream counts as a success.\<close>

definition acc_drop :: "instant \<Rightarrow> BreakerAccounting \<times> gates \<Rightarrow> BreakerAccounting \<times> gates" where
  "acc_drop now s = (if settled (fst s) then s else acc_record_success now s)"

record Wrapped =
  wr_accounting :: "BreakerAccounting \<times> gates"
  wr_feed :: "FirstChunkFeed \<times> QuotaStore"

text \<open>A pull of the consumer happens at a stamp, with the second count the store reads. One pull
  takes the next item of the inner stream; a pull past the last item finds the end of the stream.\<close>

type_synonym pull = "ObservationStamp \<times> u64"

fun wrap_pull :: "(string \<Rightarrow> json option) \<Rightarrow> string option \<Rightarrow> pull \<Rightarrow> item option \<Rightarrow> Wrapped \<Rightarrow> Wrapped" where
  "wrap_pull pj kind (stamp, secs) (Some (Chunk chunk)) w =
     w\<lparr>wr_feed := offer stamp secs (upstream_meta chunk) (wr_feed w)\<rparr>"
| "wrap_pull pj kind (stamp, secs) (Some (Fail e)) w =
     w\<lparr>wr_accounting := acc_record_failure (monotonic stamp)
         (last_outcome_of (cf_class (classify pj e kind))) (wr_accounting w)\<rparr>"
| "wrap_pull pj kind (stamp, secs) None w =
     w\<lparr>wr_accounting := acc_record_success (monotonic stamp) (wr_accounting w)\<rparr>"

fun consume :: "(string \<Rightarrow> json option) \<Rightarrow> string option \<Rightarrow> item list \<Rightarrow> pull list \<Rightarrow> Wrapped \<Rightarrow> Wrapped" where
  "consume pj kind items [] w = w"
| "consume pj kind [] (p # ps) w = wrap_pull pj kind p None w"
| "consume pj kind (i # items) (p # ps) w = consume pj kind items ps (wrap_pull pj kind p (Some i) w)"

text \<open>The life of a wrapped stream: the consumer pulls, then drops it.\<close>

definition stream_life ::
  "(string \<Rightarrow> json option) \<Rightarrow> string option \<Rightarrow> string option \<Rightarrow> item list \<Rightarrow> pull list \<Rightarrow> instant \<Rightarrow>
   SeatKey option \<Rightarrow> gates \<Rightarrow> QuotaStore \<Rightarrow> gates \<times> QuotaStore" where
  "stream_life pj kind key items pulls dropped_at seat gs store =
     (let w = consume pj kind items pulls
         \<lparr>wr_accounting = (accounting_new key, gs), wr_feed = (armed_feed seat, store)\<rparr>
      in (snd (acc_drop dropped_at (wr_accounting w)), snd (wr_feed w)))"

subsection \<open>The commit boundary\<close>

text \<open>The first content-bearing chunk of the upstream comes at \<open>t\<close>, after only content-free chunks,
  at most \<open>room\<close> of them.\<close>

definition content_free :: "item \<Rightarrow> bool" where
  "content_free i = (case i of Chunk c \<Rightarrow> \<not> is_content_bearing c | Fail e \<Rightarrow> False)"

definition first_content :: "nat \<Rightarrow> (duration \<times> item) list \<Rightarrow> duration \<Rightarrow> bool" where
  "first_content room evs t \<longleftrightarrow> (\<exists>pre c rest. evs = pre @ (t, Chunk c) # rest \<and> length pre \<le> room
     \<and> list_all content_free (map snd pre) \<and> is_content_bearing c)"

lemma first_content_Nil [simp]: "\<not> first_content room [] t"
  by (simp add: first_content_def)

lemma first_content_here:
  assumes "\<not> content_free i"
  shows "first_content room ((t', i) # evs) t \<longleftrightarrow> t' = t \<and> (\<exists>c. i = Chunk c)"
proof
  assume "first_content room ((t', i) # evs) t"
  then obtain pre c rest where *: "(t', i) # evs = pre @ (t, Chunk c) # rest" "list_all content_free (map snd pre)"
    by (auto simp: first_content_def)
  then show "t' = t \<and> (\<exists>c. i = Chunk c)" using assms by (cases pre) auto
next
  assume "t' = t \<and> (\<exists>c. i = Chunk c)"
  then obtain c where "t' = t" "i = Chunk c" by blast
  moreover from this assms have "is_content_bearing c" by (simp add: content_free_def)
  ultimately have "(t', i) # evs = [] @ (t, Chunk c) # evs \<and> length [] \<le> room \<and> list_all content_free (map snd [])
      \<and> is_content_bearing c" by simp
  then show "first_content room ((t', i) # evs) t" unfolding first_content_def by blast
qed

lemma first_content_later:
  assumes free: "content_free i"
  shows "first_content room ((t', i) # evs) t \<longleftrightarrow> 0 < room \<and> first_content (room - 1) evs t"
proof
  assume "first_content room ((t', i) # evs) t"
  then obtain pre c rest where *: "(t', i) # evs = pre @ (t, Chunk c) # rest" "length pre \<le> room"
      "list_all content_free (map snd pre)" "is_content_bearing c"
    by (auto simp: first_content_def)
  obtain pre' where pre: "pre = (t', i) # pre'"
    using * free by (cases pre) (auto simp: content_free_def)
  have "evs = pre' @ (t, Chunk c) # rest \<and> length pre' \<le> room - 1 \<and> list_all content_free (map snd pre')
      \<and> is_content_bearing c"
    using * pre by auto
  moreover have "0 < room" using * pre by simp
  ultimately show "0 < room \<and> first_content (room - 1) evs t" unfolding first_content_def by blast
next
  assume a: "0 < room \<and> first_content (room - 1) evs t"
  then obtain pre c rest where *: "evs = pre @ (t, Chunk c) # rest" "length pre \<le> room - 1"
      "list_all content_free (map snd pre)" "is_content_bearing c"
    by (auto simp: first_content_def)
  have "(t', i) # evs = ((t', i) # pre) @ (t, Chunk c) # rest \<and> length ((t', i) # pre) \<le> room
      \<and> list_all content_free (map snd ((t', i) # pre)) \<and> is_content_bearing c"
    using * free a by auto
  then show "first_content room ((t', i) # evs) t" unfolding first_content_def by blast
qed

lemma pull_loop_commits:
  assumes "length buffered \<le> MAX_PRECONTENT_CHUNKS"
  shows "pull_loop p buffered evs end_at = Some (t, Inr out) \<longleftrightarrow>
     first_content (MAX_PRECONTENT_CHUNKS - length buffered) evs t \<and> out = map Chunk buffered @ map snd evs"
  using assms
proof (induction p buffered evs end_at rule: pull_loop.induct)
  case (2 p buffered t' e rest end_at)
  show ?case by (simp add: first_content_here content_free_def)
next
  case (3 p buffered t' chunk rest end_at)
  consider "is_content_bearing chunk" | "\<not> is_content_bearing chunk" "length buffered = MAX_PRECONTENT_CHUNKS"
    | "\<not> is_content_bearing chunk" "length buffered < MAX_PRECONTENT_CHUNKS"
    using 3(2) by linarith
  then show ?case
  proof cases
    case 1
    then show ?thesis by (auto simp: first_content_here content_free_def)
  next
    case 2
    then show ?thesis by (simp add: first_content_later content_free_def)
  next
    case free: 3
    have "pull_loop p (buffered @ [chunk]) rest end_at = Some (t, Inr out) \<longleftrightarrow>
        first_content (MAX_PRECONTENT_CHUNKS - length (buffered @ [chunk])) rest t
        \<and> out = map Chunk (buffered @ [chunk]) @ map snd rest"
      using 3(1) free by simp
    then show ?thesis using free by (simp add: first_content_later content_free_def not_le)
  qed
qed simp

lemmas committed_iff = pull_loop_commits [where buffered = "[]", simplified]

text \<open>Three errors of the loop's own, all from before any content.\<close>

definition own_error :: "string \<Rightarrow> RetryPolicy \<Rightarrow> Error \<Rightarrow> bool" where
  "own_error p policy e \<longleftrightarrow> e = overflow_error p \<or> e = closed_error p
     \<or> (\<exists>ms. stream_first_byte_timeout_ms policy = Some ms \<and> e = first_content_timeout p ms)"

lemma pull_loop_errors:
  "pull_loop p buffered evs end_at = Some (t, Inl e) \<Longrightarrow>
     e = overflow_error p \<or> e = closed_error p \<or> (t, Fail e) \<in> set evs"
  by (induction p buffered evs end_at rule: pull_loop.induct) (auto split: if_splits)

lemma own_error_class:
  assumes "own_error p policy e"
  shows "cf_class (classify pj e kind) = FailureClass.NetworkError"
  using assms by (auto simp: own_error_def overflow_error_def closed_error_def first_content_timeout_def
      upstream_def upstream_full_def classify_def classify_upstream_def classify_upstream_attempt_def
      by_variant_def by_status_def by_type_def)

lemma with_deadline_Inr:
  "with_deadline x deadline run = Some (t, Inr out) \<longleftrightarrow> run = Some (t, Inr out)
     \<and> (case deadline of None \<Rightarrow> True | Some ms \<Rightarrow> t \<le> from_millis ms)"
  by (cases run) (auto simp: with_deadline_def split: option.splits if_splits)

lemma with_deadline_Inl:
  "with_deadline x (Some ms) run = Some (t, Inl e) \<Longrightarrow> e = x ms \<or> run = Some (t, Inl e)"
  by (cases run) (auto simp: with_deadline_def split: if_splits)

lemma with_deadline_returns:
  obtains t r where "with_deadline x (Some ms) run = Some (t, r)" "t \<le> from_millis ms"
proof (cases run)
  case None
  with that show thesis by (simp add: with_deadline_def)
next
  case (Some tr)
  with that show thesis
    by (cases tr; cases "fst tr \<le> from_millis ms") (simp_all add: with_deadline_def)
qed

subsection \<open>One settlement, one reading\<close>

definition is_failure :: "pull \<times> item \<Rightarrow> bool" where
  "is_failure taken = (case snd taken of Fail e \<Rightarrow> True | Chunk c \<Rightarrow> False)"

definition carries_reading :: "pull \<times> item \<Rightarrow> bool" where
  "carries_reading taken = (case snd taken of Fail e \<Rightarrow> False
     | Chunk c \<Rightarrow> (case upstream_meta c of None \<Rightarrow> False | Some meta \<Rightarrow> has_quota_family meta))"

definition failure_outcome :: "(string \<Rightarrow> json option) \<Rightarrow> string option \<Rightarrow> item \<Rightarrow> LastOutcome" where
  "failure_outcome pj kind i = (case i of Fail e \<Rightarrow> last_outcome_of (cf_class (classify pj e kind)) | Chunk c \<Rightarrow> Ok)"

lemma is_failure_simps [simp]:
  "is_failure (p, Chunk c) = False" "is_failure (p, Fail e) = True"
  by (simp_all add: is_failure_def)

lemma offer_unarmed: "fcf_seat (fst fs) = None \<Longrightarrow> offer o' n meta fs = fs"
  by (cases fs) (simp add: offer_def split: option.split)

lemma settled_stays:
  "settled (fst (wr_accounting w)) \<Longrightarrow> wr_accounting (consume pj kind items ps w) = wr_accounting w"
proof (induction pj kind items ps w rule: consume.induct)
  case (2 pj kind p ps w)
  then show ?case by (cases p) (simp add: acc_record_success_def case_prod_unfold)
next
  case (3 pj kind i items p ps w)
  then show ?case
    by (cases i; cases p) (simp_all add: acc_record_failure_def case_prod_unfold)
qed simp

lemma unarmed_stays:
  "fcf_seat (fst (wr_feed w)) = None \<Longrightarrow> wr_feed (consume pj kind items ps w) = wr_feed w"
proof (induction pj kind items ps w rule: consume.induct)
  case (2 pj kind p ps w)
  then show ?case by (cases p) simp
next
  case (3 pj kind i items p ps w)
  then show ?case
    by (cases i; cases p) (simp_all add: offer_unarmed)
qed simp

lemma consume_settles:
  assumes "wr_accounting w = (accounting_new (Some key), gs)"
  shows "snd (acc_drop dropped_at (wr_accounting (consume pj kind items pulls w))) =
    (case find is_failure (zip pulls items) of
       Some ((stamp, secs), i) \<Rightarrow> gate_record_failure gs (monotonic stamp) key (failure_outcome pj kind i)
     | None \<Rightarrow> gate_record_success gs
         (if length items < length pulls then monotonic (fst (pulls ! length items)) else dropped_at) key)"
  using assms
proof (induction pj kind items pulls w rule: consume.induct)
  case (1 pj kind items w)
  then show ?case by (simp add: acc_drop_def acc_record_success_def accounting_new_def)
next
  case (2 pj kind p ps w)
  then show ?case
    by (cases p) (simp add: acc_drop_def acc_record_success_def accounting_new_def)
next
  case (3 pj kind i items p ps w)
  show ?case
  proof (cases i)
    case (Chunk c)
    then show ?thesis using 3 by (cases p) (simp cong: option.case_cong if_cong)
  next
    case (Fail e)
    then show ?thesis using 3(2)
      by (cases p) (simp add: settled_stays acc_drop_def acc_record_failure_def
          accounting_new_def failure_outcome_def)
  qed
qed

lemma consume_reads:
  assumes "wr_feed w = (armed_feed (Some seat), st)"
  shows "snd (wr_feed (consume pj kind items pulls w)) =
    (case find carries_reading (zip pulls items) of
       Some ((stamp, secs), Chunk c) \<Rightarrow> feed_response stamp secs (Some seat) (upstream_meta c) st
     | _ \<Rightarrow> st)"
  using assms
proof (induction pj kind items pulls w rule: consume.induct)
  case (2 pj kind p ps w)
  then show ?case by (cases p) simp
next
  case (3 pj kind i items p ps w)
  obtain stamp secs where p: "p = (stamp, secs)" by force
  show ?case
  proof (cases i)
    case (Chunk c)
    show ?thesis
    proof (cases "carries_reading (p, i)")
      case True
      then obtain meta where "upstream_meta c = Some meta" "has_quota_family meta"
        using Chunk by (auto simp: carries_reading_def split: option.splits)
      then show ?thesis using True Chunk p 3(2)
        by (simp add: unarmed_stays offer_def armed_feed_def feed_response_def)
    next
      case False
      then show ?thesis using 3 Chunk p
        by (simp add: carries_reading_def offer_def split: option.splits)
    qed
  qed (use 3 p in \<open>simp add: carries_reading_def\<close>)
qed simp

subsection \<open>Properties\<close>

text \<open>C5. The commit boundary is exact. An attempt commits to a provider if and only if its stream
  opened, its first content-bearing chunk came after at most eight content-free chunks and nothing
  else, and in time when a deadline is set; and then the caller's stream is the whole upstream
  stream, buffered opening chunks first, nothing lost, repeated or reordered.\<close>

theorem first_content_commits:
  "try_stream_with_first_content p policy opened = Some (t, Inr out) \<longleftrightarrow>
    (\<exists>opened_at up. opened = Some (opened_at, Inr up)
      \<and> first_content MAX_PRECONTENT_CHUNKS (arrivals up) t
      \<and> (case stream_first_byte_timeout_ms policy of None \<Rightarrow> True | Some ms \<Rightarrow> t \<le> from_millis ms)
      \<and> out = map snd (arrivals up))"
proof (cases "\<exists>opened_at up. opened = Some (opened_at, Inr up)")
  case True
  then obtain opened_at up where o: "opened = Some (opened_at, Inr up)" by blast
  show ?thesis
    by (auto simp: o try_stream_with_first_content_def with_deadline_Inr committed_iff)
next
  case False
  then show ?thesis
    by (cases opened) (auto simp: try_stream_with_first_content_def with_deadline_Inr split: sum.splits)
qed

text \<open>A stream attempt with a first-content deadline always returns, however the upstream behaves,
  no later than the deadline; and every failure is the provider's own, delivered in time, or one of
  the three of the loop (too many content-free chunks, end of stream before content, deadline), which
  all class as transport failures and so walk on to the next target by default.\<close>

lemma stream_attempt_returns:
  assumes "stream_first_byte_timeout_ms policy = Some ms" and "classes policy = []"
  shows "\<exists>t r. try_stream_with_first_content p policy opened = Some (t, r) \<and> t \<le> from_millis ms
    \<and> (case r of Inr out \<Rightarrow> True
       | Inl e \<Rightarrow> opened = Some (t, Inl e) \<or> (\<exists>o_at up. opened = Some (o_at, Inr up) \<and> (t, Fail e) \<in> set (arrivals up))
           \<or> (own_error p policy e \<and> should_fallback e (cf_class (classify pj e kind)) policy is_probe))"
proof -
  have own: "should_fallback e (cf_class (classify pj e kind)) policy is_probe" if "own_error p policy e" for e
  proof -
    have "snd (resolved_class policy (cf_class (classify pj e kind)))"
      using own_error_class [OF that, of pj kind] assms(2) by (simp add: resolved_class_def bt_get_def)
    moreover have "probe_fast_fail_status e = None"
      using that by (auto simp: own_error_def overflow_error_def closed_error_def first_content_timeout_def
          upstream_def upstream_full_def)
    ultimately show ?thesis by (cases e) (simp_all add: should_fallback_def)
  qed
  obtain t r where run: "try_stream_with_first_content p policy opened = Some (t, r)" "t \<le> from_millis ms"
    unfolding try_stream_with_first_content_def assms(1) by (rule with_deadline_returns)
  have "opened = Some (t, Inl e) \<or> (\<exists>o_at up. opened = Some (o_at, Inr up) \<and> (t, Fail e) \<in> set (arrivals up))
      \<or> own_error p policy e" if e: "r = Inl e" for e
  proof (cases opened)
    case None
    then show ?thesis using run e
      by (auto simp: try_stream_with_first_content_def assms(1) with_deadline_def own_error_def)
  next
    case (Some ar)
    then show ?thesis using run e
      by (cases ar; cases "snd ar")
        (auto simp: try_stream_with_first_content_def assms(1) own_error_def
           dest!: with_deadline_Inl pull_loop_errors)
  qed
  with own run show ?thesis by (cases r) auto
qed

lemma stream_attempt_returns_witness:
  "\<exists>t r. try_stream_with_first_content ''p'' default_retry_policy (Some (5, Inr \<lparr>arrivals = [], eos = None\<rparr>))
      = Some (t, r) \<and> t \<le> from_millis 600000"
  using stream_attempt_returns [of default_retry_policy 600000 "''p''"
      "Some (5, Inr \<lparr>arrivals = [], eos = None\<rparr>)" "\<lambda>_. None" None False]
  by (auto simp: default_retry_policy_def)

text \<open>C6. A committed stream settles its breaker exactly once, whatever the consumer pulls before it
  drops the stream: with a failure at the first error the consumer saw, and otherwise with a success,
  at the end of the stream or at the drop.\<close>

theorem stream_settles_once:
  "fst (stream_life pj kind (Some key) items pulls dropped_at seat gs store) =
    (case find is_failure (zip pulls items) of
       Some ((stamp, secs), i) \<Rightarrow> gate_record_failure gs (monotonic stamp) key (failure_outcome pj kind i)
     | None \<Rightarrow> gate_record_success gs
         (if length items < length pulls then monotonic (fst (pulls ! length items)) else dropped_at) key)"
  using consume_settles [of "\<lparr>wr_accounting = (accounting_new (Some key), gs), wr_feed = (armed_feed seat, store)\<rparr>"]
  by (simp add: stream_life_def Let_def)

text \<open>The quota store learns at most one reading from a stream: the one on the first chunk the
  consumer saw that carries one, at the time of that pull.\<close>

lemma stream_reads_quota_once:
  "snd (stream_life pj kind key items pulls dropped_at (Some seat) gs store) =
    (case find carries_reading (zip pulls items) of
       Some ((stamp, secs), Chunk c) \<Rightarrow> feed_response stamp secs (Some seat) (upstream_meta c) store
     | _ \<Rightarrow> store)"
  using consume_reads [of "\<lparr>wr_accounting = (accounting_new key, gs), wr_feed = (armed_feed (Some seat), store)\<rparr>"]
  by (simp add: stream_life_def Let_def)

end
