(* ===== verification/Dispatch_Walk.thy ===== *)
theory Dispatch_Walk
  imports Chain Stream_Commit
begin

text \<open>
  What the two dispatch walks of \<open>routectl-router/src/router/dispatch.rs\<close> share (\<open>complete_inner\<close> and
  \<open>stream_inner\<close>): the request-scoped state (running error, repair budget, counters), the per-target
  state (one-shot flags, backoff, repair plans), the recovery branches of the error arm, and the
  chain loop. The world outside the walk is a record of functions: the upstream call, the token
  refresh, the sleep, the clock, and the stages that shape a request for a target (overlays, strip
  interceptor, pre-flight, context reduction, cache placement, the admission of repair plans). The
  calls the walk awaits act on the joint site of world and gates, so other requests may use the
  gates meanwhile; a refresh and a sleep are taken to return. The log of events is no part of the
  code's state: it only names what happened.
\<close>

subsection \<open>Requests, responses, the world outside\<close>

record 'x ChatRequest =
  req_model :: string
  req_max_tokens :: "u32 option"
  forwarded_bearer :: "string option"
  req_rest :: 'x

record 'a ChatResponse =
  routectl_provider :: "string option"
  resp_model :: string
  resp_meta :: "UpstreamMeta option"
  resp_rest :: 'a

text \<open>A row of the field-repair plan: the rejections that name its field, whether a request carries
  the field, and the drop, which reports whether it removed something.\<close>

record 'x FieldSurface =
  rejection_names :: "FailureClass \<Rightarrow> Error \<Rightarrow> bool"
  present_in :: "'x ChatRequest \<Rightarrow> bool"
  drop_from :: "'x ChatRequest \<Rightarrow> 'x ChatRequest \<times> bool"

record 'x FieldCarryPlan =
  candidates :: "'x FieldSurface list"
  repaired :: "nat option"

record 'x ReplayCarryPlan =
  gray_count :: usize
  strip_artifacts :: "'x ChatRequest \<Rightarrow> 'x ChatRequest"

datatype StripDecision = Proceed | StrictReject Error | RouteAway Error

record 'x Shaped =
  shaped_request :: "'x ChatRequest"
  shaped_replay :: "'x ReplayCarryPlan option"
  shaped_field :: "'x FieldCarryPlan option"
  shaped_canary :: "'x FieldSurface option"

type_synonym 'w site = "'w \<times> gates"

record ('x, 'a, 'w) Ports =
  p_stamp :: "'w \<Rightarrow> ObservationStamp"
  p_secs :: "'w \<Rightarrow> u64"
  p_subsec :: "'w \<Rightarrow> nat"
  p_json :: "string \<Rightarrow> json option"
  p_shape :: "DispatchTarget \<Rightarrow> 'x ChatRequest \<Rightarrow> 'w \<Rightarrow> 'w \<times> StripDecision \<times> 'x Shaped"
  p_sleep :: "duration \<Rightarrow> 'w site \<Rightarrow> 'w site"
  p_complete :: "DispatchTarget \<Rightarrow> u64 option \<Rightarrow> 'x ChatRequest \<Rightarrow> 'w site \<Rightarrow>
     'w site \<times> (duration \<times> (Error + 'a ChatResponse)) option"
  p_stream :: "DispatchTarget \<Rightarrow> u64 option \<Rightarrow> 'x ChatRequest \<Rightarrow> 'w site \<Rightarrow>
     'w site \<times> (duration \<times> (Error + Upstream)) option"
  p_on_auth_failure :: "DispatchTarget \<Rightarrow> 'w site \<Rightarrow> 'w site \<times> Error option"

record ('x, 'a, 'w) Call =
  ports :: "('x, 'a, 'w) Ports"
  policy :: RetryPolicy
  call_providers :: "string \<rightharpoonup> ProviderRuntimePolicy"
  request :: "'x ChatRequest"
  disable_fallbacks :: bool

definition call_is_probe :: "('x, 'a, 'w) Call \<Rightarrow> bool" where
  "call_is_probe c = is_probe_request (req_max_tokens (request c)) (policy c)"

subsection \<open>The repair budget\<close>

type_synonym RepairBudget = nat

definition REPAIRS_PER_REQUEST :: nat where "REPAIRS_PER_REQUEST = 2"

definition per_request :: RepairBudget where "per_request = REPAIRS_PER_REQUEST"

definition can_draw :: "RepairBudget \<Rightarrow> bool" where "can_draw b \<longleftrightarrow> 0 < b"

definition draw :: "RepairBudget \<Rightarrow> RepairBudget \<times> bool" where
  "draw b = (if b = 0 then (b, False) else (b - 1, True))"

subsection \<open>Dispatch metadata\<close>

record DispatchMeta =
  attempt_count :: u32
  fallback_count :: u32
  served_provider :: "string option"
  served_provider_kind :: "string option"
  served_model :: "string option"
  served_upstream :: "string option"
  served_forwarded_credential :: bool
  served_seat :: "string option"
  resolved_alias :: string
  meta_selection_decision :: "string option"

definition for_alias :: "string \<Rightarrow> DispatchMeta" where
  "for_alias alias = \<lparr>attempt_count = 0, fallback_count = 0, served_provider = None,
     served_provider_kind = None, served_model = None, served_upstream = None,
     served_forwarded_credential = False, served_seat = None, resolved_alias = alias,
     meta_selection_decision = None\<rparr>"

definition mark_target :: "DispatchTarget \<Rightarrow> string \<Rightarrow> DispatchMeta \<Rightarrow> DispatchMeta" where
  "mark_target t requested_model meta = meta
     \<lparr>served_provider := Some (dt_provider_name t),
      served_provider_kind := dt_provider_kind t,
      served_model := dt_nickname t,
      served_upstream := Some (if use_forwarded_credential t then requested_model else dt_upstream t),
      served_forwarded_credential := use_forwarded_credential t,
      served_seat := (if use_forwarded_credential t then None else seat t),
      meta_selection_decision := selection_decision t\<rparr>"

subsection \<open>The state of a walk\<close>

datatype walk_event =
    Attempted nat "Error option"
  | Refused nat Error
  | RefreshFailed nat Error
  | Unrouted nat Error

record 'w Walk =
  wk_site :: "'w site"
  wk_quota :: QuotaStore
  last_err :: "Error option"
  repair_budget :: RepairBudget
  wk_meta :: DispatchMeta
  wk_log :: "walk_event list"

record 'x Attempt =
  attempt_req :: "'x ChatRequest"
  replay_plan :: "'x ReplayCarryPlan option"
  field_plan :: "'x FieldCarryPlan option"
  canary_plan :: "'x FieldSurface option"
  backoff :: duration
  attempts_made :: u32
  auth_retry_attempted :: bool
  replay_repair_attempted :: bool
  field_repair_attempted :: bool
  canary_repair_attempted :: bool
  skip_replay_backoff :: bool

text \<open>How an iteration of a loop ends: \<open>return\<close>, \<open>continue 'chain\<close>, \<open>break 'chain\<close>, \<open>continue\<close>.\<close>

datatype 'o flow = Return "Error + 'o" | Advance | Break | Again

type_synonym ('w, 'x, 'o) outcome = "'w Walk \<times> 'x Attempt \<times> 'o flow"

definition call_now :: "('x, 'a, 'w) Call \<Rightarrow> 'w Walk \<Rightarrow> instant" where
  "call_now c wk = monotonic (p_stamp (ports c) (fst (wk_site wk)))"

definition with_gates :: "(gates \<Rightarrow> gates) \<Rightarrow> 'w Walk \<Rightarrow> 'w Walk" where
  "with_gates f wk = wk\<lparr>wk_site := (fst (wk_site wk), f (snd (wk_site wk)))\<rparr>"

definition log_event :: "walk_event \<Rightarrow> 'w Walk \<Rightarrow> 'w Walk" where
  "log_event ev wk = wk\<lparr>wk_log := ev # wk_log wk\<rparr>"

text \<open>Every settlement of an attempt is one call on the target's slot followed by the disarm of the
  attempt's guard, which then drops without effect.\<close>

definition settle_attempt :: "ProbeSlotGuard \<Rightarrow> (gates \<Rightarrow> gates) \<Rightarrow> 'w Walk \<Rightarrow> 'w Walk" where
  "settle_attempt guard f wk = with_gates (\<lambda>gs. guard_drop (disarm guard) (f gs)) wk"

definition release_slot :: "DispatchTarget \<Rightarrow> ProbeSlotGuard \<Rightarrow> 'w Walk \<Rightarrow> 'w Walk" where
  "release_slot t guard wk = settle_attempt guard (\<lambda>gs. gate_release_probe_slot gs (state_key t)) wk"

subsection \<open>Entering a target\<close>

definition missing_forwarded_bearer_error :: "DispatchTarget \<Rightarrow> 'x ChatRequest \<Rightarrow> Error option" where
  "missing_forwarded_bearer_error t req =
     (if \<not> use_forwarded_credential t \<or> forwarded_bearer req \<noteq> None then None
      else Some (Validation (''forwarded target has no captured client bearer to authenticate this request ''
        @ ''(reason=missing_forwarded_bearer)'')))"

definition unrouted :: "('x, 'a, 'w) Call \<Rightarrow> nat \<Rightarrow> Error \<Rightarrow> 'w Walk \<Rightarrow> 'w Walk \<times> 'o flow" where
  "unrouted c i e wk = ((log_event (Unrouted i e) wk)\<lparr>last_err := Some e\<rparr>,
     if disable_fallbacks c then Break else Advance)"

definition fresh_attempt :: "RetryPolicy \<Rightarrow> 'x Shaped \<Rightarrow> 'x Attempt" where
  "fresh_attempt p sh = \<lparr>attempt_req = shaped_request sh, replay_plan = shaped_replay sh,
     field_plan = shaped_field sh, canary_plan = shaped_canary sh,
     backoff = from_millis (initial_backoff_ms p), attempts_made = 0, auth_retry_attempted = False,
     replay_repair_attempted = False, field_repair_attempted = False, canary_repair_attempted = False,
     skip_replay_backoff = False\<rparr>"

text \<open>The head of both chain loops: what the walk does with a target before its attempt loop. The
  outcome is a finished iteration or the shaped attempt.\<close>

definition enter_target ::
  "('x, 'a, 'w) Call \<Rightarrow> nat \<Rightarrow> DispatchTarget \<Rightarrow> 'w Walk \<Rightarrow> ('w Walk \<times> 'o flow) + ('w Walk \<times> 'x Attempt)" where
  "enter_target c i t wk = (case dt_provider t of
     None \<Rightarrow> Inl (unrouted c i (UnknownProvider (dt_provider_name t)) wk)
   | Some provider \<Rightarrow>
       (let meta = (mark_target t (req_model (request c)) (wk_meta wk))\<lparr>fallback_count := i\<rparr>;
            wk = wk\<lparr>wk_meta := meta\<rparr>
        in case missing_forwarded_bearer_error t (request c) of
             Some err \<Rightarrow> Inl (log_event (Unrouted i err) wk, Return (Inl err))
           | None \<Rightarrow>
               (let req = (if use_forwarded_credential t then request c
                           else (request c)\<lparr>req_model := dt_upstream t\<rparr>);
                    (world, verdict, shaped) = p_shape (ports c) t req (fst (wk_site wk));
                    wk = wk\<lparr>wk_site := (world, snd (wk_site wk))\<rparr>
                in case verdict of
                     StrictReject err \<Rightarrow> Inl (log_event (Unrouted i err) wk, Return (Inl err))
                   | RouteAway err \<Rightarrow> Inl (unrouted c i err wk)
                   | Proceed \<Rightarrow> Inr (wk, fresh_attempt (policy c) shaped))))"

text \<open>A refusal of the gate: the first real error is kept.\<close>

definition gate_refused :: "('x, 'a, 'w) Call \<Rightarrow> nat \<Rightarrow> Error \<Rightarrow> 'w Walk \<Rightarrow> 'w Walk \<times> 'o flow" where
  "gate_refused c i gate_err wk =
     (let wk = log_event (Refused i gate_err) wk
      in (if last_err wk = None then wk\<lparr>last_err := Some gate_err\<rparr> else wk,
          if disable_fallbacks c then Break else Advance))"

definition check_gate ::
  "('x, 'a, 'w) Call \<Rightarrow> DispatchTarget \<Rightarrow> 'w Walk \<Rightarrow> 'w Walk \<times> Error option" where
  "check_gate c t wk =
     (let (gs, refusal) = gate_check (snd (wk_site wk)) (call_now c wk) (state_key t) (dt_provider_name t)
      in (wk\<lparr>wk_site := (fst (wk_site wk), gs)\<rparr>, map_option snd refusal))"

definition count_attempt ::
  "nat \<Rightarrow> Error option \<Rightarrow> 'w Walk \<Rightarrow> 'x Attempt \<Rightarrow> 'w Walk \<times> 'x Attempt" where
  "count_attempt i outcome wk tr =
     (log_event (Attempted i outcome) (wk\<lparr>wk_meta := (wk_meta wk)\<lparr>attempt_count := attempt_count (wk_meta wk) + 1\<rparr>\<rparr>),
      tr\<lparr>attempts_made := attempts_made tr + 1\<rparr>)"

subsection \<open>Classifying a failed attempt\<close>

text \<open>The class the walk routes on, and the native one before the operator's remap.\<close>

definition classify_failure ::
  "('x, 'a, 'w) Call \<Rightarrow> DispatchTarget \<Rightarrow> 'x Attempt \<Rightarrow> Error \<Rightarrow> FailureClass \<times> FailureClass" where
  "classify_failure c t tr e =
     (let native = (case replay_plan tr of
            Some plan \<Rightarrow> classify_with_attempt (p_json (ports c)) e (dt_provider_kind t) (with_gray_artifacts (gray_count plan))
          | None \<Rightarrow> classify (p_json (ports c)) e (dt_provider_kind t));
          (cf, remapped) = apply_remap native (upstream_status_for_remap e) (class_overrides t)
      in (cf_class cf, cf_class native))"

fun is_replay_rejection_class :: "FailureClass \<Rightarrow> bool" where
  "is_replay_rejection_class (FailureClass.FeatureUnsupported cap) = (cap = CAPABILITY)"
| "is_replay_rejection_class cls = False"

definition body_free :: "Error \<Rightarrow> string \<Rightarrow> Error" where
  "body_free err provider =
     (let facts = upstream_facts err
      in upstream_full provider (unwrap_or (facts_status facts) 0) [] None (facts_type facts) (facts_code facts))"

definition replay_rejection_body_free :: "Error \<Rightarrow> FailureClass \<Rightarrow> string \<Rightarrow> Error option" where
  "replay_rejection_body_free err cls provider =
     (if \<not> is_replay_rejection_class cls then None else Some (body_free err provider))"

subsection \<open>The recovery branches of the error arm\<close>

fun is_upstream_401 :: "Error \<Rightarrow> bool" where
  "is_upstream_401 (Upstream p s b ra ty code rid) = (s = 401)"
| "is_upstream_401 e = False"

definition forwarded_terminal ::
  "DispatchTarget \<Rightarrow> ProbeSlotGuard \<Rightarrow> Error \<Rightarrow> 'w Walk \<Rightarrow> 'x Attempt \<Rightarrow> ('w, 'x, 'o) outcome option" where
  "forwarded_terminal t guard e wk tr =
     (if use_forwarded_credential t \<and> forwarded_terminal_status e \<noteq> None
      then Some (release_slot t guard wk, tr, Return (Inl e)) else None)"

definition auth_recovery ::
  "('x, 'a, 'w) Call \<Rightarrow> nat \<Rightarrow> DispatchTarget \<Rightarrow> ProbeSlotGuard \<Rightarrow> Error \<Rightarrow> 'w Walk \<Rightarrow> 'x Attempt \<Rightarrow>
   ('w, 'x, 'o) outcome option" where
  "auth_recovery c i t guard e wk tr =
     (if auth_retry_attempted tr \<or> \<not> is_upstream_401 e then None
      else Some (let tr = tr\<lparr>auth_retry_attempted := True\<rparr>;
                     (site, refresh) = p_on_auth_failure (ports c) t (wk_site wk);
                     wk = wk\<lparr>wk_site := site\<rparr>
                 in case refresh of
                      Some refresh_err \<Rightarrow>
                        (release_slot t guard (log_event (RefreshFailed i refresh_err) wk), tr, Return (Inl refresh_err))
                    | None \<Rightarrow> ((release_slot t guard wk)\<lparr>last_err := Some e\<rparr>, tr, Again)))"

definition replay_repair ::
  "DispatchTarget \<Rightarrow> ProbeSlotGuard \<Rightarrow> Error \<Rightarrow> FailureClass \<Rightarrow> 'w Walk \<Rightarrow> 'x Attempt \<Rightarrow>
   ('w, 'x, 'o) outcome option" where
  "replay_repair t guard e cls wk tr = (case replay_plan tr of
     None \<Rightarrow> None
   | Some plan \<Rightarrow>
       (if replay_repair_attempted tr \<or> \<not> is_replay_rejection_class cls then None
        else let (budget, drawn) = draw (repair_budget wk)
             in if \<not> drawn then None
                else Some ((release_slot t guard wk)
                       \<lparr>repair_budget := budget,
                        last_err := Some (unwrap_or (replay_rejection_body_free e cls (dt_provider_name t)) e)\<rparr>,
                     tr\<lparr>attempt_req := strip_artifacts plan (attempt_req tr),
                        replay_repair_attempted := True, skip_replay_backoff := True\<rparr>, Again)))"

text \<open>The drop of the field a rejection names: availability of the budget is checked before the
  request is changed, and the draw follows the drop.\<close>

definition apply_candidate ::
  "'x FieldCarryPlan \<Rightarrow> nat \<Rightarrow> 'x ChatRequest \<Rightarrow> RepairBudget \<Rightarrow>
   ('x FieldCarryPlan \<times> 'x ChatRequest \<times> RepairBudget) option" where
  "apply_candidate plan idx req budget =
     (let surface = candidates plan ! idx
      in if \<not> present_in surface req then None
         else if \<not> can_draw budget then None
         else let (req', removed) = drop_from surface req
              in if \<not> removed then None
                 else Some (plan\<lparr>repaired := Some idx\<rparr>, req', fst (draw budget)))"

definition apply_field_repair ::
  "'x FieldCarryPlan \<Rightarrow> FailureClass \<Rightarrow> Error \<Rightarrow> 'x ChatRequest \<Rightarrow> RepairBudget \<Rightarrow>
   ('x FieldCarryPlan \<times> 'x ChatRequest \<times> RepairBudget) option" where
  "apply_field_repair plan native_class rejection req budget =
     (if repaired plan \<noteq> None then None
      else case List.find (\<lambda>idx. rejection_names (candidates plan ! idx) native_class rejection)
             [0..<length (candidates plan)] of
             None \<Rightarrow> None
           | Some idx \<Rightarrow> apply_candidate plan idx req budget)"

definition field_repair ::
  "DispatchTarget \<Rightarrow> ProbeSlotGuard \<Rightarrow> Error \<Rightarrow> FailureClass \<Rightarrow> 'w Walk \<Rightarrow> 'x Attempt \<Rightarrow>
   ('w, 'x, 'o) outcome option" where
  "field_repair t guard e native wk tr = (case field_plan tr of
     None \<Rightarrow> None
   | Some plan \<Rightarrow>
       (if field_repair_attempted tr then None
        else case apply_field_repair plan native e (attempt_req tr) (repair_budget wk) of
               None \<Rightarrow> None
             | Some (plan', req', budget) \<Rightarrow>
                 Some ((release_slot t guard wk)\<lparr>repair_budget := budget, last_err := Some e\<rparr>,
                   tr\<lparr>attempt_req := req', field_plan := Some plan', field_repair_attempted := True,
                      skip_replay_backoff := True\<rparr>, Again)))"

text \<open>The branches both walks try in this order before they settle the failure.\<close>

definition recover ::
  "('x, 'a, 'w) Call \<Rightarrow> nat \<Rightarrow> DispatchTarget \<Rightarrow> ProbeSlotGuard \<Rightarrow> Error \<Rightarrow> FailureClass \<times> FailureClass \<Rightarrow> 'w Walk \<Rightarrow>
   'x Attempt \<Rightarrow> ('w, 'x, 'o) outcome option" where
  "recover c i t guard e both wk tr =
     option_or (forwarded_terminal t guard e wk tr)
    (option_or (auth_recovery c i t guard e wk tr)
    (option_or (replay_repair t guard e (fst both) wk tr)
               (field_repair t guard e (snd both) wk tr)))"

definition canary_repaired_retry ::
  "'x FieldSurface option \<Rightarrow> FailureClass \<Rightarrow> Error \<Rightarrow> 'x ChatRequest \<Rightarrow> 'x ChatRequest option" where
  "canary_repaired_retry canary native_class err req = (case canary of
     None \<Rightarrow> None
   | Some surface \<Rightarrow>
       (if \<not> rejection_names surface native_class err then None
        else if \<not> present_in surface req then None
        else let (req', removed) = drop_from surface req in if removed then Some req' else None))"

definition canary_repair ::
  "DispatchTarget \<Rightarrow> ProbeSlotGuard \<Rightarrow> Error \<Rightarrow> FailureClass \<Rightarrow> 'w Walk \<Rightarrow> 'x Attempt \<Rightarrow>
   ('w, 'x, 'o) outcome option" where
  "canary_repair t guard e native wk tr =
     (if canary_repair_attempted tr then None
      else case canary_repaired_retry (canary_plan tr) native e (attempt_req tr) of
             None \<Rightarrow> None
           | Some req' \<Rightarrow>
               Some ((release_slot t guard wk)\<lparr>last_err := Some e\<rparr>,
                 tr\<lparr>attempt_req := req', canary_repair_attempted := True, skip_replay_backoff := True\<rparr>, Again))"

subsection \<open>Fast failure of availability probes\<close>

definition next_is_sibling_seat :: "DispatchTarget list \<Rightarrow> nat \<Rightarrow> DispatchTarget \<Rightarrow> bool" where
  "next_is_sibling_seat chain chain_idx target =
     (if chain_idx + 1 < length chain then dt_model (chain ! (chain_idx + 1)) = dt_model target else False)"

definition probe_fast_fail ::
  "('x, 'a, 'w) Call \<Rightarrow> DispatchTarget list \<Rightarrow> nat \<Rightarrow> DispatchTarget \<Rightarrow> ProbeSlotGuard \<Rightarrow> Error \<Rightarrow> 'w Walk \<Rightarrow>
   'x Attempt \<Rightarrow> ('w, 'x, 'o) outcome option" where
  "probe_fast_fail c chain i t guard e wk tr =
     (if call_is_probe c \<and> probe_fast_fail_status e \<noteq> None
      then Some (let wk = release_slot t guard wk
                 in if \<not> disable_fallbacks c \<and> next_is_sibling_seat chain i t
                    then (wk\<lparr>last_err := Some e\<rparr>, tr, Advance)
                    else (wk, tr, Return (Inl e)))
      else None)"

subsection \<open>The chain loop\<close>

definition exhausted :: "string \<Rightarrow> 'w Walk \<Rightarrow> Error" where
  "exhausted model wk = unwrap_or (last_err wk) (UnknownAlias model)"

text \<open>The loop over the chain, for either walk; \<open>visit\<close> is one iteration, \<open>None\<close> an upstream that
  never answers. An iteration never ends in \<open>Again\<close>: that is its attempt loop's own \<open>continue\<close>.\<close>

fun walk_chain ::
  "(nat \<Rightarrow> DispatchTarget \<Rightarrow> 'w Walk \<Rightarrow> ('w Walk \<times> 'o flow) option) \<Rightarrow> string \<Rightarrow> nat \<Rightarrow>
   DispatchTarget list \<Rightarrow> 'w Walk \<Rightarrow> ('w Walk \<times> (Error + 'o)) option" where
  "walk_chain visit model i [] wk = Some (wk, Inl (exhausted model wk))"
| "walk_chain visit model i (t # ts) wk = (case visit i t wk of
     None \<Rightarrow> None
   | Some (wk', Return r) \<Rightarrow> Some (wk', r)
   | Some (wk', Break) \<Rightarrow> Some (wk', Inl (exhausted model wk'))
   | Some (wk', fl) \<Rightarrow> walk_chain visit model (Suc i) ts wk')"

definition fresh_walk :: "'w site \<Rightarrow> QuotaStore \<Rightarrow> DispatchMeta \<Rightarrow> 'w Walk" where
  "fresh_walk site quota meta = \<lparr>wk_site = site, wk_quota = quota, last_err = None,
     repair_budget = per_request, wk_meta = meta, wk_log = []\<rparr>"

subsection \<open>Frames\<close>

lemma with_gates_frame [simp]:
  "last_err (with_gates f wk) = last_err wk" "repair_budget (with_gates f wk) = repair_budget wk"
  "wk_meta (with_gates f wk) = wk_meta wk" "wk_log (with_gates f wk) = wk_log wk"
  "wk_quota (with_gates f wk) = wk_quota wk" "wk_site (with_gates f wk) = (fst (wk_site wk), f (snd (wk_site wk)))"
  by (simp_all add: with_gates_def)

lemma log_event_frame [simp]:
  "last_err (log_event ev wk) = last_err wk" "repair_budget (log_event ev wk) = repair_budget wk"
  "wk_meta (log_event ev wk) = wk_meta wk" "wk_log (log_event ev wk) = ev # wk_log wk"
  "wk_quota (log_event ev wk) = wk_quota wk" "wk_site (log_event ev wk) = wk_site wk"
  by (simp_all add: log_event_def)

lemma settle_attempt_with_gates [simp]: "settle_attempt guard f wk = with_gates f wk"
  by (simp add: settle_attempt_def)

lemma release_slot_with_gates:
  "release_slot t guard wk = with_gates (with_slot (state_key t) (settle_slot Freed)) wk"
  by (simp add: release_slot_def settle_slot_ops)

lemma release_slot_frame [simp]:
  "last_err (release_slot t guard wk) = last_err wk" "repair_budget (release_slot t guard wk) = repair_budget wk"
  "wk_meta (release_slot t guard wk) = wk_meta wk" "wk_log (release_slot t guard wk) = wk_log wk"
  "wk_quota (release_slot t guard wk) = wk_quota wk" "fst (wk_site (release_slot t guard wk)) = fst (wk_site wk)"
  "snd (wk_site (release_slot t guard wk)) = with_slot (state_key t) (settle_slot Freed) (snd (wk_site wk))"
  by (simp_all add: release_slot_with_gates)

lemma option_or_Some: "option_or a b = Some x \<longleftrightarrow> a = Some x \<or> (a = None \<and> b = Some x)"
  by (cases a) (simp_all add: option_or_def)

lemma option_or_None: "option_or a b = None \<longleftrightarrow> a = None \<and> b = None"
  by (cases a) (simp_all add: option_or_def)

text \<open>The five outcomes of the shared recovery branches.\<close>

lemma recover_cases:
  assumes "recover c i t guard e both wk tr = Some (wk', tr', fl)"
  obtains (forwarded) "use_forwarded_credential t" "forwarded_terminal_status e \<noteq> None" "fl = Return (Inl e)"
      "wk' = release_slot t guard wk" "tr' = tr"
    | (dead) site err where "is_upstream_401 e" "\<not> auth_retry_attempted tr" "\<not> use_forwarded_credential t"
      "p_on_auth_failure (ports c) t (wk_site wk) = (site, Some err)" "fl = Return (Inl err)"
      "wk' = release_slot t guard (log_event (RefreshFailed i err) (wk\<lparr>wk_site := site\<rparr>))"
      "tr' = tr\<lparr>auth_retry_attempted := True\<rparr>"
    | (refreshed) site where "is_upstream_401 e" "\<not> auth_retry_attempted tr" "\<not> use_forwarded_credential t"
      "p_on_auth_failure (ports c) t (wk_site wk) = (site, None)" "fl = Again"
      "wk' = (release_slot t guard (wk\<lparr>wk_site := site\<rparr>))\<lparr>last_err := Some e\<rparr>"
      "tr' = tr\<lparr>auth_retry_attempted := True\<rparr>"
    | (stripped) plan where "replay_plan tr = Some plan" "0 < repair_budget wk" "fl = Again"
      "\<not> replay_repair_attempted tr" "is_replay_rejection_class (fst both)"
      "auth_retry_attempted tr \<or> \<not> is_upstream_401 e"
      "wk' = (release_slot t guard wk)\<lparr>repair_budget := repair_budget wk - 1,
         last_err := Some (body_free e (dt_provider_name t))\<rparr>"
      "tr' = tr\<lparr>attempt_req := strip_artifacts plan (attempt_req tr),
         replay_repair_attempted := True, skip_replay_backoff := True\<rparr>"
    | (dropped) plan req where "0 < repair_budget wk" "fl = Again" "\<not> field_repair_attempted tr"
      "auth_retry_attempted tr \<or> \<not> is_upstream_401 e"
      "wk' = (release_slot t guard wk)\<lparr>repair_budget := repair_budget wk - 1, last_err := Some e\<rparr>"
      "tr' = tr\<lparr>attempt_req := req, field_plan := Some plan, field_repair_attempted := True,
         skip_replay_backoff := True\<rparr>"
proof -
  have auth: "auth_recovery c i t guard e wk tr = None \<longleftrightarrow> auth_retry_attempted tr \<or> \<not> is_upstream_401 e"
    by (simp add: auth_recovery_def)
  have terminal: "is_upstream_401 e \<Longrightarrow> forwarded_terminal_status e \<noteq> None"
    by (cases e) simp_all
  consider "forwarded_terminal t guard e wk tr = Some (wk', tr', fl)"
    | "\<not> (use_forwarded_credential t \<and> is_upstream_401 e)" "auth_recovery c i t guard e wk tr = Some (wk', tr', fl)"
    | "auth_retry_attempted tr \<or> \<not> is_upstream_401 e" "replay_repair t guard e (fst both) wk tr = Some (wk', tr', fl)"
    | "auth_retry_attempted tr \<or> \<not> is_upstream_401 e" "field_repair t guard e (snd both) wk tr = Some (wk', tr', fl)"
    using assms terminal by (auto simp: recover_def option_or_Some auth forwarded_terminal_def split: if_splits) blast
  then show thesis
  proof cases
    case 1
    then show thesis using forwarded by (auto simp: forwarded_terminal_def split: if_splits)
  next
    case 2
    then show thesis using dead refreshed
      by (auto simp: auth_recovery_def Let_def split: if_splits prod.splits option.splits)
  next
    case 3
    then show thesis using stripped
      by (auto simp: replay_repair_def draw_def replay_rejection_body_free_def unwrap_or_def
          split: option.splits if_splits)
  next
    case 4
    then show thesis using dropped
      by (auto simp: field_repair_def apply_field_repair_def apply_candidate_def draw_def can_draw_def Let_def
          split: option.splits if_splits prod.splits)
  qed
qed

lemma canary_cases:
  assumes "canary_repair t guard e native wk tr = Some (wk', tr', fl)"
  obtains req where "fl = Again" "\<not> canary_repair_attempted tr" "wk' = (release_slot t guard wk)\<lparr>last_err := Some e\<rparr>"
    "tr' = tr\<lparr>attempt_req := req, canary_repair_attempted := True, skip_replay_backoff := True\<rparr>"
  using assms by (auto simp: canary_repair_def split: if_splits option.splits)

lemma probe_fast_fail_cases:
  assumes "probe_fast_fail c chain i t guard e wk tr = Some (wk', tr', fl)"
  obtains (sibling) "fl = Advance" "wk' = (release_slot t guard wk)\<lparr>last_err := Some e\<rparr>" "tr' = tr"
      "\<not> disable_fallbacks c"
    | (final) "fl = Return (Inl e)" "wk' = release_slot t guard wk" "tr' = tr"
  using assms by (auto simp: probe_fast_fail_def Let_def split: if_splits)

subsection \<open>The attempt loop of a target\<close>

text \<open>What either walk's attempt loop is: iterations of a step until one does not end in \<open>Again\<close>,
  with a rank every \<open>Again\<close> lowers.\<close>

locale attempt_loop =
  fixes step :: "nat \<Rightarrow> DispatchTarget \<Rightarrow> 'w Walk \<Rightarrow> 'x Attempt \<Rightarrow> ('w, 'x, 'o) outcome option"
    and loop :: "nat \<Rightarrow> DispatchTarget \<Rightarrow> 'w Walk \<Rightarrow> 'x Attempt \<Rightarrow> ('w Walk \<times> 'o flow) option"
    and rank :: "'w Walk \<Rightarrow> 'x Attempt \<Rightarrow> nat"
  assumes loop_step: "loop i t wk tr = (case step i t wk tr of None \<Rightarrow> None
       | Some (wk', tr', fl) \<Rightarrow> if fl = Again then loop i t wk' tr' else Some (wk', fl))"
    and again_rank: "step i t wk tr = Some (wk', tr', Again) \<Longrightarrow> rank wk' tr' < rank wk tr"
begin

lemma loop_invariant:
  assumes again: "\<And>wk tr wk' tr'. I wk tr \<Longrightarrow> step i t wk tr = Some (wk', tr', Again) \<Longrightarrow> I wk' tr'"
    and leave: "\<And>wk tr wk' tr' fl. I wk tr \<Longrightarrow> step i t wk tr = Some (wk', tr', fl) \<Longrightarrow> fl \<noteq> Again \<Longrightarrow> Q wk' fl"
  shows "I wk tr \<Longrightarrow> loop i t wk tr = Some (wk', fl) \<Longrightarrow> Q wk' fl \<and> fl \<noteq> Again"
proof (induction "rank wk tr" arbitrary: wk tr rule: less_induct)
  case less
  obtain wk1 tr1 fl1 where s: "step i t wk tr = Some (wk1, tr1, fl1)"
    using less.prems(2) by (cases "step i t wk tr") (auto simp: loop_step)
  show ?case
  proof (cases "fl1 = Again")
    case True
    then show ?thesis using less.hyps [of wk1 tr1] less.prems s again [of wk tr wk1 tr1] again_rank [of i t wk tr wk1 tr1]
      by (simp add: loop_step [of i t wk])
  next
    case False
    then show ?thesis using less.prems s leave [of wk tr wk1 tr1 fl1] by (simp add: loop_step)
  qed
qed

lemma loop_returns:
  assumes "\<And>wk tr. step i t wk tr \<noteq> None"
  shows "loop i t wk tr \<noteq> None"
proof (induction "rank wk tr" arbitrary: wk tr rule: less_induct)
  case less
  obtain wk1 tr1 fl1 where s: "step i t wk tr = Some (wk1, tr1, fl1)"
    using assms [of wk tr] by (cases "step i t wk tr") auto
  show ?case
  proof (cases "fl1 = Again")
    case True
    then show ?thesis using less [of wk1 tr1] s again_rank [of i t wk tr wk1 tr1] by (simp add: loop_step [of i t wk])
  next
    case False
    then show ?thesis using s by (simp add: loop_step [of i t wk])
  qed
qed

end

subsection \<open>The chain loop\<close>

lemma walk_chain_invariant:
  assumes hop: "\<And>i wk wk' fl. i < length ts \<Longrightarrow> I i wk \<Longrightarrow> visit i (ts ! i) wk = Some (wk', fl) \<Longrightarrow>
      fl = Advance \<or> fl = Again \<Longrightarrow> I (Suc i) wk'"
    and break: "\<And>i wk wk'. i < length ts \<Longrightarrow> I i wk \<Longrightarrow> visit i (ts ! i) wk = Some (wk', Break) \<Longrightarrow>
      Q wk' (Inl (exhausted model wk'))"
    and return: "\<And>i wk wk' r. i < length ts \<Longrightarrow> I i wk \<Longrightarrow> visit i (ts ! i) wk = Some (wk', Return r) \<Longrightarrow> Q wk' r"
    and exhaust: "\<And>wk. I (length ts) wk \<Longrightarrow> Q wk (Inl (exhausted model wk))"
    and start: "I 0 wk" and run: "walk_chain visit model 0 ts wk = Some (wk', r)"
  shows "Q wk' r"
proof -
  have "walk_chain visit model i (drop i ts) wk = Some (wk', r) \<Longrightarrow> I i wk \<Longrightarrow> i \<le> length ts \<Longrightarrow> Q wk' r" for i wk
  proof (induction "length ts - i" arbitrary: i wk)
    case 0
    then show ?case using exhaust [of wk'] by auto
  next
    case (Suc n)
    then have i: "i < length ts" by simp
    then have d: "drop i ts = ts ! i # drop (Suc i) ts" by (rule Cons_nth_drop_Suc [symmetric])
    obtain wk1 fl where v: "visit i (ts ! i) wk = Some (wk1, fl)"
      using Suc.prems(1) d by (cases "visit i (ts ! i) wk") auto
    have rest: "Q wk' r" if "fl = Advance \<or> fl = Again"
    proof (rule Suc.hyps(1) [of "Suc i" wk1])
      show "walk_chain visit model (Suc i) (drop (Suc i) ts) wk1 = Some (wk', r)"
        using Suc.prems(1) v d that by auto
    qed (use Suc i v that hop [of i wk wk1 fl] in auto)
    show ?case
    proof (cases fl)
      case (Return r')
      then show ?thesis using Suc.prems v d i return [of i wk wk1 r'] by simp
    next
      case Break
      then show ?thesis using Suc.prems v d i break [of i wk wk1] by auto
    qed (use rest in simp_all)
  qed
  from this [of 0 wk] show ?thesis using run start by simp
qed

lemma walk_chain_returns:
  assumes "\<And>i t wk. t \<in> set ts \<Longrightarrow> visit i t wk \<noteq> None"
  shows "walk_chain visit model i ts wk \<noteq> None"
  using assms
proof (induction ts arbitrary: i wk)
  case (Cons t ts)
  obtain wk1 fl where "visit i t wk = Some (wk1, fl)"
    using Cons.prems [of t i wk] by (cases "visit i t wk") auto
  then show ?case using Cons by (cases fl) auto
qed simp

text \<open>How an invariant of the walk goes round: \<open>I\<close> at the head of the chain loop, \<open>J\<close> at the head of the
  attempt loop, \<open>Q\<close> of the result.\<close>

definition leaves ::
  "(nat \<Rightarrow> 'w Walk \<Rightarrow> bool) \<Rightarrow> ('w Walk \<Rightarrow> Error + 'o \<Rightarrow> bool) \<Rightarrow> string \<Rightarrow> nat \<Rightarrow> 'w Walk \<Rightarrow> 'o flow \<Rightarrow> bool" where
  "leaves I Q model i wk fl = (case fl of
     Return r \<Rightarrow> Q wk r
   | Break \<Rightarrow> Q wk (Inl (exhausted model wk))
   | _ \<Rightarrow> I (Suc i) wk)"

lemma leaves_simps [simp]:
  "leaves I Q model i wk (Return r) = Q wk r"
  "leaves I Q model i wk Break = Q wk (Inl (exhausted model wk))"
  "leaves I Q model i wk Advance = I (Suc i) wk"
  "leaves I Q model i wk Again = I (Suc i) wk"
  by (simp_all add: leaves_def)

context attempt_loop
begin

lemma walk_invariant:
  assumes enter: "\<And>i wk wk' fl. i < length chain \<Longrightarrow> I i wk \<Longrightarrow> enter i (chain ! i) wk = Inl (wk', fl) \<Longrightarrow>
      leaves I Q model i wk' fl"
    and entered: "\<And>i wk wk' tr. i < length chain \<Longrightarrow> I i wk \<Longrightarrow> enter i (chain ! i) wk = Inr (wk', tr) \<Longrightarrow> J i wk' tr"
    and again: "\<And>i wk tr wk' tr'. i < length chain \<Longrightarrow> J i wk tr \<Longrightarrow>
      step i (chain ! i) wk tr = Some (wk', tr', Again) \<Longrightarrow> J i wk' tr'"
    and leave: "\<And>i wk tr wk' tr' fl. i < length chain \<Longrightarrow> J i wk tr \<Longrightarrow>
      step i (chain ! i) wk tr = Some (wk', tr', fl) \<Longrightarrow> fl \<noteq> Again \<Longrightarrow> leaves I Q model i wk' fl"
    and exhaust: "\<And>wk. I (length chain) wk \<Longrightarrow> Q wk (Inl (exhausted model wk))"
    and start: "I 0 wk0"
    and run: "walk_chain (\<lambda>i t wk. case enter i t wk of Inl (wk', fl) \<Rightarrow> Some (wk', fl)
        | Inr (wk', tr) \<Rightarrow> loop i t wk' tr) model 0 chain wk0 = Some (wk', r)"
  shows "Q wk' r"
proof -
  let ?visit = "\<lambda>i t wk. case enter i t wk of Inl (wk', fl) \<Rightarrow> Some (wk', fl) | Inr (wk', tr) \<Rightarrow> loop i t wk' tr"
  have visit: "leaves I Q model i wk' fl"
    if i: "i < length chain" and inv: "I i wk" and v: "?visit i (chain ! i) wk = Some (wk', fl)" for i wk wk' fl
  proof (cases "enter i (chain ! i) wk")
    case (Inl out)
    then show ?thesis using v enter [OF i inv] by (cases out) auto
  next
    case (Inr entry)
    obtain wk1 tr where e: "entry = (wk1, tr)" by force
    then have l: "loop i (chain ! i) wk1 tr = Some (wk', fl)" using v Inr by simp
    have "leaves I Q model i wk' fl \<and> fl \<noteq> Again"
      by (rule loop_invariant [of "J i" i "chain ! i" "leaves I Q model i", OF _ _ _ l])
        (use again [OF i] leave [OF i] entered [OF i inv] Inr e in auto)
    then show ?thesis ..
  qed
  show ?thesis
  proof (rule walk_chain_invariant [of chain I ?visit Q model wk0 wk' r, OF _ _ _ exhaust start run])
    show "I (Suc i) wk'" if "i < length chain" "I i wk" "?visit i (chain ! i) wk = Some (wk', fl)"
        "fl = Advance \<or> fl = Again" for i wk wk' fl
      using visit [OF that(1-3)] that(4) by auto
    show "Q wk' (Inl (exhausted model wk'))" if "i < length chain" "I i wk"
        "?visit i (chain ! i) wk = Some (wk', Break)" for i wk wk'
      using visit [OF that] by simp
    show "Q wk' r" if "i < length chain" "I i wk" "?visit i (chain ! i) wk = Some (wk', Return r)" for i wk wk' r
      using visit [OF that] by simp
  qed
qed

lemma walk_returns:
  assumes "\<And>i t wk tr. t \<in> set chain \<Longrightarrow> step i t wk tr \<noteq> None"
  shows "walk_chain (\<lambda>i t wk. case enter i t wk of Inl (wk', fl) \<Rightarrow> Some (wk', fl)
        | Inr (wk', tr) \<Rightarrow> loop i t wk' tr) model 0 chain wk0 \<noteq> None"
proof (rule walk_chain_returns)
  fix i t wk
  assume "t \<in> set chain"
  then have l: "loop i t wk' tr \<noteq> None" for wk' tr by (intro loop_returns assms)
  show "(case enter i t wk of Inl (wk', fl) \<Rightarrow> Some (wk', fl) | Inr (wk', tr) \<Rightarrow> loop i t wk' tr) \<noteq> None"
  proof (cases "enter i t wk")
    case (Inr entry)
    then show ?thesis using l by (cases entry) simp
  qed (simp add: case_prod_unfold)
qed

end

lemma enter_target_cases:
  fixes c :: "('x, 'a, 'w) Call"
  obtains (unroutable) e wk1 where "(enter_target c i t wk :: ('w Walk \<times> 'o flow) + ('w Walk \<times> 'x Attempt)) = Inl (unrouted c i e wk1)"
      "wk_log wk1 = wk_log wk" "repair_budget wk1 = repair_budget wk" "snd (wk_site wk1) = snd (wk_site wk)"
      "attempt_count (wk_meta wk1) = attempt_count (wk_meta wk)" "wk_quota wk1 = wk_quota wk"
    | (stopped) e wk1 where "(enter_target c i t wk :: ('w Walk \<times> 'o flow) + ('w Walk \<times> 'x Attempt)) = Inl (log_event (Unrouted i e) wk1, Return (Inl e))"
      "wk_log wk1 = wk_log wk" "repair_budget wk1 = repair_budget wk" "snd (wk_site wk1) = snd (wk_site wk)"
      "attempt_count (wk_meta wk1) = attempt_count (wk_meta wk)" "wk_quota wk1 = wk_quota wk"
    | (entered) wk1 sh where "(enter_target c i t wk :: ('w Walk \<times> 'o flow) + ('w Walk \<times> 'x Attempt)) = Inr (wk1, fresh_attempt (policy c) sh)"
      "wk_log wk1 = wk_log wk" "repair_budget wk1 = repair_budget wk" "snd (wk_site wk1) = snd (wk_site wk)"
      "attempt_count (wk_meta wk1) = attempt_count (wk_meta wk)" "wk_quota wk1 = wk_quota wk"
      "last_err wk1 = last_err wk" "dt_provider t \<noteq> None" "missing_forwarded_bearer_error t (request c) = None"
      "wk_meta wk1 = (mark_target t (req_model (request c)) (wk_meta wk))\<lparr>fallback_count := i\<rparr>"
proof (cases "dt_provider t")
  case None
  then have "(enter_target c i t wk :: ('w Walk \<times> 'o flow) + ('w Walk \<times> 'x Attempt)) = Inl (unrouted c i (UnknownProvider (dt_provider_name t)) wk)"
    by (simp add: enter_target_def)
  then show thesis by (rule unroutable) simp_all
next
  case (Some p)
  let ?meta = "(mark_target t (req_model (request c)) (wk_meta wk))\<lparr>fallback_count := i\<rparr>"
  have count: "attempt_count ?meta = attempt_count (wk_meta wk)" by (simp add: mark_target_def)
  show thesis
  proof (cases "missing_forwarded_bearer_error t (request c)")
    case (Some e)
    have "(enter_target c i t wk :: ('w Walk \<times> 'o flow) + ('w Walk \<times> 'x Attempt)) = Inl (log_event (Unrouted i e) (wk\<lparr>wk_meta := ?meta\<rparr>), Return (Inl e))"
      using \<open>dt_provider t = Some p\<close> Some by (simp add: enter_target_def Let_def)
    then show thesis by (rule stopped) (simp_all add: count)
  next
    case None
    let ?req = "if use_forwarded_credential t then request c else (request c)\<lparr>req_model := dt_upstream t\<rparr>"
    obtain world verdict shaped where sh: "p_shape (ports c) t ?req (fst (wk_site wk)) = (world, verdict, shaped)"
      by (rule prod_cases3)
    let ?wk = "wk\<lparr>wk_meta := ?meta, wk_site := (world, snd (wk_site wk))\<rparr>"
    have e: "(enter_target c i t wk :: ('w Walk \<times> 'o flow) + ('w Walk \<times> 'x Attempt)) = (case verdict of
        StrictReject err \<Rightarrow> Inl (log_event (Unrouted i err) ?wk, Return (Inl err))
      | RouteAway err \<Rightarrow> Inl (unrouted c i err ?wk) | Proceed \<Rightarrow> Inr (?wk, fresh_attempt (policy c) shaped))"
      using \<open>dt_provider t = Some p\<close> None sh by (cases verdict) (simp_all add: enter_target_def Let_def)
    show thesis
    proof (cases verdict)
      case Proceed
      have "(enter_target c i t wk :: ('w Walk \<times> 'o flow) + ('w Walk \<times> 'x Attempt)) = Inr (?wk, fresh_attempt (policy c) shaped)" using e Proceed by simp
      then show thesis by (rule entered) (simp_all add: count None \<open>dt_provider t = Some p\<close>)
    next
      case (StrictReject err)
      have "(enter_target c i t wk :: ('w Walk \<times> 'o flow) + ('w Walk \<times> 'x Attempt)) = Inl (log_event (Unrouted i err) ?wk, Return (Inl err))"
        using e StrictReject by simp
      then show thesis by (rule stopped) (simp_all add: count)
    next
      case (RouteAway err)
      have "(enter_target c i t wk :: ('w Walk \<times> 'o flow) + ('w Walk \<times> 'x Attempt)) = Inl (unrouted c i err ?wk)" using e RouteAway by simp
      then show thesis by (rule unroutable) (simp_all add: count)
    qed
  qed
qed

lemma enter_target_Inl:
  fixes c :: "('x, 'a, 'w) Call" and fl :: "'o flow"
  assumes "enter_target c i t wk = Inl (wk', fl)"
  shows "attempt_count (wk_meta wk') = attempt_count (wk_meta wk)" "repair_budget wk' = repair_budget wk"
    "snd (wk_site wk') = snd (wk_site wk)" "wk_quota wk' = wk_quota wk"
    and "\<exists>e. wk_log wk' = Unrouted i e # wk_log wk
      \<and> (last_err wk' = Some e \<and> fl = (if disable_fallbacks c then Break else Advance) \<or> fl = Return (Inl e))"
proof -
  have "attempt_count (wk_meta wk') = attempt_count (wk_meta wk) \<and> repair_budget wk' = repair_budget wk
    \<and> snd (wk_site wk') = snd (wk_site wk) \<and> wk_quota wk' = wk_quota wk
    \<and> (\<exists>e. wk_log wk' = Unrouted i e # wk_log wk
      \<and> (last_err wk' = Some e \<and> fl = (if disable_fallbacks c then Break else Advance) \<or> fl = Return (Inl e)))"
  proof (rule enter_target_cases [of c i t wk])
    fix e wk1
    assume "(enter_target c i t wk :: ('w Walk \<times> 'o flow) + ('w Walk \<times> 'x Attempt)) = Inl (unrouted c i e wk1)"
    then have "(wk', fl) = unrouted c i e wk1" using assms by simp
    then have "wk' = (log_event (Unrouted i e) wk1)\<lparr>last_err := Some e\<rparr>"
        "fl = (if disable_fallbacks c then Break else Advance)" by (simp_all add: unrouted_def)
    moreover assume "wk_log wk1 = wk_log wk" "repair_budget wk1 = repair_budget wk" "snd (wk_site wk1) = snd (wk_site wk)"
      "attempt_count (wk_meta wk1) = attempt_count (wk_meta wk)" "wk_quota wk1 = wk_quota wk"
    ultimately show ?thesis by simp
  next
    fix e wk1
    assume "(enter_target c i t wk :: ('w Walk \<times> 'o flow) + ('w Walk \<times> 'x Attempt)) = Inl (log_event (Unrouted i e) wk1, Return (Inl e))"
    then have "wk' = log_event (Unrouted i e) wk1" "fl = Return (Inl e)" using assms by simp_all
    moreover assume "wk_log wk1 = wk_log wk" "repair_budget wk1 = repair_budget wk" "snd (wk_site wk1) = snd (wk_site wk)"
      "attempt_count (wk_meta wk1) = attempt_count (wk_meta wk)" "wk_quota wk1 = wk_quota wk"
    ultimately show ?thesis by simp
  next
    fix wk1 sh
    assume "(enter_target c i t wk :: ('w Walk \<times> 'o flow) + ('w Walk \<times> 'x Attempt)) = Inr (wk1, fresh_attempt (policy c) sh)"
    then show ?thesis using assms by simp
  qed
  then show "attempt_count (wk_meta wk') = attempt_count (wk_meta wk)" "repair_budget wk' = repair_budget wk"
    "snd (wk_site wk') = snd (wk_site wk)" "wk_quota wk' = wk_quota wk"
    and "\<exists>e. wk_log wk' = Unrouted i e # wk_log wk
      \<and> (last_err wk' = Some e \<and> fl = (if disable_fallbacks c then Break else Advance) \<or> fl = Return (Inl e))"
    by blast+
qed

lemma enter_target_Inr:
  fixes c :: "('x, 'a, 'w) Call"
  assumes "(enter_target c i t wk :: ('w Walk \<times> 'o flow) + ('w Walk \<times> 'x Attempt)) = Inr (wk', tr)"
  obtains sh where "tr = fresh_attempt (policy c) sh" "wk_log wk' = wk_log wk" "repair_budget wk' = repair_budget wk"
    "snd (wk_site wk') = snd (wk_site wk)" "wk_quota wk' = wk_quota wk" "last_err wk' = last_err wk"
    "dt_provider t \<noteq> None" "missing_forwarded_bearer_error t (request c) = None"
    "wk_meta wk' = (mark_target t (req_model (request c)) (wk_meta wk))\<lparr>fallback_count := i\<rparr>"
    "attempt_count (wk_meta wk') = attempt_count (wk_meta wk)"
proof (rule enter_target_cases [of c i t wk])
  fix wk1 sh
  assume e: "(enter_target c i t wk :: ('w Walk \<times> 'o flow) + ('w Walk \<times> 'x Attempt)) = Inr (wk1, fresh_attempt (policy c) sh)"
    and f: "wk_log wk1 = wk_log wk" "repair_budget wk1 = repair_budget wk" "snd (wk_site wk1) = snd (wk_site wk)"
      "attempt_count (wk_meta wk1) = attempt_count (wk_meta wk)" "wk_quota wk1 = wk_quota wk" "last_err wk1 = last_err wk"
      "dt_provider t \<noteq> None" "missing_forwarded_bearer_error t (request c) = None"
      "wk_meta wk1 = (mark_target t (req_model (request c)) (wk_meta wk))\<lparr>fallback_count := i\<rparr>"
  have "wk1 = wk'" "tr = fresh_attempt (policy c) sh" using e assms by simp_all
  then show thesis using that [of sh] f by simp
qed (use assms in simp_all)

subsection \<open>What the running error means\<close>

fun event_error :: "walk_event \<Rightarrow> Error option" where
  "event_error (Attempted i outcome) = outcome"
| "event_error (Refused i e) = Some e"
| "event_error (RefreshFailed i e) = Some e"
| "event_error (Unrouted i e) = Some e"

fun is_refusal :: "walk_event \<Rightarrow> bool" where
  "is_refusal (Refused i e) = True"
| "is_refusal ev = False"

definition genuine :: "walk_event \<Rightarrow> bool" where
  "genuine ev \<longleftrightarrow> \<not> is_refusal ev \<and> event_error ev \<noteq> None"

text \<open>An attempt's failure may surface without its body, when it is a replay rejection.\<close>

fun reports :: "walk_event \<Rightarrow> Error \<Rightarrow> bool" where
  "reports (Attempted i (Some e)) r = (r = e \<or> (\<exists>p. r = body_free e p))"
| "reports ev r = (event_error ev = Some r)"

text \<open>The error a walk owes its caller, from its log, newest event first: the last genuine failure,
  or else the first refusal of a gate, or else the unknown alias.\<close>

fun first_refusal :: "walk_event list \<Rightarrow> Error option" where
  "first_refusal [] = None"
| "first_refusal (ev # evs) = (case first_refusal evs of
     Some e \<Rightarrow> Some e
   | None \<Rightarrow> if is_refusal ev then event_error ev else None)"

definition owed_error :: "string \<Rightarrow> walk_event list \<Rightarrow> Error \<Rightarrow> bool" where
  "owed_error model evs r = (case List.find genuine evs of
     Some ev \<Rightarrow> reports ev r
   | None \<Rightarrow> r = unwrap_or (first_refusal evs) (UnknownAlias model))"

definition running_ok :: "'w Walk \<Rightarrow> bool" where
  "running_ok wk = (case List.find genuine (wk_log wk) of
     Some ev \<Rightarrow> (\<exists>r. last_err wk = Some r \<and> reports ev r)
   | None \<Rightarrow> last_err wk = first_refusal (wk_log wk))"

definition newest_reports :: "'w Walk \<Rightarrow> Error \<Rightarrow> bool" where
  "newest_reports wk r = (case List.find genuine (wk_log wk) of Some ev \<Rightarrow> reports ev r | None \<Rightarrow> False)"

lemma running_okI: "newest_reports wk r \<Longrightarrow> last_err wk = Some r \<Longrightarrow> running_ok wk"
  by (auto simp: newest_reports_def running_ok_def split: option.splits)

lemma newest_owed: "newest_reports wk r \<Longrightarrow> owed_error model (wk_log wk) r"
  by (auto simp: newest_reports_def owed_error_def split: option.splits)

lemma exhausted_owed: "running_ok wk \<Longrightarrow> owed_error model (wk_log wk) (exhausted model wk)"
  by (auto simp: running_ok_def owed_error_def exhausted_def unwrap_or_def split: option.splits)

lemma fresh_walk_ok: "running_ok (fresh_walk site quota meta)"
  by (simp add: running_ok_def fresh_walk_def)

lemma unrouted_ok: "unrouted c i e wk = (wk', fl) \<Longrightarrow> running_ok wk' \<and> (fl = Break \<or> fl = Advance)"
  by (auto simp: unrouted_def running_ok_def genuine_def split: if_splits)

lemma gate_refused_ok:
  "running_ok wk \<Longrightarrow> gate_refused c i e wk = (wk', fl) \<Longrightarrow> running_ok wk' \<and> (fl = Break \<or> fl = Advance)"
  by (auto simp: gate_refused_def Let_def running_ok_def genuine_def split: option.splits if_splits)

definition failure_told :: "('w, 'x, 'o) outcome \<Rightarrow> bool" where
  "failure_told out = (case out of (wk, tr, fl) \<Rightarrow> (case fl of
     Return (Inl r) \<Rightarrow> newest_reports wk r
   | Return (Inr x) \<Rightarrow> False
   | Break \<Rightarrow> False
   | _ \<Rightarrow> running_ok wk))"

lemma newest_reports_frame:
  "wk_log wk' = wk_log wk \<Longrightarrow> newest_reports wk' r = newest_reports wk r"
  by (simp add: newest_reports_def)

lemma newest_attempted:
  "wk_log wk = Attempted i (Some e) # evs \<Longrightarrow> newest_reports wk e"
  "wk_log wk = Attempted i (Some e) # evs \<Longrightarrow> newest_reports wk (body_free e p)"
  by (auto simp: newest_reports_def genuine_def)

lemma newest_refresh: "wk_log wk = RefreshFailed i e # evs \<Longrightarrow> newest_reports wk e"
  by (simp add: newest_reports_def genuine_def)

lemma told_return: "newest_reports wk r \<Longrightarrow> failure_told (wk, tr, Return (Inl r))"
  by (simp add: failure_told_def)

lemma told_on:
  "newest_reports wk r \<Longrightarrow> last_err wk = Some r \<Longrightarrow> fl = Again \<or> fl = Advance \<Longrightarrow> failure_told (wk, tr, fl)"
  by (auto simp: failure_told_def intro: running_okI)

lemma recover_told:
  assumes "wk_log wk = Attempted i (Some e) # evs"
    and "recover c i t guard e both wk tr = Some (wk', tr', fl)"
  shows "failure_told (wk', tr', fl)"
  using assms(2)
proof (cases rule: recover_cases)
  case forwarded
  then show ?thesis using newest_attempted(1) [of wk', simplified forwarded, OF] assms(1)
    by (auto intro!: told_return newest_attempted)
next
  case (dead site err)
  then show ?thesis using assms(1) by (auto intro!: told_return newest_refresh)
next
  case (refreshed site)
  then show ?thesis using assms(1) by (intro told_on [of _ e]) (auto intro!: newest_attempted)
next
  case (stripped plan)
  then show ?thesis using assms(1)
    by (intro told_on [of _ "body_free e (dt_provider_name t)"]) (auto intro!: newest_attempted)
next
  case (dropped plan req)
  then show ?thesis using assms(1) by (intro told_on [of _ e]) (auto intro!: newest_attempted)
qed

lemma canary_told:
  assumes "wk_log wk = Attempted i (Some e) # evs"
    and "canary_repair t guard e native wk tr = Some (wk', tr', fl)"
  shows "failure_told (wk', tr', fl)"
  using assms(2) by (rule canary_cases) (use assms(1) in \<open>auto intro!: told_on [of _ e] newest_attempted\<close>)

lemma probe_told:
  assumes "newest_reports wk e"
    and "probe_fast_fail c chain i t guard e wk tr = Some (wk', tr', fl)"
  shows "failure_told (wk', tr', fl)"
  using assms(2) by (rule probe_fast_fail_cases)
    (use assms(1) in \<open>auto intro!: told_on [of _ e] told_return simp: newest_reports_def\<close>)

subsection \<open>Slots\<close>

definition in_flight_only :: "string set \<Rightarrow> gates \<Rightarrow> bool" where
  "in_flight_only keys gs \<longleftrightarrow> (\<forall>k. is_half_open_probe gs k \<longrightarrow> k \<in> keys)"

text \<open>The world is quiet when nothing it does while the walk awaits claims a half-open slot.\<close>

definition quiet :: "('x, 'a, 'w) Ports \<Rightarrow> bool" where
  "quiet p \<longleftrightarrow> (\<forall>keys s. in_flight_only keys (snd s) \<longrightarrow>
     (\<forall>d. in_flight_only keys (snd (p_sleep p d s)))
   \<and> (\<forall>t d req. in_flight_only keys (snd (fst (p_complete p t d req s))))
   \<and> (\<forall>t d req. in_flight_only keys (snd (fst (p_stream p t d req s))))
   \<and> (\<forall>t. in_flight_only keys (snd (fst (p_on_auth_failure p t s)))))"

lemma quietD:
  assumes "quiet p" and "in_flight_only keys (snd s)"
  shows "in_flight_only keys (snd (p_sleep p d s))"
    and "p_complete p t dl req s = (s', answer) \<Longrightarrow> in_flight_only keys (snd s')"
    and "p_stream p t dl req s = (s', opened) \<Longrightarrow> in_flight_only keys (snd s')"
    and "p_on_auth_failure p t s = (s', refresh) \<Longrightarrow> in_flight_only keys (snd s')"
  using assms unfolding quiet_def by (metis fst_conv)+

lemma settle_frees_slot:
  "in_flight_only {key} gs \<Longrightarrow> in_flight_only {} (with_slot key (settle_slot v) gs)"
  using settle_slot_frees
  by (auto simp: in_flight_only_def is_half_open_probe_def with_slot_def half_open_probe_in_flight_def
      split: option.splits if_splits)

lemma in_flight_only_mono: "in_flight_only {} gs \<Longrightarrow> in_flight_only keys gs"
  by (simp add: in_flight_only_def)

lemma gate_check_claims:
  assumes free: "in_flight_only {} gs" and check: "gate_check gs now key provider = (gs', refusal)"
  shows "in_flight_only {key} gs'" and "refusal \<noteq> None \<Longrightarrow> in_flight_only {} gs'"
proof -
  have "in_flight_only {key} gs' \<and> (refusal \<noteq> None \<longrightarrow> in_flight_only {} gs')"
  proof (cases "gs key")
    case None
    then show ?thesis using assms
      by (simp add: gate_check_slot admit_dispatch_no_slot in_flight_only_def)
  next
    case (Some s)
    let ?s' = "fst (try_dispatch_admitting s now)" and ?a = "snd (try_dispatch_admitting s now)"
    have gs': "gs' = gs(key \<mapsto> ?s')" and refusal: "refusal = refusal_of (decision ?a) provider"
      using check by (simp_all add: gate_check_slot admit_dispatch_slot [of gs key s, OF Some])
    have "\<not> half_open_in_flight s"
      using free [unfolded in_flight_only_def, rule_format, of key] Some
      by (auto simp: is_half_open_probe_def half_open_probe_in_flight_def)
    then have "\<not> half_open_in_flight ?s'" if "refusal \<noteq> None"
      using that unclaimed_in_flight [of s now ClientDispatch] admission_phase [of s now]
      by (auto simp: refusal try_dispatch_admitting_def)
    then show ?thesis using free
      by (auto simp: gs' in_flight_only_def is_half_open_probe_def half_open_probe_in_flight_def split: if_splits)
  qed
  then show "in_flight_only {key} gs'" and "refusal \<noteq> None \<Longrightarrow> in_flight_only {} gs'" by auto
qed

text \<open>An outcome leaves no slot claimed.\<close>

definition slots_free :: "('w, 'x, 'o) outcome \<Rightarrow> bool" where
  "slots_free out \<longleftrightarrow> in_flight_only {} (snd (wk_site (fst out)))"

lemma recover_slots:
  assumes "quiet (ports c)" and "in_flight_only {state_key t} (snd (wk_site wk))"
    and "recover c i t guard e both wk tr = Some (wk', tr', fl)"
  shows "slots_free (wk', tr', fl)"
  using assms(3)
  by (cases rule: recover_cases)
    (use assms(1,2) quietD(4) [OF assms(1,2)] in \<open>auto simp: slots_free_def intro!: settle_frees_slot\<close>)

lemma canary_slots:
  assumes "in_flight_only {state_key t} (snd (wk_site wk))"
    and "canary_repair t guard e native wk tr = Some (wk', tr', fl)"
  shows "slots_free (wk', tr', fl)"
  using assms(2) by (rule canary_cases) (use assms(1) in \<open>simp add: slots_free_def settle_frees_slot\<close>)

lemma probe_slots:
  assumes "in_flight_only {state_key t} (snd (wk_site wk))"
    and "probe_fast_fail c chain i t guard e wk tr = Some (wk', tr', fl)"
  shows "slots_free (wk', tr', fl)"
  using assms(2) by (rule probe_fast_fail_cases) (use assms(1) in \<open>simp_all add: slots_free_def settle_frees_slot\<close>)

subsection \<open>What bounds the attempts\<close>

definition repairs_left :: "'w Walk \<Rightarrow> 'x Attempt \<Rightarrow> nat" where
  "repairs_left wk tr = repair_budget wk + (if auth_retry_attempted tr then 0 else 1)"

definition canary_left :: "'x Attempt \<Rightarrow> nat" where
  "canary_left tr = (if canary_repair_attempted tr then 0 else 1)"

lemma recover_spends:
  assumes "recover c i t guard e both wk tr = Some (wk', tr', fl)"
  shows "wk_meta wk' = wk_meta wk" and "attempts_made tr' = attempts_made tr"
    and "canary_left tr' = canary_left tr" and "repair_budget wk' \<le> repair_budget wk"
    and "fl = Again \<Longrightarrow> repairs_left wk' tr' < repairs_left wk tr"
proof -
  have "wk_meta wk' = wk_meta wk \<and> attempts_made tr' = attempts_made tr \<and> canary_left tr' = canary_left tr
     \<and> repair_budget wk' \<le> repair_budget wk \<and> (fl = Again \<longrightarrow> repairs_left wk' tr' < repairs_left wk tr)"
    using assms by (cases rule: recover_cases) (auto simp: repairs_left_def canary_left_def)
  then show "wk_meta wk' = wk_meta wk" and "attempts_made tr' = attempts_made tr"
    and "canary_left tr' = canary_left tr" and "repair_budget wk' \<le> repair_budget wk"
    and "fl = Again \<Longrightarrow> repairs_left wk' tr' < repairs_left wk tr" by auto
qed

lemma canary_spends:
  assumes "canary_repair t guard e native wk tr = Some (wk', tr', fl)"
  shows "wk_meta wk' = wk_meta wk \<and> attempts_made tr' = attempts_made tr \<and> repairs_left wk' tr' = repairs_left wk tr
    \<and> repair_budget wk' = repair_budget wk \<and> canary_left tr' < canary_left tr \<and> fl = Again"
  using assms by (rule canary_cases) (simp add: repairs_left_def canary_left_def)

lemma probe_spends:
  assumes "probe_fast_fail c chain i t guard e wk tr = Some (wk', tr', fl)"
  shows "wk_meta wk' = wk_meta wk \<and> tr' = tr \<and> repair_budget wk' = repair_budget wk \<and> fl \<noteq> Again"
  using assms by (rule probe_fast_fail_cases) auto

end
