(* ===== verification/Dispatch_Complete.thy ===== *)
theory Dispatch_Complete
  imports Dispatch_Walk
begin

text \<open>
  The non-streaming dispatch walk (\<open>complete_inner\<close> of \<open>routectl-router/src/router/dispatch.rs\<close>):
  per target, gate, backoff, upstream call under the request timeout, and on an error the recovery
  branches, the probe fast-fail, the breaker debit, the same-provider retry and the hop to the next
  target. The chain is the one \<open>dispatch_chain_for_request\<close> returns; the learning observers and the
  settlement of the repair plans after a success are not modelled.
\<close>

subsection \<open>One attempt\<close>

definition INLOOP_RETRY_AFTER_CAP :: duration where "INLOOP_RETRY_AFTER_CAP = from_secs 5"

definition resolve_reported_model :: "DispatchTarget \<Rightarrow> string \<Rightarrow> string" where
  "resolve_reported_model t requested = (case dt_reported_model t of
     Some label \<Rightarrow> if label \<noteq> [] then label else requested
   | None \<Rightarrow> requested)"

definition request_timeout :: "string \<Rightarrow> u64 \<Rightarrow> Error" where
  "request_timeout provider_name ms = upstream provider_name 0 (''request timed out after '' @ show_nat ms @ ''ms'')"

definition run_with_timeout ::
  "string \<Rightarrow> RetryPolicy \<Rightarrow> (duration \<times> (Error + 'a)) option \<Rightarrow> (duration \<times> (Error + 'a)) option" where
  "run_with_timeout provider_name p answer =
     with_deadline (request_timeout provider_name) (request_timeout_ms p) answer"

definition attempt_policy :: "('x, 'a, 'w) Call \<Rightarrow> DispatchTarget \<Rightarrow> RetryPolicy" where
  "attempt_policy c t = compose_attempt_policy (call_providers c) (policy c) (dt_provider_name t)
     (dt_stream_first_byte_timeout_ms t)"

definition sleep_before_retry ::
  "('x, 'a, 'w) Call \<Rightarrow> 'w Walk \<Rightarrow> 'x Attempt \<Rightarrow> 'w Walk \<times> 'x Attempt" where
  "sleep_before_retry c wk tr =
     (if 0 < attempts_made tr \<and> \<not> skip_replay_backoff tr
      then let jittered = add_jitter (p_subsec (ports c) (fst (wk_site wk))) (backoff tr) (jitter_ms (policy c))
           in (wk\<lparr>wk_site := p_sleep (ports c) jittered (wk_site wk)\<rparr>,
               tr\<lparr>backoff := mul_duration (backoff tr) (backoff_multiplier (policy c)), skip_replay_backoff := False\<rparr>)
      else (wk, tr\<lparr>skip_replay_backoff := False\<rparr>))"

subsection \<open>The success arm\<close>

definition complete_success ::
  "('x, 'a, 'w) Call \<Rightarrow> DispatchTarget \<Rightarrow> ProbeSlotGuard \<Rightarrow> 'a ChatResponse \<Rightarrow> 'w Walk \<Rightarrow>
   'w Walk \<times> 'a ChatResponse" where
  "complete_success c t guard resp wk =
     (let wk = settle_attempt guard (\<lambda>gs. gate_record_success gs (call_now c wk) (state_key t)) wk;
          resp = resp\<lparr>routectl_provider := (if dt_visible_routectl_provider t then Some (dt_provider_name t) else None),
                     resp_model := resolve_reported_model t (req_model (request c))\<rparr>;
          quota = feed_response (p_stamp (ports c) (fst (wk_site wk))) (p_secs (ports c) (fst (wk_site wk)))
            (map_option seat_key_for_served_identity (served_seat (wk_meta wk))) (resp_meta resp) (wk_quota wk)
      in (wk\<lparr>wk_quota := quota\<rparr>, resp))"

subsection \<open>The error arm\<close>

text \<open>The breaker debit: a large reset hint parks the target, any other debiting failure counts.\<close>

definition complete_debit ::
  "('x, 'a, 'w) Call \<Rightarrow> DispatchTarget \<Rightarrow> ProbeSlotGuard \<Rightarrow> Error \<Rightarrow> FailureClass \<Rightarrow> 'w Walk \<Rightarrow> 'w Walk \<times> bool" where
  "complete_debit c t guard e cls wk =
     (if \<not> class_debits cls then (wk, False)
      else case rate_limit_reset_hint e (policy c) of
        Some h \<Rightarrow>
          (if \<not> call_is_probe c \<and> INLOOP_RETRY_AFTER_CAP < h
           then (settle_attempt guard (\<lambda>gs. park_provider gs (call_now c wk) (state_key t) h) wk, True)
           else (settle_attempt guard
             (\<lambda>gs. fst (record_failure_opened gs (call_now c wk) (state_key t) (last_outcome_of cls))) wk, False))
      | None \<Rightarrow> (settle_attempt guard
             (\<lambda>gs. fst (record_failure_opened gs (call_now c wk) (state_key t) (last_outcome_of cls))) wk, False))"

text \<open>A small reset hint is honoured as the next sleep.\<close>

definition honour_reset :: "('x, 'a, 'w) Call \<Rightarrow> Error \<Rightarrow> 'x Attempt \<Rightarrow> 'x Attempt" where
  "honour_reset c e tr = (case rate_limit_reset_hint e (policy c) of
     Some h \<Rightarrow> if \<not> call_is_probe c \<and> h \<le> INLOOP_RETRY_AFTER_CAP then tr\<lparr>backoff := max (backoff tr) h\<rparr> else tr
   | None \<Rightarrow> tr)"

definition can_retry_here :: "('x, 'a, 'w) Call \<Rightarrow> Error \<Rightarrow> FailureClass \<Rightarrow> 'x Attempt \<Rightarrow> bool \<Rightarrow> bool" where
  "can_retry_here c e cls tr breaker_parked \<longleftrightarrow> attempts_made tr < hard_retry_cap (policy c)
     \<and> should_retry_same_provider e cls (policy c) (attempts_made tr) (call_is_probe c) \<and> \<not> breaker_parked"

definition complete_settle ::
  "('x, 'a, 'w) Call \<Rightarrow> DispatchTarget \<Rightarrow> ProbeSlotGuard \<Rightarrow> Error \<Rightarrow> FailureClass \<Rightarrow> 'w Walk \<Rightarrow> 'x Attempt \<Rightarrow>
   ('w, 'x, 'a ChatResponse) outcome" where
  "complete_settle c t guard e cls wk tr =
     (let do_fallback = should_fallback e cls (policy c) (call_is_probe c);
          (wk, breaker_parked) = complete_debit c t guard e cls wk
      in if disable_fallbacks c then (release_slot t guard wk, tr, Return (Inl e))
         else if can_retry_here c e cls tr breaker_parked
         then (release_slot t guard (wk\<lparr>last_err := Some e\<rparr>), honour_reset c e tr, Again)
         else if do_fallback
         then ((if class_debits cls then wk else release_slot t guard wk)\<lparr>last_err := Some e\<rparr>, tr, Advance)
         else (release_slot t guard wk, tr, Return (Inl e)))"

definition complete_error ::
  "('x, 'a, 'w) Call \<Rightarrow> DispatchTarget list \<Rightarrow> nat \<Rightarrow> DispatchTarget \<Rightarrow> ProbeSlotGuard \<Rightarrow> Error \<Rightarrow> 'w Walk \<Rightarrow>
   'x Attempt \<Rightarrow> ('w, 'x, 'a ChatResponse) outcome" where
  "complete_error c chain i t guard e wk tr =
     (let (cls, native) = classify_failure c t tr e
      in case option_or (recover c i t guard e (cls, native) wk tr) (canary_repair t guard e native wk tr) of
           Some out \<Rightarrow> out
         | None \<Rightarrow>
             (let e = unwrap_or (replay_rejection_body_free e cls (dt_provider_name t)) e
              in case probe_fast_fail c chain i t guard e wk tr of
                   Some out \<Rightarrow> out
                 | None \<Rightarrow> complete_settle c t guard e cls wk tr))"

subsection \<open>The loops\<close>

definition complete_step ::
  "('x, 'a, 'w) Call \<Rightarrow> DispatchTarget list \<Rightarrow> nat \<Rightarrow> DispatchTarget \<Rightarrow> 'w Walk \<Rightarrow> 'x Attempt \<Rightarrow>
   ('w, 'x, 'a ChatResponse) outcome option" where
  "complete_step c chain i t wk tr =
     (let (wk, refusal) = check_gate c t wk
      in case refusal of
           Some gate_err \<Rightarrow> (let (wk, fl) = gate_refused c i gate_err wk in Some (wk, tr, fl))
         | None \<Rightarrow>
             (let guard = probe_slot_guard (snd (wk_site wk)) (state_key t);
                  (wk, tr) = sleep_before_retry c wk tr;
                  (site, answer) = p_complete (ports c) t (request_timeout_ms (attempt_policy c t)) (attempt_req tr) (wk_site wk);
                  wk = wk\<lparr>wk_site := site\<rparr>
              in case run_with_timeout (dt_provider_name t) (attempt_policy c t) answer of
                   None \<Rightarrow> None
                 | Some (_, Inr resp) \<Rightarrow>
                     (let (wk, tr) = count_attempt i None wk tr; (wk, resp) = complete_success c t guard resp wk
                      in Some (wk, tr, Return (Inr resp)))
                 | Some (_, Inl e) \<Rightarrow>
                     (let (wk, tr) = count_attempt i (Some e) wk tr
                      in Some (complete_error c chain i t guard e wk tr))))"

lemma complete_error_cases:
  fixes c :: "('x, 'a, 'w) Call"
  assumes "complete_error c chain i t guard e wk tr = (wk', tr', fl)"
    and "classify_failure c t tr e = (cls, native)"
  obtains (recovered) "recover c i t guard e (cls, native) wk tr = Some (wk', tr', fl)"
    | (canary) "recover c i t guard e (cls, native) wk tr = (None :: ('w, 'x, 'a ChatResponse) outcome option)"
        "canary_repair t guard e native wk tr = Some (wk', tr', fl)"
    | (probe) e' where "e' = unwrap_or (replay_rejection_body_free e cls (dt_provider_name t)) e"
        "recover c i t guard e (cls, native) wk tr = (None :: ('w, 'x, 'a ChatResponse) outcome option)"
        "probe_fast_fail c chain i t guard e' wk tr = Some (wk', tr', fl)"
    | (settled) e' where "e' = unwrap_or (replay_rejection_body_free e cls (dt_provider_name t)) e"
        "recover c i t guard e (cls, native) wk tr = (None :: ('w, 'x, 'a ChatResponse) outcome option)"
        "canary_repair t guard e native wk tr = (None :: ('w, 'x, 'a ChatResponse) outcome option)"
        "probe_fast_fail c chain i t guard e' wk tr = (None :: ('w, 'x, 'a ChatResponse) outcome option)"
        "complete_settle c t guard e' cls wk tr = (wk', tr', fl)"
proof (cases "option_or (recover c i t guard e (cls, native) wk tr) (canary_repair t guard e native wk tr)
    :: ('w, 'x, 'a ChatResponse) outcome option")
  case None
  let ?e = "unwrap_or (replay_rejection_body_free e cls (dt_provider_name t)) e"
  show thesis
    using assms None probe [of ?e] settled [of ?e]
    by (cases "probe_fast_fail c chain i t guard ?e wk tr :: ('w, 'x, 'a ChatResponse) outcome option")
      (simp_all add: complete_error_def option_or_None option_or_def [of None] Let_def)
next
  case (Some out)
  then show thesis using assms recovered canary by (auto simp: complete_error_def option_or_def split: option.splits)
qed

lemma complete_step_cases:
  assumes "complete_step c chain i t wk tr = Some (wk', tr', fl)"
  obtains (refused) wk1 gate_err where "check_gate c t wk = (wk1, Some gate_err)"
      "gate_refused c i gate_err wk1 = (wk', fl)" "tr' = tr"
    | (served) wk1 wk2 tr2 site answer time resp resp' guard where "check_gate c t wk = (wk1, None)"
      "sleep_before_retry c wk1 tr = (wk2, tr2)"
      "p_complete (ports c) t (request_timeout_ms (attempt_policy c t)) (attempt_req tr2) (wk_site wk2) = (site, answer)"
      "run_with_timeout (dt_provider_name t) (attempt_policy c t) answer = Some (time, Inr resp)"
      "complete_success c t guard resp (fst (count_attempt i None (wk2\<lparr>wk_site := site\<rparr>) tr2)) = (wk', resp')"
      "tr' = snd (count_attempt i None (wk2\<lparr>wk_site := site\<rparr>) tr2)" "fl = Return (Inr resp')"
    | (failed) wk1 wk2 tr2 site answer time e guard where "check_gate c t wk = (wk1, None)"
      "sleep_before_retry c wk1 tr = (wk2, tr2)"
      "p_complete (ports c) t (request_timeout_ms (attempt_policy c t)) (attempt_req tr2) (wk_site wk2) = (site, answer)"
      "run_with_timeout (dt_provider_name t) (attempt_policy c t) answer = Some (time, Inl e)"
      "complete_error c chain i t guard e (fst (count_attempt i (Some e) (wk2\<lparr>wk_site := site\<rparr>) tr2))
         (snd (count_attempt i (Some e) (wk2\<lparr>wk_site := site\<rparr>) tr2)) = (wk', tr', fl)"
proof -
  obtain wk1 refusal where g: "check_gate c t wk = (wk1, refusal)" by force
  show thesis
  proof (cases refusal)
    case (Some gate_err)
    then show thesis using assms g refused by (auto simp: complete_step_def split: prod.splits)
  next
    case None
    obtain wk2 tr2 where sl: "sleep_before_retry c wk1 tr = (wk2, tr2)" by force
    obtain site answer where call: "p_complete (ports c) t (request_timeout_ms (attempt_policy c t))
        (attempt_req tr2) (wk_site wk2) = (site, answer)" by (rule prod.exhaust)
    from None show thesis using assms g sl call served failed
      by (auto simp: complete_step_def Let_def split: prod.splits option.splits sum.splits)
  qed
qed

subsection \<open>The rank of the attempt loop\<close>

definition complete_rank :: "('x, 'a, 'w) Call \<Rightarrow> 'w Walk \<Rightarrow> 'x Attempt \<Rightarrow> nat" where
  "complete_rank c wk tr = repairs_left wk tr + canary_left tr + (hard_retry_cap (policy c) - 1 - attempts_made tr)"

lemma count_attempt_fields [simp]:
  "attempt_count (wk_meta (fst (count_attempt i out wk tr))) = attempt_count (wk_meta wk) + 1"
  "fallback_count (wk_meta (fst (count_attempt i out wk tr))) = fallback_count (wk_meta wk)"
  "served_provider (wk_meta (fst (count_attempt i out wk tr))) = served_provider (wk_meta wk)"
  "served_seat (wk_meta (fst (count_attempt i out wk tr))) = served_seat (wk_meta wk)"
  "wk_log (fst (count_attempt i out wk tr)) = Attempted i out # wk_log wk"
  "last_err (fst (count_attempt i out wk tr)) = last_err wk"
  "repair_budget (fst (count_attempt i out wk tr)) = repair_budget wk"
  "wk_site (fst (count_attempt i out wk tr)) = wk_site wk"
  "wk_quota (fst (count_attempt i out wk tr)) = wk_quota wk"
  "attempts_made (snd (count_attempt i out wk tr)) = attempts_made tr + 1"
  "canary_left (snd (count_attempt i out wk tr)) = canary_left tr"
  "repairs_left (fst (count_attempt i out wk tr)) (snd (count_attempt i out wk tr)) = repairs_left wk tr"
  by (simp_all add: count_attempt_def canary_left_def repairs_left_def)

lemma check_gate_fields:
  assumes "check_gate c t wk = (wk', refusal)"
  shows "wk_meta wk' = wk_meta wk" "wk_log wk' = wk_log wk" "last_err wk' = last_err wk"
    "repair_budget wk' = repair_budget wk" "repairs_left wk' tr = repairs_left wk tr" "wk_quota wk' = wk_quota wk"
  using assms by (auto simp: check_gate_def repairs_left_def split: prod.splits)

lemma sleep_fields:
  assumes "sleep_before_retry c wk tr = (wk', tr')"
  shows "wk_meta wk' = wk_meta wk" "wk_log wk' = wk_log wk" "last_err wk' = last_err wk"
    "repair_budget wk' = repair_budget wk" "repairs_left wk' tr' = repairs_left wk tr" "wk_quota wk' = wk_quota wk"
    "attempts_made tr' = attempts_made tr" "canary_left tr' = canary_left tr"
  using assms by (auto simp: sleep_before_retry_def repairs_left_def canary_left_def Let_def split: if_splits)

lemma complete_debit_fields:
  assumes "complete_debit c t guard e cls wk = (wk', parked)"
  shows "wk_meta wk' = wk_meta wk" "wk_log wk' = wk_log wk" "last_err wk' = last_err wk"
    "repair_budget wk' = repair_budget wk" "repairs_left wk' tr = repairs_left wk tr"
  using assms by (auto simp: complete_debit_def repairs_left_def split: option.splits if_splits)

lemma complete_settle_cases:
  assumes "complete_settle c t guard e cls wk tr = (wk', tr', fl)"
  obtains (give_up) wk1 parked where "complete_debit c t guard e cls wk = (wk1, parked)"
      "wk' = release_slot t guard wk1" "tr' = tr" "fl = Return (Inl e)"
    | (retry) wk1 parked where "complete_debit c t guard e cls wk = (wk1, parked)" "\<not> disable_fallbacks c"
      "can_retry_here c e cls tr parked" "wk' = release_slot t guard (wk1\<lparr>last_err := Some e\<rparr>)"
      "tr' = honour_reset c e tr" "fl = Again"
    | (hop) wk1 parked where "complete_debit c t guard e cls wk = (wk1, parked)" "\<not> disable_fallbacks c"
      "wk' = (if class_debits cls then wk1 else release_slot t guard wk1)\<lparr>last_err := Some e\<rparr>"
      "tr' = tr" "fl = Advance" "should_fallback e cls (policy c) (call_is_probe c)"
  using assms by (auto simp: complete_settle_def Let_def split: prod.splits if_splits)

lemma honour_reset_fields [simp]:
  "attempts_made (honour_reset c e tr) = attempts_made tr" "canary_left (honour_reset c e tr) = canary_left tr"
  "repairs_left wk (honour_reset c e tr) = repairs_left wk tr"
  by (simp_all add: honour_reset_def canary_left_def repairs_left_def split: option.split)

lemma repairs_left_frame [simp]:
  "repairs_left (wk\<lparr>last_err := x\<rparr>) tr = repairs_left wk tr"
  "repairs_left (release_slot t guard wk) tr = repairs_left wk tr"
  "repairs_left (wk\<lparr>wk_site := site\<rparr>) tr = repairs_left wk tr"
  by (simp_all add: repairs_left_def)

lemma complete_error_spends:
  assumes err: "complete_error c chain i t guard e wk tr = (wk', tr', fl)" and "0 < attempts_made tr"
  shows "attempt_count (wk_meta wk') = attempt_count (wk_meta wk)" and "repair_budget wk' \<le> repair_budget wk"
    and "fl = Again \<Longrightarrow> complete_rank c wk' tr' < complete_rank c wk (tr\<lparr>attempts_made := attempts_made tr - 1\<rparr>)"
    and "wk_meta wk' = wk_meta wk"
proof -
  obtain cls native where cl: "classify_failure c t tr e = (cls, native)" by force
  have earlier: "canary_left (tr\<lparr>attempts_made := n\<rparr>) = canary_left tr" 
      "repairs_left wk (tr\<lparr>attempts_made := n\<rparr>) = repairs_left wk tr" for n
    by (simp_all add: canary_left_def repairs_left_def)
  have "wk_meta wk' = wk_meta wk \<and> repair_budget wk' \<le> repair_budget wk \<and>
    (fl = Again \<longrightarrow> complete_rank c wk' tr' < complete_rank c wk (tr\<lparr>attempts_made := attempts_made tr - 1\<rparr>))"
    using err cl
  proof (cases rule: complete_error_cases)
    case recovered
    then show ?thesis using recover_spends [OF recovered] by (auto simp: complete_rank_def earlier)
  next
    case canary
    then show ?thesis using canary_spends [OF canary(2)] by (auto simp: complete_rank_def earlier)
  next
    case (probe e')
    then show ?thesis using probe_spends [OF probe(3)] by auto
  next
    case (settled e')
    from settled(5) show ?thesis
    proof (cases rule: complete_settle_cases)
      case (give_up wk1 parked)
      then show ?thesis using complete_debit_fields [OF give_up(1)] by auto
    next
      case (retry wk1 parked)
      have "attempts_made tr < hard_retry_cap (policy c)" using retry(3) by (simp add: can_retry_here_def)
      then have "hard_retry_cap (policy c) - 1 - attempts_made tr < hard_retry_cap (policy c) - 1 - (attempts_made tr - 1)"
        using \<open>0 < attempts_made tr\<close> by arith
      moreover have "complete_rank c wk' tr' = repairs_left wk tr + canary_left tr
          + (hard_retry_cap (policy c) - 1 - attempts_made tr)"
        using retry complete_debit_fields(5) [OF retry(1), of tr] by (simp add: complete_rank_def)
      moreover have "complete_rank c wk (tr\<lparr>attempts_made := attempts_made tr - 1\<rparr>) = repairs_left wk tr
          + canary_left tr + (hard_retry_cap (policy c) - 1 - (attempts_made tr - 1))"
        by (simp add: complete_rank_def earlier)
      ultimately show ?thesis using retry complete_debit_fields(1,4) [OF retry(1)] by simp
    next
      case (hop wk1 parked)
      then show ?thesis using complete_debit_fields [OF hop(1)] by auto
    qed
  qed
  then show "attempt_count (wk_meta wk') = attempt_count (wk_meta wk)" and "repair_budget wk' \<le> repair_budget wk"
    and "fl = Again \<Longrightarrow> complete_rank c wk' tr' < complete_rank c wk (tr\<lparr>attempts_made := attempts_made tr - 1\<rparr>)"
    and "wk_meta wk' = wk_meta wk" by auto
qed

lemma complete_step_spends:
  assumes step: "complete_step c chain i t wk tr = Some (wk', tr', fl)"
  shows "attempt_count (wk_meta wk') \<le> attempt_count (wk_meta wk) + 1" and "repair_budget wk' \<le> repair_budget wk"
    and "fl = Again \<Longrightarrow> complete_rank c wk' tr' < complete_rank c wk tr"
proof -
  have "attempt_count (wk_meta wk') \<le> attempt_count (wk_meta wk) + 1 \<and> repair_budget wk' \<le> repair_budget wk \<and>
    (fl = Again \<longrightarrow> complete_rank c wk' tr' < complete_rank c wk tr)"
    using step
  proof (cases rule: complete_step_cases)
    case (refused wk1 gate_err)
    then show ?thesis using check_gate_fields [OF refused(1)]
      by (auto simp: gate_refused_def Let_def split: if_splits)
  next
    case (served wk1 wk2 tr2 site answer time resp resp' guard)
    then show ?thesis using check_gate_fields(1,4) [OF served(1)] sleep_fields(1,4) [OF served(2)]
      by (auto simp: complete_success_def Let_def)
  next
    case (failed wk1 wk2 tr2 site answer time e guard)
    let ?w = "fst (count_attempt i (Some e) (wk2\<lparr>wk_site := site\<rparr>) tr2)"
      and ?t = "snd (count_attempt i (Some e) (wk2\<lparr>wk_site := site\<rparr>) tr2)"
    have "complete_rank c ?w (?t\<lparr>attempts_made := attempts_made ?t - 1\<rparr>) = complete_rank c wk tr"
      using check_gate_fields(5) [OF failed(1), of tr] sleep_fields(5,7,8) [OF failed(2)]
      by (simp add: complete_rank_def count_attempt_def repairs_left_def canary_left_def)
    then show ?thesis
      using complete_error_spends [OF failed(5)] check_gate_fields(1,4) [OF failed(1)] sleep_fields(1,4) [OF failed(2)]
      by simp
  qed
  then show "attempt_count (wk_meta wk') \<le> attempt_count (wk_meta wk) + 1" and "repair_budget wk' \<le> repair_budget wk"
    and "fl = Again \<Longrightarrow> complete_rank c wk' tr' < complete_rank c wk tr" by auto
qed

function complete_loop ::
  "('x, 'a, 'w) Call \<Rightarrow> DispatchTarget list \<Rightarrow> nat \<Rightarrow> DispatchTarget \<Rightarrow> 'w Walk \<Rightarrow> 'x Attempt \<Rightarrow>
   ('w Walk \<times> 'a ChatResponse flow) option" where
  "complete_loop c chain i t wk tr = (case complete_step c chain i t wk tr of
     None \<Rightarrow> None
   | Some (wk', tr', fl) \<Rightarrow> if fl = Again then complete_loop c chain i t wk' tr' else Some (wk', fl))"
  by pat_completeness auto
termination
  by (relation "measure (\<lambda>(c, chain, i, t, wk, tr). complete_rank c wk tr)")
    (auto dest: complete_step_spends(3))

declare complete_loop.simps [simp del]

interpretation complete_walk: attempt_loop "complete_step c chain" "complete_loop c chain" "complete_rank c"
  for c :: "('x, 'a, 'w) Call" and chain
  by unfold_locales (auto simp: complete_loop.simps [of c chain] dest: complete_step_spends(3))

definition complete_visit ::
  "('x, 'a, 'w) Call \<Rightarrow> DispatchTarget list \<Rightarrow> nat \<Rightarrow> DispatchTarget \<Rightarrow> 'w Walk \<Rightarrow>
   ('w Walk \<times> 'a ChatResponse flow) option" where
  "complete_visit c chain i t wk = (case enter_target c i t wk of
     Inl (wk', fl) \<Rightarrow> Some (wk', fl)
   | Inr (wk', tr) \<Rightarrow> complete_loop c chain i t wk' tr)"

definition complete_inner ::
  "('x, 'a, 'w) Call \<Rightarrow> Error + DispatchTarget list \<Rightarrow> 'w site \<Rightarrow> QuotaStore \<Rightarrow>
   ('w Walk \<times> (Error + 'a ChatResponse)) option" where
  "complete_inner c chain_for_request site quota =
     (let wk = fresh_walk site quota (for_alias (req_model (request c)))
      in case chain_for_request of
           Inl err \<Rightarrow> Some (wk, Inl err)
         | Inr chain \<Rightarrow> walk_chain (complete_visit c chain) (req_model (request c)) 0 chain wk)"

end
