(* ===== verification/Dispatch_Stream.thy ===== *)
theory Dispatch_Stream
  imports Dispatch_Complete
begin

text \<open>
  The streaming dispatch walk (\<open>stream_inner\<close> of \<open>routectl-router/src/router/dispatch.rs\<close>): the
  same chain, gate and recovery branches, no same-provider retry, and a commit at the first content
  chunk, after which the stream is handed to the caller with its breaker accounting and quota feed
  still open.
\<close>

subsection \<open>The stream handed to the caller\<close>

record StreamHandle =
  sh_items :: "item list"
  sh_state :: "string option"
  sh_kind :: "string option"
  sh_seat :: "SeatKey option"

fun relabel :: "string \<Rightarrow> item \<Rightarrow> item" where
  "relabel label (Chunk chunk) = Chunk (chunk\<lparr>chunk_model := label\<rparr>)"
| "relabel label (Fail e) = Fail e"

text \<open>The commit closes the breaker only when this stream is the half-open probe.\<close>

definition stream_success ::
  "('x, 'a, 'w) Call \<Rightarrow> DispatchTarget \<Rightarrow> ProbeSlotGuard \<Rightarrow> bool \<Rightarrow> item list \<Rightarrow> 'w Walk \<Rightarrow>
   'w Walk \<times> StreamHandle" where
  "stream_success c t guard was_half_open_probe items wk =
     (let state = (if snd (wk_site wk) (state_key t) = None then None else Some (state_key t))
      in (settle_attempt guard (\<lambda>gs. if was_half_open_probe
            then gate_record_success gs (call_now c wk) (state_key t) else gs) wk,
          \<lparr>sh_items = map (relabel (resolve_reported_model t (req_model (request c)))) items,
           sh_state = state, sh_kind = dt_provider_kind t,
           sh_seat = map_option seat_key_for_served_identity (served_seat (wk_meta wk))\<rparr>))"

subsection \<open>The error arm\<close>

definition stream_debit ::
  "('x, 'a, 'w) Call \<Rightarrow> DispatchTarget \<Rightarrow> ProbeSlotGuard \<Rightarrow> Error \<Rightarrow> FailureClass \<Rightarrow> 'w Walk \<Rightarrow> 'w Walk" where
  "stream_debit c t guard e cls wk =
     (if \<not> class_debits cls then wk
      else settle_attempt guard (\<lambda>gs. case rate_limit_reset_hint e (policy c) of
          Some h \<Rightarrow> if \<not> call_is_probe c then park_provider gs (call_now c wk) (state_key t) h
                    else gate_record_failure gs (call_now c wk) (state_key t) (last_outcome_of cls)
        | None \<Rightarrow> gate_record_failure gs (call_now c wk) (state_key t) (last_outcome_of cls)) wk)"

definition stream_settle ::
  "('x, 'a, 'w) Call \<Rightarrow> DispatchTarget \<Rightarrow> ProbeSlotGuard \<Rightarrow> Error \<Rightarrow> FailureClass \<Rightarrow> 'w Walk \<Rightarrow> 'x Attempt \<Rightarrow>
   ('w, 'x, StreamHandle) outcome" where
  "stream_settle c t guard e cls wk tr =
     (let do_fallback = should_fallback e cls (policy c) (call_is_probe c);
          wk = stream_debit c t guard e cls wk
      in if disable_fallbacks c then (release_slot t guard wk, tr, Return (Inl e))
         else if do_fallback
         then ((if class_debits cls then wk else release_slot t guard wk)\<lparr>last_err := Some e\<rparr>, tr, Advance)
         else (release_slot t guard wk, tr, Return (Inl e)))"

definition stream_error ::
  "('x, 'a, 'w) Call \<Rightarrow> DispatchTarget list \<Rightarrow> nat \<Rightarrow> DispatchTarget \<Rightarrow> ProbeSlotGuard \<Rightarrow> Error \<Rightarrow> 'w Walk \<Rightarrow>
   'x Attempt \<Rightarrow> ('w, 'x, StreamHandle) outcome" where
  "stream_error c chain i t guard e wk tr =
     (let (cls, native) = classify_failure c t tr e
      in case recover c i t guard e (cls, native) wk tr of
           Some out \<Rightarrow> out
         | None \<Rightarrow>
             (let e = unwrap_or (replay_rejection_body_free e cls (dt_provider_name t)) e
              in case probe_fast_fail c chain i t guard e wk tr of
                   Some out \<Rightarrow> out
                 | None \<Rightarrow> stream_settle c t guard e cls wk tr))"

subsection \<open>The loops\<close>

definition stream_step ::
  "('x, 'a, 'w) Call \<Rightarrow> DispatchTarget list \<Rightarrow> nat \<Rightarrow> DispatchTarget \<Rightarrow> 'w Walk \<Rightarrow> 'x Attempt \<Rightarrow>
   ('w, 'x, StreamHandle) outcome option" where
  "stream_step c chain i t wk tr =
     (let (wk, refusal) = check_gate c t wk
      in case refusal of
           Some gate_err \<Rightarrow> (let (wk, fl) = gate_refused c i gate_err wk in Some (wk, tr, fl))
         | None \<Rightarrow>
             (let was_half_open_probe = is_half_open_probe (snd (wk_site wk)) (state_key t);
                  guard = probe_slot_guard (snd (wk_site wk)) (state_key t);
                  pol = attempt_policy c t;
                  (site, opened) = p_stream (ports c) t (stream_first_byte_timeout_ms pol) (attempt_req tr) (wk_site wk);
                  wk = wk\<lparr>wk_site := site\<rparr>
              in case try_stream_with_first_content (dt_provider_name t) pol opened of
                   None \<Rightarrow> None
                 | Some (_, Inr items) \<Rightarrow>
                     (let (wk, tr) = count_attempt i None wk tr;
                          (wk, handle) = stream_success c t guard was_half_open_probe items wk
                      in Some (wk, tr, Return (Inr handle)))
                 | Some (_, Inl e) \<Rightarrow>
                     (let (wk, tr) = count_attempt i (Some e) wk tr
                      in Some (stream_error c chain i t guard e wk tr))))"

lemma stream_error_cases:
  fixes c :: "('x, 'a, 'w) Call"
  assumes "stream_error c chain i t guard e wk tr = (wk', tr', fl)"
    and "classify_failure c t tr e = (cls, native)"
  obtains (recovered) "recover c i t guard e (cls, native) wk tr = Some (wk', tr', fl)"
    | (probe) e' where "e' = unwrap_or (replay_rejection_body_free e cls (dt_provider_name t)) e"
        "recover c i t guard e (cls, native) wk tr = (None :: ('w, 'x, StreamHandle) outcome option)"
        "probe_fast_fail c chain i t guard e' wk tr = Some (wk', tr', fl)"
    | (settled) e' where "e' = unwrap_or (replay_rejection_body_free e cls (dt_provider_name t)) e"
        "recover c i t guard e (cls, native) wk tr = (None :: ('w, 'x, StreamHandle) outcome option)"
        "probe_fast_fail c chain i t guard e' wk tr = (None :: ('w, 'x, StreamHandle) outcome option)"
        "stream_settle c t guard e' cls wk tr = (wk', tr', fl)"
  using assms by (auto simp: stream_error_def Let_def split: option.splits)

lemma stream_settle_cases:
  assumes "stream_settle c t guard e cls wk tr = (wk', tr', fl)"
  obtains (give_up) "wk' = release_slot t guard (stream_debit c t guard e cls wk)" "tr' = tr" "fl = Return (Inl e)"
    | (hop) "\<not> disable_fallbacks c" "tr' = tr" "fl = Advance" "should_fallback e cls (policy c) (call_is_probe c)"
      "wk' = (if class_debits cls then stream_debit c t guard e cls wk
        else release_slot t guard (stream_debit c t guard e cls wk))\<lparr>last_err := Some e\<rparr>"
  using assms by (auto simp: stream_settle_def Let_def split: if_splits)

lemma stream_step_cases:
  assumes "stream_step c chain i t wk tr = Some (wk', tr', fl)"
  obtains (refused) wk1 gate_err where "check_gate c t wk = (wk1, Some gate_err)"
      "gate_refused c i gate_err wk1 = (wk', fl)" "tr' = tr"
    | (served) wk1 site opened time items handle guard where "check_gate c t wk = (wk1, None)"
      "p_stream (ports c) t (stream_first_byte_timeout_ms (attempt_policy c t)) (attempt_req tr) (wk_site wk1) = (site, opened)"
      "try_stream_with_first_content (dt_provider_name t) (attempt_policy c t) opened = Some (time, Inr items)"
      "stream_success c t guard (is_half_open_probe (snd (wk_site wk1)) (state_key t)) items
         (fst (count_attempt i None (wk1\<lparr>wk_site := site\<rparr>) tr)) = (wk', handle)"
      "tr' = snd (count_attempt i None (wk1\<lparr>wk_site := site\<rparr>) tr)" "fl = Return (Inr handle)"
    | (failed) wk1 site opened time e guard where "check_gate c t wk = (wk1, None)"
      "p_stream (ports c) t (stream_first_byte_timeout_ms (attempt_policy c t)) (attempt_req tr) (wk_site wk1) = (site, opened)"
      "try_stream_with_first_content (dt_provider_name t) (attempt_policy c t) opened = Some (time, Inl e)"
      "stream_error c chain i t guard e (fst (count_attempt i (Some e) (wk1\<lparr>wk_site := site\<rparr>) tr))
         (snd (count_attempt i (Some e) (wk1\<lparr>wk_site := site\<rparr>) tr)) = (wk', tr', fl)"
proof -
  obtain wk1 refusal where g: "check_gate c t wk = (wk1, refusal)" by force
  show thesis
  proof (cases refusal)
    case (Some gate_err)
    then show thesis using assms g refused by (auto simp: stream_step_def split: prod.splits)
  next
    case None
    obtain site opened where call: "p_stream (ports c) t (stream_first_byte_timeout_ms (attempt_policy c t))
        (attempt_req tr) (wk_site wk1) = (site, opened)" by (rule prod.exhaust)
    from None show thesis using assms g call served failed
      by (auto simp: stream_step_def Let_def split: prod.splits option.splits sum.splits)
  qed
qed

subsection \<open>The rank of the attempt loop\<close>

lemma stream_debit_fields [simp]:
  "wk_meta (stream_debit c t guard e cls wk) = wk_meta wk" "wk_log (stream_debit c t guard e cls wk) = wk_log wk"
  "last_err (stream_debit c t guard e cls wk) = last_err wk"
  "repair_budget (stream_debit c t guard e cls wk) = repair_budget wk"
  by (simp_all add: stream_debit_def)

lemma stream_error_spends:
  assumes err: "stream_error c chain i t guard e wk tr = (wk', tr', fl)"
  shows "wk_meta wk' = wk_meta wk" and "repair_budget wk' \<le> repair_budget wk"
    and "fl = Again \<Longrightarrow> repairs_left wk' tr' < repairs_left wk tr"
proof -
  obtain cls native where cl: "classify_failure c t tr e = (cls, native)" by force
  have "wk_meta wk' = wk_meta wk \<and> repair_budget wk' \<le> repair_budget wk
      \<and> (fl = Again \<longrightarrow> repairs_left wk' tr' < repairs_left wk tr)"
    using err cl
  proof (cases rule: stream_error_cases)
    case recovered
    then show ?thesis using recover_spends [OF recovered] by auto
  next
    case (probe e')
    then show ?thesis using probe_spends [OF probe(3)] by auto
  next
    case (settled e')
    from settled(4) show ?thesis by (cases rule: stream_settle_cases) auto
  qed
  then show "wk_meta wk' = wk_meta wk" and "repair_budget wk' \<le> repair_budget wk"
    and "fl = Again \<Longrightarrow> repairs_left wk' tr' < repairs_left wk tr" by auto
qed

lemma stream_step_spends:
  assumes step: "stream_step c chain i t wk tr = Some (wk', tr', fl)"
  shows "attempt_count (wk_meta wk') \<le> attempt_count (wk_meta wk) + 1" and "repair_budget wk' \<le> repair_budget wk"
    and "fl = Again \<Longrightarrow> repairs_left wk' tr' < repairs_left wk tr"
proof -
  have "attempt_count (wk_meta wk') \<le> attempt_count (wk_meta wk) + 1 \<and> repair_budget wk' \<le> repair_budget wk \<and>
    (fl = Again \<longrightarrow> repairs_left wk' tr' < repairs_left wk tr)"
    using step
  proof (cases rule: stream_step_cases)
    case (refused wk1 gate_err)
    then show ?thesis using check_gate_fields [OF refused(1)]
      by (auto simp: gate_refused_def Let_def split: if_splits)
  next
    case (served wk1 site opened time items handle guard)
    then show ?thesis using check_gate_fields(1,4) [OF served(1)]
      by (auto simp: stream_success_def Let_def)
  next
    case (failed wk1 site opened time e guard)
    then show ?thesis
      using stream_error_spends [OF failed(4)] check_gate_fields(1,4) [OF failed(1)]
        check_gate_fields(5) [OF failed(1), of tr] by simp
  qed
  then show "attempt_count (wk_meta wk') \<le> attempt_count (wk_meta wk) + 1" and "repair_budget wk' \<le> repair_budget wk"
    and "fl = Again \<Longrightarrow> repairs_left wk' tr' < repairs_left wk tr" by auto
qed

function stream_loop ::
  "('x, 'a, 'w) Call \<Rightarrow> DispatchTarget list \<Rightarrow> nat \<Rightarrow> DispatchTarget \<Rightarrow> 'w Walk \<Rightarrow> 'x Attempt \<Rightarrow>
   ('w Walk \<times> StreamHandle flow) option" where
  "stream_loop c chain i t wk tr = (case stream_step c chain i t wk tr of
     None \<Rightarrow> None
   | Some (wk', tr', fl) \<Rightarrow> if fl = Again then stream_loop c chain i t wk' tr' else Some (wk', fl))"
  by pat_completeness auto
termination
  by (relation "measure (\<lambda>(c, chain, i, t, wk, tr). repairs_left wk tr)")
    (auto dest: stream_step_spends(3))

declare stream_loop.simps [simp del]

interpretation stream_walk: attempt_loop "stream_step c chain" "stream_loop c chain" repairs_left
  for c :: "('x, 'a, 'w) Call" and chain
  by unfold_locales (auto simp: stream_loop.simps [of c chain] dest: stream_step_spends(3))

definition stream_visit ::
  "('x, 'a, 'w) Call \<Rightarrow> DispatchTarget list \<Rightarrow> nat \<Rightarrow> DispatchTarget \<Rightarrow> 'w Walk \<Rightarrow>
   ('w Walk \<times> StreamHandle flow) option" where
  "stream_visit c chain i t wk = (case enter_target c i t wk of
     Inl (wk', fl) \<Rightarrow> Some (wk', fl)
   | Inr (wk', tr) \<Rightarrow> stream_loop c chain i t wk' tr)"

definition stream_inner ::
  "('x, 'a, 'w) Call \<Rightarrow> Error + DispatchTarget list \<Rightarrow> 'w site \<Rightarrow> QuotaStore \<Rightarrow>
   ('w Walk \<times> (Error + StreamHandle)) option" where
  "stream_inner c chain_for_request site quota =
     (let wk = fresh_walk site quota (for_alias (req_model (request c)))
      in case chain_for_request of
           Inl err \<Rightarrow> Some (wk, Inl err)
         | Inr chain \<Rightarrow> walk_chain (stream_visit c chain) (req_model (request c)) 0 chain wk)"

end
