(* ===== verification/Dispatch_Properties.thy ===== *)
theory Dispatch_Properties
  imports Dispatch_Stream
begin

text \<open>
  What the two dispatch walks guarantee: they return and spend a bounded number of attempts, the
  error they return is the one the request met, and no half-open slot stays claimed.
\<close>

subsection \<open>The walks as loops over the shared contract\<close>

lemma complete_inner_walk:
  "complete_inner c (Inr chain) site quota = walk_chain (\<lambda>i t wk. case enter_target c i t wk of
       Inl (wk', fl) \<Rightarrow> Some (wk', fl) | Inr (wk', tr) \<Rightarrow> complete_loop c chain i t wk' tr)
     (req_model (request c)) 0 chain (fresh_walk site quota (for_alias (req_model (request c))))"
  by (simp add: complete_inner_def complete_visit_def [abs_def])

lemma stream_inner_walk:
  "stream_inner c (Inr chain) site quota = walk_chain (\<lambda>i t wk. case enter_target c i t wk of
       Inl (wk', fl) \<Rightarrow> Some (wk', fl) | Inr (wk', tr) \<Rightarrow> stream_loop c chain i t wk' tr)
     (req_model (request c)) 0 chain (fresh_walk site quota (for_alias (req_model (request c))))"
  by (simp add: stream_inner_def stream_visit_def [abs_def])

subsection \<open>Bounded attempts\<close>

context attempt_loop
begin

text \<open>A walk spends at most \<open>k + 1\<close> attempts on a target besides the repairs it draws.\<close>

lemma attempts_bounded:
  assumes fresh: "\<And>wk sh. rank wk (fresh_attempt (policy c) sh) \<le> repair_budget wk + k"
    and budget: "\<And>wk tr. repair_budget wk \<le> rank wk tr"
    and spends: "\<And>i t wk tr wk' tr' fl. step i t wk tr = Some (wk', tr', fl) \<Longrightarrow>
      attempt_count (wk_meta wk') \<le> attempt_count (wk_meta wk) + 1 \<and> repair_budget wk' \<le> repair_budget wk"
    and run: "walk_chain (\<lambda>i t wk. case enter_target c i t wk of Inl (wk', fl) \<Rightarrow> Some (wk', fl)
        | Inr (wk', tr) \<Rightarrow> loop i t wk' tr) model 0 chain (fresh_walk site quota (for_alias alias)) = Some (wk', r)"
  shows "attempt_count (wk_meta wk') \<le> length chain * (k + 1) + REPAIRS_PER_REQUEST"
proof -
  define I :: "nat \<Rightarrow> 'w Walk \<Rightarrow> bool" where
    "I i wk \<longleftrightarrow> attempt_count (wk_meta wk) + repair_budget wk \<le> i * (k + 1) + REPAIRS_PER_REQUEST" for i wk
  define J :: "nat \<Rightarrow> 'w Walk \<Rightarrow> 'x Attempt \<Rightarrow> bool" where
    "J i wk tr \<longleftrightarrow> attempt_count (wk_meta wk) + rank wk tr + 1 \<le> Suc i * (k + 1) + REPAIRS_PER_REQUEST" for i wk tr
  define Q :: "'w Walk \<Rightarrow> Error + 'o \<Rightarrow> bool" where
    "Q wk r \<longleftrightarrow> attempt_count (wk_meta wk) \<le> length chain * (k + 1) + REPAIRS_PER_REQUEST" for wk r
  let ?enter = "enter_target c :: nat \<Rightarrow> DispatchTarget \<Rightarrow> 'w Walk \<Rightarrow> ('w Walk \<times> 'o flow) + ('w Walk \<times> 'x Attempt)"
  have Q: "Q wk r" if "I (Suc i) wk" "i < length chain" for i wk r
  proof -
    have "Suc i * (k + 1) \<le> length chain * (k + 1)" using that(2) by (intro mult_le_mono1) simp
    then show ?thesis using that(1) unfolding I_def Q_def by linarith
  qed
  have leaves: "leaves I Q model i wk fl" if "I (Suc i) wk" "i < length chain" for i wk fl
    using that Q [OF that] by (cases fl) auto
  have "Q wk' r"
  proof (rule walk_invariant [where I = I and J = J, OF _ _ _ _ _ _ run])
    fix i wk wk' fl
    assume i: "i < length chain" and inv: "I i wk" and e: "?enter i (chain ! i) wk = Inl (wk', fl)"
    have "I (Suc i) wk'"
      using inv enter_target_Inl(1,2) [OF e] by (simp add: I_def)
    then show "leaves I Q model i wk' fl" using i by (rule leaves)
  next
    fix i wk wk' tr
    assume inv: "I i wk" and e: "?enter i (chain ! i) wk = Inr (wk', tr)"
    obtain sh where "tr = fresh_attempt (policy c) sh" "repair_budget wk' = repair_budget wk"
        "attempt_count (wk_meta wk') = attempt_count (wk_meta wk)"
      using e by (rule enter_target_Inr)
    then show "J i wk' tr" using inv fresh [of wk' sh] by (simp add: I_def J_def)
  next
    fix i wk tr wk' tr'
    assume "J i wk tr" and s: "step i (chain ! i) wk tr = Some (wk', tr', Again)"
    then show "J i wk' tr'" using spends [OF s] again_rank [OF s] by (simp add: J_def)
  next
    fix i wk tr wk' tr' fl
    assume i: "i < length chain" and inv: "J i wk tr" and s: "step i (chain ! i) wk tr = Some (wk', tr', fl)"
    have "I (Suc i) wk'" using inv spends [OF s] budget [of wk tr] by (simp add: I_def J_def)
    then show "leaves I Q model i wk' fl" using i by (rule leaves)
  next
    show "Q wk (Inl (exhausted model wk))" if "I (length chain) wk" for wk
      using that by (simp add: I_def Q_def)
    show "I 0 (fresh_walk site quota (for_alias alias))"
      by (simp add: I_def fresh_walk_def for_alias_def per_request_def)
  qed
  then show ?thesis by (simp add: Q_def)
qed

end

lemma run_with_timeout_returns: "request_timeout_ms p \<noteq> None \<Longrightarrow> run_with_timeout name p answer \<noteq> None"
  by (auto simp: run_with_timeout_def with_deadline_def split: option.split)

lemma complete_step_returns:
  assumes "request_timeout_ms (attempt_policy c t) \<noteq> None"
  shows "complete_step c chain i t wk tr \<noteq> None"
  using run_with_timeout_returns [OF assms]
  by (auto simp: complete_step_def Let_def simp del: not_None_eq split: prod.split option.split sum.split)

lemma stream_step_returns:
  assumes "stream_first_byte_timeout_ms (attempt_policy c t) \<noteq> None"
  shows "stream_step c chain i t wk tr \<noteq> None"
proof -
  have "try_stream_with_first_content name (attempt_policy c t) opened \<noteq> None" for name opened
    using assms by (auto simp: try_stream_with_first_content_def with_deadline_def split: option.split)
  then show ?thesis
    by (auto simp: stream_step_def Let_def simp del: not_None_eq split: prod.split option.split sum.split)
qed

lemma complete_attempts:
  assumes "complete_inner c (Inr chain) site quota = Some (wk, r)"
  shows "attempt_count (wk_meta wk) \<le> length chain * (hard_retry_cap (policy c) + 2) + REPAIRS_PER_REQUEST"
proof -
  have "attempt_count (wk_meta wk) \<le> length chain * (hard_retry_cap (policy c) + 1 + 1) + REPAIRS_PER_REQUEST"
  proof (rule complete_walk.attempts_bounded [OF _ _ _ assms [unfolded complete_inner_walk]])
    show "complete_rank c wk (fresh_attempt (policy c) sh) \<le> repair_budget wk + (hard_retry_cap (policy c) + 1)" for wk sh
      using hard_retry_cap_pos [of "policy c"]
      by (simp add: complete_rank_def repairs_left_def canary_left_def fresh_attempt_def)
    show "repair_budget wk \<le> complete_rank c wk tr" for wk tr
      by (simp add: complete_rank_def repairs_left_def)
  qed (use complete_step_spends(1,2) in blast)
  then show ?thesis by simp
qed

lemma stream_attempts:
  assumes "stream_inner c (Inr chain) site quota = Some (wk, r)"
  shows "attempt_count (wk_meta wk) \<le> length chain * 2 + REPAIRS_PER_REQUEST"
proof -
  have "attempt_count (wk_meta wk) \<le> length chain * (1 + 1) + REPAIRS_PER_REQUEST"
  proof (rule stream_walk.attempts_bounded [OF _ _ _ assms [unfolded stream_inner_walk]])
    show "repairs_left wk (fresh_attempt (policy c) sh) \<le> repair_budget wk + 1" for wk sh
      by (simp add: repairs_left_def)
    show "repair_budget wk \<le> repairs_left wk tr" for wk tr
      by (simp add: repairs_left_def)
  qed (use stream_step_spends(1,2) in blast)
  then show ?thesis by simp
qed

lemma complete_returns:
  assumes "\<forall>t \<in> set chain. request_timeout_ms (attempt_policy c t) \<noteq> None"
  shows "complete_inner c (Inr chain) site quota \<noteq> None"
  unfolding complete_inner_walk
  by (rule complete_walk.walk_returns) (use assms complete_step_returns in blast)

lemma stream_returns:
  assumes "\<forall>t \<in> set chain. stream_first_byte_timeout_ms (attempt_policy c t) \<noteq> None"
  shows "stream_inner c (Inr chain) site quota \<noteq> None"
  unfolding stream_inner_walk
  by (rule stream_walk.walk_returns) (use assms stream_step_returns in blast)

subsection \<open>The error a walk returns\<close>

lemma running_ok_frame:
  "wk_log wk' = wk_log wk \<Longrightarrow> last_err wk' = last_err wk \<Longrightarrow> running_ok wk' = running_ok wk"
  by (simp add: running_ok_def cong: option.case_cong)

definition told :: "'w Walk \<Rightarrow> 'o flow \<Rightarrow> bool" where
  "told wk fl = (case fl of
     Return (Inl r) \<Rightarrow> newest_reports wk r | Return (Inr x) \<Rightarrow> True | _ \<Rightarrow> running_ok wk)"

lemma failure_told_told: "failure_told (wk, tr, fl) \<Longrightarrow> told wk fl"
  by (simp add: failure_told_def told_def split: flow.splits sum.splits)

lemma refused_told: "running_ok wk \<Longrightarrow> gate_refused c i e wk = (wk', fl) \<Longrightarrow> told wk' fl"
  using gate_refused_ok [of wk c i e wk' fl] by (auto simp: told_def)

context attempt_loop
begin

lemma walk_error_owed:
  assumes step: "\<And>i t wk tr wk' tr' fl. running_ok wk \<Longrightarrow> step i t wk tr = Some (wk', tr', fl) \<Longrightarrow> told wk' fl"
    and run: "walk_chain (\<lambda>i t wk. case enter_target c i t wk of Inl (wk', fl) \<Rightarrow> Some (wk', fl)
        | Inr (wk', tr) \<Rightarrow> loop i t wk' tr) model 0 chain (fresh_walk site quota meta) = Some (wk', r)"
  shows "r = Inl e \<Longrightarrow> owed_error model (wk_log wk') e"
proof -
  define Q :: "'w Walk \<Rightarrow> Error + 'o \<Rightarrow> bool" where
    "Q wk r \<longleftrightarrow> (\<forall>e. r = Inl e \<longrightarrow> owed_error model (wk_log wk) e)" for wk r
  let ?enter = "enter_target c :: nat \<Rightarrow> DispatchTarget \<Rightarrow> 'w Walk \<Rightarrow> ('w Walk \<times> 'o flow) + ('w Walk \<times> 'x Attempt)"
  have leaves: "leaves (\<lambda>i wk. running_ok wk) Q model i wk fl" if "told wk fl" for i wk fl
    using that by (auto simp: told_def Q_def leaves_def newest_owed exhausted_owed split: flow.splits sum.splits)
  have "Q wk' r"
  proof (rule walk_invariant [where I = "\<lambda>i wk. running_ok wk" and J = "\<lambda>i wk tr. running_ok wk", OF _ _ _ _ _ _ run])
    fix i wk wk' fl
    assume e: "?enter i (chain ! i) wk = Inl (wk', fl)"
    obtain err where "wk_log wk' = Unrouted i err # wk_log wk"
        "last_err wk' = Some err \<and> fl = (if disable_fallbacks c then Break else Advance) \<or> fl = Return (Inl err)"
      using enter_target_Inl(5) [OF e] by blast
    then have "told wk' fl" by (auto simp: told_def running_ok_def newest_reports_def genuine_def)
    then show "leaves (\<lambda>i wk. running_ok wk) Q model i wk' fl" by (rule leaves)
  next
    fix i wk wk' tr
    assume ok: "running_ok wk" and e: "?enter i (chain ! i) wk = Inr (wk', tr)"
    from e show "running_ok wk'" by (rule enter_target_Inr) (use ok running_ok_frame [of wk' wk] in simp)
  next
    fix i wk tr wk' tr'
    assume "running_ok wk" "step i (chain ! i) wk tr = Some (wk', tr', Again)"
    from step [OF this] show "running_ok wk'" by (simp add: told_def)
  next
    fix i wk tr wk' tr' fl
    assume "running_ok wk" "step i (chain ! i) wk tr = Some (wk', tr', fl)"
    from step [OF this] show "leaves (\<lambda>i wk. running_ok wk) Q model i wk' fl" by (rule leaves)
  next
    show "Q wk (Inl (exhausted model wk))" if "running_ok wk" for wk
      using exhausted_owed [OF that] by (simp add: Q_def)
    show "running_ok (fresh_walk site quota meta)" by (rule fresh_walk_ok)
  qed
  then show "r = Inl e \<Longrightarrow> owed_error model (wk_log wk') e" by (simp add: Q_def)
qed

end

lemma newest_settled:
  assumes "wk_log wk = Attempted i (Some e) # evs"
    and "e' = unwrap_or (replay_rejection_body_free e cls p) e"
  shows "newest_reports wk e'"
  using assms newest_attempted by (auto simp: replay_rejection_body_free_def unwrap_or_def split: if_splits)

lemma complete_error_told:
  assumes l: "wk_log wk = Attempted i (Some e) # evs"
    and err: "complete_error c chain i t guard e wk tr = (wk', tr', fl)"
  shows "told wk' fl"
proof -
  obtain cls native where cl: "classify_failure c t tr e = (cls, native)" by force
  from err cl show ?thesis
  proof (cases rule: complete_error_cases)
    case recovered
    then show ?thesis by (intro failure_told_told recover_told [OF l])
  next
    case canary
    show ?thesis by (rule failure_told_told [OF canary_told [OF l canary(2)]])
  next
    case (probe e')
    then show ?thesis by (intro failure_told_told probe_told [OF newest_settled [OF l probe(1)]])
  next
    case (settled e')
    have n: "newest_reports wk e'" by (rule newest_settled [OF l settled(1)])
    from settled(5) show ?thesis
    proof (cases rule: complete_settle_cases)
      case (give_up wk1 parked)
      then show ?thesis using n complete_debit_fields(2) [OF give_up(1)]
        by (simp add: told_def newest_reports_def)
    next
      case (retry wk1 parked)
      then have "newest_reports wk' e'" "last_err wk' = Some e'"
        using n complete_debit_fields(2) [OF retry(1)] by (simp_all add: newest_reports_def)
      then show ?thesis using retry by (simp add: told_def running_okI)
    next
      case (hop wk1 parked)
      then have "newest_reports wk' e'" "last_err wk' = Some e'"
        using n complete_debit_fields(2) [OF hop(1)] by (simp_all add: newest_reports_def)
      then show ?thesis using hop by (simp add: told_def running_okI)
    qed
  qed
qed

lemma stream_error_told:
  assumes l: "wk_log wk = Attempted i (Some e) # evs"
    and err: "stream_error c chain i t guard e wk tr = (wk', tr', fl)"
  shows "told wk' fl"
proof -
  obtain cls native where cl: "classify_failure c t tr e = (cls, native)" by force
  from err cl show ?thesis
  proof (cases rule: stream_error_cases)
    case recovered
    then show ?thesis by (intro failure_told_told recover_told [OF l])
  next
    case (probe e')
    then show ?thesis by (intro failure_told_told probe_told [OF newest_settled [OF l probe(1)]])
  next
    case (settled e')
    have n: "newest_reports wk e'" by (rule newest_settled [OF l settled(1)])
    from settled(4) show ?thesis
    proof (cases rule: stream_settle_cases)
      case give_up
      then show ?thesis using n by (simp add: told_def newest_reports_def)
    next
      case hop
      then have "newest_reports wk' e'" "last_err wk' = Some e'" using n by (simp_all add: newest_reports_def)
      then show ?thesis using hop by (simp add: told_def running_okI)
    qed
  qed
qed

lemma complete_step_told:
  assumes ok: "running_ok wk" and step: "complete_step c chain i t wk tr = Some (wk', tr', fl)"
  shows "told wk' fl"
  using step
proof (cases rule: complete_step_cases)
  case (refused wk1 gate_err)
  have "running_ok wk1" using ok running_ok_frame [OF check_gate_fields(2,3) [OF refused(1)]] by simp
  then show ?thesis using refused(2) by (rule refused_told)
next
  case (served wk1 wk2 tr2 site answer time resp resp' guard)
  then show ?thesis by (simp add: told_def)
next
  case (failed wk1 wk2 tr2 site answer time e guard)
  show ?thesis by (rule complete_error_told [OF _ failed(5)]) simp
qed

lemma stream_step_told:
  assumes ok: "running_ok wk" and step: "stream_step c chain i t wk tr = Some (wk', tr', fl)"
  shows "told wk' fl"
  using step
proof (cases rule: stream_step_cases)
  case (refused wk1 gate_err)
  have "running_ok wk1" using ok running_ok_frame [OF check_gate_fields(2,3) [OF refused(1)]] by simp
  then show ?thesis using refused(2) by (rule refused_told)
next
  case (served wk1 site opened time items handle guard)
  then show ?thesis by (simp add: told_def)
next
  case (failed wk1 site opened time e guard)
  show ?thesis by (rule stream_error_told [OF _ failed(4)]) simp
qed

subsection \<open>No slot stays claimed\<close>

definition walk_free :: "'w Walk \<Rightarrow> bool" where
  "walk_free wk \<longleftrightarrow> in_flight_only {} (snd (wk_site wk))"

context attempt_loop
begin

lemma walk_slots_free:
  assumes step: "\<And>i t wk tr wk' tr' fl. walk_free wk \<Longrightarrow> step i t wk tr = Some (wk', tr', fl) \<Longrightarrow> walk_free wk'"
    and start: "in_flight_only {} (snd site)"
    and run: "walk_chain (\<lambda>i t wk. case enter_target c i t wk of Inl (wk', fl) \<Rightarrow> Some (wk', fl)
        | Inr (wk', tr) \<Rightarrow> loop i t wk' tr) model 0 chain (fresh_walk site quota meta) = Some (wk', r)"
  shows "in_flight_only {} (snd (wk_site wk'))"
proof -
  let ?Q = "\<lambda>wk (r :: Error + 'o). walk_free wk" and ?I = "\<lambda>(i :: nat) wk. walk_free wk"
  let ?enter = "enter_target c :: nat \<Rightarrow> DispatchTarget \<Rightarrow> 'w Walk \<Rightarrow> ('w Walk \<times> 'o flow) + ('w Walk \<times> 'x Attempt)"
  have leaves: "leaves ?I ?Q model i wk fl" if "walk_free wk" for i wk fl
    using that by (cases fl) auto
  have "?Q wk' r"
  proof (rule walk_invariant [where I = ?I and J = "\<lambda>i wk tr. walk_free wk", OF _ _ _ _ _ _ run])
    fix i wk wk' fl
    assume "walk_free wk" and e: "?enter i (chain ! i) wk = Inl (wk', fl)"
    then have "walk_free wk'" using enter_target_Inl(3) [OF e] by (simp add: walk_free_def)
    then show "leaves ?I ?Q model i wk' fl" by (rule leaves)
  next
    fix i wk wk' tr
    assume free: "walk_free wk" and e: "?enter i (chain ! i) wk = Inr (wk', tr)"
    from e show "walk_free wk'" by (rule enter_target_Inr) (use free in \<open>simp add: walk_free_def\<close>)
  next
    fix i wk tr wk' tr' fl
    assume "walk_free wk" "step i (chain ! i) wk tr = Some (wk', tr', fl)"
    from step [OF this] show "leaves ?I ?Q model i wk' fl" by (rule leaves)
  next
    show "walk_free (fresh_walk site quota meta)" using start by (simp add: walk_free_def fresh_walk_def)
  qed (use step in blast)+
  then show ?thesis by (simp add: walk_free_def)
qed

end

lemma check_gate_slots:
  assumes "walk_free wk" and "check_gate c t wk = (wk1, refusal)"
  shows "in_flight_only {state_key t} (snd (wk_site wk1))" and "refusal \<noteq> None \<Longrightarrow> walk_free wk1"
proof -
  obtain gs r where g: "gate_check (snd (wk_site wk)) (call_now c wk) (state_key t) (dt_provider_name t) = (gs, r)"
    by force
  then have "wk1 = wk\<lparr>wk_site := (fst (wk_site wk), gs)\<rparr>" "refusal = map_option snd r"
    using assms(2) by (simp_all add: check_gate_def)
  then show "in_flight_only {state_key t} (snd (wk_site wk1))" and "refusal \<noteq> None \<Longrightarrow> walk_free wk1"
    using gate_check_claims [OF assms(1) [unfolded walk_free_def] g] by (simp_all add: walk_free_def)
qed

lemma gate_refused_slots: "walk_free wk \<Longrightarrow> gate_refused c i e wk = (wk', fl) \<Longrightarrow> walk_free wk'"
  by (auto simp: gate_refused_def Let_def walk_free_def split: if_splits)

lemma with_gates_frees:
  "in_flight_only {key} (snd (wk_site wk)) \<Longrightarrow> walk_free (with_gates (with_slot key (settle_slot v)) wk)"
  by (simp add: walk_free_def settle_frees_slot)

lemma release_frees:
  "in_flight_only {state_key t} (snd (wk_site wk)) \<Longrightarrow> walk_free (release_slot t guard wk)"
  by (simp add: walk_free_def settle_frees_slot)

lemma walk_free_last_err [simp]: "walk_free (wk\<lparr>last_err := x\<rparr>) = walk_free wk"
  by (simp add: walk_free_def)

lemma free_only: "walk_free wk \<Longrightarrow> in_flight_only keys (snd (wk_site wk))"
  by (simp add: walk_free_def in_flight_only_mono)

text \<open>The debit is one settlement of the target's slot.\<close>

lemma complete_debit_slot:
  assumes "complete_debit c t guard e cls wk = (wk', parked)"
  shows "if class_debits cls then \<exists>v. wk' = with_gates (with_slot (state_key t) (settle_slot v)) wk else wk' = wk"
  using assms
  by (auto simp: complete_debit_def settle_slot_ops gate_record_failure_def [symmetric] split: option.splits if_splits)

lemma stream_debit_slot:
  "if class_debits cls then \<exists>v. stream_debit c t guard e cls wk = with_gates (with_slot (state_key t) (settle_slot v)) wk
   else stream_debit c t guard e cls wk = wk"
  by (auto simp: stream_debit_def settle_slot_ops with_gates_def split: option.splits)

lemma complete_error_slots:
  assumes q: "quiet (ports c)" and busy: "in_flight_only {state_key t} (snd (wk_site wk))"
    and err: "complete_error c chain i t guard e wk tr = (wk', tr', fl)"
  shows "walk_free wk'"
proof -
  obtain cls native where cl: "classify_failure c t tr e = (cls, native)" by force
  have debited: "in_flight_only {state_key t} (snd (wk_site wk1)) \<and> (class_debits cls \<longrightarrow> walk_free wk1)"
    if "complete_debit c t guard e' cls wk = (wk1, parked)" for e' wk1 parked
    using complete_debit_slot [OF that] busy with_gates_frees [OF busy] free_only
    by (cases "class_debits cls") auto
  from err cl show ?thesis
  proof (cases rule: complete_error_cases)
    case recovered
    then show ?thesis using recover_slots [OF q busy recovered] by (simp add: slots_free_def walk_free_def)
  next
    case canary
    then show ?thesis using canary_slots [OF busy canary(2)] by (simp add: slots_free_def walk_free_def)
  next
    case (probe e')
    then show ?thesis using probe_slots [OF busy probe(3)] by (simp add: slots_free_def walk_free_def)
  next
    case (settled e')
    from settled(5) show ?thesis
    proof (cases rule: complete_settle_cases)
      case (give_up wk1 parked)
      then show ?thesis using debited [OF give_up(1)] by (simp add: release_frees)
    next
      case (retry wk1 parked)
      then show ?thesis using debited [OF retry(1)] by (simp add: release_frees)
    next
      case (hop wk1 parked)
      then show ?thesis using debited [OF hop(1)] by (simp add: release_frees)
    qed
  qed
qed

lemma stream_error_slots:
  assumes q: "quiet (ports c)" and busy: "in_flight_only {state_key t} (snd (wk_site wk))"
    and err: "stream_error c chain i t guard e wk tr = (wk', tr', fl)"
  shows "walk_free wk'"
proof -
  obtain cls native where cl: "classify_failure c t tr e = (cls, native)" by force
  have debited: "in_flight_only {state_key t} (snd (wk_site (stream_debit c t guard e' cls wk)))
      \<and> (class_debits cls \<longrightarrow> walk_free (stream_debit c t guard e' cls wk))" for e'
  proof (cases "class_debits cls")
    case True
    then have "walk_free (stream_debit c t guard e' cls wk)"
      using stream_debit_slot [of cls c t guard e' wk] with_gates_frees [OF busy] by auto
    then show ?thesis by (simp add: free_only)
  qed (use stream_debit_slot [of cls c t guard e' wk] busy in simp)
  from err cl show ?thesis
  proof (cases rule: stream_error_cases)
    case recovered
    then show ?thesis using recover_slots [OF q busy recovered] by (simp add: slots_free_def walk_free_def)
  next
    case (probe e')
    then show ?thesis using probe_slots [OF busy probe(3)] by (simp add: slots_free_def walk_free_def)
  next
    case (settled e')
    from settled(4) show ?thesis
    proof (cases rule: stream_settle_cases)
      case give_up
      then show ?thesis using debited [of e'] by (simp add: release_frees)
    next
      case hop
      then show ?thesis using debited [of e'] by (simp add: release_frees)
    qed
  qed
qed

lemma sleep_slots:
  assumes "quiet (ports c)" and "in_flight_only keys (snd (wk_site wk))" and "sleep_before_retry c wk tr = (wk', tr')"
  shows "in_flight_only keys (snd (wk_site wk'))"
  using assms(3) quietD(1) [OF assms(1,2)] assms(2) by (auto simp: sleep_before_retry_def Let_def split: if_splits)

lemma complete_step_slots:
  assumes q: "quiet (ports c)" and free: "walk_free wk"
    and step: "complete_step c chain i t wk tr = Some (wk', tr', fl)"
  shows "walk_free wk'"
  using step
proof (cases rule: complete_step_cases)
  case (refused wk1 gate_err)
  show ?thesis by (rule gate_refused_slots [OF check_gate_slots(2) [OF free refused(1)] refused(2)]) simp
next
  case (served wk1 wk2 tr2 site answer time resp resp' guard)
  have "in_flight_only {state_key t} (snd site)"
    by (rule quietD(2) [OF q sleep_slots [OF q check_gate_slots(1) [OF free served(1)] served(2)] served(3)])
  then show ?thesis using served(5)
    by (auto simp: complete_success_def Let_def settle_slot_ops walk_free_def intro!: settle_frees_slot)
next
  case (failed wk1 wk2 tr2 site answer time e guard)
  have "in_flight_only {state_key t} (snd site)"
    by (rule quietD(2) [OF q sleep_slots [OF q check_gate_slots(1) [OF free failed(1)] failed(2)] failed(3)])
  then show ?thesis by (intro complete_error_slots [OF q _ failed(5)]) simp
qed

lemma stream_step_slots:
  assumes q: "quiet (ports c)" and free: "walk_free wk"
    and step: "stream_step c chain i t wk tr = Some (wk', tr', fl)"
  shows "walk_free wk'"
  using step
proof (cases rule: stream_step_cases)
  case (refused wk1 gate_err)
  show ?thesis by (rule gate_refused_slots [OF check_gate_slots(2) [OF free refused(1)] refused(2)]) simp
next
  case (served wk1 site opened time items handle guard)
  have only: "in_flight_only {state_key t} (snd (wk_site wk1))" by (rule check_gate_slots(1) [OF free served(1)])
  show ?thesis
  proof (cases "is_half_open_probe (snd (wk_site wk1)) (state_key t)")
    case True
    have "in_flight_only {state_key t} (snd site)" by (rule quietD(3) [OF q only served(2)])
    then show ?thesis using served(4) True
      by (auto simp: stream_success_def Let_def settle_slot_ops walk_free_def intro!: settle_frees_slot)
  next
    case False
    then have "in_flight_only {} (snd (wk_site wk1))" using only by (auto simp: in_flight_only_def)
    then have "in_flight_only {} (snd site)" by (rule quietD(3) [OF q _ served(2)])
    then show ?thesis using served(4) False by (auto simp: stream_success_def Let_def walk_free_def)
  qed
next
  case (failed wk1 site opened time e guard)
  have "in_flight_only {state_key t} (snd site)"
    by (rule quietD(3) [OF q check_gate_slots(1) [OF free failed(1)] failed(2)])
  then show ?thesis by (intro stream_error_slots [OF q _ failed(4)]) simp
qed

subsection \<open>What an attempt's failure does to its target's slot\<close>

text \<open>The settlement a failed attempt owes, as a table over what happened: a failure that was
  recovered, a probe that met a rate limit, and a failure that says nothing about the target's health
  free the slot; a debiting failure counts, or parks the target when it carries a reset hint, which
  the non-streaming walk does only beyond its in-loop cap.\<close>

definition owed_settlement ::
  "('x, 'a, 'w) Call \<Rightarrow> duration \<Rightarrow> bool \<Rightarrow> Error \<Rightarrow> FailureClass \<Rightarrow> instant \<Rightarrow> settlement" where
  "owed_settlement c cap recovered e cls now =
     (if recovered \<or> (call_is_probe c \<and> probe_fast_fail_status e \<noteq> None) \<or> \<not> class_debits cls then Freed
      else case rate_limit_reset_hint e (policy c) of
        Some h \<Rightarrow> if \<not> call_is_probe c \<and> cap < h then Parked now h else Failed now cls
      | None \<Rightarrow> Failed now cls)"

lemma freed_after: "with_slot key (settle_slot Freed) (with_slot key (settle_slot v) gs) = with_slot key (settle_slot v) gs"
proof -
  have "settle_slot Freed (settle_slot v s) = settle_slot v s" for s
    using settle_slot_frees [of v s] by (simp add: release_probe_slot_def)
  then show ?thesis by (simp add: with_slot_def split: option.split)
qed

lemma hint_pos: "rate_limit_reset_hint e p = Some h \<Longrightarrow> 0 < h"
  by (cases "(e, p)" rule: rate_limit_reset_hint.cases) (auto simp: Let_def split: if_splits)

lemma complete_debit_owed:
  assumes "complete_debit c t guard e cls wk = (wk', parked)" and "\<not> (call_is_probe c \<and> probe_fast_fail_status e \<noteq> None)"
  shows "with_slot (state_key t) (settle_slot Freed) (snd (wk_site wk')) =
    with_slot (state_key t) (settle_slot (owed_settlement c INLOOP_RETRY_AFTER_CAP False e cls (call_now c wk))) (snd (wk_site wk))"
    and "class_debits cls \<Longrightarrow> snd (wk_site wk') =
    with_slot (state_key t) (settle_slot (owed_settlement c INLOOP_RETRY_AFTER_CAP False e cls (call_now c wk))) (snd (wk_site wk))"
  using assms
  by (auto simp: complete_debit_def owed_settlement_def settle_slot_ops gate_record_failure_def [symmetric] freed_after
      simp del: settle_slot.simps split: option.splits if_splits)

lemma stream_debit_owed:
  assumes "\<not> (call_is_probe c \<and> probe_fast_fail_status e \<noteq> None)"
  shows "with_slot (state_key t) (settle_slot Freed) (snd (wk_site (stream_debit c t guard e cls wk))) =
    with_slot (state_key t) (settle_slot (owed_settlement c 0 False e cls (call_now c wk))) (snd (wk_site wk))"
    and "class_debits cls \<Longrightarrow> snd (wk_site (stream_debit c t guard e cls wk)) =
    with_slot (state_key t) (settle_slot (owed_settlement c 0 False e cls (call_now c wk))) (snd (wk_site wk))"
  using assms
  by (auto simp: stream_debit_def owed_settlement_def settle_slot_ops freed_after dest: hint_pos
      simp del: settle_slot.simps split: option.splits if_splits)

text \<open>When the shared recovery branches take a failure, and when the canary's does.\<close>

definition recovers :: "DispatchTarget \<Rightarrow> Error \<Rightarrow> FailureClass \<times> FailureClass \<Rightarrow> 'w Walk \<Rightarrow> 'x Attempt \<Rightarrow> bool" where
  "recovers t e both wk tr \<longleftrightarrow>
     (use_forwarded_credential t \<and> forwarded_terminal_status e \<noteq> None)
   \<or> (is_upstream_401 e \<and> \<not> auth_retry_attempted tr)
   \<or> (replay_plan tr \<noteq> None \<and> \<not> replay_repair_attempted tr \<and> is_replay_rejection_class (fst both) \<and> 0 < repair_budget wk)
   \<or> (\<not> field_repair_attempted tr \<and> (case field_plan tr of None \<Rightarrow> False
        | Some plan \<Rightarrow> apply_field_repair plan (snd both) e (attempt_req tr) (repair_budget wk) \<noteq> None))"

definition canary_recovers :: "Error \<Rightarrow> FailureClass \<Rightarrow> 'x Attempt \<Rightarrow> bool" where
  "canary_recovers e native tr \<longleftrightarrow> \<not> canary_repair_attempted tr
     \<and> canary_repaired_retry (canary_plan tr) native e (attempt_req tr) \<noteq> None"

lemma recover_None: "recover c i t guard e both wk tr = None \<longleftrightarrow> \<not> recovers t e both wk tr"
  by (auto simp: recover_def option_or_None recovers_def forwarded_terminal_def auth_recovery_def
      replay_repair_def field_repair_def draw_def split: option.split)

lemma canary_None: "canary_repair t guard e native wk tr = None \<longleftrightarrow> \<not> canary_recovers e native tr"
  by (auto simp: canary_repair_def canary_recovers_def split: option.split)

text \<open>The gates a failure is settled on: those the refresh left, when one was due.\<close>

definition gates_at_settlement :: "('x, 'a, 'w) Call \<Rightarrow> DispatchTarget \<Rightarrow> Error \<Rightarrow> 'w Walk \<Rightarrow> 'x Attempt \<Rightarrow> gates" where
  "gates_at_settlement c t e wk tr =
     (if is_upstream_401 e \<and> \<not> auth_retry_attempted tr \<and> \<not> use_forwarded_credential t
      then snd (fst (p_on_auth_failure (ports c) t (wk_site wk))) else snd (wk_site wk))"

definition reported_error :: "DispatchTarget \<Rightarrow> FailureClass \<Rightarrow> Error \<Rightarrow> Error" where
  "reported_error t cls e = unwrap_or (replay_rejection_body_free e cls (dt_provider_name t)) e"

lemma recover_settles:
  assumes "recover c i t guard e both wk tr = Some (wk', tr', fl)"
  shows "snd (wk_site wk') = with_slot (state_key t) (settle_slot Freed) (gates_at_settlement c t e wk tr)"
  using assms by (cases rule: recover_cases) (auto simp: gates_at_settlement_def)

lemma recover_SomeD: "recover c i t guard e both wk tr = Some out \<Longrightarrow> recovers t e both wk tr"
  by (metis option.distinct(1) recover_None)

lemma canary_SomeD: "canary_repair t guard e native wk tr = Some out \<Longrightarrow> canary_recovers e native tr"
  by (metis option.distinct(1) canary_None)

lemma complete_failure_settles:
  "snd (wk_site (fst (complete_error c chain i t guard e wk tr))) =
     (let (cls, native) = classify_failure c t tr e
      in with_slot (state_key t) (settle_slot (owed_settlement c INLOOP_RETRY_AFTER_CAP
           (recovers t e (cls, native) wk tr \<or> canary_recovers e native tr) (reported_error t cls e) cls (call_now c wk)))
         (gates_at_settlement c t e wk tr))"
proof -
  obtain cls native where cl: "classify_failure c t tr e = (cls, native)" by force
  obtain wk' tr' fl where err: "complete_error c chain i t guard e wk tr = (wk', tr', fl)" by (rule prod_cases3)
  have same: "gates_at_settlement c t e wk tr = snd (wk_site wk)" if "\<not> recovers t e (cls, native) wk tr"
    using that by (auto simp: recovers_def gates_at_settlement_def)
  have "snd (wk_site wk') = with_slot (state_key t) (settle_slot (owed_settlement c INLOOP_RETRY_AFTER_CAP
           (recovers t e (cls, native) wk tr \<or> canary_recovers e native tr) (reported_error t cls e) cls (call_now c wk)))
         (gates_at_settlement c t e wk tr)"
    using err cl
  proof (cases rule: complete_error_cases)
    case recovered
    then show ?thesis using recover_settles [OF recovered] recover_SomeD [OF recovered] by (simp add: owed_settlement_def)
  next
    case canary
    have freed: "snd (wk_site wk') = with_slot (state_key t) (settle_slot Freed) (snd (wk_site wk))"
      using canary(2) by (rule canary_cases) simp
    have "\<not> recovers t e (cls, native) wk tr" using canary(1) recover_None by blast
    then show ?thesis using freed same canary_SomeD [OF canary(2)] by (simp add: owed_settlement_def)
  next
    case (probe e')
    then have no: "\<not> recovers t e (cls, native) wk tr" using recover_None by blast
    have "call_is_probe c \<and> probe_fast_fail_status e' \<noteq> None"
      using probe(3) by (auto simp: probe_fast_fail_def split: if_splits)
    moreover have "snd (wk_site wk') = with_slot (state_key t) (settle_slot Freed) (snd (wk_site wk))"
      using probe(3) by (rule probe_fast_fail_cases) simp_all
    ultimately show ?thesis using same [OF no] probe(1) by (simp add: owed_settlement_def reported_error_def)
  next
    case (settled e')
    then have no: "\<not> recovers t e (cls, native) wk tr" "\<not> canary_recovers e native tr"
      using recover_None canary_None by blast+
    have np: "\<not> (call_is_probe c \<and> probe_fast_fail_status e' \<noteq> None)"
      using settled(4) by (auto simp: probe_fast_fail_def Let_def split: if_splits)
    have *: "snd (wk_site wk') = with_slot (state_key t) (settle_slot
        (owed_settlement c INLOOP_RETRY_AFTER_CAP False e' cls (call_now c wk))) (snd (wk_site wk))"
      using settled(5)
    proof (cases rule: complete_settle_cases)
      case (give_up wk1 parked)
      then show ?thesis using complete_debit_owed(1) [OF give_up(1) np] by simp
    next
      case (retry wk1 parked)
      then show ?thesis using complete_debit_owed(1) [OF retry(1) np] by simp
    next
      case (hop wk1 parked)
      then show ?thesis using complete_debit_owed [OF hop(1) np] by (cases "class_debits cls") simp_all
    qed
    then show ?thesis using same [OF no(1)] no settled(1) by (simp add: reported_error_def)
  qed
  then show ?thesis by (simp add: err cl)
qed

lemma stream_failure_settles:
  "snd (wk_site (fst (stream_error c chain i t guard e wk tr))) =
     (let (cls, native) = classify_failure c t tr e
      in with_slot (state_key t) (settle_slot (owed_settlement c 0
           (recovers t e (cls, native) wk tr) (reported_error t cls e) cls (call_now c wk)))
         (gates_at_settlement c t e wk tr))"
proof -
  obtain cls native where cl: "classify_failure c t tr e = (cls, native)" by force
  obtain wk' tr' fl where err: "stream_error c chain i t guard e wk tr = (wk', tr', fl)" by (rule prod_cases3)
  have same: "gates_at_settlement c t e wk tr = snd (wk_site wk)" if "\<not> recovers t e (cls, native) wk tr"
    using that by (auto simp: recovers_def gates_at_settlement_def)
  have "snd (wk_site wk') = with_slot (state_key t) (settle_slot (owed_settlement c 0
           (recovers t e (cls, native) wk tr) (reported_error t cls e) cls (call_now c wk)))
         (gates_at_settlement c t e wk tr)"
    using err cl
  proof (cases rule: stream_error_cases)
    case recovered
    then show ?thesis using recover_settles [OF recovered] recover_SomeD [OF recovered] by (simp add: owed_settlement_def)
  next
    case (probe e')
    then have no: "\<not> recovers t e (cls, native) wk tr" using recover_None by blast
    have "call_is_probe c \<and> probe_fast_fail_status e' \<noteq> None"
      using probe(3) by (auto simp: probe_fast_fail_def split: if_splits)
    moreover have "snd (wk_site wk') = with_slot (state_key t) (settle_slot Freed) (snd (wk_site wk))"
      using probe(3) by (rule probe_fast_fail_cases) simp_all
    ultimately show ?thesis using same [OF no] probe(1) by (simp add: owed_settlement_def reported_error_def)
  next
    case (settled e')
    then have no: "\<not> recovers t e (cls, native) wk tr" using recover_None by blast
    have np: "\<not> (call_is_probe c \<and> probe_fast_fail_status e' \<noteq> None)"
      using settled(3) by (auto simp: probe_fast_fail_def Let_def split: if_splits)
    have *: "snd (wk_site wk') = with_slot (state_key t) (settle_slot
        (owed_settlement c 0 False e' cls (call_now c wk))) (snd (wk_site wk))"
      using settled(4)
    proof (cases rule: stream_settle_cases)
      case give_up
      then show ?thesis using stream_debit_owed(1) [OF np, where t = t and guard = guard and wk = wk] by simp
    next
      case hop
      then show ?thesis using stream_debit_owed [OF np, where t = t and guard = guard and wk = wk] by (cases "class_debits cls") simp_all
    qed
    then show ?thesis using same [OF no] no settled(1) by (simp add: reported_error_def)
  qed
  then show ?thesis by (simp add: err cl)
qed

subsection \<open>Where a walk may go\<close>

fun event_index :: "walk_event \<Rightarrow> nat" where
  "event_index (Attempted i outcome) = i"
| "event_index (Refused i e) = i"
| "event_index (RefreshFailed i e) = i"
| "event_index (Unrouted i e) = i"

fun is_attempt :: "walk_event \<Rightarrow> bool" where
  "is_attempt (Attempted i outcome) = True"
| "is_attempt ev = False"

text \<open>A target an attempt may go to: it has a provider, and a bearer when it forwards the client's.\<close>

definition attemptable :: "('x, 'a, 'w) Call \<Rightarrow> DispatchTarget \<Rightarrow> bool" where
  "attemptable c t \<longleftrightarrow> dt_provider t \<noteq> None \<and> (use_forwarded_credential t \<longrightarrow> forwarded_bearer (request c) \<noteq> None)"

definition event_ok :: "('x, 'a, 'w) Call \<Rightarrow> DispatchTarget list \<Rightarrow> walk_event \<Rightarrow> bool" where
  "event_ok c chain ev \<longleftrightarrow> event_index ev < length chain \<and> (disable_fallbacks c \<longrightarrow> event_index ev = 0)
     \<and> (is_attempt ev \<longrightarrow> attemptable c (chain ! event_index ev))"

definition adds_own_events :: "nat \<Rightarrow> 'w Walk \<Rightarrow> 'w Walk \<Rightarrow> bool" where
  "adds_own_events i wk wk' \<longleftrightarrow> (\<exists>evs. wk_log wk' = evs @ wk_log wk \<and> (\<forall>ev \<in> set evs. event_index ev = i))"

lemma adds_own_eventsI:
  "wk_log wk' = wk_log wk \<Longrightarrow> adds_own_events i wk wk'"
  "wk_log wk' = ev # wk_log wk \<Longrightarrow> event_index ev = i \<Longrightarrow> adds_own_events i wk wk'"
  by (auto simp: adds_own_events_def intro: exI [of _ "[]"] exI [of _ "[ev]"])

lemma adds_own_events_trans:
  assumes "adds_own_events i wk1 wk2" and "adds_own_events i wk2 wk3"
  shows "adds_own_events i wk1 wk3"
proof -
  obtain evs evs' where "wk_log wk2 = evs @ wk_log wk1" "\<forall>ev \<in> set evs. event_index ev = i"
      "wk_log wk3 = evs' @ wk_log wk2" "\<forall>ev \<in> set evs'. event_index ev = i"
    using assms by (auto simp: adds_own_events_def)
  then have "wk_log wk3 = (evs' @ evs) @ wk_log wk1 \<and> (\<forall>ev \<in> set (evs' @ evs). event_index ev = i)" by auto
  then show ?thesis unfolding adds_own_events_def by blast
qed

context attempt_loop
begin

lemma walk_events_ok:
  assumes step: "\<And>i t wk tr wk' tr' fl. step i t wk tr = Some (wk', tr', fl) \<Longrightarrow>
      adds_own_events i wk wk' \<and> (fl = Advance \<longrightarrow> \<not> disable_fallbacks c)"
    and run: "walk_chain (\<lambda>i t wk. case enter_target c i t wk of Inl (wk', fl) \<Rightarrow> Some (wk', fl)
        | Inr (wk', tr) \<Rightarrow> loop i t wk' tr) model 0 chain (fresh_walk site quota meta) = Some (wk', r)"
  shows "\<forall>ev \<in> set (wk_log wk'). event_ok c chain ev"
proof -
  define ok :: "'w Walk \<Rightarrow> bool" where "ok wk \<longleftrightarrow> (\<forall>ev \<in> set (wk_log wk). event_ok c chain ev)" for wk
  let ?I = "\<lambda>i wk. ok wk \<and> (disable_fallbacks c \<longrightarrow> i = (0::nat))"
  let ?J = "\<lambda>i wk (tr :: 'x Attempt). ?I i wk \<and> attemptable c (chain ! i)"
  let ?Q = "\<lambda>wk (r :: Error + 'o). ok wk"
  let ?enter = "enter_target c :: nat \<Rightarrow> DispatchTarget \<Rightarrow> 'w Walk \<Rightarrow> ('w Walk \<times> 'o flow) + ('w Walk \<times> 'x Attempt)"
  have own: "ok wk'" if "ok wk" "adds_own_events i wk wk'" "i < length chain" "disable_fallbacks c \<longrightarrow> i = 0"
      "attemptable c (chain ! i)" for i wk wk'
    using that by (auto simp: ok_def adds_own_events_def event_ok_def)
  have leaves: "leaves ?I ?Q model i wk fl" if "ok wk" "fl = Advance \<longrightarrow> \<not> disable_fallbacks c" "fl \<noteq> Again" for i wk fl
    using that by (cases fl) auto
  have "?Q wk' r"
  proof (rule walk_invariant [where I = ?I and J = ?J, OF _ _ _ _ _ _ run])
    fix i wk wk' fl
    assume i: "i < length chain" and inv: "?I i wk" and e: "?enter i (chain ! i) wk = Inl (wk', fl)"
    obtain err where err: "wk_log wk' = Unrouted i err # wk_log wk"
        "last_err wk' = Some err \<and> fl = (if disable_fallbacks c then Break else Advance) \<or> fl = Return (Inl err)"
      using enter_target_Inl(5) [OF e] by blast
    then have "ok wk'" using i inv by (simp add: ok_def event_ok_def)
    then show "leaves ?I ?Q model i wk' fl" using err(2) by (intro leaves) (auto split: if_splits)
  next
    fix i wk wk' tr
    assume inv: "?I i wk" and e: "?enter i (chain ! i) wk = Inr (wk', tr)"
    from e show "?J i wk' tr"
      by (rule enter_target_Inr)
        (use inv in \<open>auto simp: ok_def attemptable_def missing_forwarded_bearer_error_def split: if_splits\<close>)
  next
    fix i wk tr wk' tr'
    assume i: "i < length chain" and inv: "?J i wk tr" and s: "step i (chain ! i) wk tr = Some (wk', tr', Again)"
    have "ok wk'" using own [of wk i wk'] inv i step [OF s] by blast
    then show "?J i wk' tr'" using inv by blast
  next
    fix i wk tr wk' tr' fl
    assume i: "i < length chain" and inv: "?J i wk tr" and s: "step i (chain ! i) wk tr = Some (wk', tr', fl)"
      and "fl \<noteq> Again"
    have "ok wk'" using own [of wk i wk'] inv i step [OF s] by blast
    then show "leaves ?I ?Q model i wk' fl" using step [OF s] \<open>fl \<noteq> Again\<close> by (intro leaves) blast+
  next
    show "?I 0 (fresh_walk site quota meta)" by (simp add: ok_def fresh_walk_def)
  qed blast
  then show ?thesis by (simp add: ok_def)
qed

end

lemma gate_refused_events:
  "gate_refused c i e wk = (wk', fl) \<Longrightarrow> adds_own_events i wk wk' \<and> (fl = Advance \<longrightarrow> \<not> disable_fallbacks c)"
  by (auto simp: gate_refused_def Let_def intro: adds_own_eventsI split: if_splits)

lemma recover_events:
  assumes "recover c i t guard e both wk tr = Some (wk', tr', fl)"
  shows "adds_own_events i wk wk' \<and> fl \<noteq> Advance"
  using assms by (cases rule: recover_cases) (auto intro: adds_own_eventsI)

lemma probe_events:
  assumes "probe_fast_fail c chain i t guard e wk tr = Some (wk', tr', fl)"
  shows "adds_own_events i wk wk' \<and> (fl = Advance \<longrightarrow> \<not> disable_fallbacks c)"
  using assms by (rule probe_fast_fail_cases) (auto intro: adds_own_eventsI)

lemma complete_error_events:
  assumes err: "complete_error c chain i t guard e wk tr = (wk', tr', fl)"
  shows "adds_own_events i wk wk' \<and> (fl = Advance \<longrightarrow> \<not> disable_fallbacks c)"
proof -
  obtain cls native where cl: "classify_failure c t tr e = (cls, native)" by force
  from err cl show ?thesis
  proof (cases rule: complete_error_cases)
    case recovered
    then show ?thesis using recover_events [OF recovered] by simp
  next
    case canary
    from canary(2) show ?thesis by (rule canary_cases) (auto intro: adds_own_eventsI)
  next
    case (probe e')
    then show ?thesis using probe_events [OF probe(3)] by simp
  next
    case (settled e')
    from settled(5) show ?thesis
      by (cases rule: complete_settle_cases) (auto intro!: adds_own_eventsI(1) dest: complete_debit_fields(2))
  qed
qed

lemma stream_error_events:
  assumes err: "stream_error c chain i t guard e wk tr = (wk', tr', fl)"
  shows "adds_own_events i wk wk' \<and> (fl = Advance \<longrightarrow> \<not> disable_fallbacks c)"
proof -
  obtain cls native where cl: "classify_failure c t tr e = (cls, native)" by force
  from err cl show ?thesis
  proof (cases rule: stream_error_cases)
    case recovered
    then show ?thesis using recover_events [OF recovered] by simp
  next
    case (probe e')
    then show ?thesis using probe_events [OF probe(3)] by simp
  next
    case (settled e')
    from settled(4) show ?thesis by (cases rule: stream_settle_cases) (auto intro!: adds_own_eventsI(1))
  qed
qed

lemma counted_events:
  assumes "wk_log wk2 = wk_log wk" and "adds_own_events i (fst (count_attempt i out wk2 tr)) wk'"
  shows "adds_own_events i wk wk'"
proof (rule adds_own_events_trans [OF _ assms(2)])
  show "adds_own_events i wk (fst (count_attempt i out wk2 tr))"
    by (rule adds_own_eventsI(2) [where ev = "Attempted i out"]) (simp_all add: assms(1))
qed

lemma complete_step_events:
  assumes "complete_step c chain i t wk tr = Some (wk', tr', fl)"
  shows "adds_own_events i wk wk' \<and> (fl = Advance \<longrightarrow> \<not> disable_fallbacks c)"
  using assms
proof (cases rule: complete_step_cases)
  case (refused wk1 gate_err)
  have "adds_own_events i wk wk1" using check_gate_fields(2) [OF refused(1)] by (rule adds_own_eventsI)
  then show ?thesis using gate_refused_events [OF refused(2)] adds_own_events_trans by blast
next
  case (served wk1 wk2 tr2 site answer time resp resp' guard)
  have l: "wk_log (wk2\<lparr>wk_site := site\<rparr>) = wk_log wk"
    using check_gate_fields(2) [OF served(1)] sleep_fields(2) [OF served(2)] by simp
  have "wk_log wk' = Attempted i None # wk_log wk" using served(5) l by (auto simp: complete_success_def Let_def)
  then show ?thesis using served(7) by (auto intro: adds_own_eventsI(2))
next
  case (failed wk1 wk2 tr2 site answer time e guard)
  have l: "wk_log (wk2\<lparr>wk_site := site\<rparr>) = wk_log wk"
    using check_gate_fields(2) [OF failed(1)] sleep_fields(2) [OF failed(2)] by simp
  then show ?thesis using complete_error_events [OF failed(5)] counted_events [OF l] by blast
qed

lemma stream_step_events:
  assumes "stream_step c chain i t wk tr = Some (wk', tr', fl)"
  shows "adds_own_events i wk wk' \<and> (fl = Advance \<longrightarrow> \<not> disable_fallbacks c)"
  using assms
proof (cases rule: stream_step_cases)
  case (refused wk1 gate_err)
  have "adds_own_events i wk wk1" using check_gate_fields(2) [OF refused(1)] by (rule adds_own_eventsI)
  then show ?thesis using gate_refused_events [OF refused(2)] adds_own_events_trans by blast
next
  case (served wk1 site opened time items handle guard)
  have "wk_log wk' = Attempted i None # wk_log wk"
    using served(4) check_gate_fields(2) [OF served(1)] by (auto simp: stream_success_def Let_def)
  then show ?thesis using served(6) by (auto intro: adds_own_eventsI(2))
next
  case (failed wk1 site opened time e guard)
  have l: "wk_log (wk1\<lparr>wk_site := site\<rparr>) = wk_log wk" using check_gate_fields(2) [OF failed(1)] by simp
  then show ?thesis using stream_error_events [OF failed(4)] counted_events [OF l] by blast
qed

subsection \<open>What a success reports\<close>

definition marked :: "('x, 'a, 'w) Call \<Rightarrow> nat \<Rightarrow> DispatchTarget \<Rightarrow> DispatchMeta \<Rightarrow> bool" where
  "marked c i t meta \<longleftrightarrow> fallback_count meta = i
     \<and> served_provider meta = Some (dt_provider_name t) \<and> served_provider_kind meta = dt_provider_kind t
     \<and> served_model meta = dt_nickname t
     \<and> served_upstream meta = Some (if use_forwarded_credential t then req_model (request c) else dt_upstream t)
     \<and> served_forwarded_credential meta = use_forwarded_credential t
     \<and> served_seat meta = (if use_forwarded_credential t then None else seat t)"

lemma marked_count [simp]: "marked c i t (meta\<lparr>attempt_count := n\<rparr>) = marked c i t meta"
  by (simp add: marked_def)

lemma marked_fresh: "marked c i t ((mark_target t (req_model (request c)) meta)\<lparr>fallback_count := i\<rparr>)"
  by (simp add: marked_def mark_target_def)

context attempt_loop
begin

lemma walk_serves:
  assumes again: "\<And>i t wk tr wk' tr'. step i t wk tr = Some (wk', tr', Again) \<Longrightarrow>
      wk_quota wk' = wk_quota wk \<and> (marked c i t (wk_meta wk) \<longrightarrow> marked c i t (wk_meta wk'))"
    and hop: "\<And>i t wk tr wk' tr' fl. step i t wk tr = Some (wk', tr', fl) \<Longrightarrow> (\<forall>x. fl \<noteq> Return (Inr x)) \<Longrightarrow>
      wk_quota wk' = wk_quota wk"
    and serve: "\<And>i t wk tr wk' tr' x. step i t wk tr = Some (wk', tr', Return (Inr x)) \<Longrightarrow>
      marked c i t (wk_meta wk) \<Longrightarrow> S i t (wk_quota wk) wk' x"
    and run: "walk_chain (\<lambda>i t wk. case enter_target c i t wk of Inl (wk', fl) \<Rightarrow> Some (wk', fl)
        | Inr (wk', tr) \<Rightarrow> loop i t wk' tr) model 0 chain (fresh_walk site quota meta) = Some (wk', r)"
  shows "case r of Inl e \<Rightarrow> wk_quota wk' = quota | Inr x \<Rightarrow> \<exists>i < length chain. S i (chain ! i) quota wk' x"
proof -
  define Q :: "'w Walk \<Rightarrow> Error + 'o \<Rightarrow> bool" where
    "Q wk r \<longleftrightarrow> (case r of Inl e \<Rightarrow> wk_quota wk = quota | Inr x \<Rightarrow> \<exists>i < length chain. S i (chain ! i) quota wk x)" for wk r
  let ?I = "\<lambda>(i :: nat) wk. wk_quota wk = quota"
  let ?J = "\<lambda>i wk (tr :: 'x Attempt). wk_quota wk = quota \<and> marked c i (chain ! i) (wk_meta wk)"
  let ?enter = "enter_target c :: nat \<Rightarrow> DispatchTarget \<Rightarrow> 'w Walk \<Rightarrow> ('w Walk \<times> 'o flow) + ('w Walk \<times> 'x Attempt)"
  have leaves: "leaves ?I Q model i wk fl" if "wk_quota wk = quota" "\<forall>x. fl \<noteq> Return (Inr x)" for i wk fl
    using that by (auto simp: leaves_def Q_def split: flow.splits sum.splits)
  have "Q wk' r"
  proof (rule walk_invariant [where I = ?I and J = ?J, OF _ _ _ _ _ _ run])
    fix i wk wk' fl
    assume inv: "wk_quota wk = quota" and e: "?enter i (chain ! i) wk = Inl (wk', fl)"
    show "leaves ?I Q model i wk' fl"
      using enter_target_Inl(5) [OF e] enter_target_Inl(4) [OF e] inv by (intro leaves) (auto split: if_splits)
  next
    fix i wk wk' tr
    assume inv: "wk_quota wk = quota" and e: "?enter i (chain ! i) wk = Inr (wk', tr)"
    from e show "?J i wk' tr" by (rule enter_target_Inr) (use inv marked_fresh in simp)
  next
    fix i wk tr wk' tr'
    assume "?J i wk tr" "step i (chain ! i) wk tr = Some (wk', tr', Again)"
    then show "?J i wk' tr'" using again [of i "chain ! i" wk tr wk' tr'] by simp
  next
    fix i wk tr wk' tr' fl
    assume i: "i < length chain" and inv: "?J i wk tr" and s: "step i (chain ! i) wk tr = Some (wk', tr', fl)"
    show "leaves ?I Q model i wk' fl"
    proof (cases "\<exists>x. fl = Return (Inr x)")
      case True
      then obtain x where x: "fl = Return (Inr x)" by blast
      then have "S i (chain ! i) quota wk' x" using serve [of i "chain ! i" wk tr wk' tr' x] s inv by simp
      then show ?thesis using i x by (auto simp: Q_def)
    next
      case False
      then show ?thesis using hop [OF s] inv by (intro leaves) auto
    qed
  qed (simp_all add: Q_def fresh_walk_def)
  then show ?thesis by (simp add: Q_def)
qed

end

lemma recover_quota:
  assumes "recover c i t guard e both wk tr = Some (wk', tr', fl)"
  shows "wk_quota wk' = wk_quota wk" and "\<forall>x. fl \<noteq> Return (Inr x)"
  using assms by (cases rule: recover_cases; simp)+

lemma probe_quota:
  assumes "probe_fast_fail c chain i t guard e wk tr = Some (wk', tr', fl)"
  shows "wk_quota wk' = wk_quota wk" and "\<forall>x. fl \<noteq> Return (Inr x)"
  using assms by (auto elim!: probe_fast_fail_cases)

lemma complete_debit_quota: "complete_debit c t guard e cls wk = (wk', parked) \<Longrightarrow> wk_quota wk' = wk_quota wk"
  by (auto simp: complete_debit_def split: option.splits if_splits)

lemma complete_error_quota:
  assumes err: "complete_error c chain i t guard e wk tr = (wk', tr', fl)"
  shows "wk_quota wk' = wk_quota wk \<and> (\<forall>x. fl \<noteq> Return (Inr x))"
proof -
  obtain cls native where cl: "classify_failure c t tr e = (cls, native)" by force
  from err cl show ?thesis
  proof (cases rule: complete_error_cases)
    case recovered
    then show ?thesis using recover_quota [OF recovered] by simp
  next
    case canary
    from canary(2) show ?thesis by (rule canary_cases) auto
  next
    case (probe e')
    then show ?thesis using probe_quota [OF probe(3)] by simp
  next
    case (settled e')
    from settled(5) show ?thesis
      by (cases rule: complete_settle_cases) (auto dest: complete_debit_quota)
  qed
qed

lemma stream_error_quota:
  assumes err: "stream_error c chain i t guard e wk tr = (wk', tr', fl)"
  shows "wk_quota wk' = wk_quota wk \<and> (\<forall>x. fl \<noteq> Return (Inr x))"
proof -
  have debit: "wk_quota (stream_debit c t guard e' cls wk) = wk_quota wk" for e' cls
    by (simp add: stream_debit_def)
  obtain cls native where cl: "classify_failure c t tr e = (cls, native)" by force
  from err cl show ?thesis
  proof (cases rule: stream_error_cases)
    case recovered
    then show ?thesis using recover_quota [OF recovered] by simp
  next
    case (probe e')
    then show ?thesis using probe_quota [OF probe(3)] by simp
  next
    case (settled e')
    from settled(4) show ?thesis by (cases rule: stream_settle_cases) (auto simp: debit)
  qed
qed

lemma complete_step_quota:
  assumes "complete_step c chain i t wk tr = Some (wk', tr', fl)" and "\<forall>x. fl \<noteq> Return (Inr x)"
  shows "wk_quota wk' = wk_quota wk"
  using assms(1)
proof (cases rule: complete_step_cases)
  case (refused wk1 gate_err)
  then show ?thesis using check_gate_fields(6) [OF refused(1)] by (auto simp: gate_refused_def Let_def split: if_splits)
next
  case (served wk1 wk2 tr2 site answer time resp resp' guard)
  then show ?thesis using assms(2) by simp
next
  case (failed wk1 wk2 tr2 site answer time e guard)
  then show ?thesis
    using complete_error_quota [OF failed(5)] check_gate_fields(6) [OF failed(1)] sleep_fields(6) [OF failed(2)] by simp
qed

lemma complete_step_marked:
  assumes "complete_step c chain i t wk tr = Some (wk', tr', Again)" and "marked c i t (wk_meta wk)"
  shows "marked c i t (wk_meta wk')"
  using assms(1)
proof (cases rule: complete_step_cases)
  case (refused wk1 gate_err)
  then show ?thesis by (auto simp: gate_refused_def Let_def split: if_splits)
next
  case (failed wk1 wk2 tr2 site answer time e guard)
  have "wk_meta wk' = wk_meta (fst (count_attempt i (Some e) (wk2\<lparr>wk_site := site\<rparr>) tr2))"
    by (rule complete_error_spends(4) [OF failed(5)]) simp
  then show ?thesis
    using assms(2) check_gate_fields(1) [OF failed(1)] sleep_fields(1) [OF failed(2)] by (simp add: count_attempt_def)
qed simp

text \<open>What the caller of a served request sees, and what the quota store learnt.\<close>

definition served_response ::
  "('x, 'a, 'w) Call \<Rightarrow> nat \<Rightarrow> DispatchTarget \<Rightarrow> QuotaStore \<Rightarrow> 'w Walk \<Rightarrow> 'a ChatResponse \<Rightarrow> bool" where
  "served_response c i t quota wk resp \<longleftrightarrow> marked c i t (wk_meta wk)
     \<and> (\<exists>evs. wk_log wk = Attempted i None # evs)
     \<and> routectl_provider resp = (if dt_visible_routectl_provider t then Some (dt_provider_name t) else None)
     \<and> resp_model resp = resolve_reported_model t (req_model (request c))
     \<and> (\<exists>stamp secs. wk_quota wk = feed_response stamp secs
          (if use_forwarded_credential t then None else map_option SeatKey (seat t)) (resp_meta resp) quota)"

lemma served_identity_key: "seat_key_for_served_identity = SeatKey"
  by (simp add: fun_eq_iff seat_key_for_served_identity_def)

lemma complete_step_serves:
  assumes "complete_step c chain i t wk tr = Some (wk', tr', Return (Inr x))" and "marked c i t (wk_meta wk)"
  shows "served_response c i t (wk_quota wk) wk' x"
  using assms(1)
proof (cases rule: complete_step_cases)
  case (refused wk1 gate_err)
  then show ?thesis by (auto simp: gate_refused_def Let_def split: if_splits)
next
  case (served wk1 wk2 tr2 site answer time resp resp' guard)
  let ?w = "fst (count_attempt i None (wk2\<lparr>wk_site := site\<rparr>) tr2)"
  have m: "marked c i t (wk_meta ?w)" "wk_quota ?w = wk_quota wk"
    using assms(2) check_gate_fields(1,6) [OF served(1)] sleep_fields(1,6) [OF served(2)]
    by (simp_all add: count_attempt_def)
  have seat: "map_option seat_key_for_served_identity (served_seat (wk_meta ?w)) =
      (if use_forwarded_credential t then None else map_option SeatKey (seat t))"
    using m(1) by (auto simp: marked_def served_identity_key)
  have "wk_meta wk' = wk_meta ?w" "wk_log wk' = Attempted i None # wk_log wk2"
      "routectl_provider x = (if dt_visible_routectl_provider t then Some (dt_provider_name t) else None)"
      "resp_model x = resolve_reported_model t (req_model (request c))"
      "wk_quota wk' = feed_response (p_stamp (ports c) (fst site)) (p_secs (ports c) (fst site))
        (map_option seat_key_for_served_identity (served_seat (wk_meta ?w))) (resp_meta x) (wk_quota ?w)"
    using served(5,7) by (auto simp: complete_success_def Let_def)
  then show ?thesis using m unfolding served_response_def seat by auto
next
  case (failed wk1 wk2 tr2 site answer time e guard)
  then show ?thesis using complete_error_quota [OF failed(5)] by simp
qed

definition served_stream ::
  "('x, 'a, 'w) Call \<Rightarrow> nat \<Rightarrow> DispatchTarget \<Rightarrow> QuotaStore \<Rightarrow> 'w Walk \<Rightarrow> StreamHandle \<Rightarrow> bool" where
  "served_stream c i t quota wk handle \<longleftrightarrow> marked c i t (wk_meta wk)
     \<and> (\<exists>evs. wk_log wk = Attempted i None # evs)
     \<and> sh_kind handle = dt_provider_kind t
     \<and> sh_seat handle = (if use_forwarded_credential t then None else map_option SeatKey (seat t))
     \<and> (\<forall>chunk. Chunk chunk \<in> set (sh_items handle) \<longrightarrow> chunk_model chunk = resolve_reported_model t (req_model (request c)))
     \<and> wk_quota wk = quota"

lemma stream_step_quota:
  assumes "stream_step c chain i t wk tr = Some (wk', tr', fl)"
  shows "wk_quota wk' = wk_quota wk"
  using assms
proof (cases rule: stream_step_cases)
  case (refused wk1 gate_err)
  then show ?thesis using check_gate_fields(6) [OF refused(1)] by (auto simp: gate_refused_def Let_def split: if_splits)
next
  case (served wk1 site opened time items handle guard)
  then show ?thesis using check_gate_fields(6) [OF served(1)] by (auto simp: stream_success_def Let_def)
next
  case (failed wk1 site opened time e guard)
  then show ?thesis using stream_error_quota [OF failed(4)] check_gate_fields(6) [OF failed(1)] by simp
qed

lemma stream_step_marked:
  assumes "stream_step c chain i t wk tr = Some (wk', tr', Again)" and "marked c i t (wk_meta wk)"
  shows "marked c i t (wk_meta wk')"
  using assms(1)
proof (cases rule: stream_step_cases)
  case (refused wk1 gate_err)
  then show ?thesis by (auto simp: gate_refused_def Let_def split: if_splits)
next
  case (failed wk1 site opened time e guard)
  then show ?thesis using stream_error_spends(1) [OF failed(4)] assms(2) check_gate_fields(1) [OF failed(1)]
    by (simp add: count_attempt_def)
qed simp

lemma relabel_chunk: "Chunk chunk \<in> set (map (relabel label) items) \<Longrightarrow> chunk_model chunk = label"
proof -
  assume "Chunk chunk \<in> set (map (relabel label) items)"
  then obtain i where "Chunk chunk = relabel label i" by auto
  then show ?thesis by (cases i) simp_all
qed

lemma stream_step_serves:
  assumes "stream_step c chain i t wk tr = Some (wk', tr', Return (Inr x))" and "marked c i t (wk_meta wk)"
  shows "served_stream c i t (wk_quota wk) wk' x"
  using assms(1)
proof (cases rule: stream_step_cases)
  case (refused wk1 gate_err)
  then show ?thesis by (auto simp: gate_refused_def Let_def split: if_splits)
next
  case (served wk1 site opened time items handle guard)
  let ?w = "fst (count_attempt i None (wk1\<lparr>wk_site := site\<rparr>) tr)"
  have m: "marked c i t (wk_meta ?w)" using assms(2) check_gate_fields(1) [OF served(1)] by (simp add: count_attempt_def)
  have seat: "map_option seat_key_for_served_identity (served_seat (wk_meta ?w)) =
      (if use_forwarded_credential t then None else map_option SeatKey (seat t))"
    using m by (auto simp: marked_def served_identity_key)
  have "wk_meta wk' = wk_meta ?w" "wk_log wk' = Attempted i None # wk_log wk1" "sh_kind x = dt_provider_kind t"
      "sh_seat x = map_option seat_key_for_served_identity (served_seat (wk_meta ?w))"
      "sh_items x = map (relabel (resolve_reported_model t (req_model (request c)))) items"
    using served(4,6) by (auto simp: stream_success_def Let_def)
  then show ?thesis using m stream_step_quota [OF assms(1)] relabel_chunk
    unfolding served_stream_def seat by auto
next
  case (failed wk1 site opened time e guard)
  then show ?thesis using stream_error_quota [OF failed(4)] by simp
qed

subsection \<open>A small call for the witnesses\<close>

definition sample_target :: DispatchTarget where
  "sample_target = into_one_dispatch_target (resolved_model_new ''m'' ''p'' 0 ''up'')"

definition sample_ports :: "(unit, unit, unit) Ports" where
  "sample_ports = \<lparr>p_stamp = (\<lambda>_. stamp_at 0), p_secs = (\<lambda>_. 0), p_subsec = (\<lambda>_. 0), p_json = (\<lambda>_. None),
     p_shape = (\<lambda>t req w. (w, Proceed, \<lparr>shaped_request = req, shaped_replay = None, shaped_field = None, shaped_canary = None\<rparr>)),
     p_sleep = (\<lambda>d s. s),
     p_complete = (\<lambda>t d req s. (s, Some (0, Inl (upstream ''p'' 500 ''busy'')))),
     p_stream = (\<lambda>t d req s. (s, None)),
     p_on_auth_failure = (\<lambda>t s. (s, None))\<rparr>"

definition sample_call :: "bool \<Rightarrow> (unit, unit, unit) Call" where
  "sample_call no_fallback = \<lparr>ports = sample_ports, policy = default_retry_policy\<lparr>request_timeout_ms := Some 1000\<rparr>,
     call_providers = (\<lambda>_. None),
     request = \<lparr>req_model = ''alias'', req_max_tokens = None, forwarded_bearer = None, req_rest = ()\<rparr>,
     disable_fallbacks = no_fallback\<rparr>"

lemma sample_timeouts:
  "request_timeout_ms (attempt_policy (sample_call b) t) = Some 1000"
  "stream_first_byte_timeout_ms (attempt_policy (sample_call b) t) \<noteq> None"
  by (cases "dt_stream_first_byte_timeout_ms t";
      simp add: attempt_policy_def sample_call_def compose_attempt_policy_def default_retry_policy_def Let_def)+

lemma sample_quiet: "quiet (ports (sample_call b))"
  by (simp add: quiet_def sample_call_def sample_ports_def)

lemma check_gate_no_slot:
  "snd (wk_site wk) k = None \<Longrightarrow> k = state_key t \<Longrightarrow> check_gate c t wk = (wk, None)"
  by (simp add: check_gate_def gate_check_slot admit_dispatch_no_slot)

text \<open>What evaluates a run: of the loops, of a failing attempt, of the sample data.\<close>

lemmas run_loops = complete_inner_def fresh_walk_def complete_visit_def enter_target_def fresh_attempt_def
  missing_forwarded_bearer_error_def complete_loop.simps complete_step_def check_gate_no_slot sleep_before_retry_def
  run_with_timeout_def with_deadline_def attempt_policy_def compose_attempt_policy_def count_attempt_def
  resolve_reported_model_def Let_def

lemmas run_failures = complete_error_def classify_failure_def recover_def option_or_def forwarded_terminal_def
  auth_recovery_def replay_repair_def field_repair_def canary_repair_def canary_repaired_retry_def probe_fast_fail_def
  upstream_def classify_def classify_upstream_attempt_def apply_remap_def by_status_def complete_settle_def
  complete_debit_def can_retry_here_def should_retry_same_provider_def retry_cap_for_def resolved_class_def
  hard_retry_cap_def unwrap_or_def List.map_filter_def bt_get_def call_is_probe_def is_probe_request_def
  should_fallback_def replay_rejection_body_free_def honour_reset_def exhausted_def record_failure_opened_def with_slot_def

lemmas run_samples = sample_target_def into_one_dispatch_target_def resolved_model_new_def sample_call_def
  sample_ports_def default_retry_policy_def

lemma sample_run:
  "map_option (\<lambda>(wk, r). (attempt_count (wk_meta wk), r))
     (complete_inner (sample_call no_fallback) (Inr [sample_target]) ((), Map.empty) empty_store)
   = Some (if no_fallback then 1 else 2, Inl (upstream ''p'' 500 ''busy''))"
  by (cases no_fallback) (simp_all add: run_samples run_loops run_failures for_alias_def mark_target_def)

definition answering_call :: "(unit, unit, unit) Call" where
  "answering_call = (sample_call False)\<lparr>ports := sample_ports\<lparr>p_complete := (\<lambda>t d req s.
     (s, Some (0, Inr \<lparr>routectl_provider = Some ''id'', resp_model = ''raw'', resp_meta = None, resp_rest = ()\<rparr>)))\<rparr>\<rparr>"

lemma answering_run:
  "map_option snd (complete_inner answering_call (Inr [sample_target]) ((), Map.empty) empty_store) =
     Some (Inr \<lparr>routectl_provider = Some ''p'', resp_model = ''alias'', resp_meta = None, resp_rest = ()\<rparr>)"
  by (simp add: answering_call_def run_samples run_loops complete_success_def)

lemma fresh_gates_free: "in_flight_only keys Map.empty"
  by (simp add: in_flight_only_def is_half_open_probe_def)

subsection \<open>Properties\<close>

text \<open>C4. With a deadline on every attempt, both walks return whatever the upstreams do, and whatever
  happens they spend few attempts: the non-streaming walk at most the hard retry cap and two on a
  target, the streaming walk at most two, and two repairs besides for the whole request.\<close>

theorem walks_return_bounded:
  assumes "\<forall>t \<in> set chain. request_timeout_ms (attempt_policy c t) \<noteq> None
      \<and> stream_first_byte_timeout_ms (attempt_policy c t) \<noteq> None"
  shows "(\<exists>wk r. complete_inner c (Inr chain) site quota = Some (wk, r)
        \<and> attempt_count (wk_meta wk) \<le> length chain * (hard_retry_cap (policy c) + 2) + REPAIRS_PER_REQUEST)
    \<and> (\<exists>wk r. stream_inner c (Inr chain) site quota = Some (wk, r)
        \<and> attempt_count (wk_meta wk) \<le> length chain * 2 + REPAIRS_PER_REQUEST)"
  using complete_returns [of chain c site quota] stream_returns [of chain c site quota]
    complete_attempts [of c chain site quota] stream_attempts [of c chain site quota] assms
  by (metis (no_types, lifting) not_None_eq surj_pair)

theorem walks_return_bounded_witness:
  "\<exists>wk r. complete_inner (sample_call False) (Inr [sample_target]) ((), Map.empty) empty_store = Some (wk, r)
      \<and> attempt_count (wk_meta wk) \<le> 6"
proof -
  have "hard_retry_cap (policy (sample_call False)) = 2"
    by (simp add: sample_call_def default_retry_policy_def hard_retry_cap_def unwrap_or_def List.map_filter_def)
  then show ?thesis
    using walks_return_bounded [of "[sample_target]" "sample_call False" "((), Map.empty)" empty_store, THEN conjunct1]
    by (simp add: sample_timeouts REPAIRS_PER_REQUEST_def)
qed

text \<open>C2. The error of a walk is the one the request met: the last genuine failure, that is of an
  attempt, a refresh or a target that could not be dispatched (a replay rejection without its body),
  and a gate's synthetic error only when nothing else happened, and then the first one.\<close>

theorem walk_error_determined:
  "(complete_inner c (Inr chain) site quota = Some (wk, Inl e) \<longrightarrow> owed_error (req_model (request c)) (wk_log wk) e)
    \<and> (stream_inner c (Inr chain) site quota = Some (wk, Inl e) \<longrightarrow> owed_error (req_model (request c)) (wk_log wk) e)"
proof (intro conjI impI)
  assume run: "complete_inner c (Inr chain) site quota = Some (wk, Inl e)"
  show "owed_error (req_model (request c)) (wk_log wk) e"
    by (rule complete_walk.walk_error_owed [OF _ run [unfolded complete_inner_walk] refl]) (rule complete_step_told)
next
  assume run: "stream_inner c (Inr chain) site quota = Some (wk, Inl e)"
  show "owed_error (req_model (request c)) (wk_log wk) e"
    by (rule stream_walk.walk_error_owed [OF _ run [unfolded stream_inner_walk] refl]) (rule stream_step_told)
qed

theorem walk_error_determined_witness:
  "\<exists>wk. complete_inner (sample_call False) (Inr [sample_target]) ((), Map.empty) empty_store =
      Some (wk, Inl (upstream ''p'' 500 ''busy''))
    \<and> owed_error ''alias'' (wk_log wk) (upstream ''p'' 500 ''busy'')"
proof -
  obtain wk where "complete_inner (sample_call False) (Inr [sample_target]) ((), Map.empty) empty_store =
      Some (wk, Inl (upstream ''p'' 500 ''busy''))"
    using sample_run [of False] by auto
  then show ?thesis
    using walk_error_determined [of "sample_call False" "[sample_target]" "((), Map.empty)" empty_store wk
        "upstream ''p'' 500 ''busy''"]
    by (simp add: sample_call_def)
qed

text \<open>C1. When nothing else claims slots meanwhile, a walk that starts with every half-open slot free
  leaves every one free, whichever way it ends.\<close>

theorem walks_leave_no_slot:
  assumes "quiet (ports c)" and "in_flight_only {} (snd site)"
  shows "(complete_inner c (Inr chain) site quota = Some (wk, r) \<longrightarrow> in_flight_only {} (snd (wk_site wk)))
    \<and> (stream_inner c (Inr chain) site quota = Some (wk', r') \<longrightarrow> in_flight_only {} (snd (wk_site wk')))"
proof (intro conjI impI)
  assume run: "complete_inner c (Inr chain) site quota = Some (wk, r)"
  show "in_flight_only {} (snd (wk_site wk))"
    by (rule complete_walk.walk_slots_free [OF _ assms(2) run [unfolded complete_inner_walk]])
      (rule complete_step_slots [OF assms(1)])
next
  assume run: "stream_inner c (Inr chain) site quota = Some (wk', r')"
  show "in_flight_only {} (snd (wk_site wk'))"
    by (rule stream_walk.walk_slots_free [OF _ assms(2) run [unfolded stream_inner_walk]])
      (rule stream_step_slots [OF assms(1)])
qed

theorem walks_leave_no_slot_witness:
  "\<exists>wk r. complete_inner (sample_call False) (Inr [sample_target]) ((), [''m'' \<mapsto> probe_ready_state]) empty_store = Some (wk, r)
    \<and> in_flight_only {} (snd (wk_site wk))"
proof -
  let ?site = "((), [''m'' \<mapsto> probe_ready_state])"
  have free: "in_flight_only {} (snd ?site)"
    by (simp add: in_flight_only_def is_half_open_probe_def half_open_probe_in_flight_def probe_ready_state_def)
  obtain wk r where run: "complete_inner (sample_call False) (Inr [sample_target]) ?site empty_store = Some (wk, r)"
    using complete_returns [of "[sample_target]" "sample_call False" ?site empty_store] sample_timeouts(1) by auto
  then show ?thesis
    using walks_leave_no_slot [OF sample_quiet free, of False "[sample_target]" empty_store wk r] by blast
qed

text \<open>C3. A failed attempt settles its target's slot exactly once, as the table of owed settlements
  says, and touches no other slot: recovered failures, fast-failed probes and failures that say nothing
  of the target's health free it; the others count, or park the target under a reset hint.\<close>

theorem failed_attempts_settle_once:
  "snd (wk_site (fst (complete_error c chain i t guard e wk tr))) =
     (let (cls, native) = classify_failure c t tr e
      in with_slot (state_key t) (settle_slot (owed_settlement c INLOOP_RETRY_AFTER_CAP
           (recovers t e (cls, native) wk tr \<or> canary_recovers e native tr) (reported_error t cls e) cls (call_now c wk)))
         (gates_at_settlement c t e wk tr))
   \<and> snd (wk_site (fst (stream_error c chain i t guard e wk tr))) =
     (let (cls, native) = classify_failure c t tr e
      in with_slot (state_key t) (settle_slot (owed_settlement c 0
           (recovers t e (cls, native) wk tr) (reported_error t cls e) cls (call_now c wk)))
         (gates_at_settlement c t e wk tr))"
  by (intro conjI complete_failure_settles stream_failure_settles)

text \<open>A walk only ever attempts targets of the chain that have a provider and, when they forward
  the client's credential, a captured bearer; and with fallbacks disabled it never leaves the first.\<close>

lemma walk_events_in_bounds:
  "(complete_inner c (Inr chain) site quota = Some (wk, r) \<longrightarrow> (\<forall>ev \<in> set (wk_log wk). event_ok c chain ev))
    \<and> (stream_inner c (Inr chain) site quota = Some (wk', r') \<longrightarrow> (\<forall>ev \<in> set (wk_log wk'). event_ok c chain ev))"
proof (intro conjI impI)
  assume run: "complete_inner c (Inr chain) site quota = Some (wk, r)"
  show "\<forall>ev \<in> set (wk_log wk). event_ok c chain ev"
    by (rule complete_walk.walk_events_ok [OF _ run [unfolded complete_inner_walk]]) (rule complete_step_events)
next
  assume run: "stream_inner c (Inr chain) site quota = Some (wk', r')"
  show "\<forall>ev \<in> set (wk_log wk'). event_ok c chain ev"
    by (rule stream_walk.walk_events_ok [OF _ run [unfolded stream_inner_walk]]) (rule stream_step_events)
qed

lemma walk_events_in_bounds_witness:
  "\<exists>wk r. complete_inner (sample_call True) (Inr [sample_target, sample_target]) ((), Map.empty) empty_store = Some (wk, r)
    \<and> (\<forall>ev \<in> set (wk_log wk). event_index ev = 0)"
proof -
  obtain wk r where run: "complete_inner (sample_call True) (Inr [sample_target, sample_target]) ((), Map.empty) empty_store = Some (wk, r)"
    using complete_returns [of "[sample_target, sample_target]" "sample_call True" "((), Map.empty)" empty_store]
      sample_timeouts(1) by auto
  then show ?thesis
    using walk_events_in_bounds [of "sample_call True" "[sample_target, sample_target]" "((), Map.empty)" empty_store wk r]
    by (simp add: event_ok_def) (simp add: sample_call_def)
qed

text \<open>A served request is reported as what served it: the metadata, the provider name and the
  model label are those of the chain entry whose attempt succeeded last, the quota store learns the
  response's reading under that entry's own seat, or none when the client's credential was forwarded,
  and a stream carries the same label on every chunk. A request that fails teaches the store nothing.\<close>

lemma walk_serves_as_marked:
  "(complete_inner c (Inr chain) site quota = Some (wk, r) \<longrightarrow>
      (case r of Inl e \<Rightarrow> wk_quota wk = quota
       | Inr resp \<Rightarrow> \<exists>i < length chain. served_response c i (chain ! i) quota wk resp))
    \<and> (stream_inner c (Inr chain) site quota = Some (wk', r') \<longrightarrow>
      (case r' of Inl e \<Rightarrow> wk_quota wk' = quota
       | Inr handle \<Rightarrow> \<exists>i < length chain. served_stream c i (chain ! i) quota wk' handle))"
proof (intro conjI impI)
  assume run: "complete_inner c (Inr chain) site quota = Some (wk, r)"
  show "case r of Inl e \<Rightarrow> wk_quota wk = quota
       | Inr resp \<Rightarrow> \<exists>i < length chain. served_response c i (chain ! i) quota wk resp"
  proof (rule complete_walk.walk_serves [where S = "served_response c", OF _ _ _ run [unfolded complete_inner_walk]])
    show "wk_quota wk' = wk_quota wk \<and> (marked c i t (wk_meta wk) \<longrightarrow> marked c i t (wk_meta wk'))"
      if "complete_step c chain i t wk tr = Some (wk', tr', Again)" for i t wk tr wk' tr'
      using complete_step_quota [OF that] complete_step_marked [OF that] by simp
  qed (rule complete_step_quota complete_step_serves; assumption)+
next
  assume run: "stream_inner c (Inr chain) site quota = Some (wk', r')"
  show "case r' of Inl e \<Rightarrow> wk_quota wk' = quota
       | Inr handle \<Rightarrow> \<exists>i < length chain. served_stream c i (chain ! i) quota wk' handle"
  proof (rule stream_walk.walk_serves [where S = "served_stream c", OF _ _ _ run [unfolded stream_inner_walk]])
    show "wk_quota wk' = wk_quota wk \<and> (marked c i t (wk_meta wk) \<longrightarrow> marked c i t (wk_meta wk'))"
      if "stream_step c chain i t wk tr = Some (wk', tr', Again)" for i t wk tr wk' tr'
      using stream_step_quota [OF that] stream_step_marked [OF that] by simp
  qed (rule stream_step_quota stream_step_serves; assumption)+
qed

lemma walk_serves_as_marked_witness:
  "\<exists>wk resp. complete_inner answering_call (Inr [sample_target]) ((), Map.empty) empty_store = Some (wk, Inr resp)
    \<and> served_response answering_call 0 sample_target empty_store wk resp"
proof -
  obtain wk resp where "complete_inner answering_call (Inr [sample_target]) ((), Map.empty) empty_store = Some (wk, Inr resp)"
    using answering_run by auto
  then show ?thesis
    using walk_serves_as_marked [of answering_call "[sample_target]" "((), Map.empty)" empty_store wk "Inr resp"] by auto
qed

text \<open>With fallbacks disabled a failure no repair takes is returned at once, even where the retry
  policy would have tried the same target again.\<close>

lemma disable_fallbacks_no_retry:
  assumes "disable_fallbacks c" and "classify_failure c t tr e = (cls, native)"
    and "\<not> recovers t e (cls, native) wk tr" and "\<not> canary_recovers e native tr"
  shows "snd (snd (complete_error c chain i t guard e wk tr)) = Return (Inl (reported_error t cls e))"
proof -
  obtain wk' tr' fl where err: "complete_error c chain i t guard e wk tr = (wk', tr', fl)" by (rule prod_cases3)
  from err assms(2) have "fl = Return (Inl (reported_error t cls e))"
  proof (cases rule: complete_error_cases)
    case recovered
    then show ?thesis using assms(3) recover_SomeD by blast
  next
    case canary
    then show ?thesis using assms(4) canary_SomeD by blast
  next
    case (probe e')
    then show ?thesis using assms(1) by (auto elim!: probe_fast_fail_cases simp: reported_error_def)
  next
    case (settled e')
    from settled(5) show ?thesis
      by (cases rule: complete_settle_cases) (use assms(1) settled(1) in \<open>simp_all add: reported_error_def\<close>)
  qed
  then show ?thesis by (simp add: err)
qed

lemma disable_fallbacks_no_retry_witness:
  "can_retry_here (sample_call True) (upstream ''p'' 500 ''busy'') FailureClass.ServerError
      (fresh_attempt (policy (sample_call True)) \<lparr>shaped_request = request (sample_call True), shaped_replay = None,
         shaped_field = None, shaped_canary = None\<rparr>) False
   \<and> snd (snd (complete_error (sample_call True) [sample_target, sample_target] 0 sample_target (guard_new None)
      (upstream ''p'' 500 ''busy'') (fresh_walk ((), Map.empty) empty_store (for_alias ''alias''))
      (fresh_attempt (policy (sample_call True)) \<lparr>shaped_request = request (sample_call True), shaped_replay = None,
         shaped_field = None, shaped_canary = None\<rparr>))) = Return (Inl (upstream ''p'' 500 ''busy''))"
proof (rule conjI)
  let ?tr = "fresh_attempt (policy (sample_call True)) \<lparr>shaped_request = request (sample_call True), shaped_replay = None,
         shaped_field = None, shaped_canary = None\<rparr>"
  show "can_retry_here (sample_call True) (upstream ''p'' 500 ''busy'') FailureClass.ServerError ?tr False"
    by (simp add: run_failures run_samples fresh_attempt_def)
  have cls: "classify_failure (sample_call True) sample_target ?tr (upstream ''p'' 500 ''busy'') =
      (FailureClass.ServerError, FailureClass.ServerError)"
    by (simp add: run_failures run_samples fresh_attempt_def)
  show "snd (snd (complete_error (sample_call True) [sample_target, sample_target] 0 sample_target (guard_new None)
      (upstream ''p'' 500 ''busy'') (fresh_walk ((), Map.empty) empty_store (for_alias ''alias'')) ?tr)) =
      Return (Inl (upstream ''p'' 500 ''busy''))"
    by (subst disable_fallbacks_no_retry [OF _ cls])
      (simp_all add: recovers_def canary_recovers_def fresh_attempt_def canary_repaired_retry_def upstream_def
        reported_error_def replay_rejection_body_free_def unwrap_or_def sample_target_def
        into_one_dispatch_target_def sample_call_def)
qed

end
