(* ===== verification/Capability_Keys.thy ===== *)
theory Capability_Keys
  imports Failure_Class
begin

text \<open>
  The capability vocabulary (\<open>routectl-core/src/capability.rs\<close>): the persisted tokens of tiers,
  phases, sources and verdicts, and the normalization of a capability key by provider kind; with the
  envelope-field namespace of \<open>routectl-router/src/field_capability.rs\<close>. A string is its list of
  bytes, so a multi-byte character contributes bytes that are not ASCII.
\<close>

subsection \<open>Well-known keys and evidence classes\<close>

definition WEB_SEARCH :: string where "WEB_SEARCH = ''web_search''"
definition COMPUTER_USE :: string where "COMPUTER_USE = ''computer_use''"
definition STRUCTURED_OUTPUT :: string where "STRUCTURED_OUTPUT = ''structured_output''"
definition PROMPT_CACHING :: string where "PROMPT_CACHING = ''prompt_caching''"
definition THINKING :: string where "THINKING = ''thinking''"
definition REASONING_REPLAY :: string where "REASONING_REPLAY = ''reasoning_replay''"

definition WELL_KNOWN_CAPABILITY_KEYS :: "string list" where
  "WELL_KNOWN_CAPABILITY_KEYS =
     [WEB_SEARCH, COMPUTER_USE, STRUCTURED_OUTPUT, PROMPT_CACHING, THINKING, REASONING_REPLAY]"

definition EVIDENCE_CLASSES :: "string list" where
  "EVIDENCE_CLASSES = [''schema_parse'', ''schema_mismatch'', ''search_blocks'',
     ''search_absent_forced'', ''cache_hit'', ''thinking_blocks'']"

definition is_known_evidence_class :: "string \<Rightarrow> bool" where
  "is_known_evidence_class token \<longleftrightarrow> list_ex (\<lambda>c. c = token) EVIDENCE_CLASSES"

subsection \<open>Persisted tokens\<close>

datatype SignalTier = SelfIdentifying | Inferred
datatype FailurePhase = F1 | F2 | F3
datatype EvidenceSource = Live | Probe

fun tier_token :: "SignalTier \<Rightarrow> string" where
  "tier_token SelfIdentifying = ''self-identifying''"
| "tier_token Inferred = ''inferred''"

definition parse_tier :: "string \<Rightarrow> SignalTier option" where
  "parse_tier token = (if token = ''self-identifying'' then Some SelfIdentifying
     else if token = ''inferred'' then Some Inferred else None)"

fun phase_token :: "FailurePhase \<Rightarrow> string" where
  "phase_token F1 = ''f1''"
| "phase_token F2 = ''f2''"
| "phase_token F3 = ''f3''"

definition parse_phase :: "string \<Rightarrow> FailurePhase option" where
  "parse_phase token = (if token = ''f1'' then Some F1 else if token = ''f2'' then Some F2
     else if token = ''f3'' then Some F3 else None)"

fun source_token :: "EvidenceSource \<Rightarrow> string" where
  "source_token Live = ''live''"
| "source_token Probe = ''probe''"

definition parse_source :: "string \<Rightarrow> EvidenceSource option" where
  "parse_source token = (if token = ''live'' then Some Live
     else if token = ''probe'' then Some Probe else None)"

datatype Verdict =
    Assumed bool
  | VerifiedWorking
  | LearnedBroken FailurePhase
  | SuspectIgnored
  | Cleared
  | UnknownVerdict

fun verdict_token :: "Verdict \<Rightarrow> string" where
  "verdict_token (Assumed p) = ''assumed''"
| "verdict_token VerifiedWorking = ''verified''"
| "verdict_token (LearnedBroken p) = ''broken''"
| "verdict_token SuspectIgnored = ''suspect''"
| "verdict_token Cleared = ''cleared''"
| "verdict_token UnknownVerdict = ''unknown''"

fun broken_phase :: "Verdict \<Rightarrow> FailurePhase option" where
  "broken_phase (LearnedBroken p) = Some p"
| "broken_phase v = None"

definition from_parts :: "string \<Rightarrow> FailurePhase option \<Rightarrow> bool option \<Rightarrow> Verdict" where
  "from_parts token phase prior =
     (if token = ''assumed'' then (case prior of Some p \<Rightarrow> Assumed p | None \<Rightarrow> UnknownVerdict)
      else if token = ''verified'' then VerifiedWorking
      else if token = ''broken'' then (case phase of Some p \<Rightarrow> LearnedBroken p | None \<Rightarrow> UnknownVerdict)
      else if token = ''suspect'' then SuspectIgnored
      else if token = ''cleared'' then Cleared
      else UnknownVerdict)"

lemma parse_tier_token [simp]: "parse_tier (tier_token t) = Some t"
  by (cases t) (simp_all add: parse_tier_def)

lemma parse_phase_token [simp]: "parse_phase (phase_token p) = Some p"
  by (cases p) (simp_all add: parse_phase_def)

lemma parse_source_token [simp]: "parse_source (source_token s) = Some s"
  by (cases s) (simp_all add: parse_source_def)

lemma parse_tier_Some: "parse_tier s = Some t \<longleftrightarrow> s = tier_token t"
  by (cases t) (auto simp: parse_tier_def)

lemma parse_phase_Some: "parse_phase s = Some p \<longleftrightarrow> s = phase_token p"
  by (cases p) (auto simp: parse_phase_def)

lemma parse_source_Some: "parse_source s = Some x \<longleftrightarrow> s = source_token x"
  by (cases x) (auto simp: parse_source_def)

subsection \<open>Normalization\<close>

definition BEDROCK_REQUEST_BAG_PREFIXES :: "string list" where
  "BEDROCK_REQUEST_BAG_PREFIXES = [''additionalModelRequestFields'', ''toolConfig'']"

text \<open>\<open>str::split\<close> on one byte, which always yields at least one piece.\<close>

fun split_on :: "char \<Rightarrow> string \<Rightarrow> string list" where
  "split_on c [] = [[]]"
| "split_on c (x # xs) = (if x = c then [] # split_on c xs
     else (case split_on c xs of [] \<Rightarrow> [[x]] | p # ps \<Rightarrow> (x # p) # ps))"

definition normalize_bedrock_key :: "string \<Rightarrow> string" where
  "normalize_bedrock_key raw =
     (case filter (\<lambda>segment. segment \<noteq> []) (split_on (CHR ''.'') raw) of
        [] \<Rightarrow> raw
      | first # segments \<Rightarrow>
          if list_ex (\<lambda>p. p = first) BEDROCK_REQUEST_BAG_PREFIXES
          then (case segments of following # _ \<Rightarrow> following | [] \<Rightarrow> first)
          else first)"

definition normalize_capability_key :: "string \<Rightarrow> string \<Rightarrow> string" where
  "normalize_capability_key raw provider_kind =
     (if provider_kind = ''bedrock'' then normalize_bedrock_key raw else raw)"

lemma split_on_nonempty [simp]: "split_on c s \<noteq> []"
  by (induction s) (auto split: list.splits)

lemma split_on_no_sep: "c \<notin> set s \<Longrightarrow> split_on c s = [s]"
  by (induction s) auto

lemma split_on_pieces: "p \<in> set (split_on c s) \<Longrightarrow> c \<notin> set p"
proof (induction s arbitrary: p)
  case (Cons x xs)
  obtain q qs where "split_on c xs = q # qs" by (cases "split_on c xs") simp_all
  with Cons show ?case by (auto split: if_splits)
qed simp

lemma split_on_all_sep: "filter (\<lambda>p. p \<noteq> []) (split_on c s) = [] \<Longrightarrow> set s \<subseteq> {c}"
proof (induction s)
  case (Cons x xs)
  obtain q qs where "split_on c xs = q # qs" by (cases "split_on c xs") simp_all
  with Cons show ?case by (auto split: if_splits)
qed simp

text \<open>One pass yields either a single segment without separators, or garbage left as it was.\<close>

lemma normalize_bedrock_key_cases:
  obtains "filter (\<lambda>p. p \<noteq> []) (split_on (CHR ''.'') raw) = []" "normalize_bedrock_key raw = raw"
  | "normalize_bedrock_key raw \<noteq> []" "CHR ''.'' \<notin> set (normalize_bedrock_key raw)"
proof (cases "filter (\<lambda>p. p \<noteq> []) (split_on (CHR ''.'') raw)")
  case Nil
  then show ?thesis using that(1) by (simp add: normalize_bedrock_key_def)
next
  case (Cons first segments)
  have mem: "x \<noteq> [] \<and> CHR ''.'' \<notin> set x" if "x \<in> set (first # segments)" for x
    using that split_on_pieces [of x "CHR ''.''" raw] arg_cong [OF Cons, of set] by auto
  have "normalize_bedrock_key raw \<in> set (first # segments)"
    using Cons by (auto simp: normalize_bedrock_key_def split: list.splits)
  from mem [OF this] show ?thesis using that(2) by blast
qed

lemma normalize_bedrock_key_segment:
  "s \<noteq> [] \<Longrightarrow> CHR ''.'' \<notin> set s \<Longrightarrow> normalize_bedrock_key s = s"
  by (simp add: normalize_bedrock_key_def split_on_no_sep)

lemma normalize_idem [simp]:
  "normalize_capability_key (normalize_capability_key raw k) k = normalize_capability_key raw k"
proof (cases "k = ''bedrock''")
  case True
  then show ?thesis
    by (cases raw rule: normalize_bedrock_key_cases)
       (simp_all add: normalize_capability_key_def normalize_bedrock_key_segment)
qed (simp add: normalize_capability_key_def)

subsection \<open>The field namespace\<close>

definition FIELD_CAPABILITY_PREFIX :: string where "FIELD_CAPABILITY_PREFIX = ''field:''"
definition MAX_FIELD_PATH_BYTES :: usize where "MAX_FIELD_PATH_BYTES = 128"
definition SEGMENT_SEPARATOR :: char where "SEGMENT_SEPARATOR = CHR ''.''"

definition is_ascii_graphic :: "char \<Rightarrow> bool" where
  "is_ascii_graphic b \<longleftrightarrow> 33 \<le> (of_char b :: nat) \<and> (of_char b :: nat) \<le> 126"

definition field_capability_path :: "string \<Rightarrow> string option" where
  "field_capability_path key = (if starts_with key FIELD_CAPABILITY_PREFIX
     then Some (drop (length FIELD_CAPABILITY_PREFIX) key) else None)"

definition is_qualified_field_path :: "string \<Rightarrow> bool" where
  "is_qualified_field_path path \<longleftrightarrow> path \<noteq> [] \<and> length path \<le> MAX_FIELD_PATH_BYTES
     \<and> field_capability_path path = None
     \<and> list_all (\<lambda>segment. segment \<noteq> [] \<and> list_all is_ascii_graphic segment)
         (split_on SEGMENT_SEPARATOR path)"

definition field_capability_key :: "string \<Rightarrow> string option" where
  "field_capability_key path =
     (if is_qualified_field_path path then Some (FIELD_CAPABILITY_PREFIX @ path) else None)"

definition capability_key_is_catalog_scoped :: "string \<Rightarrow> bool" where
  "capability_key_is_catalog_scoped key \<longleftrightarrow> field_capability_path key = None"

definition capability_key_is_field_verdict :: "string \<Rightarrow> bool" where
  "capability_key_is_field_verdict key \<longleftrightarrow> field_capability_path key \<noteq> None"

lemma starts_with_self [simp]: "starts_with (p @ r) p"
  by (simp add: starts_with_def)

lemma field_key_path [simp]: "field_capability_path (FIELD_CAPABILITY_PREFIX @ path) = Some path"
  by (simp add: field_capability_path_def)

text \<open>C38. The persisted capability vocabulary round-trips: every tier, phase and source parses back
  from its token and from no other token, a verdict is rebuilt from its token and its sibling
  columns, and a minted envelope-field key gives back the path it was minted from, byte for byte.\<close>

theorem persisted_tokens_roundtrip:
  "(parse_tier s = Some t \<longleftrightarrow> s = tier_token t) \<and> (parse_phase s = Some p \<longleftrightarrow> s = phase_token p)
   \<and> (parse_source s = Some x \<longleftrightarrow> s = source_token x)
   \<and> from_parts (verdict_token v) (broken_phase v) (case v of Assumed b \<Rightarrow> Some b | _ \<Rightarrow> None) = v
   \<and> Option.bind (field_capability_key path) field_capability_path
       = (if is_qualified_field_path path then Some path else None)"
  by (cases v) (simp_all add: parse_tier_Some parse_phase_Some parse_source_Some from_parts_def
      field_capability_key_def)

end
