(* ===== verification/Learned_Capability.thy ===== *)
theory Learned_Capability
  imports Capability_Keys "HOL-Library.AList"
begin

text \<open>
  The entries of the learned-capability registry and the operations on them
  (\<open>routectl-router/src/learned_capability.rs\<close>): observation of negatives and positives, the decay
  into a single re-probe, its settlement, the backoff, eviction, export and import. The hash map is
  an association list in its iteration order, which Rust leaves open; a new entry goes last here.
  The default hasher behind the backoff jitter is the argument \<open>hash\<close>. The registry around these
  operations (generations, leases, boundaries) is in \<open>Learned_Registry\<close>.
\<close>

subsection \<open>Entries\<close>

definition DEFAULT_MAX_ENTRIES :: usize where "DEFAULT_MAX_ENTRIES = 1024"
definition MAX_BACKOFF_MULTIPLE :: u32 where "MAX_BACKOFF_MULTIPLE = 30"
definition JITTER_DIVISOR :: u32 where "JITTER_DIVISOR = 8"

datatype RegistryKey = RegistryKey (key_state: string) (key_feature: string)

datatype EntryVerdict = Verified | Negative

record LearnedEntry =
  incarnation :: u64
  le_verdict :: EntryVerdict
  signal :: SignalTier
  observations :: u32
  first_seen :: instant
  last_seen :: instant
  expires_at :: instant
  in_flight :: bool
  consecutive_failed_probes :: u32
  le_phase :: FailurePhase
  le_source :: EvidenceSource
  evidence_class :: "string option"

datatype RoutingDecision = Allow | RouteAway SignalTier FailurePhase | ProbeAdmitted
datatype ObserveOutcome = Pending | Acting
datatype PositiveOutcome = Recorded | SuppressedByNegative
datatype NegativeState = Absent | ActingNegative | Lapsed
datatype ProbeOutcome = Success | SameCapabilityRejection | OtherError

definition is_acting :: "LearnedEntry \<Rightarrow> bool" where
  "is_acting e \<longleftrightarrow> signal e = SelfIdentifying \<or> 2 \<le> observations e"

definition is_expired :: "LearnedEntry \<Rightarrow> instant \<Rightarrow> bool" where
  "is_expired e now \<longleftrightarrow> le_verdict e = Negative \<and> expires_at e \<le> now"

definition acting_decision :: "LearnedEntry \<Rightarrow> RoutingDecision" where
  "acting_decision e = (case le_verdict e of
     Verified \<Rightarrow> Allow
   | Negative \<Rightarrow> (if le_phase e = F3 \<and> le_source e = Live then Allow
                  else RouteAway (signal e) (le_phase e)))"

definition read_verdict :: "LearnedEntry \<Rightarrow> Verdict" where
  "read_verdict e = (case le_verdict e of
     Verified \<Rightarrow> VerifiedWorking | Negative \<Rightarrow> LearnedBroken (le_phase e))"

record RegistryTuning =
  decay :: duration
  inferred_window :: duration
  max_entries :: usize

type_synonym entries = "(RegistryKey \<times> LearnedEntry) list"

definition make_key :: "string \<Rightarrow> string \<Rightarrow> string \<Rightarrow> RegistryKey" where
  "make_key state_key feature_key_raw provider_kind =
     RegistryKey state_key (normalize_capability_key feature_key_raw provider_kind)"

subsection \<open>Observation\<close>

definition fresh_entry :: "RegistryTuning \<Rightarrow> SignalTier \<Rightarrow> FailurePhase \<Rightarrow> EvidenceSource \<Rightarrow>
    string option \<Rightarrow> instant \<Rightarrow> LearnedEntry \<times> ObserveOutcome" where
  "fresh_entry tun tier phase source ec now =
     (let (expires, outcome) = (case tier of
            SelfIdentifying \<Rightarrow> (now + decay tun, Acting) | Inferred \<Rightarrow> (now, Pending))
      in (\<lparr>incarnation = 0, le_verdict = Negative, signal = tier, observations = 1,
           first_seen = now, last_seen = now, expires_at = expires, in_flight = False,
           consecutive_failed_probes = 0, le_phase = phase, le_source = source,
           evidence_class = ec\<rparr>, outcome))"

definition fresh_positive :: "EvidenceSource \<Rightarrow> string option \<Rightarrow> instant \<Rightarrow> LearnedEntry" where
  "fresh_positive source ec now =
     \<lparr>incarnation = 0, le_verdict = Verified, signal = SelfIdentifying, observations = 1,
      first_seen = now, last_seen = now, expires_at = now, in_flight = False,
      consecutive_failed_probes = 0, le_phase = F3, le_source = source, evidence_class = ec\<rparr>"

definition observe_existing :: "RegistryTuning \<Rightarrow> LearnedEntry \<Rightarrow> SignalTier \<Rightarrow> instant \<Rightarrow>
    LearnedEntry \<times> ObserveOutcome" where
  "observe_existing tun e tier now =
     (if is_acting e then
        (let e = e\<lparr>observations := saturating_add_u32 (observations e) 1, last_seen := now,
                   expires_at := now + decay tun\<rparr>
         in ((case tier of
                SelfIdentifying \<Rightarrow> e\<lparr>signal := SelfIdentifying, consecutive_failed_probes := 0\<rparr>
              | Inferred \<Rightarrow> e), Acting))
      else (case tier of
        SelfIdentifying \<Rightarrow>
          (e\<lparr>signal := SelfIdentifying, observations := saturating_add_u32 (observations e) 1,
             last_seen := now, expires_at := now + decay tun, consecutive_failed_probes := 0\<rparr>, Acting)
      | Inferred \<Rightarrow>
          if duration_since now (first_seen e) \<le> inferred_window tun
          then (e\<lparr>observations := 2, last_seen := now, expires_at := now + decay tun\<rparr>, Acting)
          else (e\<lparr>observations := 1, first_seen := now, last_seen := now, expires_at := now\<rparr>, Pending)))"

text \<open>\<open>Iterator::min_by_key\<close> keeps the first of equal minima.\<close>

fun min_by_key :: "('a \<Rightarrow> nat) \<Rightarrow> 'a list \<Rightarrow> 'a option" where
  "min_by_key g [] = None"
| "min_by_key g (x # xs) = (case min_by_key g xs of
     None \<Rightarrow> Some x | Some y \<Rightarrow> if g x \<le> g y then Some x else Some y)"

definition evict_if_full :: "RegistryTuning \<Rightarrow> RegistryKey set \<Rightarrow> entries \<Rightarrow> entries" where
  "evict_if_full tun leased es =
     (if length es < max_entries tun then es
      else case min_by_key (\<lambda>(k, e). last_seen e) (filter (\<lambda>(k, e). k \<notin> leased) es) of
        None \<Rightarrow> es
      | Some (k, e) \<Rightarrow> AList.delete k es)"

definition observe_in :: "RegistryTuning \<Rightarrow> RegistryKey set \<Rightarrow> RegistryKey \<Rightarrow> SignalTier \<Rightarrow>
    FailurePhase \<Rightarrow> EvidenceSource \<Rightarrow> string option \<Rightarrow> instant \<Rightarrow> entries \<Rightarrow> entries \<times> ObserveOutcome" where
  "observe_in tun leased key tier phase source ec now es =
     (case map_of es key of
        Some existing \<Rightarrow> (case le_verdict existing of
          Negative \<Rightarrow> (let (e, outcome) = observe_existing tun existing tier now
                       in (AList.update key e es, outcome))
        | Verified \<Rightarrow> (case tier of
            SelfIdentifying \<Rightarrow> (let (e, outcome) = fresh_entry tun tier phase source ec now
                                in (AList.update key e es, outcome))
          | Inferred \<Rightarrow> (es, Pending)))
      | None \<Rightarrow> (let es = evict_if_full tun leased es;
                      (e, outcome) = fresh_entry tun tier phase source ec now
                  in (AList.update key e es, outcome)))"

definition observe_positive_in :: "RegistryTuning \<Rightarrow> RegistryKey set \<Rightarrow> RegistryKey \<Rightarrow>
    EvidenceSource \<Rightarrow> string option \<Rightarrow> instant \<Rightarrow> entries \<Rightarrow> entries \<times> PositiveOutcome" where
  "observe_positive_in tun leased key source ec now es =
     (case map_of es key of
        Some existing \<Rightarrow> (case le_verdict existing of
          Negative \<Rightarrow> (es, SuppressedByNegative)
        | Verified \<Rightarrow> (AList.update key
            (existing\<lparr>observations := saturating_add_u32 (observations existing) 1, last_seen := now\<rparr>) es,
            Recorded))
      | None \<Rightarrow> (AList.update key (fresh_positive source ec now) (evict_if_full tun leased es), Recorded))"

subsection \<open>Queries\<close>

definition acting_negative_for_in :: "RegistryKey \<Rightarrow> instant \<Rightarrow> entries \<Rightarrow> entries \<times> RoutingDecision" where
  "acting_negative_for_in key now es =
     (case map_of es key of
        None \<Rightarrow> (es, Allow)
      | Some e \<Rightarrow>
          if \<not> is_acting e then (es, Allow)
          else if acting_decision e = Allow then (es, Allow)
          else if \<not> is_expired e now \<or> in_flight e then (es, acting_decision e)
          else (AList.update key (e\<lparr>in_flight := True\<rparr>) es, ProbeAdmitted))"

text \<open>The self-locking form: a shared read first, then the claim under the exclusive lock, where
  another caller may have changed the entry in between (\<open>interleave\<close>).\<close>

definition acting_negative_for :: "(entries \<Rightarrow> entries) \<Rightarrow> RegistryKey \<Rightarrow> instant \<Rightarrow> entries \<Rightarrow>
    entries \<times> RoutingDecision" where
  "acting_negative_for interleave key now es =
     (case map_of es key of
        None \<Rightarrow> (es, Allow)
      | Some e \<Rightarrow>
          if \<not> is_acting e then (es, Allow)
          else if acting_decision e = Allow then (es, Allow)
          else if \<not> is_expired e now \<or> in_flight e then (es, acting_decision e)
          else acting_negative_for_in key now (interleave es))"

definition negative_state_in :: "entries \<Rightarrow> RegistryKey \<Rightarrow> instant \<Rightarrow> NegativeState" where
  "negative_state_in es key now = (case map_of es key of
     None \<Rightarrow> Absent
   | Some e \<Rightarrow> if le_verdict e \<noteq> Negative \<or> \<not> is_acting e then Absent
               else if is_expired e now then Lapsed else ActingNegative)"

definition is_verified_working_in :: "entries \<Rightarrow> RegistryKey \<Rightarrow> bool" where
  "is_verified_working_in es key = (case map_of es key of
     None \<Rightarrow> False | Some e \<Rightarrow> le_verdict e = Verified \<and> is_acting e)"

subsection \<open>Settlement\<close>

definition jitter_offset :: "(RegistryKey \<Rightarrow> u32 \<Rightarrow> u64) \<Rightarrow> RegistryKey \<Rightarrow> u32 \<Rightarrow> int \<Rightarrow> int" where
  "jitter_offset hash key n spread = int (hash key n) mod (2 * spread + 1) - spread"

definition duration_saturating_mul :: "duration \<Rightarrow> u32 \<Rightarrow> duration" where
  "duration_saturating_mul d n = min (d * n) DURATION_MAX"

definition backoff_window :: "(RegistryKey \<Rightarrow> u32 \<Rightarrow> u64) \<Rightarrow> RegistryTuning \<Rightarrow> RegistryKey \<Rightarrow> u32 \<Rightarrow> duration" where
  "backoff_window hash tun key n =
     (let multiple = min (min (2 ^ n) U64_MAX) MAX_BACKOFF_MULTIPLE;
          base = duration_saturating_mul (decay tun) multiple;
          spread = int (decay tun div JITTER_DIVISOR);
          jitter = (if spread = 0 then 0 else jitter_offset hash key n spread)
      in min (nat (max (int base + jitter) 0)) U64_MAX)"

definition record_probe_outcome_in :: "(RegistryKey \<Rightarrow> u32 \<Rightarrow> u64) \<Rightarrow> RegistryTuning \<Rightarrow> RegistryKey \<Rightarrow>
    ProbeOutcome \<Rightarrow> instant \<Rightarrow> entries \<Rightarrow> entries" where
  "record_probe_outcome_in hash tun key outcome now es =
     (case outcome of
        Success \<Rightarrow> AList.delete key es
      | SameCapabilityRejection \<Rightarrow> (case map_of es key of
          None \<Rightarrow> es
        | Some e \<Rightarrow>
            (let failed = saturating_add_u32 (consecutive_failed_probes e) 1
             in AList.update key (e\<lparr>consecutive_failed_probes := failed,
                  observations := saturating_add_u32 (observations e) 1, last_seen := now,
                  in_flight := False, expires_at := now + backoff_window hash tun key failed\<rparr>) es))
      | OtherError \<Rightarrow> (case map_of es key of
          None \<Rightarrow> es | Some e \<Rightarrow> AList.update key (e\<lparr>in_flight := False\<rparr>) es))"

definition expire_keyed_in :: "RegistryKey \<Rightarrow> instant \<Rightarrow> entries \<Rightarrow> entries \<times> bool" where
  "expire_keyed_in key now es = (case map_of es key of
     Some e \<Rightarrow> (AList.update key (e\<lparr>expires_at := now, in_flight := False\<rparr>) es, True)
   | None \<Rightarrow> (es, False))"

definition remove_keyed_in :: "RegistryKey \<Rightarrow> entries \<Rightarrow> entries \<times> bool" where
  "remove_keyed_in key es = (AList.delete key es, map_of es key \<noteq> None)"

subsection \<open>Snapshot, export, import\<close>

record LearnedRegistryEntry =
  re_state_key :: string
  re_feature_key :: string
  re_verdict :: Verdict
  signal_tier :: SignalTier
  re_observations :: u32
  re_first_seen :: instant
  re_last_seen :: instant
  re_expires_at :: instant
  re_evidence_class :: "string option"
  re_phase :: FailurePhase
  re_source :: EvidenceSource

definition registry_row :: "RegistryKey \<times> LearnedEntry \<Rightarrow> LearnedRegistryEntry" where
  "registry_row ke = (case ke of (k, e) \<Rightarrow>
     \<lparr>re_state_key = key_state k, re_feature_key = key_feature k, re_verdict = read_verdict e,
      signal_tier = signal e, re_observations = observations e, re_first_seen = first_seen e,
      re_last_seen = last_seen e, re_expires_at = expires_at e, re_evidence_class = evidence_class e,
      re_phase = le_phase e, re_source = le_source e\<rparr>)"

definition snapshot :: "entries \<Rightarrow> LearnedRegistryEntry list" where
  "snapshot es = map registry_row es"

record ExportedEntry =
  ex_state_key :: string
  ex_feature_key :: string
  ex_verdict :: EntryVerdict
  ex_signal :: SignalTier
  ex_observations :: u32
  ex_first_seen :: instant
  ex_last_seen :: instant
  ex_expires_at :: instant
  ex_phase :: FailurePhase
  ex_source :: EvidenceSource
  ex_in_flight :: bool
  ex_consecutive_failed_probes :: u32
  ex_evidence_class :: "string option"

definition exported :: "RegistryKey \<times> LearnedEntry \<Rightarrow> ExportedEntry" where
  "exported ke = (case ke of (k, e) \<Rightarrow>
     \<lparr>ex_state_key = key_state k, ex_feature_key = key_feature k, ex_verdict = le_verdict e,
      ex_signal = signal e, ex_observations = observations e, ex_first_seen = first_seen e,
      ex_last_seen = last_seen e, ex_expires_at = expires_at e, ex_phase = le_phase e,
      ex_source = le_source e, ex_in_flight = in_flight e,
      ex_consecutive_failed_probes = consecutive_failed_probes e,
      ex_evidence_class = evidence_class e\<rparr>)"

definition export_entries :: "entries \<Rightarrow> ExportedEntry list" where
  "export_entries es = map exported es"

definition imported :: "ExportedEntry \<Rightarrow> LearnedEntry" where
  "imported x = \<lparr>incarnation = 0, le_verdict = ex_verdict x, signal = ex_signal x,
     observations = ex_observations x, first_seen = ex_first_seen x, last_seen = ex_last_seen x,
     expires_at = ex_expires_at x, in_flight = False,
     consecutive_failed_probes = ex_consecutive_failed_probes x, le_phase = ex_phase x,
     le_source = ex_source x, evidence_class = ex_evidence_class x\<rparr>"

fun import_entries :: "RegistryTuning \<Rightarrow> RegistryKey set \<Rightarrow> ExportedEntry list \<Rightarrow> entries \<Rightarrow> entries" where
  "import_entries tun leased [] es = es"
| "import_entries tun leased (x # xs) es =
     (let key = RegistryKey (ex_state_key x) (ex_feature_key x);
          es = (if map_of es key = None then evict_if_full tun leased es else es)
      in import_entries tun leased xs (AList.update key (imported x) es))"

subsection \<open>The entries as a map\<close>

named_theorems entry_ops \<open>definitions of the entry operations\<close>

declare observe_in_def [entry_ops] observe_positive_in_def [entry_ops]
  acting_negative_for_in_def [entry_ops] record_probe_outcome_in_def [entry_ops]
  expire_keyed_in_def [entry_ops] remove_keyed_in_def [entry_ops]

abbreviation wf_entries :: "entries \<Rightarrow> bool" where "wf_entries es \<equiv> distinct (map fst es)"

lemma map_of_update [simp]: "map_of (AList.update k v es) = (map_of es)(k \<mapsto> v)"
  by (rule update_conv')

lemma map_of_delete [simp]: "map_of (AList.delete k es) = (map_of es)(k := None)"
  by (rule delete_conv')

lemma wf_delete: "wf_entries es \<Longrightarrow> wf_entries (AList.delete k es)"
  by (rule distinct_delete)

lemma length_update:
  "length (AList.update k v es) = (if k \<in> fst ` set es then length es else Suc (length es))"
proof (induction es)
  case (Cons x xs)
  then show ?case by (cases x, cases "fst x = k") simp_all
qed simp

lemma length_delete:
  assumes "wf_entries es" and "map_of es k = Some e"
  shows "Suc (length (AList.delete k es)) = length es"
  using assms
proof (induction es)
  case (Cons x xs)
  show ?case
  proof (cases "fst x = k")
    case True
    with Cons.prems(1) have "k \<notin> fst ` set xs" by auto
    then have "AList.delete k xs = xs" by (induction xs) auto
    with True show ?thesis by (cases x) simp
  next
    case False
    with Cons show ?thesis by (cases x) simp
  qed
qed simp

lemma min_by_key_None [simp]: "min_by_key g xs = None \<longleftrightarrow> xs = []"
  by (cases xs) (simp_all split: option.split)

lemma min_by_key_Some: "min_by_key g xs = Some x \<Longrightarrow> x \<in> set xs \<and> (\<forall>y \<in> set xs. g x \<le> g y)"
proof (induction xs arbitrary: x)
  case (Cons a xs)
  show ?case
  proof (cases "min_by_key g xs")
    case None
    with Cons.prems show ?thesis by simp
  next
    case (Some y)
    note IH = Cons.IH [OF Some]
    show ?thesis
    proof (cases "g a \<le> g y")
      case True
      then have "x = a" using Cons.prems Some by simp
      with IH True show ?thesis by (simp add: order_trans [of "g a" "g y"])
    next
      case False
      then have "x = y" using Cons.prems Some by simp
      with IH False show ?thesis by simp
    qed
  qed
qed simp

text \<open>Eviction: the map as it was, or without one entry of the oldest sighting among those no purge
  holds.\<close>

lemma evict_if_full_cases:
  assumes "wf_entries es"
  obtains "evict_if_full tun leased es = es"
      "length es < max_entries tun \<or> fst ` set es \<subseteq> leased"
  | k e where "evict_if_full tun leased es = AList.delete k es" "map_of es k = Some e"
      "k \<notin> leased" "max_entries tun \<le> length es"
      "\<And>k' e'. map_of es k' = Some e' \<Longrightarrow> k' \<notin> leased \<Longrightarrow> last_seen e \<le> last_seen e'"
proof (cases "length es < max_entries tun")
  case False
  let ?xs = "filter (\<lambda>(k, e). k \<notin> leased) es"
  show ?thesis
  proof (cases "min_by_key (\<lambda>(k, e). last_seen e) ?xs")
    case None
    then have "fst ` set es \<subseteq> leased" by (auto simp: filter_empty_conv)
    with None False show ?thesis using that(1) by (simp add: evict_if_full_def)
  next
    case (Some x)
    obtain k e where x: "x = (k, e)" by fastforce
    from min_by_key_Some [OF Some] have m: "(k, e) \<in> set es" "k \<notin> leased"
      "\<forall>y \<in> set ?xs. last_seen e \<le> (case y of (k, e) \<Rightarrow> last_seen e)" by (auto simp: x)
    have "map_of es k = Some e" using m(1) assms by simp
    moreover have "last_seen e \<le> last_seen e'" if "map_of es k' = Some e'" "k' \<notin> leased" for k' e'
      using m(3) map_of_SomeD [OF that(1)] that(2) by force
    moreover have "evict_if_full tun leased es = AList.delete k es"
      using Some False by (simp add: evict_if_full_def x)
    ultimately show ?thesis using that(2) m(2) False by simp
  qed
qed (use that(1) in \<open>simp add: evict_if_full_def\<close>)

lemma wf_evict: "wf_entries es \<Longrightarrow> wf_entries (evict_if_full tun leased es)"
  by (cases rule: evict_if_full_cases [of es tun leased]) (simp_all add: wf_delete)

lemma evict_map_le: "wf_entries es \<Longrightarrow> map_of (evict_if_full tun leased es) \<subseteq>\<^sub>m map_of es"
  by (cases rule: evict_if_full_cases [of es tun leased]) (auto simp: map_le_def)

lemma evict_leased: "wf_entries es \<Longrightarrow> k \<in> leased \<Longrightarrow> map_of (evict_if_full tun leased es) k = map_of es k"
  by (cases rule: evict_if_full_cases [of es tun leased]) auto

lemma evict_keeps_absent:
  "wf_entries es \<Longrightarrow> map_of es k = None \<Longrightarrow> map_of (evict_if_full tun leased es) k = None"
  by (cases rule: evict_if_full_cases [of es tun leased]) auto

lemma evict_length:
  assumes "wf_entries es"
  shows "length (evict_if_full tun leased es) \<le> length es"
proof (rule evict_if_full_cases [OF assms, of tun leased])
  fix k e
  assume d: "evict_if_full tun leased es = AList.delete k es"
  show ?thesis unfolding d by (rule length_delete_le)
qed simp

lemma evict_makes_room:
  assumes wf: "wf_entries es" and free: "\<not> fst ` set es \<subseteq> leased"
  shows "length (evict_if_full tun leased es) < max (length es) (max_entries tun)"
proof (rule evict_if_full_cases [OF wf, of tun leased])
  assume same: "evict_if_full tun leased es = es"
    and "length es < max_entries tun \<or> fst ` set es \<subseteq> leased"
  with free have "length es < max_entries tun" by blast
  then show ?thesis unfolding same by simp
next
  fix k e
  assume d: "evict_if_full tun leased es = AList.delete k es" "map_of es k = Some e"
  have "length (AList.delete k es) < length es" using length_delete [OF wf d(2)] by simp
  then show ?thesis unfolding d(1) by simp
qed

text \<open>Every operation keeps keys unique.\<close>

lemma wf_ops [inv_intros]:
  assumes "wf_entries es"
  shows "wf_entries (fst (observe_in tun leased key tier phase source ec now es))"
    and "wf_entries (fst (observe_positive_in tun leased key source ec now es))"
    and "wf_entries (fst (acting_negative_for_in key now es))"
    and "wf_entries (record_probe_outcome_in hash tun key outcome now es)"
    and "wf_entries (fst (expire_keyed_in key now es))"
    and "wf_entries (fst (remove_keyed_in key es))"
  using assms
  by (auto simp: entry_ops Let_def distinct_update wf_delete wf_evict
      split: option.split EntryVerdict.split SignalTier.split ProbeOutcome.split prod.split)

lemma wf_import: "wf_entries es \<Longrightarrow> wf_entries (import_entries tun leased xs es)"
  by (induction xs arbitrary: es) (simp_all add: Let_def distinct_update wf_evict)

text \<open>An operation on one key leaves every other key alone, except that it may evict one no purge
  holds.\<close>

lemma other_key_ops:
  assumes "key \<noteq> k"
  shows "map_of (fst (acting_negative_for_in key now es)) k = map_of es k"
    and "map_of (record_probe_outcome_in hash tun key outcome now es) k = map_of es k"
    and "map_of (fst (expire_keyed_in key now es)) k = map_of es k"
    and "map_of (fst (remove_keyed_in key es)) k = map_of es k"
    and "wf_entries es \<Longrightarrow> k \<in> leased \<Longrightarrow>
      map_of (fst (observe_in tun leased key tier phase source ec now es)) k = map_of es k"
    and "wf_entries es \<Longrightarrow> k \<in> leased \<Longrightarrow>
      map_of (fst (observe_positive_in tun leased key source ec now es)) k = map_of es k"
  using assms
  by (auto simp: entry_ops Let_def evict_leased
      split: option.split EntryVerdict.split SignalTier.split ProbeOutcome.split prod.split)

subsection \<open>Corroboration\<close>

text \<open>The observations a lane's requests make of one key over time, all inferred.\<close>

fun observe_inferred :: "RegistryTuning \<Rightarrow> RegistryKey set \<Rightarrow> RegistryKey \<Rightarrow> FailurePhase \<Rightarrow> EvidenceSource \<Rightarrow>
    instant list \<Rightarrow> entries \<Rightarrow> entries" where
  "observe_inferred tun leased key phase source [] es = es"
| "observe_inferred tun leased key phase source (t # ts) es =
     observe_inferred tun leased key phase source ts
       (fst (observe_in tun leased key Inferred phase source None t es))"

fun close_pair :: "duration \<Rightarrow> instant list \<Rightarrow> bool" where
  "close_pair w (a # b # ts) \<longleftrightarrow> duration_since b a \<le> w \<or> close_pair w (b # ts)"
| "close_pair w ts \<longleftrightarrow> False"

definition pending_at :: "instant \<Rightarrow> LearnedEntry \<Rightarrow> bool" where
  "pending_at t e \<longleftrightarrow> le_verdict e = Negative \<and> signal e = Inferred \<and> observations e = 1 \<and> first_seen e = t"

definition corroborated :: "LearnedEntry \<Rightarrow> bool" where
  "corroborated e \<longleftrightarrow> le_verdict e = Negative \<and> signal e = Inferred \<and> 2 \<le> observations e"

lemma observe_inferred_corroborated:
  assumes "map_of es key = Some e" and "corroborated e"
  shows "\<exists>e'. map_of (observe_inferred tun leased key phase source ts es) key = Some e' \<and> corroborated e'"
  using assms
proof (induction ts arbitrary: es e)
  case (Cons t ts)
  let ?e = "e\<lparr>observations := saturating_add_u32 (observations e) 1, last_seen := t, expires_at := t + decay tun\<rparr>"
  have step: "fst (observe_in tun leased key Inferred phase source None t es) = AList.update key ?e es"
    using Cons.prems by (simp add: observe_in_def observe_existing_def is_acting_def corroborated_def Let_def)
  have "corroborated ?e"
    using Cons.prems(2) by (simp add: corroborated_def saturating_add_u32_def U32_MAX_def)
  from Cons.IH [of "AList.update key ?e es" ?e, OF _ this] show ?case by (simp add: step)
qed simp

lemma observe_inferred_pending:
  assumes "map_of es key = Some e" and "pending_at t e"
  shows "\<exists>e'. map_of (observe_inferred tun leased key phase source ts es) key = Some e'
    \<and> (is_acting e' \<longleftrightarrow> close_pair (inferred_window tun) (t # ts))"
  using assms
proof (induction ts arbitrary: es e t)
  case Nil
  then show ?case by (auto simp: pending_at_def is_acting_def)
next
  case (Cons u ts)
  note e = Cons.prems(2) [unfolded pending_at_def]
  show ?case
  proof (cases "duration_since u t \<le> inferred_window tun")
    case True
    let ?e = "e\<lparr>observations := 2, last_seen := u, expires_at := u + decay tun\<rparr>"
    have step: "fst (observe_in tun leased key Inferred phase source None u es) = AList.update key ?e es"
      using Cons.prems(1) e True by (simp add: observe_in_def observe_existing_def is_acting_def Let_def)
    have "corroborated ?e" using e by (simp add: corroborated_def)
    then obtain e' where
      "map_of (observe_inferred tun leased key phase source ts (AList.update key ?e es)) key = Some e'"
      "corroborated e'"
      using observe_inferred_corroborated [of "AList.update key ?e es" key ?e tun leased phase source ts] by auto
    with True show ?thesis by (simp add: step corroborated_def is_acting_def)
  next
    case False
    let ?e = "e\<lparr>observations := 1, first_seen := u, last_seen := u, expires_at := u\<rparr>"
    have step: "fst (observe_in tun leased key Inferred phase source None u es) = AList.update key ?e es"
      using Cons.prems(1) e False by (simp add: observe_in_def observe_existing_def is_acting_def Let_def)
    have "pending_at u ?e" using e by (simp add: pending_at_def)
    from Cons.IH [of "AList.update key ?e es" ?e, OF _ this] False show ?thesis by (simp add: step)
  qed
qed

text \<open>An inferred negative acts exactly when two consecutive observations of it fell within the
  corroboration window, whatever the times and however many: one stray inference never routes a lane
  away, and once corroborated the negative stays acting.\<close>

lemma inferred_acts_iff_corroborated:
  assumes "wf_entries es" and "map_of es key = None" and "ts \<noteq> []"
  shows "\<exists>e. map_of (observe_inferred tun leased key phase source ts es) key = Some e
    \<and> (is_acting e \<longleftrightarrow> close_pair (inferred_window tun) ts)"
proof -
  obtain t us where ts: "ts = t # us" using assms(3) by (cases ts) simp_all
  let ?e = "fst (fresh_entry tun Inferred phase source None t)"
  let ?es = "AList.update key ?e (evict_if_full tun leased es)"
  have step: "fst (observe_in tun leased key Inferred phase source None t es) = ?es"
    using assms(2) by (simp add: observe_in_def fresh_entry_def Let_def)
  have "pending_at t ?e" by (simp add: pending_at_def fresh_entry_def)
  from observe_inferred_pending [of ?es key ?e t tun leased phase source us, OF _ this]
  show ?thesis by (simp add: ts step)
qed

lemma inferred_acts_iff_corroborated_witness:
  "\<exists>e. map_of (observe_inferred \<lparr>decay = 10, inferred_window = 5, max_entries = 4\<rparr> {}
      (RegistryKey ''m'' ''web_search'') F2 Live [1, 20, 24] []) (RegistryKey ''m'' ''web_search'') = Some e
    \<and> is_acting e"
  using inferred_acts_iff_corroborated [of "[]" "RegistryKey ''m'' ''web_search''" "[1, 20, 24]"
      "\<lparr>decay = 10, inferred_window = 5, max_entries = 4\<rparr>" "{}" F2 Live]
  by (simp add: duration_since_def)

subsection \<open>Advisory negatives\<close>

lemma observe_existing_keeps:
  "le_verdict (fst (observe_existing tun e tier now)) = le_verdict e"
  "le_phase (fst (observe_existing tun e tier now)) = le_phase e"
  "le_source (fst (observe_existing tun e tier now)) = le_source e"
  by (simp_all add: observe_existing_def Let_def split: SignalTier.split)

text \<open>The negatives observed of one key, each with its tier, phase, source and time.\<close>

fun observe_all :: "RegistryTuning \<Rightarrow> RegistryKey set \<Rightarrow> RegistryKey \<Rightarrow>
    (SignalTier \<times> FailurePhase \<times> EvidenceSource \<times> instant) list \<Rightarrow> entries \<Rightarrow> entries" where
  "observe_all tun leased key [] es = es"
| "observe_all tun leased key ((tier, phase, source, now) # os) es =
     observe_all tun leased key os (fst (observe_in tun leased key tier phase source None now es))"

lemma observe_all_keeps:
  assumes "map_of es key = Some e" and "le_verdict e = Negative"
  shows "\<exists>e'. map_of (observe_all tun leased key os es) key = Some e'
    \<and> le_verdict e' = Negative \<and> le_phase e' = le_phase e \<and> le_source e' = le_source e"
  using assms
proof (induction os arbitrary: es e)
  case (Cons obs os)
  obtain tier phase source now where o: "obs = (tier, phase, source, now)" by (cases obs)
  let ?e = "fst (observe_existing tun e tier now)"
  have "fst (observe_in tun leased key tier phase source None now es) = AList.update key ?e es"
    using Cons.prems by (simp add: observe_in_def split: prod.split)
  then show ?case
    using Cons.IH [of "AList.update key ?e es" ?e] Cons.prems by (simp add: o observe_existing_keeps)
qed simp

text \<open>A resident advisory negative (suspected absence, from live traffic) hides every later
  rejection of the same capability: whatever is observed of the key afterwards, self-identifying
  wire-token rejections included, the dispatch query keeps answering \<open>Allow\<close>, although observing a
  self-identifying rejection reports that the entry acts.\<close>

lemma advisory_negative_hides_rejections:
  assumes "map_of es key = Some e" and "le_verdict e = Negative" and "le_phase e = F3" and "le_source e = Live"
  shows "snd (acting_negative_for_in key now' (observe_all tun leased key os es)) = Allow
    \<and> snd (observe_in tun leased key SelfIdentifying F1 Live None now (observe_all tun leased key os es)) = Acting"
proof -
  obtain e' where e': "map_of (observe_all tun leased key os es) key = Some e'" "le_verdict e' = Negative"
    "le_phase e' = F3" "le_source e' = Live"
    using observe_all_keeps [OF assms(1,2), of tun leased os] assms(3,4) by auto
  have "acting_decision e' = Allow" by (simp add: acting_decision_def e')
  moreover have "snd (observe_existing tun e' SelfIdentifying now) = Acting"
    by (simp add: observe_existing_def Let_def)
  ultimately show ?thesis
    by (auto simp: acting_negative_for_in_def observe_in_def e' split: prod.split)
qed

lemma advisory_negative_hides_rejections_witness:
  "let tun = \<lparr>decay = 10, inferred_window = 5, max_entries = 4\<rparr>;
       key = RegistryKey ''m'' ''structured_output'';
       es = fst (observe_in tun {} key Inferred F3 Live (Some ''schema_mismatch'') 1 [])
   in snd (acting_negative_for_in key 3 (observe_all tun {} key [(SelfIdentifying, F1, Live, 2)] es)) = Allow"
proof -
  let ?tun = "\<lparr>decay = 10, inferred_window = 5, max_entries = 4\<rparr>"
  let ?key = "RegistryKey ''m'' ''structured_output''"
  let ?es = "fst (observe_in ?tun {} ?key Inferred F3 Live (Some ''schema_mismatch'') 1 [])"
  have "map_of ?es ?key = Some (fst (fresh_entry ?tun Inferred F3 Live (Some ''schema_mismatch'') 1))"
    by (simp add: observe_in_def evict_if_full_def fresh_entry_def)
  from advisory_negative_hides_rejections [OF this, of 3 ?tun "{}" "[(SelfIdentifying, F1, Live, 2)]" 4]
  show ?thesis by (simp add: fresh_entry_def Let_def)
qed

subsection \<open>Backoff\<close>

lemma jitter_offset_bounds:
  assumes "0 \<le> s"
  shows "- s \<le> jitter_offset hash key n s" and "jitter_offset hash key n s \<le> s"
proof -
  let ?r = "int (hash key n) mod (2 * s + 1)"
  have "0 \<le> ?r" "?r < 2 * s + 1"
    using assms by (intro pos_mod_sign pos_mod_bound; simp)+
  then have "- s \<le> ?r - s" "?r - s \<le> s" by linarith+
  then show "- s \<le> jitter_offset hash key n s" "jitter_offset hash key n s \<le> s"
    by (simp_all only: jitter_offset_def)
qed

lemma clamp_offset:
  fixes b s :: nat and j :: int
  assumes "- int s \<le> j" and "j \<le> int s" and "b + s \<le> u"
  shows "b \<le> min (nat (max (int b + j) 0)) u + s" and "min (nat (max (int b + j) 0)) u \<le> b + s"
proof -
  have n: "int b + j \<le> int (b + s)" using assms(2) by simp
  then have "nat (max (int b + j) 0) \<le> b + s" by (simp add: nat_le_iff)
  moreover have "b \<le> nat (max (int b + j) 0) + s" using assms(1) by (simp add: max_def) linarith
  moreover from calculation(1) assms(3) have "nat (max (int b + j) 0) \<le> u" by (rule order_trans)
  ultimately show "b \<le> min (nat (max (int b + j) 0)) u + s" and "min (nat (max (int b + j) 0)) u \<le> b + s"
    by (simp_all only: min.absorb1)
qed

lemma backoff_window_range:
  assumes "30 * decay tun + decay tun div 8 \<le> U64_MAX"
  shows "min (2 ^ n) 30 * decay tun \<le> backoff_window hash tun key n + decay tun div 8"
    and "backoff_window hash tun key n \<le> min (2 ^ n) 30 * decay tun + decay tun div 8"
proof -
  let ?d = "decay tun" and ?m = "min (2 ^ n) 30 :: nat"
  let ?j = "if int (?d div 8) = 0 then 0 else jitter_offset hash key n (int (?d div 8))"
  have m: "min (min (2 ^ n) U64_MAX) MAX_BACKOFF_MULTIPLE = ?m"
    by (simp add: MAX_BACKOFF_MULTIPLE_def U64_MAX_def min_def)
  have "?m * ?d \<le> 30 * ?d" by (rule mult_le_mono1) simp
  then have md: "?m * ?d + ?d div 8 \<le> U64_MAX" using assms by linarith
  then have base: "duration_saturating_mul ?d ?m = ?m * ?d"
    by (simp add: duration_saturating_mul_def DURATION_MAX_def NANOS_PER_SEC_def U64_MAX_def mult.commute)
  have j: "- int (?d div 8) \<le> ?j" "?j \<le> int (?d div 8)"
  proof -
    show "- int (?d div 8) \<le> ?j" using jitter_offset_bounds(1) [of "int (?d div 8)" hash key n] by simp
    show "?j \<le> int (?d div 8)" using jitter_offset_bounds(2) [of "int (?d div 8)" hash key n] by simp
  qed
  have w: "backoff_window hash tun key n = min (nat (max (int (?m * ?d) + ?j) 0)) U64_MAX"
    unfolding backoff_window_def Let_def m base JITTER_DIVISOR_def ..
  show "?m * ?d \<le> backoff_window hash tun key n + ?d div 8"
    and "backoff_window hash tun key n \<le> ?m * ?d + ?d div 8"
    unfolding w by (rule clamp_offset [OF j md])+
qed

text \<open>The wait before the next re-probe doubles with every failed one up to thirty decay windows,
  within an eighth of a decay window either way: it is never zero for a positive decay, it grows with
  the first failures whatever the hash, and it never exceeds the ceiling.\<close>

lemma backoff_window_bounds:
  assumes "30 * decay tun + decay tun div 8 \<le> U64_MAX"
  shows "(let w = backoff_window hash tun key n; m = min (2 ^ n) 30
     in m * decay tun \<le> w + decay tun div 8 \<and> w \<le> m * decay tun + decay tun div 8
        \<and> (n < 5 \<longrightarrow> 0 < decay tun \<longrightarrow> w < backoff_window hash tun key (Suc n)))"
proof -
  let ?d = "decay tun"
  note range = backoff_window_range [OF assms, where hash = hash and key = key]
  have "backoff_window hash tun key n < backoff_window hash tun key (Suc n)" if "n < 5" "0 < ?d"
  proof -
    have "n \<in> {0, 1, 2, 3, 4}" using that(1) by auto
    then have "min (2 ^ n) 30 * ?d + ?d \<le> min (2 ^ Suc n) 30 * ?d" by auto
    moreover have "2 * (?d div 8) < ?d" using that(2) by simp
    ultimately show ?thesis using range(2) [where n = n] range(1) [where n = "Suc n"] by linarith
  qed
  with range show ?thesis by (simp add: Let_def)
qed

lemma backoff_window_bounds_witness:
  "let w = backoff_window (\<lambda>k n. 12345) \<lparr>decay = 8, inferred_window = 5, max_entries = 4\<rparr> (RegistryKey ''m'' ''f'') 1
   in 15 \<le> w \<and> w \<le> 17"
  using backoff_window_bounds [of "\<lparr>decay = 8, inferred_window = 5, max_entries = 4\<rparr>" "\<lambda>k n. 12345"
      "RegistryKey ''m'' ''f''" 1]
  by (simp add: U64_MAX_def Let_def)

subsection \<open>The dispatch query\<close>

text \<open>The self-locking dispatch query, which reads under a shared lock and claims the re-probe slot
  under the exclusive one, answers as one atomic query: on the state it read first, or on the state
  another caller left before the claim.\<close>

lemma acting_negative_linearizes:
  "acting_negative_for interleave key now es \<in>
     {acting_negative_for_in key now es, acting_negative_for_in key now (interleave es)}
   \<and> (snd (acting_negative_for interleave key now es) = ProbeAdmitted \<longrightarrow>
       (\<exists>e. map_of (interleave es) key = Some e \<and> is_acting e \<and> is_expired e now \<and> \<not> in_flight e))"
  by (auto simp: acting_negative_for_def acting_negative_for_in_def acting_decision_def
      split: option.splits if_splits EntryVerdict.splits)

lemma acting_negative_linearizes_witness:
  "let k = RegistryKey ''m'' ''f'';
       e = fst (fresh_entry \<lparr>decay = 10, inferred_window = 5, max_entries = 4\<rparr> SelfIdentifying F1 Live None 1)
   in snd (acting_negative_for (\<lambda>es. es) k 11 [(k, e)]) = ProbeAdmitted \<and> \<not> in_flight e"
proof -
  let ?k = "RegistryKey ''m'' ''f''"
  let ?e = "fst (fresh_entry \<lparr>decay = 10, inferred_window = 5, max_entries = 4\<rparr> SelfIdentifying F1 Live None 1)"
  have "snd (acting_negative_for (\<lambda>es. es) ?k 11 [(?k, ?e)]) = ProbeAdmitted"
    by (simp add: acting_negative_for_def acting_negative_for_in_def fresh_entry_def is_acting_def
        acting_decision_def is_expired_def)
  moreover from this have "\<not> in_flight ?e"
    using acting_negative_linearizes [of "\<lambda>es. es" ?k 11 "[(?k, ?e)]"] by auto
  ultimately show ?thesis by (simp add: Let_def)
qed

end
