(* ===== verification/Learned_Registry.thy ===== *)
theory Learned_Registry
  imports Learned_Capability
begin

text \<open>
  The learned-capability registry around its entries (\<open>routectl-router/src/learned_capability.rs\<close>):
  the generation barrier every per-key operation runs through, the incarnation sequence, the purge
  leases and the two-phase boundary transition. Each operation takes its locks once, in one order,
  and holds them across its work, so an operation is one step on the record; an interleaving is an
  order of steps. A \<open>PurgeLease\<close> is a linear value: its holder finalizes it, restores it or drops it.
\<close>

subsection \<open>State\<close>

record BoundaryReceipt =
  br_generation :: u64
  br_id :: u64

record LearnedCapabilityRegistry =
  lcr_entries :: entries
  lcr_tuning :: RegistryTuning
  lcr_generation :: u64
  pending_generation :: "BoundaryReceipt option"
  next_receipt_id :: u64
  purge_leases :: "RegistryKey set"
  next_incarnation :: u64
  exhausted_incarnations :: "64 word"

definition registry_new :: "duration \<Rightarrow> duration \<Rightarrow> usize \<Rightarrow> LearnedCapabilityRegistry" where
  "registry_new dec window cap =
     \<lparr>lcr_entries = [], lcr_tuning = \<lparr>decay = dec, inferred_window = window, max_entries = cap\<rparr>,
      lcr_generation = 1, pending_generation = None, next_receipt_id = 1, purge_leases = {},
      next_incarnation = 0, exhausted_incarnations = 0\<rparr>"

definition retune :: "duration \<Rightarrow> duration \<Rightarrow> usize \<Rightarrow> LearnedCapabilityRegistry \<Rightarrow> LearnedCapabilityRegistry" where
  "retune dec window cap r =
     r\<lparr>lcr_tuning := \<lparr>decay = dec, inferred_window = window, max_entries = cap\<rparr>\<rparr>"

definition effective_persistence_generation :: "LearnedCapabilityRegistry \<Rightarrow> u64" where
  "effective_persistence_generation r = (case pending_generation r of
     None \<Rightarrow> lcr_generation r | Some p \<Rightarrow> br_generation p)"

subsection \<open>The guard\<close>

datatype Intent = Mutate | Read

datatype 'a GenerationOutcome = Applied 'a u64 u64 | Stale | Exhausted | Reserved

fun applied_value :: "'a GenerationOutcome \<Rightarrow> 'a option" where
  "applied_value (Applied v i g) = Some v"
| "applied_value Stale = None"
| "applied_value Exhausted = None"
| "applied_value Reserved = None"

definition admits_generation :: "LearnedCapabilityRegistry \<Rightarrow> u64 \<Rightarrow> string \<Rightarrow> bool" where
  "admits_generation r g feature_key \<longleftrightarrow>
     \<not> capability_key_is_catalog_scoped feature_key \<or> g = lcr_generation r
     \<or> (case pending_generation r of None \<Rightarrow> False | Some p \<Rightarrow> br_generation p = g)"

definition reserve_incarnation :: "LearnedCapabilityRegistry \<Rightarrow> LearnedCapabilityRegistry \<times> u64 option" where
  "reserve_incarnation r =
     (if next_incarnation r + 1 \<le> U64_MAX
      then (r\<lparr>next_incarnation := next_incarnation r + 1\<rparr>, Some (next_incarnation r + 1))
      else (r\<lparr>exhausted_incarnations := exhausted_incarnations r + 1\<rparr>, None))"

definition stamp_incarnation :: "RegistryKey \<Rightarrow> u64 \<Rightarrow> entries \<Rightarrow> entries" where
  "stamp_incarnation key i es = (case map_of es key of
     None \<Rightarrow> es | Some e \<Rightarrow> AList.update key (e\<lparr>incarnation := i\<rparr>) es)"

definition guarded_keyed :: "u64 \<Rightarrow> RegistryKey \<Rightarrow> Intent \<Rightarrow> string \<Rightarrow>
    (RegistryTuning \<Rightarrow> RegistryKey set \<Rightarrow> entries \<Rightarrow> entries \<times> 'a) \<Rightarrow>
    LearnedCapabilityRegistry \<Rightarrow> LearnedCapabilityRegistry \<times> 'a GenerationOutcome" where
  "guarded_keyed g key intent feature_key op r =
     (if \<not> admits_generation r g feature_key then (r, Stale)
      else if key \<in> purge_leases r then (r, Reserved)
      else (case intent of
        Mutate \<Rightarrow> (case reserve_incarnation r of
          (r, None) \<Rightarrow> (r, Exhausted)
        | (r, Some reserved) \<Rightarrow>
            (let (es, out) = op (lcr_tuning r) (purge_leases r) (lcr_entries r)
             in (r\<lparr>lcr_entries := stamp_incarnation key reserved es\<rparr>,
                 Applied out reserved (effective_persistence_generation r))))
      | Read \<Rightarrow>
          (let (es, out) = op (lcr_tuning r) (purge_leases r) (lcr_entries r)
           in (r\<lparr>lcr_entries := es\<rparr>,
               Applied out (case map_of es key of None \<Rightarrow> 0 | Some e \<Rightarrow> incarnation e)
                 (effective_persistence_generation r)))))"

definition guarded_for :: "u64 \<Rightarrow> string \<Rightarrow> string \<Rightarrow> string \<Rightarrow>
    (RegistryTuning \<Rightarrow> RegistryKey set \<Rightarrow> entries \<Rightarrow> entries \<times> 'a) \<Rightarrow>
    LearnedCapabilityRegistry \<Rightarrow> LearnedCapabilityRegistry \<times> 'a GenerationOutcome" where
  "guarded_for g sk feature kind op = guarded_keyed g (make_key sk feature kind) Mutate feature op"

definition guarded_read :: "u64 \<Rightarrow> string \<Rightarrow> string \<Rightarrow> string \<Rightarrow>
    (RegistryTuning \<Rightarrow> RegistryKey set \<Rightarrow> entries \<Rightarrow> entries \<times> 'a) \<Rightarrow>
    LearnedCapabilityRegistry \<Rightarrow> LearnedCapabilityRegistry \<times> 'a GenerationOutcome" where
  "guarded_read g sk feature kind op = guarded_keyed g (make_key sk feature kind) Read feature op"

subsection \<open>Guarded operations\<close>

definition observe_in_generation where
  "observe_in_generation g sk feature kind tier phase source ec now =
     guarded_for g sk feature kind (\<lambda>tun leased.
       observe_in tun leased (make_key sk feature kind) tier phase source ec now)"

definition observe_in_generation_with_observations where
  "observe_in_generation_with_observations g sk feature kind tier phase source ec now =
     guarded_for g sk feature kind (\<lambda>tun leased es.
       let (es, outcome) = observe_in tun leased (make_key sk feature kind) tier phase source ec now es
       in (es, (outcome, case map_of es (make_key sk feature kind) of None \<Rightarrow> 0 | Some e \<Rightarrow> observations e)))"

definition observe_positive_in_generation where
  "observe_positive_in_generation g sk feature kind source ec now =
     guarded_for g sk feature kind (\<lambda>tun leased.
       observe_positive_in tun leased (make_key sk feature kind) source ec now)"

definition acting_negative_in_generation :: "u64 \<Rightarrow> string \<Rightarrow> string \<Rightarrow> string \<Rightarrow> instant \<Rightarrow>
    LearnedCapabilityRegistry \<Rightarrow> LearnedCapabilityRegistry \<times> (RoutingDecision \<times> u64) option" where
  "acting_negative_in_generation g sk feature kind now r =
     (case guarded_read g sk feature kind (\<lambda>tun leased.
         acting_negative_for_in (make_key sk feature kind) now) r of
        (r, Applied v i gen) \<Rightarrow> (r, Some (v, gen))
      | (r, _) \<Rightarrow> (r, None))"

definition negative_state_in_generation :: "u64 \<Rightarrow> string \<Rightarrow> string \<Rightarrow> string \<Rightarrow> instant \<Rightarrow>
    LearnedCapabilityRegistry \<Rightarrow> LearnedCapabilityRegistry \<times> (NegativeState \<times> u64) option" where
  "negative_state_in_generation g sk feature kind now r =
     (case guarded_read g sk feature kind (\<lambda>tun leased es.
         (es, negative_state_in es (make_key sk feature kind) now)) r of
        (r, Applied v i gen) \<Rightarrow> (r, Some (v, gen))
      | (r, _) \<Rightarrow> (r, None))"

definition is_verified_working_in_generation :: "u64 \<Rightarrow> string \<Rightarrow> string \<Rightarrow> string \<Rightarrow> instant \<Rightarrow>
    LearnedCapabilityRegistry \<Rightarrow> LearnedCapabilityRegistry \<times> bool option" where
  "is_verified_working_in_generation g sk feature kind now r =
     (case guarded_read g sk feature kind (\<lambda>tun leased es.
         (es, is_verified_working_in es (make_key sk feature kind))) r of
        (r, Applied v i gen) \<Rightarrow> (r, Some v)
      | (r, _) \<Rightarrow> (r, None))"

definition expire_keyed_in_generation where
  "expire_keyed_in_generation g sk feature kind now =
     guarded_for g sk feature kind (\<lambda>tun leased. expire_keyed_in (make_key sk feature kind) now)"

definition record_probe_outcome_in_generation where
  "record_probe_outcome_in_generation hash g sk feature kind outcome now =
     guarded_for g sk feature kind (\<lambda>tun leased es.
       (record_probe_outcome_in hash tun (make_key sk feature kind) outcome now es, ()))"

definition remove_keyed_in_generation where
  "remove_keyed_in_generation g sk feature kind =
     guarded_for g sk feature kind (\<lambda>tun leased. remove_keyed_in (make_key sk feature kind))"

record FieldActingFacts =
  fa_incarnation :: u64
  fa_phase :: FailurePhase
  fa_source :: EvidenceSource

definition field_acting_facts_in_generation :: "u64 \<Rightarrow> string \<Rightarrow> string \<Rightarrow> string \<Rightarrow> instant \<Rightarrow>
    LearnedCapabilityRegistry \<Rightarrow> LearnedCapabilityRegistry \<times> FieldActingFacts option" where
  "field_acting_facts_in_generation g sk feature kind now r =
     (case guarded_read g sk feature kind (\<lambda>tun leased es.
         (es, (negative_state_in es (make_key sk feature kind) now,
               map_option (\<lambda>e. \<lparr>fa_incarnation = incarnation e, fa_phase = le_phase e, fa_source = le_source e\<rparr>)
                 (map_of es (make_key sk feature kind))))) r of
        (r, Applied (ActingNegative, Some facts) i gen) \<Rightarrow> (r, Some facts)
      | (r, _) \<Rightarrow> (r, None))"

definition field_acting_incarnations :: "LearnedCapabilityRegistry \<Rightarrow> instant \<Rightarrow> (RegistryKey \<times> u64) list" where
  "field_acting_incarnations r now =
     map (\<lambda>(k, e). (k, incarnation e))
       (filter (\<lambda>(k, e). \<not> capability_key_is_catalog_scoped (key_feature k) \<and> k \<notin> purge_leases r
          \<and> negative_state_in (lcr_entries r) k now = ActingNegative) (lcr_entries r))"

record FieldSeedEntry =
  fs_state_key :: string
  fs_capability_key :: string
  fs_incarnation :: u64
  fs_observations :: u32
  fs_acting :: bool

definition field_seed_snapshot :: "entries \<Rightarrow> FieldSeedEntry list" where
  "field_seed_snapshot es =
     map (\<lambda>(k, e). \<lparr>fs_state_key = key_state k, fs_capability_key = key_feature k,
            fs_incarnation = incarnation e, fs_observations = observations e,
            fs_acting = (case acting_decision e of RouteAway s p \<Rightarrow> True | _ \<Rightarrow> False)\<rparr>)
       (filter (\<lambda>(k, e). \<not> capability_key_is_catalog_scoped (key_feature k)) es)"

subsection \<open>Purge leases\<close>

record PurgeLease =
  pl_incarnation :: u64
  pl_key :: RegistryKey
  pl_captured :: LearnedEntry
  pl_generation :: u64

datatype PurgePreparation = ReservedLease PurgeLease | AbsentEntry | BusyKey | StaleGeneration

definition prepare_purge :: "u64 \<Rightarrow> string \<Rightarrow> string \<Rightarrow> string \<Rightarrow>
    LearnedCapabilityRegistry \<Rightarrow> LearnedCapabilityRegistry \<times> PurgePreparation" where
  "prepare_purge g sk feature kind r =
     (let key = make_key sk feature kind
      in if \<not> admits_generation r g (key_feature key) then (r, StaleGeneration)
         else if pending_generation r \<noteq> None then (r, BusyKey)
         else (case map_of (lcr_entries r) key of
           None \<Rightarrow> (r, AbsentEntry)
         | Some captured \<Rightarrow>
             if key \<in> purge_leases r then (r, BusyKey)
             else (r\<lparr>purge_leases := insert key (purge_leases r)\<rparr>,
                   ReservedLease \<lparr>pl_incarnation = incarnation captured, pl_key = key, pl_captured = captured,
                     pl_generation = effective_persistence_generation r\<rparr>)))"

definition release_lease :: "PurgeLease \<Rightarrow> LearnedCapabilityRegistry \<Rightarrow> LearnedCapabilityRegistry" where
  "release_lease l r = r\<lparr>purge_leases := purge_leases r - {pl_key l}\<rparr>"

definition finalize_purge :: "PurgeLease \<Rightarrow> LearnedCapabilityRegistry \<Rightarrow> LearnedCapabilityRegistry \<times> bool" where
  "finalize_purge l r =
     (let matches = (case map_of (lcr_entries r) (pl_key l) of
            None \<Rightarrow> False | Some e \<Rightarrow> incarnation e = pl_incarnation l)
      in if matches
         then (release_lease l (r\<lparr>lcr_entries := AList.delete (pl_key l) (lcr_entries r)\<rparr>), True)
         else (release_lease l r, False))"

definition restore_purge :: "PurgeLease \<Rightarrow> LearnedCapabilityRegistry \<Rightarrow> LearnedCapabilityRegistry" where
  "restore_purge l r = release_lease l r"

definition drop_lease :: "PurgeLease \<Rightarrow> LearnedCapabilityRegistry \<Rightarrow> LearnedCapabilityRegistry" where
  "drop_lease l r = release_lease l r"

subsection \<open>Boundaries\<close>

datatype 'o BoundaryCut = Taken 'o BoundaryReceipt | BusyCut u64 | ExhaustedCut | RejectedCut 'o

datatype BoundarySettlement = AppliedBoundary u64 usize | StaleReceipt

definition survivors :: "entries \<Rightarrow> LearnedRegistryEntry list" where
  "survivors es = map registry_row (filter (\<lambda>(k, e). \<not> capability_key_is_catalog_scoped (key_feature k)) es)"

definition with_boundary_cut :: "(LearnedRegistryEntry list \<Rightarrow> u64 \<Rightarrow> 'o) \<Rightarrow> ('o \<Rightarrow> bool) \<Rightarrow>
    LearnedCapabilityRegistry \<Rightarrow> LearnedCapabilityRegistry \<times> 'o BoundaryCut" where
  "with_boundary_cut submit admitted r =
     (case pending_generation r of
        Some admitted_cut \<Rightarrow> (r, BusyCut (br_generation admitted_cut))
      | None \<Rightarrow>
          if U64_MAX < lcr_generation r + 1 then (r, ExhaustedCut)
          else if U64_MAX < next_receipt_id r + 1 then (r, ExhaustedCut)
          else if purge_leases r \<noteq> {} then (r, BusyCut (lcr_generation r))
          else (let pending_gen = lcr_generation r + 1; receipt_id = next_receipt_id r + 1;
                    outcome = submit (survivors (lcr_entries r)) pending_gen;
                    receipt = \<lparr>br_generation = pending_gen, br_id = receipt_id\<rparr>
                in if \<not> admitted outcome then (r, RejectedCut outcome)
                   else (r\<lparr>pending_generation := Some receipt, next_receipt_id := receipt_id\<rparr>,
                         Taken outcome receipt)))"

definition rollback_pending_generation :: "BoundaryReceipt \<Rightarrow> LearnedCapabilityRegistry \<Rightarrow>
    LearnedCapabilityRegistry \<times> BoundarySettlement" where
  "rollback_pending_generation receipt r =
     (if pending_generation r \<noteq> Some receipt then (r, StaleReceipt)
      else (r\<lparr>pending_generation := None\<rparr>, AppliedBoundary (br_generation receipt) 0))"

definition commit_boundary_transition :: "BoundaryReceipt \<Rightarrow> LearnedCapabilityRegistry \<Rightarrow>
    LearnedCapabilityRegistry \<times> BoundarySettlement" where
  "commit_boundary_transition receipt r =
     (if pending_generation r \<noteq> Some receipt then (r, StaleReceipt)
      else if br_generation receipt \<le> lcr_generation r then (r\<lparr>pending_generation := None\<rparr>, StaleReceipt)
      else (let kept = filter (\<lambda>(k, e). \<not> capability_key_is_catalog_scoped (key_feature k)) (lcr_entries r)
            in (r\<lparr>pending_generation := None, lcr_generation := br_generation receipt, lcr_entries := kept\<rparr>,
                AppliedBoundary (br_generation receipt) (length (lcr_entries r) - length kept))))"

subsection \<open>What the guard asks of an operation\<close>

text \<open>An operation on one key: it keeps keys unique, touches no other key but may evict one no purge
  holds, makes no incarnation up, marks only negatives as in flight, and grows the map within the
  capacity, or by one entry when a purge holds every entry.\<close>

locale entry_operation =
  fixes key :: RegistryKey and op :: "RegistryTuning \<Rightarrow> RegistryKey set \<Rightarrow> entries \<Rightarrow> entries \<times> 'a"
  assumes op_wf: "wf_entries es \<Longrightarrow> wf_entries (fst (op tun leased es))"
    and op_other: "wf_entries es \<Longrightarrow> k \<noteq> key \<Longrightarrow>
      map_of (fst (op tun leased es)) k = map_of es k \<or> k \<notin> leased \<and> map_of (fst (op tun leased es)) k = None"
    and op_key: "wf_entries es \<Longrightarrow> map_of (fst (op tun leased es)) key = Some e' \<Longrightarrow>
      (incarnation e' = 0 \<or> (\<exists>e. map_of es key = Some e \<and> incarnation e' = incarnation e))
      \<and> (in_flight e' \<longrightarrow> le_verdict e' = Negative \<or> (\<exists>e. map_of es key = Some e \<and> in_flight e \<and> le_verdict e = le_verdict e'))"
    and op_length: "wf_entries es \<Longrightarrow> finite leased \<Longrightarrow>
      length (fst (op tun leased es)) \<le> max (length es) (max (max_entries tun) (Suc (card leased)))"

lemma length_le_leased:
  assumes "wf_entries es" and "finite leased" and "fst ` set es \<subseteq> leased"
  shows "length es \<le> card leased"
proof -
  have "length es = card (fst ` set es)" using assms(1) by (metis distinct_card length_map set_map)
  then show ?thesis using assms(2,3) by (simp add: card_mono)
qed

lemma evict_insert_length:
  assumes wf: "wf_entries es" and fin: "finite leased"
  shows "Suc (length (evict_if_full tun leased es)) \<le> max (length es) (max (max_entries tun) (Suc (card leased)))"
proof (cases "fst ` set es \<subseteq> leased")
  case True
  have "length (evict_if_full tun leased es) \<le> length es" using wf by (rule evict_length)
  also have "\<dots> \<le> card leased" by (rule length_le_leased [OF wf fin True])
  finally show ?thesis by simp
next
  case False
  from evict_makes_room [OF wf False, of tun] show ?thesis by linarith
qed

lemma evict_other:
  "wf_entries es \<Longrightarrow> map_of (evict_if_full tun leased es) k = map_of es k
     \<or> k \<notin> leased \<and> map_of (evict_if_full tun leased es) k = None"
  by (cases rule: evict_if_full_cases [of es tun leased]) auto

lemma update_evicted_length:
  assumes "wf_entries es" and "finite leased"
  shows "length (AList.update key e (evict_if_full tun leased es))
     \<le> max (length es) (max (max_entries tun) (Suc (card leased)))"
  using evict_insert_length [OF assms, of tun] evict_length [OF assms(1), of tun leased]
  by (simp add: length_update)

lemma update_resident_length: "map_of es key = Some e \<Longrightarrow> length (AList.update key e' es) = length es"
  by (force simp: length_update dest: map_of_SomeD)

lemma observe_existing_slot:
  "incarnation (fst (observe_existing tun e tier now)) = incarnation e"
  "in_flight (fst (observe_existing tun e tier now)) = in_flight e"
  by (simp_all add: observe_existing_def Let_def split: SignalTier.split)

lemma fresh_entry_slot:
  "incarnation (fst (fresh_entry tun tier phase source ec now)) = 0"
  "\<not> in_flight (fst (fresh_entry tun tier phase source ec now))"
  by (simp_all add: fresh_entry_def Let_def split: SignalTier.split prod.split)

lemma fst_observe_in:
  "fst (observe_in tun leased key tier phase source ec now es) = (case map_of es key of
     None \<Rightarrow> AList.update key (fst (fresh_entry tun tier phase source ec now)) (evict_if_full tun leased es)
   | Some e \<Rightarrow> (case le_verdict e of
       Negative \<Rightarrow> AList.update key (fst (observe_existing tun e tier now)) es
     | Verified \<Rightarrow> (case tier of
         SelfIdentifying \<Rightarrow> AList.update key (fst (fresh_entry tun tier phase source ec now)) es
       | Inferred \<Rightarrow> es)))"
  by (simp add: observe_in_def Let_def split: option.split EntryVerdict.split SignalTier.split prod.split)

lemma fst_observe_positive_in:
  "fst (observe_positive_in tun leased key source ec now es) = (case map_of es key of
     None \<Rightarrow> AList.update key (fresh_positive source ec now) (evict_if_full tun leased es)
   | Some e \<Rightarrow> (case le_verdict e of
       Negative \<Rightarrow> es
     | Verified \<Rightarrow> AList.update key
         (e\<lparr>observations := saturating_add_u32 (observations e) 1, last_seen := now\<rparr>) es))"
  by (simp add: observe_positive_in_def split: option.split EntryVerdict.split)

interpretation obs: entry_operation key "\<lambda>tun leased. observe_in tun leased key tier phase source ec now"
  for key tier phase source ec now
proof
  fix es tun leased
  assume wf: "wf_entries es"
  show "wf_entries (fst (observe_in tun leased key tier phase source ec now es))"
    using wf by (rule wf_ops)
  show "length (fst (observe_in tun leased key tier phase source ec now es))
      \<le> max (length es) (max (max_entries tun) (Suc (card leased)))" if "finite leased"
    using update_evicted_length [OF wf that] update_resident_length [of es key]
    by (auto simp: fst_observe_in split: option.split EntryVerdict.split SignalTier.split)
next
  fix es k tun leased
  assume "wf_entries es" "k \<noteq> key"
  then show "map_of (fst (observe_in tun leased key tier phase source ec now es)) k = map_of es k
      \<or> k \<notin> leased \<and> map_of (fst (observe_in tun leased key tier phase source ec now es)) k = None"
    using evict_other [of es tun leased k]
    by (auto simp: fst_observe_in split: option.split EntryVerdict.split SignalTier.split)
next
  fix es tun leased e'
  assume "wf_entries es" "map_of (fst (observe_in tun leased key tier phase source ec now es)) key = Some e'"
  then show "(incarnation e' = 0 \<or> (\<exists>e. map_of es key = Some e \<and> incarnation e' = incarnation e))
      \<and> (in_flight e' \<longrightarrow> le_verdict e' = Negative \<or> (\<exists>e. map_of es key = Some e \<and> in_flight e \<and> le_verdict e = le_verdict e'))"
    by (auto simp: fst_observe_in observe_existing_slot observe_existing_keeps fresh_entry_slot
        split: option.splits EntryVerdict.splits SignalTier.splits)
qed

interpretation pos: entry_operation key "\<lambda>tun leased. observe_positive_in tun leased key source ec now"
  for key source ec now
proof
  fix es tun leased
  assume wf: "wf_entries es"
  show "wf_entries (fst (observe_positive_in tun leased key source ec now es))"
    using wf by (rule wf_ops)
  show "length (fst (observe_positive_in tun leased key source ec now es))
      \<le> max (length es) (max (max_entries tun) (Suc (card leased)))" if "finite leased"
    using update_evicted_length [OF wf that] update_resident_length [of es key]
    by (auto simp: fst_observe_positive_in split: option.split EntryVerdict.split)
next
  fix es k tun leased
  assume "wf_entries es" "k \<noteq> key"
  then show "map_of (fst (observe_positive_in tun leased key source ec now es)) k = map_of es k
      \<or> k \<notin> leased \<and> map_of (fst (observe_positive_in tun leased key source ec now es)) k = None"
    using evict_other [of es tun leased k]
    by (auto simp: fst_observe_positive_in split: option.split EntryVerdict.split)
next
  fix es tun leased e'
  assume "wf_entries es" "map_of (fst (observe_positive_in tun leased key source ec now es)) key = Some e'"
  then show "(incarnation e' = 0 \<or> (\<exists>e. map_of es key = Some e \<and> incarnation e' = incarnation e))
      \<and> (in_flight e' \<longrightarrow> le_verdict e' = Negative \<or> (\<exists>e. map_of es key = Some e \<and> in_flight e \<and> le_verdict e = le_verdict e'))"
    by (auto simp: fst_observe_positive_in fresh_positive_def split: option.splits EntryVerdict.splits)
qed

text \<open>An operation that changes at most the entry of its key, or removes it.\<close>

lemma entry_operation_local:
  assumes "\<And>tun leased es. fst (op tun leased es) = es
      \<or> fst (op tun leased es) = AList.delete key es
      \<or> (\<exists>e e'. map_of es key = Some e \<and> fst (op tun leased es) = AList.update key e' es
           \<and> incarnation e' = incarnation e \<and> le_verdict e' = le_verdict e
           \<and> (in_flight e' \<longrightarrow> in_flight e \<or> le_verdict e = Negative))"
  shows "entry_operation key op"
proof
  fix es tun leased
  assume wf: "wf_entries es"
  from assms [of tun leased es] show "wf_entries (fst (op tun leased es))"
    using wf by (auto simp: wf_delete distinct_update)
  show "length (fst (op tun leased es)) \<le> max (length es) (max (max_entries tun) (Suc (card leased)))"
    using assms [of tun leased es] length_delete_le [of key es] update_resident_length [of es key] by auto
next
  fix es k tun leased
  assume "wf_entries es" "k \<noteq> key"
  with assms [of tun leased es] show "map_of (fst (op tun leased es)) k = map_of es k
      \<or> k \<notin> leased \<and> map_of (fst (op tun leased es)) k = None" by auto
next
  fix es tun leased e'
  assume "wf_entries es" "map_of (fst (op tun leased es)) key = Some e'"
  with assms [of tun leased es]
  show "(incarnation e' = 0 \<or> (\<exists>e. map_of es key = Some e \<and> incarnation e' = incarnation e))
      \<and> (in_flight e' \<longrightarrow> le_verdict e' = Negative \<or> (\<exists>e. map_of es key = Some e \<and> in_flight e \<and> le_verdict e = le_verdict e'))"
    by auto
qed

interpretation qry: entry_operation key "\<lambda>tun leased. acting_negative_for_in key now" for key now
  by (rule entry_operation_local)
     (auto simp: acting_negative_for_in_def is_expired_def split: option.split)

interpretation stl: entry_operation key "\<lambda>tun leased es. (record_probe_outcome_in hash tun key outcome now es, ())"
  for key hash outcome now
  by (rule entry_operation_local)
     (auto simp: record_probe_outcome_in_def Let_def split: option.split ProbeOutcome.split)

interpretation expi: entry_operation key "\<lambda>tun leased. expire_keyed_in key now" for key now
  by (rule entry_operation_local) (auto simp: expire_keyed_in_def split: option.split)

interpretation rmv: entry_operation key "\<lambda>tun leased. remove_keyed_in key" for key
  by (rule entry_operation_local) (auto simp: remove_keyed_in_def)

interpretation look: entry_operation key "\<lambda>tun leased es. (es, f es)" for key and f :: "entries \<Rightarrow> 'a"
  by (rule entry_operation_local) simp

subsection \<open>The registry with the leases its callers hold\<close>

type_synonym world = "LearnedCapabilityRegistry \<times> PurgeLease set"

datatype reg_op =
    Observe u64 string string string SignalTier FailurePhase EvidenceSource "string option" instant
  | ObservePositive u64 string string string EvidenceSource "string option" instant
  | Query u64 string string string instant
  | Expire u64 string string string instant
  | Settle u64 string string string ProbeOutcome instant
  | Remove u64 string string string
  | Retune duration duration usize
  | Prepare u64 string string string
  | Finalize PurgeLease
  | Restore PurgeLease
  | Cut bool
  | Rollback BoundaryReceipt
  | Commit BoundaryReceipt

inductive world_step :: "(RegistryKey \<Rightarrow> u32 \<Rightarrow> u64) \<Rightarrow> world \<Rightarrow> reg_op \<Rightarrow> world \<Rightarrow> bool" for hash where
  observe: "world_step hash (r, L) (Observe g sk f kind tier phase source ec now)
     (fst (observe_in_generation_with_observations g sk f kind tier phase source ec now r), L)"
| positive: "world_step hash (r, L) (ObservePositive g sk f kind source ec now)
     (fst (observe_positive_in_generation g sk f kind source ec now r), L)"
| query: "world_step hash (r, L) (Query g sk f kind now)
     (fst (acting_negative_in_generation g sk f kind now r), L)"
| expire: "world_step hash (r, L) (Expire g sk f kind now)
     (fst (expire_keyed_in_generation g sk f kind now r), L)"
| settle: "world_step hash (r, L) (Settle g sk f kind outcome now)
     (fst (record_probe_outcome_in_generation hash g sk f kind outcome now r), L)"
| remove: "world_step hash (r, L) (Remove g sk f kind) (fst (remove_keyed_in_generation g sk f kind r), L)"
| retune: "world_step hash (r, L) (Retune d w c) (retune d w c r, L)"
| prepare: "prepare_purge g sk f kind r = (r', prep) \<Longrightarrow>
     world_step hash (r, L) (Prepare g sk f kind)
       (r', case prep of ReservedLease l \<Rightarrow> insert l L | _ \<Rightarrow> L)"
| finalize: "l \<in> L \<Longrightarrow> world_step hash (r, L) (Finalize l) (fst (finalize_purge l r), L - {l})"
| restore: "l \<in> L \<Longrightarrow> world_step hash (r, L) (Restore l) (restore_purge l r, L - {l})"
| cut: "world_step hash (r, L) (Cut ok) (fst (with_boundary_cut (\<lambda>rows g. ok) (\<lambda>out. out) r), L)"
| rollback: "world_step hash (r, L) (Rollback rc) (fst (rollback_pending_generation rc r), L)"
| commit: "world_step hash (r, L) (Commit rc) (fst (commit_boundary_transition rc r), L)"

inductive_cases world_stepE: "world_step hash w op w'"

text \<open>A path takes steps whose operation and resulting state satisfy \<open>P\<close>.\<close>

inductive world_path :: "(RegistryKey \<Rightarrow> u32 \<Rightarrow> u64) \<Rightarrow> (reg_op \<Rightarrow> world \<Rightarrow> bool) \<Rightarrow> world \<Rightarrow> world \<Rightarrow> bool"
  for hash P where
  stop: "world_path hash P w w"
| step: "world_step hash w op w' \<Longrightarrow> P op w' \<Longrightarrow> world_path hash P w' w'' \<Longrightarrow> world_path hash P w w''"

abbreviation any_step :: "reg_op \<Rightarrow> world \<Rightarrow> bool" where "any_step op w \<equiv> True"

definition reachable_world :: "(RegistryKey \<Rightarrow> u32 \<Rightarrow> u64) \<Rightarrow> world \<Rightarrow> bool" where
  "reachable_world hash w \<longleftrightarrow> (\<exists>d v c. world_path hash any_step (registry_new d v c, {}) w)"

definition world_inv :: "world \<Rightarrow> bool" where
  "world_inv w = (case w of (r, L) \<Rightarrow>
     wf_entries (lcr_entries r)
     \<and> finite L \<and> inj_on pl_key L \<and> pl_key ` L = purge_leases r
     \<and> (\<forall>l \<in> L. map_of (lcr_entries r) (pl_key l) = Some (pl_captured l)
                \<and> incarnation (pl_captured l) = pl_incarnation l)
     \<and> (pending_generation r \<noteq> None \<longrightarrow> L = {})
     \<and> (\<forall>rc. pending_generation r = Some rc \<longrightarrow>
          br_generation rc = lcr_generation r + 1 \<and> br_id rc \<le> next_receipt_id r)
     \<and> (\<forall>k e. map_of (lcr_entries r) k = Some e \<longrightarrow>
          incarnation e \<le> next_incarnation r \<and> (in_flight e \<longrightarrow> le_verdict e = Negative)))"

lemma world_invI [intro?]:
  assumes "wf_entries (lcr_entries r)" "finite L" "inj_on pl_key L" "pl_key ` L = purge_leases r"
    "\<And>l. l \<in> L \<Longrightarrow> map_of (lcr_entries r) (pl_key l) = Some (pl_captured l)
       \<and> incarnation (pl_captured l) = pl_incarnation l"
    "pending_generation r \<noteq> None \<Longrightarrow> L = {}"
    "\<And>rc. pending_generation r = Some rc \<Longrightarrow>
       br_generation rc = lcr_generation r + 1 \<and> br_id rc \<le> next_receipt_id r"
    "\<And>k e. map_of (lcr_entries r) k = Some e \<Longrightarrow>
       incarnation e \<le> next_incarnation r \<and> (in_flight e \<longrightarrow> le_verdict e = Negative)"
  shows "world_inv (r, L)"
  using assms by (simp add: world_inv_def)

lemma world_invD:
  assumes "world_inv (r, L)"
  shows "wf_entries (lcr_entries r)" and "finite L" and "inj_on pl_key L" and "pl_key ` L = purge_leases r"
    and "l \<in> L \<Longrightarrow> map_of (lcr_entries r) (pl_key l) = Some (pl_captured l)"
    and "l \<in> L \<Longrightarrow> incarnation (pl_captured l) = pl_incarnation l"
    and "pending_generation r \<noteq> None \<Longrightarrow> L = {}"
    and "pending_generation r = Some rc \<Longrightarrow> br_generation rc = lcr_generation r + 1"
    and "pending_generation r = Some rc \<Longrightarrow> br_id rc \<le> next_receipt_id r"
    and "map_of (lcr_entries r) k = Some e \<Longrightarrow> incarnation e \<le> next_incarnation r"
    and "map_of (lcr_entries r) k = Some e \<Longrightarrow> in_flight e \<Longrightarrow> le_verdict e = Negative"
  using assms by (auto simp: world_inv_def)

text \<open>What a guarded operation leaves alone.\<close>

definition same_frame :: "LearnedCapabilityRegistry \<Rightarrow> LearnedCapabilityRegistry \<Rightarrow> bool" where
  "same_frame r r' \<longleftrightarrow> lcr_tuning r' = lcr_tuning r \<and> lcr_generation r' = lcr_generation r
     \<and> pending_generation r' = pending_generation r \<and> next_receipt_id r' = next_receipt_id r
     \<and> purge_leases r' = purge_leases r \<and> next_incarnation r \<le> next_incarnation r'"

lemma stamp_map_of:
  "map_of (stamp_incarnation key i es) k = (if k = key
     then map_option (\<lambda>e. e\<lparr>incarnation := i\<rparr>) (map_of es key) else map_of es k)"
  by (auto simp: stamp_incarnation_def split: option.split)

lemma stamp_wf: "wf_entries es \<Longrightarrow> wf_entries (stamp_incarnation key i es)"
  by (simp add: stamp_incarnation_def distinct_update split: option.split)

lemma stamp_length [simp]: "length (stamp_incarnation key i es) = length es"
  using update_resident_length [of es key] by (simp add: stamp_incarnation_def split: option.split)

text \<open>The three ways a guarded operation can go.\<close>

lemma guarded_keyed_cases:
  obtains (refused) "fst (guarded_keyed g key intent feature op r) = r"
      "snd (guarded_keyed g key intent feature op r) \<in> {Stale, Reserved}"
  | (exhausted) "intent = Mutate" "\<not> next_incarnation r + 1 \<le> U64_MAX"
      "guarded_keyed g key intent feature op r =
        (r\<lparr>exhausted_incarnations := exhausted_incarnations r + 1\<rparr>, Exhausted)"
  | (mutated) "intent = Mutate" "admits_generation r g feature" "key \<notin> purge_leases r" "next_incarnation r + 1 \<le> U64_MAX"
      "guarded_keyed g key intent feature op r =
        (r\<lparr>next_incarnation := next_incarnation r + 1,
           lcr_entries := stamp_incarnation key (next_incarnation r + 1)
             (fst (op (lcr_tuning r) (purge_leases r) (lcr_entries r)))\<rparr>,
         Applied (snd (op (lcr_tuning r) (purge_leases r) (lcr_entries r))) (next_incarnation r + 1)
           (effective_persistence_generation r))"
  | (read) "intent = Read" "admits_generation r g feature" "key \<notin> purge_leases r"
      "guarded_keyed g key intent feature op r =
        (r\<lparr>lcr_entries := fst (op (lcr_tuning r) (purge_leases r) (lcr_entries r))\<rparr>,
         Applied (snd (op (lcr_tuning r) (purge_leases r) (lcr_entries r)))
           (case map_of (fst (op (lcr_tuning r) (purge_leases r) (lcr_entries r))) key of
              None \<Rightarrow> 0 | Some e \<Rightarrow> incarnation e)
           (effective_persistence_generation r))"
proof (cases "admits_generation r g feature \<and> key \<notin> purge_leases r")
  case False
  then show ?thesis using refused by (auto simp: guarded_keyed_def)
next
  case True
  show ?thesis
  proof (cases intent)
    case Mutate
    show ?thesis
    proof (cases "next_incarnation r + 1 \<le> U64_MAX")
      case False
      show ?thesis by (rule exhausted [OF Mutate False])
        (use True False in \<open>simp add: guarded_keyed_def Mutate reserve_incarnation_def\<close>)
    next
      case ok: True
      show ?thesis by (rule mutated [OF Mutate _ _ ok])
        (use True ok in \<open>simp_all add: guarded_keyed_def Mutate reserve_incarnation_def
           effective_persistence_generation_def split: prod.split option.split\<close>)
    qed
  next
    case Read
    show ?thesis by (rule read [OF Read])
      (use True in \<open>simp_all add: guarded_keyed_def Read split: prod.split\<close>)
  qed
qed

lemma guarded_frame: "same_frame r (fst (guarded_keyed g key intent feature op r))"
  by (cases g key intent feature op r rule: guarded_keyed_cases) (auto simp: same_frame_def)

context entry_operation
begin

lemma guarded_entries:
  fixes g :: u64 and intent :: Intent and feature :: string and r :: LearnedCapabilityRegistry
  assumes "wf_entries (lcr_entries r)"
  defines "r' \<equiv> fst (guarded_keyed g key intent feature op r)"
  shows "wf_entries (lcr_entries r')"
    and "k \<noteq> key \<Longrightarrow> map_of (lcr_entries r') k = map_of (lcr_entries r) k
        \<or> k \<notin> purge_leases r \<and> map_of (lcr_entries r') k = None"
    and "key \<in> purge_leases r \<Longrightarrow> lcr_entries r' = lcr_entries r"
  using assms op_wf [OF assms(1)] op_other [OF assms(1)]
  by (cases g key intent feature op r rule: guarded_keyed_cases;
      simp add: stamp_wf stamp_map_of)+

lemma guarded_key_entry:
  assumes wf: "wf_entries (lcr_entries r)"
    and bound: "\<And>k e. map_of (lcr_entries r) k = Some e \<Longrightarrow>
       incarnation e \<le> next_incarnation r \<and> (in_flight e \<longrightarrow> le_verdict e = Negative)"
    and e': "map_of (lcr_entries (fst (guarded_keyed g key intent feature op r))) key = Some e'"
  shows "incarnation e' \<le> next_incarnation (fst (guarded_keyed g key intent feature op r))
    \<and> (in_flight e' \<longrightarrow> le_verdict e' = Negative)"
proof (cases g key intent feature op r rule: guarded_keyed_cases)
  case mutated
  let ?es = "fst (op (lcr_tuning r) (purge_leases r) (lcr_entries r))"
  obtain e where e: "map_of ?es key = Some e" "e' = e\<lparr>incarnation := next_incarnation r + 1\<rparr>"
    using e' by (auto simp: mutated(5) stamp_map_of)
  from op_key [OF wf e(1)] bound have "in_flight e \<longrightarrow> le_verdict e = Negative" by fastforce
  then show ?thesis by (simp add: mutated(5) e(2))
next
  case read
  from op_key [OF wf, of "lcr_tuning r" "purge_leases r" e'] e' bound show ?thesis
    by (fastforce simp: read(4))
qed (use e' bound in auto)

lemma guarded_inv:
  assumes inv: "world_inv (r, L)"
  shows "world_inv (fst (guarded_keyed g key intent feature op r), L)"
proof
  let ?r = "fst (guarded_keyed g key intent feature op r)"
  note D = world_invD [OF inv]
  have fr: "lcr_generation ?r = lcr_generation r" "pending_generation ?r = pending_generation r"
    "next_receipt_id ?r = next_receipt_id r" "purge_leases ?r = purge_leases r"
    "next_incarnation r \<le> next_incarnation ?r"
    using guarded_frame [of r g key intent feature op] by (simp_all add: same_frame_def)
  note E = guarded_entries [OF D(1), where g = g and intent = intent and feature = feature]
  show "wf_entries (lcr_entries ?r)" by (rule E(1))
  show "finite L" "inj_on pl_key L" by (fact D)+
  show "pl_key ` L = purge_leases ?r" by (simp add: fr D(4))
  show "L = {}" if "pending_generation ?r \<noteq> None" using that D(7) by (simp add: fr)
  show "br_generation rc = lcr_generation ?r + 1 \<and> br_id rc \<le> next_receipt_id ?r"
    if "pending_generation ?r = Some rc" for rc using that D(8,9) by (simp add: fr)
  show "map_of (lcr_entries ?r) (pl_key l) = Some (pl_captured l)
      \<and> incarnation (pl_captured l) = pl_incarnation l" if l: "l \<in> L" for l
  proof -
    have "pl_key l \<in> purge_leases r" using D(4) l by auto
    then have "map_of (lcr_entries ?r) (pl_key l) = map_of (lcr_entries r) (pl_key l)"
      using E(2) [where k = "pl_key l"] E(3) by (cases "pl_key l = key") auto
    then show ?thesis using D(5,6) [OF l] by simp
  qed
  show "incarnation e \<le> next_incarnation ?r \<and> (in_flight e \<longrightarrow> le_verdict e = Negative)"
    if e: "map_of (lcr_entries ?r) k = Some e" for k e
  proof (cases "k = key")
    case True
    have "incarnation e \<le> next_incarnation r \<and> (in_flight e \<longrightarrow> le_verdict e = Negative)"
      if "map_of (lcr_entries r) k = Some e" for k e using that D(10,11) by blast
    from guarded_key_entry [OF D(1) this] e show ?thesis by (simp add: True)
  next
    case False
    with E(2) [where k = k] e have "map_of (lcr_entries r) k = Some e" by auto
    then show ?thesis using D(10,11) [of k e] fr(5) by fastforce
  qed
qed

lemma guarded_length:
  assumes "wf_entries (lcr_entries r)" and "finite (purge_leases r)"
  shows "length (lcr_entries (fst (guarded_keyed g key intent feature op r)))
    \<le> max (length (lcr_entries r)) (max (max_entries (lcr_tuning r)) (Suc (card (purge_leases r))))"
  using op_length [OF assms, of "lcr_tuning r"]
  by (cases g key intent feature op r rule: guarded_keyed_cases) simp_all

end

subsection \<open>Every step keeps the invariant\<close>

lemma fst_acting_negative:
  "fst (acting_negative_in_generation g sk f kind now r) =
     fst (guarded_keyed g (make_key sk f kind) Read f (\<lambda>tun leased. acting_negative_for_in (make_key sk f kind) now) r)"
  by (simp add: acting_negative_in_generation_def guarded_read_def split: prod.split GenerationOutcome.split)

lemma fst_observe_with_observations:
  "fst (observe_in_generation_with_observations g sk f kind tier phase source ec now r) =
     fst (observe_in_generation g sk f kind tier phase source ec now r)"
  unfolding observe_in_generation_with_observations_def observe_in_generation_def guarded_for_def
  by (simp add: guarded_keyed_def Let_def split: prod.split Intent.split option.split)

lemmas guarded_step_defs = fst_acting_negative fst_observe_with_observations observe_in_generation_def
  observe_positive_in_generation_def expire_keyed_in_generation_def
  record_probe_outcome_in_generation_def remove_keyed_in_generation_def guarded_for_def

lemma release_inv:
  assumes inv: "world_inv (r, L)" and l: "l \<in> L"
  shows "world_inv (release_lease l r, L - {l})"
    and "world_inv (release_lease l (r\<lparr>lcr_entries := AList.delete (pl_key l) (lcr_entries r)\<rparr>), L - {l})"
proof -
  note D = world_invD [OF inv]
  have keys: "pl_key ` (L - {l}) = purge_leases r - {pl_key l}"
    using D(3,4) l by (auto simp: inj_on_def)
  have ne: "pl_key x \<noteq> pl_key l" if "x \<in> L - {l}" for x using that D(3) l by (auto simp: inj_on_def)
  have pend: "pending_generation r = None" using D(7) l by (cases "pending_generation r") auto
  show "world_inv (release_lease l r, L - {l})"
    using D keys pend by (intro world_invI) (auto simp: release_lease_def intro: inj_on_diff)
  show "world_inv (release_lease l (r\<lparr>lcr_entries := AList.delete (pl_key l) (lcr_entries r)\<rparr>), L - {l})"
    using D keys pend ne
    by (intro world_invI) (auto simp: release_lease_def wf_delete intro: inj_on_diff split: if_splits)
qed

lemma prepare_inv:
  assumes inv: "world_inv (r, L)" and p: "prepare_purge g sk f kind r = (r', prep)"
  shows "world_inv (r', case prep of ReservedLease l \<Rightarrow> insert l L | _ \<Rightarrow> L)"
proof (cases prep)
  case (ReservedLease l)
  note D = world_invD [OF inv]
  from p ReservedLease obtain e where
    e: "pending_generation r = None" "map_of (lcr_entries r) (make_key sk f kind) = Some e"
      "make_key sk f kind \<notin> purge_leases r"
    and r': "r' = r\<lparr>purge_leases := insert (make_key sk f kind) (purge_leases r)\<rparr>"
    and l: "pl_key l = make_key sk f kind" "pl_captured l = e" "pl_incarnation l = incarnation e"
    by (auto simp: prepare_purge_def Let_def split: if_splits option.splits)
  have "world_inv (r', insert l L)"
  proof
    show "inj_on pl_key (insert l L)" using D(3,4) e(3) l(1) by auto
  qed (use D e r' l in auto)
  then show ?thesis by (simp add: ReservedLease)
qed (use p inv in \<open>auto simp: prepare_purge_def Let_def split: if_splits option.splits\<close>)

lemma boundary_inv:
  assumes inv: "world_inv (r, L)"
  shows "world_inv (fst (with_boundary_cut submit ok r), L)"
    and "world_inv (fst (rollback_pending_generation rc r), L)"
    and "world_inv (fst (commit_boundary_transition rc r), L)"
proof -
  note D = world_invD [OF inv]
  show "world_inv (fst (with_boundary_cut submit ok r), L)"
  proof (cases "pending_generation r = None \<and> purge_leases r = {}")
    case True
    then have "L = {}" using D(4) by auto
    with True inv show ?thesis
      by (auto simp: with_boundary_cut_def Let_def world_inv_def)
  next
    case False
    then have "fst (with_boundary_cut submit ok r) = r" by (auto simp: with_boundary_cut_def split: option.split)
    then show ?thesis using inv by simp
  qed
  show "world_inv (fst (rollback_pending_generation rc r), L)"
    using inv by (auto simp: rollback_pending_generation_def world_inv_def)
  let ?P = "\<lambda>(k, e). \<not> capability_key_is_catalog_scoped (key_feature k)"
  show "world_inv (fst (commit_boundary_transition rc r), L)"
  proof (cases "pending_generation r = Some rc")
    case True
    then have L: "L = {}" "purge_leases r = {}" using D(4,7) by auto
    have wf: "wf_entries (filter ?P (lcr_entries r))" using D(1) by (rule distinct_map_filter)
    have sub: "map_of (lcr_entries r) k = Some e" if "map_of (filter ?P (lcr_entries r)) k = Some e" for k e
      using map_of_SomeD [OF that] D(1) by simp
    show ?thesis
      using inv L wf sub by (auto simp: commit_boundary_transition_def world_inv_def True Let_def)
  qed (use inv in \<open>simp add: commit_boundary_transition_def\<close>)
qed

lemma world_step_inv: "world_step hash w op w' \<Longrightarrow> world_inv w \<Longrightarrow> world_inv w'"
proof (induction rule: world_step.induct)
  case (retune r L d w c)
  then show ?case by (auto simp: world_inv_def retune_def)
next
  case (prepare g sk f kind r r' prep L)
  then show ?case by (blast intro: prepare_inv)
next
  case (finalize l L r)
  then show ?case using release_inv by (auto simp: finalize_purge_def Let_def)
next
  case (restore l L r)
  then show ?case using release_inv by (simp add: restore_purge_def)
qed (simp_all only: guarded_step_defs obs.guarded_inv pos.guarded_inv qry.guarded_inv expi.guarded_inv
      stl.guarded_inv rmv.guarded_inv boundary_inv)

lemma world_path_inv: "world_path hash P w w' \<Longrightarrow> world_inv w \<Longrightarrow> world_inv w'"
  by (induction rule: world_path.induct) (blast intro: world_step_inv)+

lemma new_inv: "world_inv (registry_new d v c, {})"
  by (simp add: world_inv_def registry_new_def)

lemma reachable_inv: "reachable_world hash w \<Longrightarrow> world_inv w"
  unfolding reachable_world_def using world_path_inv new_inv by blast

lemma world_path_trans: "world_path hash P a b \<Longrightarrow> world_path hash P b c \<Longrightarrow> world_path hash P a c"
  by (induction rule: world_path.induct) (auto intro: world_path.step)

lemma world_path_any: "world_path hash P a b \<Longrightarrow> world_path hash any_step a b"
  by (induction rule: world_path.induct) (auto intro: world_path.intros)

lemma reachable_path: "reachable_world hash w \<Longrightarrow> world_path hash P w w' \<Longrightarrow> reachable_world hash w'"
  unfolding reachable_world_def by (blast intro: world_path_trans world_path_any)

subsection \<open>Counters only grow\<close>

definition grows :: "LearnedCapabilityRegistry \<Rightarrow> LearnedCapabilityRegistry \<Rightarrow> bool" where
  "grows r r' \<longleftrightarrow> lcr_generation r \<le> lcr_generation r' \<and> next_receipt_id r \<le> next_receipt_id r'
     \<and> next_incarnation r \<le> next_incarnation r'
     \<and> (\<forall>rc. pending_generation r' = Some rc \<longrightarrow> pending_generation r = Some rc \<or> next_receipt_id r < br_id rc)"

lemma grows_guarded: "grows r (fst (guarded_keyed g key intent feature op r))"
  using guarded_frame [of r g key intent feature op] by (simp add: same_frame_def grows_def)

lemma grows_boundary:
  "grows r (fst (with_boundary_cut submit ok r))"
  "grows r (fst (rollback_pending_generation rc r))"
  "grows r (fst (commit_boundary_transition rc r))"
  by (auto simp: grows_def with_boundary_cut_def rollback_pending_generation_def
      commit_boundary_transition_def Let_def split: option.split)

lemma world_step_grows: "world_step hash w op w' \<Longrightarrow> grows (fst w) (fst w')"
proof (induction rule: world_step.induct)
  case (prepare g sk f kind r r' prep L)
  then show ?case by (auto simp: prepare_purge_def grows_def Let_def split: if_splits option.splits)
qed (simp_all add: guarded_step_defs grows_guarded grows_boundary,
     simp_all add: grows_def retune_def finalize_purge_def restore_purge_def release_lease_def Let_def)

lemma world_path_grows: "world_path hash P w w' \<Longrightarrow> grows (fst w) (fst w')"
proof (induction rule: world_path.induct)
  case (step w op w' w'')
  have a: "grows (fst w) (fst w')" using step.hyps(1) by (rule world_step_grows)
  have "next_receipt_id (fst w) \<le> next_receipt_id (fst w')" using a by (simp add: grows_def)
  with a step.IH show ?case unfolding grows_def by (meson le_less_trans order_trans)
qed (simp add: grows_def)

end
