(* ===== verification/Registry_Properties.thy ===== *)
theory Registry_Properties
  imports Learned_Registry
begin

text \<open>
  What the learned-capability registry promises over every interleaving of its operations
  (\<open>routectl-router/src/learned_capability.rs\<close>): purges remove exactly what was approved, boundaries
  settle once and shut out superseded generations, a lapsed negative is re-probed by one request at
  a time, and the map stays within its capacity; and two interleavings after which it is not
  re-probed at all.
\<close>

subsection \<open>A concrete run\<close>

text \<open>One rejection learned, its decay lapsed and re-probed, a purge and a boundary: the states the
  instances of the properties below are about.\<close>

definition demo_key :: RegistryKey where "demo_key = RegistryKey ''m'' ''web_search''"

definition demo_entry :: LearnedEntry where
  "demo_entry = \<lparr>incarnation = 1, le_verdict = Negative, signal = SelfIdentifying, observations = 1,
     first_seen = 1, last_seen = 1, expires_at = 11, in_flight = False, consecutive_failed_probes = 0,
     le_phase = F1, le_source = Live, evidence_class = None\<rparr>"

definition demo_learned :: LearnedCapabilityRegistry where
  "demo_learned = (registry_new 10 5 4)\<lparr>lcr_entries := [(demo_key, demo_entry)], next_incarnation := 1\<rparr>"

definition demo_claimed :: LearnedCapabilityRegistry where
  "demo_claimed = demo_learned\<lparr>lcr_entries := [(demo_key, demo_entry\<lparr>in_flight := True\<rparr>)]\<rparr>"

definition demo_lease :: "LearnedEntry \<Rightarrow> PurgeLease" where
  "demo_lease e = \<lparr>pl_incarnation = 1, pl_key = demo_key, pl_captured = e, pl_generation = 1\<rparr>"

definition demo_receipt :: BoundaryReceipt where "demo_receipt = \<lparr>br_generation = 2, br_id = 2\<rparr>"

definition demo_cut :: "LearnedCapabilityRegistry \<Rightarrow> LearnedCapabilityRegistry" where
  "demo_cut r = r\<lparr>pending_generation := Some demo_receipt, next_receipt_id := 2\<rparr>"

definition demo_leased :: "LearnedCapabilityRegistry \<Rightarrow> LearnedCapabilityRegistry" where
  "demo_leased r = r\<lparr>purge_leases := {demo_key}\<rparr>"

lemmas demo_defs = demo_key_def demo_entry_def demo_learned_def demo_claimed_def demo_lease_def
  demo_receipt_def demo_cut_def demo_leased_def registry_new_def

lemma demo_make_key [simp]: "make_key ''m'' ''web_search'' ''gemini'' = demo_key"
  by (simp add: make_key_def normalize_capability_key_def demo_key_def)

lemma demo_scoped [simp]: "capability_key_is_catalog_scoped ''web_search''"
  by (simp add: capability_key_is_catalog_scoped_def field_capability_path_def starts_with_def
      FIELD_CAPABILITY_PREFIX_def)

lemma demo_observe:
  "world_step hash (registry_new 10 5 4, {})
     (Observe 1 ''m'' ''web_search'' ''gemini'' SelfIdentifying F1 Live None 1) (demo_learned, {})"
proof -
  have "fst (observe_in_generation_with_observations 1 ''m'' ''web_search'' ''gemini'' SelfIdentifying F1 Live None 1
      (registry_new 10 5 4)) = demo_learned"
    by (simp add: guarded_step_defs guarded_keyed_def admits_generation_def reserve_incarnation_def observe_in_def
        evict_if_full_def fresh_entry_def stamp_incarnation_def U64_MAX_def demo_defs)
  then show ?thesis using world_step.observe by metis
qed

lemma demo_query:
  "acting_negative_in_generation 1 ''m'' ''web_search'' ''gemini'' 11 demo_learned
     = (demo_claimed, Some (ProbeAdmitted, 1))"
  "acting_negative_in_generation 1 ''m'' ''web_search'' ''gemini'' 11 (demo_cut demo_learned)
     = (demo_cut demo_claimed, Some (ProbeAdmitted, 2))"
  by (simp_all add: acting_negative_in_generation_def guarded_read_def guarded_keyed_def admits_generation_def
      acting_negative_for_in_def is_acting_def is_expired_def acting_decision_def
      effective_persistence_generation_def demo_defs)

lemma demo_prepare:
  "prepare_purge 1 ''m'' ''web_search'' ''gemini'' demo_learned = (demo_leased demo_learned, ReservedLease (demo_lease demo_entry))"
  "prepare_purge 1 ''m'' ''web_search'' ''gemini'' demo_claimed
     = (demo_leased demo_claimed, ReservedLease (demo_lease (demo_entry\<lparr>in_flight := True\<rparr>)))"
  by (simp_all add: prepare_purge_def admits_generation_def effective_persistence_generation_def Let_def demo_defs)

lemma demo_boundary: "fst (with_boundary_cut (\<lambda>rows g. True) (\<lambda>out. out) demo_learned) = demo_cut demo_learned"
  by (simp add: with_boundary_cut_def U64_MAX_def Let_def numeral_2_eq_2 demo_defs)

lemma demo_reachable:
  "reachable_world hash (demo_learned, {})" "reachable_world hash (demo_claimed, {})"
  "reachable_world hash (demo_leased demo_learned, {demo_lease demo_entry})"
  "reachable_world hash (demo_cut demo_learned, {})"
proof -
  show a: "reachable_world hash (demo_learned, {})"
    unfolding reachable_world_def by (blast intro: world_path.intros demo_observe)
  have one: "reachable_world hash w'" if "world_step hash (demo_learned, {}) op w'" for op w'
    using reachable_path [OF a, of any_step w'] that by (blast intro: world_path.intros)
  show "reachable_world hash (demo_claimed, {})"
    by (rule one) (rule world_step.query [of hash demo_learned "{}" 1 "''m''" "''web_search''" "''gemini''" 11,
      unfolded demo_query fst_conv])
  show "reachable_world hash (demo_leased demo_learned, {demo_lease demo_entry})"
    using one world_step.prepare [OF demo_prepare(1), of hash "{}"] by simp
  show "reachable_world hash (demo_cut demo_learned, {})"
    using one world_step.cut [of hash demo_learned "{}" True] by (simp add: demo_boundary)
qed

subsection \<open>Purges\<close>

text \<open>C13. While a purge lease is open nothing changes or evicts the captured entry: whenever its
  holder finalizes, exactly the captured version is resident and is removed, and no other key is
  touched.\<close>

theorem purge_removes_what_was_captured:
  assumes "reachable_world hash (r, L)" and "l \<in> L"
  shows "map_of (lcr_entries r) (pl_key l) = Some (pl_captured l)
    \<and> snd (finalize_purge l r)
    \<and> map_of (lcr_entries (fst (finalize_purge l r))) = (map_of (lcr_entries r))(pl_key l := None)"
proof -
  note D = world_invD [OF reachable_inv [OF assms(1)]]
  show ?thesis using D(5,6) [OF assms(2)] by (simp add: finalize_purge_def release_lease_def)
qed

theorem purge_removes_what_was_captured_witness:
  "snd (finalize_purge (demo_lease demo_entry) (demo_leased demo_learned))"
  using purge_removes_what_was_captured [OF demo_reachable(3) [of "\<lambda>k n. 0"], of "demo_lease demo_entry"] by simp

text \<open>Whatever is learned after a purge captured an entry carries a strictly larger incarnation
  than the captured one and than every resident one, so a consumer can drop the superseded events
  and keep the relearned ones.\<close>

lemma relearned_outranks_purged:
  assumes "reachable_world hash (r, L)" and "l \<in> L" and "world_path hash any_step (r, L) (r', L')"
    and "snd (guarded_keyed g key Mutate feature op r') = Applied v i gen"
  shows "pl_incarnation l < i \<and> (\<forall>k e. map_of (lcr_entries r') k = Some e \<longrightarrow> incarnation e < i)"
proof -
  note D = world_invD [OF reachable_inv [OF assms(1)]]
  note D' = world_invD [OF reachable_inv [OF reachable_path [OF assms(1,3)]]]
  have i: "i = next_incarnation r' + 1"
    using assms(4) by (cases g key Mutate feature op r' rule: guarded_keyed_cases) auto
  have "pl_incarnation l \<le> next_incarnation r" using D(10) [OF D(5) [OF assms(2)]] D(6) [OF assms(2)] by simp
  also have "\<dots> \<le> next_incarnation r'" using world_path_grows [OF assms(3)] by (simp add: grows_def)
  finally show ?thesis using D'(10) unfolding i by (simp add: less_Suc_eq_le)
qed

lemma relearned_outranks_purged_witness:
  "pl_incarnation (demo_lease demo_entry) < 2"
proof -
  have "snd (guarded_keyed 1 (RegistryKey ''n'' ''x'') Mutate ''x'' (\<lambda>tun leased es. (es, ())) (demo_leased demo_learned))
      = Applied () 2 1"
    by (simp add: guarded_keyed_def admits_generation_def reserve_incarnation_def U64_MAX_def
        effective_persistence_generation_def demo_defs)
  from relearned_outranks_purged [OF demo_reachable(3) [of "\<lambda>k n. 0"] _ world_path.stop this]
  show ?thesis by simp
qed

subsection \<open>Boundaries\<close>

text \<open>A boundary receipt settles at most once: after a boundary was committed or rolled back,
  presenting its receipt again, in any later state, changes nothing and is reported as stale, even
  when a later boundary reuses the same generation number.\<close>

lemma receipts_settle_once:
  assumes "reachable_world hash (r, L)" and "pending_generation r = Some rc"
    and "r1 \<in> {fst (commit_boundary_transition rc r), fst (rollback_pending_generation rc r)}"
    and "world_path hash any_step (r1, L) (r2, L2)"
  shows "commit_boundary_transition rc r2 = (r2, StaleReceipt)
    \<and> rollback_pending_generation rc r2 = (r2, StaleReceipt)"
proof -
  note D = world_invD [OF reachable_inv [OF assms(1)]]
  have "br_id rc \<le> next_receipt_id r" using D(9) assms(2) .
  moreover have "pending_generation r1 = None" "next_receipt_id r1 = next_receipt_id r"
    using assms(2,3) by (auto simp: commit_boundary_transition_def rollback_pending_generation_def Let_def)
  moreover have "grows r1 r2" using world_path_grows [OF assms(4)] by simp
  ultimately have "pending_generation r2 \<noteq> Some rc" by (auto simp: grows_def)
  then show ?thesis by (simp add: commit_boundary_transition_def rollback_pending_generation_def)
qed

lemma receipts_settle_once_witness:
  "let r = fst (rollback_pending_generation demo_receipt (demo_cut demo_learned))
   in commit_boundary_transition demo_receipt r = (r, StaleReceipt)"
proof -
  let ?r = "fst (rollback_pending_generation demo_receipt (demo_cut demo_learned))"
  have "pending_generation (demo_cut demo_learned) = Some demo_receipt" by (simp add: demo_cut_def)
  from receipts_settle_once [OF demo_reachable(4) [of "\<lambda>k n. 0"] this, of ?r ?r "{}"]
  show ?thesis by (simp add: world_path.stop)
qed

text \<open>C14. Committing a boundary evicts every catalog-scoped entry and no other, and from then on no
  operation of a superseded generation reads or writes a catalog-scoped key: in every later state it
  is refused and leaves the registry as it is.\<close>

theorem boundary_shuts_out_old_generations:
  assumes "reachable_world hash (r, L)" and "pending_generation r = Some rc"
    and "world_path hash any_step (fst (commit_boundary_transition rc r), L) (r2, L2)"
    and "g \<le> lcr_generation r" and "capability_key_is_catalog_scoped feature"
  shows "guarded_keyed g key intent feature op r2 = (r2, Stale)
    \<and> (\<forall>k. map_of (lcr_entries (fst (commit_boundary_transition rc r))) k
         = (if capability_key_is_catalog_scoped (key_feature k) then None else map_of (lcr_entries r) k))"
proof -
  note D = world_invD [OF reachable_inv [OF assms(1)]]
  let ?r1 = "fst (commit_boundary_transition rc r)"
  have "world_step hash (r, L) (Commit rc) (?r1, L)" by (rule world_step.commit)
  then have "world_path hash any_step (r, L) (?r1, L)" by (blast intro: world_path.intros)
  note D2 = world_invD [OF reachable_inv [OF reachable_path [OF reachable_path [OF assms(1) this] assms(3)]]]
  have gen1: "lcr_generation ?r1 = lcr_generation r + 1"
    using assms(2) D(8) [OF assms(2)] by (simp add: commit_boundary_transition_def Let_def)
  moreover have "lcr_generation ?r1 \<le> lcr_generation r2" using world_path_grows [OF assms(3)] by (simp add: grows_def)
  ultimately have g: "g < lcr_generation r2" using assms(4) by simp
  have "\<not> admits_generation r2 g feature"
    using g assms(5) D2(8) by (auto simp: admits_generation_def split: option.split)
  then have "guarded_keyed g key intent feature op r2 = (r2, Stale)" by (simp add: guarded_keyed_def)
  moreover have "map_of (filter (\<lambda>(k, e). \<not> capability_key_is_catalog_scoped (key_feature k)) es) k
      = (if capability_key_is_catalog_scoped (key_feature k) then None else map_of es k)" for es :: entries and k
    by (induction es) auto
  ultimately show ?thesis
    using assms(2) D(8) [OF assms(2)] by (simp add: commit_boundary_transition_def Let_def)
qed

theorem boundary_shuts_out_old_generations_witness:
  "let r = fst (commit_boundary_transition demo_receipt (demo_cut demo_learned))
   in remove_keyed_in_generation 1 ''m'' ''web_search'' ''gemini'' r = (r, Stale) \<and> map_of (lcr_entries r) demo_key = None"
proof -
  let ?r = "fst (commit_boundary_transition demo_receipt (demo_cut demo_learned))"
  have "pending_generation (demo_cut demo_learned) = Some demo_receipt" by (simp add: demo_cut_def)
  from boundary_shuts_out_old_generations [OF demo_reachable(4) [of "\<lambda>k n. 0"] this world_path.stop, of 1
      "''web_search''" demo_key Mutate "\<lambda>tun leased. remove_keyed_in demo_key"]
  show ?thesis by (simp add: remove_keyed_in_generation_def guarded_for_def Let_def demo_cut_def demo_learned_def
      registry_new_def demo_key_def)
qed

subsection \<open>Re-probes\<close>

text \<open>An operation settles the slot of \<open>k\<close> when it reports a probe's outcome on it or expires it.\<close>

fun settles_key :: "RegistryKey \<Rightarrow> reg_op \<Rightarrow> bool" where
  "settles_key k (Expire g sk f kind now) \<longleftrightarrow> make_key sk f kind = k"
| "settles_key k (Settle g sk f kind outcome now) \<longleftrightarrow> make_key sk f kind = k"
| "settles_key k op \<longleftrightarrow> False"

definition slot_held :: "RegistryKey \<Rightarrow> LearnedCapabilityRegistry \<Rightarrow> bool" where
  "slot_held k r \<longleftrightarrow> (\<exists>e. map_of (lcr_entries r) k = Some e \<and> in_flight e)"

text \<open>The entry of \<open>k\<close> stays and its slot is not settled.\<close>

definition slot_untouched :: "RegistryKey \<Rightarrow> reg_op \<Rightarrow> world \<Rightarrow> bool" where
  "slot_untouched k op w \<longleftrightarrow> \<not> settles_key k op \<and> map_of (lcr_entries (fst w)) k \<noteq> None"

lemma guarded_slot:
  assumes held: "slot_held k r"
    and op: "\<And>tun leased. map_of (fst (op tun leased (lcr_entries r))) k = None
       \<or> (\<exists>e. map_of (fst (op tun leased (lcr_entries r))) k = Some e \<and> in_flight e)"
    and res: "map_of (lcr_entries (fst (guarded_keyed g key intent feature op r))) k \<noteq> None"
  shows "slot_held k (fst (guarded_keyed g key intent feature op r))"
  using held op [of "lcr_tuning r" "purge_leases r"] res
  by (cases g key intent feature op r rule: guarded_keyed_cases)
     (auto simp: slot_held_def stamp_map_of)

lemma observe_in_slot:
  assumes "wf_entries es" and "map_of es k = Some e" and "in_flight e" and "le_verdict e = Negative"
  shows "map_of (fst (observe_in tun leased key tier phase source ec now es)) k = None
    \<or> (\<exists>e. map_of (fst (observe_in tun leased key tier phase source ec now es)) k = Some e \<and> in_flight e)"
  using assms(2-4) evict_other [OF assms(1), of tun leased k]
  by (auto simp: fst_observe_in observe_existing_slot split: option.split EntryVerdict.split SignalTier.split)

lemma observe_positive_in_slot:
  assumes "wf_entries es" and "map_of es k = Some e" and "in_flight e" and "le_verdict e = Negative"
  shows "map_of (fst (observe_positive_in tun leased key source ec now es)) k = None
    \<or> (\<exists>e. map_of (fst (observe_positive_in tun leased key source ec now es)) k = Some e \<and> in_flight e)"
  using assms(2-4) evict_other [OF assms(1), of tun leased k]
  by (auto simp: fst_observe_positive_in split: option.split EntryVerdict.split)

lemma world_step_slot:
  assumes "world_step hash w op w'" and "world_inv w" and "slot_held k (fst w)" and "slot_untouched k op w'"
  shows "slot_held k (fst w')"
  using assms
proof (induction rule: world_step.induct)
  case (observe r L g sk f kind tier phase source ec now)
  note D = world_invD [OF observe.prems(1)]
  from observe.prems(2) obtain e where "map_of (lcr_entries r) k = Some e" "in_flight e"
    by (auto simp: slot_held_def)
  note slot = observe_in_slot [OF D(1) this D(11) [OF this]]
  from observe.prems show ?case
    unfolding fst_conv guarded_step_defs slot_untouched_def
    by (intro guarded_slot) (simp_all add: slot)
next
  case (positive r L g sk f kind source ec now)
  note D = world_invD [OF positive.prems(1)]
  from positive.prems(2) obtain e where "map_of (lcr_entries r) k = Some e" "in_flight e"
    by (auto simp: slot_held_def)
  note slot = observe_positive_in_slot [OF D(1) this D(11) [OF this]]
  from positive.prems show ?case
    unfolding fst_conv guarded_step_defs slot_untouched_def
    by (intro guarded_slot) (simp_all add: slot)
next
  case (query r L g sk f kind now)
  then show ?case
    unfolding fst_conv guarded_step_defs slot_untouched_def
    by (intro guarded_slot) (auto simp: acting_negative_for_in_def slot_held_def split: option.split)
next
  case (expire r L g sk f kind now)
  then show ?case
    unfolding fst_conv guarded_step_defs slot_untouched_def
    by (intro guarded_slot) (auto simp: expire_keyed_in_def slot_held_def split: option.split)
next
  case (settle r L g sk f kind outcome now)
  then show ?case
    unfolding fst_conv guarded_step_defs slot_untouched_def
    by (intro guarded_slot)
       (auto simp: record_probe_outcome_in_def slot_held_def Let_def split: option.split ProbeOutcome.split)
next
  case (remove r L g sk f kind)
  then show ?case
    unfolding fst_conv guarded_step_defs slot_untouched_def
    by (intro guarded_slot) (auto simp: remove_keyed_in_def slot_held_def)
next
  case (commit r L rc)
  let ?P = "\<lambda>(k, e). \<not> capability_key_is_catalog_scoped (key_feature k)"
  note D = world_invD [OF commit.prems(1)]
  have "map_of (lcr_entries r) k = Some e" if "map_of (filter ?P (lcr_entries r)) k = Some e" for e
    using map_of_SomeD [OF that] D(1) by simp
  with commit.prems(2,3) show ?case
    by (fastforce simp: commit_boundary_transition_def slot_held_def slot_untouched_def Let_def split: if_splits)
qed (auto simp: slot_held_def slot_untouched_def retune_def prepare_purge_def finalize_purge_def restore_purge_def
    release_lease_def with_boundary_cut_def rollback_pending_generation_def Let_def
    split: if_splits option.splits)

lemma world_path_slot:
  "world_path hash (slot_untouched k) w w' \<Longrightarrow> world_inv w \<Longrightarrow> slot_held k (fst w) \<Longrightarrow> slot_held k (fst w')"
  by (induction rule: world_path.induct) (auto intro: world_step_slot world_step_inv)

lemma acting_negative_Some:
  assumes "snd (acting_negative_in_generation g sk f kind now r) = Some (d, gen)"
  shows "snd (acting_negative_for_in (make_key sk f kind) now (lcr_entries r)) = d"
    and "fst (acting_negative_in_generation g sk f kind now r) =
      r\<lparr>lcr_entries := fst (acting_negative_for_in (make_key sk f kind) now (lcr_entries r))\<rparr>"
    and "gen = effective_persistence_generation r"
  using assms
  by (auto simp: acting_negative_in_generation_def guarded_read_def guarded_keyed_def
      split: prod.splits GenerationOutcome.splits if_splits)

lemma held_not_admitted:
  "slot_held k r \<Longrightarrow> make_key sk f kind = k \<Longrightarrow>
     snd (acting_negative_in_generation g sk f kind now r) \<noteq> Some (ProbeAdmitted, gen)"
  by (auto dest!: acting_negative_Some(1) simp: slot_held_def acting_negative_for_in_def acting_decision_def
      split: if_splits EntryVerdict.splits)

lemma admitted_held:
  assumes "snd (acting_negative_in_generation g sk f kind now r) = Some (ProbeAdmitted, gen)"
  shows "slot_held (make_key sk f kind) (fst (acting_negative_in_generation g sk f kind now r))"
  using acting_negative_Some [OF assms]
  by (auto simp: slot_held_def acting_negative_for_in_def acting_decision_def
      split: option.splits if_splits EntryVerdict.splits)

text \<open>C18. A lapsed negative is re-probed by one request at a time: after a request was admitted to
  re-probe a key, no request (of any generation, under any spelling of the key, at any time) is
  admitted again as long as the entry stays and its slot was neither settled nor expired.\<close>

theorem one_reprobe_in_flight:
  assumes "reachable_world hash (r, L)"
    and "acting_negative_in_generation g sk f kind now r = (r1, Some (ProbeAdmitted, gen))"
    and "world_path hash (slot_untouched (make_key sk f kind)) (r1, L) (r2, L2)"
    and "make_key sk' f' kind' = make_key sk f kind"
  shows "snd (acting_negative_in_generation g' sk' f' kind' now' r2) \<noteq> Some (ProbeAdmitted, gen')"
proof -
  have "world_step hash (r, L) (Query g sk f kind now) (r1, L)"
    using world_step.query [of hash r L g sk f kind now] assms(2) by simp
  then have "world_inv (r1, L)" using world_step_inv reachable_inv [OF assms(1)] by blast
  moreover have "slot_held (make_key sk f kind) r1" using admitted_held [of g sk f kind now r gen] assms(2) by simp
  ultimately have "slot_held (make_key sk f kind) r2" using world_path_slot [OF assms(3)] by simp
  from held_not_admitted [OF this assms(4)] show ?thesis .
qed

theorem one_reprobe_in_flight_witness:
  "snd (acting_negative_in_generation 1 ''m'' ''web_search'' ''gemini'' 99 demo_claimed) \<noteq> Some (ProbeAdmitted, 1)"
  using one_reprobe_in_flight [OF demo_reachable(1) [of "\<lambda>k n. 0"] demo_query(1) world_path.stop refl] .

subsection \<open>Settlements that are lost\<close>

lemma lease_keeps_entries:
  assumes "prepare_purge g sk f kind r = (r1, ReservedLease l)"
  shows "lcr_entries r1 = lcr_entries r" and "pl_key l = make_key sk f kind"
    and "make_key sk f kind \<in> purge_leases r1" and "pending_generation r1 = pending_generation r"
    and "lcr_generation r1 = lcr_generation r" and "make_key sk f kind \<notin> purge_leases r"
  using assms by (auto simp: prepare_purge_def Let_def split: if_splits option.splits)

text \<open>A probe that settles while a purge holds its key loses its settlement: every outcome is
  refused and leaves the registry as it is, so when the purge is restored instead of finalized the
  entry is back with its slot still claimed, and no request is admitted to re-probe it until
  something else settles, expires or removes the entry.\<close>

lemma settlement_lost_under_purge:
  assumes "reachable_world hash (r, L)" and "slot_held (make_key sk f kind) r"
    and "prepare_purge g sk f kind r = (r1, ReservedLease l)"
    and "record_probe_outcome_in_generation hash g' sk f kind outcome now r1 = (r2, settled)"
    and "world_path hash (slot_untouched (make_key sk f kind)) (restore_purge l r2, L) (r3, L3)"
  shows "settled \<in> {Reserved, Stale} \<and> r2 = r1
    \<and> snd (acting_negative_in_generation g'' sk f kind now' r3) \<noteq> Some (ProbeAdmitted, gen)"
proof -
  note K = lease_keeps_entries [OF assms(3)]
  have s: "settled \<in> {Reserved, Stale} \<and> r2 = r1"
    using assms(4) K(3) by (auto simp: record_probe_outcome_in_generation_def guarded_for_def
        guarded_keyed_def split: if_splits)
  have step1: "world_step hash (r, L) (Prepare g sk f kind) (r1, insert l L)"
    using world_step.prepare [OF assms(3), of hash L] by simp
  have "l \<notin> L" using world_invD(4) [OF reachable_inv [OF assms(1)]] K(2,6) by force
  then have "insert l L - {l} = L" by simp
  then have step2: "world_step hash (r1, insert l L) (Restore l) (restore_purge l r2, L)"
    using world_step.restore [of l "insert l L" hash r1] s by simp
  have "world_inv (restore_purge l r2, L)"
    using world_step_inv [OF step2] world_step_inv [OF step1] reachable_inv [OF assms(1)] by blast
  moreover have "slot_held (make_key sk f kind) (restore_purge l r2)"
    using assms(2) s K(1) by (simp add: slot_held_def restore_purge_def release_lease_def)
  ultimately have "slot_held (make_key sk f kind) r3" using world_path_slot [OF assms(5)] by simp
  from held_not_admitted [OF this refl] s show ?thesis by blast
qed

lemma settlement_lost_under_purge_witness:
  "snd (record_probe_outcome_in_generation (\<lambda>k n. 0) 1 ''m'' ''web_search'' ''gemini'' Success 12 (demo_leased demo_claimed))
     \<in> {Reserved, Stale}
   \<and> snd (acting_negative_in_generation 1 ''m'' ''web_search'' ''gemini'' 99
        (restore_purge (demo_lease (demo_entry\<lparr>in_flight := True\<rparr>)) (demo_leased demo_claimed))) \<noteq> Some (ProbeAdmitted, 1)"
proof -
  have held: "slot_held (make_key ''m'' ''web_search'' ''gemini'') demo_claimed"
    by (simp add: slot_held_def demo_claimed_def)
  have settled: "record_probe_outcome_in_generation (\<lambda>k n. 0) 1 ''m'' ''web_search'' ''gemini'' Success 12 (demo_leased demo_claimed)
      = (demo_leased demo_claimed, Reserved)"
    by (simp add: record_probe_outcome_in_generation_def guarded_for_def guarded_keyed_def admits_generation_def demo_defs)
  from settlement_lost_under_purge [OF demo_reachable(2) held demo_prepare(2) settled world_path.stop] settled
  show ?thesis by simp
qed

text \<open>A re-probe admitted while a boundary is pending is stamped with the pending generation. When
  that boundary is then rolled back, the settlement is refused as stale whatever its outcome, so the
  slot stays claimed and no request is admitted to re-probe the lane until something else settles,
  expires or removes the entry.\<close>

lemma settlement_lost_on_rollback:
  assumes "reachable_world hash (r, L)" and "pending_generation r = Some rc"
    and "capability_key_is_catalog_scoped f"
    and "acting_negative_in_generation g sk f kind now r = (r1, Some (ProbeAdmitted, gen))"
    and "r2 = fst (rollback_pending_generation rc r1)"
    and "world_path hash (slot_untouched (make_key sk f kind)) (r2, L) (r3, L3)"
  shows "gen = br_generation rc
    \<and> record_probe_outcome_in_generation hash gen sk f kind outcome now' r2 = (r2, Stale)
    \<and> snd (acting_negative_in_generation g' sk f kind now'' r3) \<noteq> Some (ProbeAdmitted, gen')"
proof -
  note inv = reachable_inv [OF assms(1)]
  have q: "snd (acting_negative_in_generation g sk f kind now r) = Some (ProbeAdmitted, gen)"
    using assms(4) by simp
  have r1: "r1 = r\<lparr>lcr_entries := fst (acting_negative_for_in (make_key sk f kind) now (lcr_entries r))\<rparr>"
    using acting_negative_Some(2) [OF q] assms(4) by simp
  have gen: "gen = br_generation rc"
    using acting_negative_Some(3) [OF q] assms(2) by (simp add: effective_persistence_generation_def)
  have r2: "r2 = r1\<lparr>pending_generation := None\<rparr>"
    using assms(2,5) by (simp add: r1 rollback_pending_generation_def)
  have "br_generation rc = lcr_generation r + 1" by (rule world_invD(8) [OF inv assms(2)])
  then have "record_probe_outcome_in_generation hash gen sk f kind outcome now' r2 = (r2, Stale)"
    using assms(3) by (simp add: gen r2 r1 record_probe_outcome_in_generation_def guarded_for_def
        guarded_keyed_def admits_generation_def)
  moreover have "world_inv (r2, L)"
  proof -
    have "world_step hash (r, L) (Query g sk f kind now) (r1, L)"
      using world_step.query [of hash r L g sk f kind now] assms(4) by simp
    then have "world_inv (r1, L)" using world_step_inv inv by blast
    then show ?thesis using boundary_inv(2) [of r1 L rc] assms(5) by simp
  qed
  moreover have "slot_held (make_key sk f kind) r2"
    using admitted_held [OF q] assms(4) by (simp add: r2 slot_held_def)
  ultimately show ?thesis using gen held_not_admitted world_path_slot [OF assms(6)] by auto
qed

lemma settlement_lost_on_rollback_witness:
  "let r = fst (rollback_pending_generation demo_receipt (demo_cut demo_claimed))
   in record_probe_outcome_in_generation (\<lambda>k n. 0) 2 ''m'' ''web_search'' ''gemini'' Success 12 r = (r, Stale)
    \<and> snd (acting_negative_in_generation 1 ''m'' ''web_search'' ''gemini'' 99 r) \<noteq> Some (ProbeAdmitted, 1)"
proof -
  have "pending_generation (demo_cut demo_learned) = Some demo_receipt" by (simp add: demo_cut_def)
  from settlement_lost_on_rollback [OF demo_reachable(4) this demo_scoped demo_query(2) refl world_path.stop]
  show ?thesis by (simp add: Let_def)
qed

subsection \<open>Capacity\<close>

lemmas guarded_bounds = obs.guarded_length pos.guarded_length qry.guarded_length expi.guarded_length
  stl.guarded_length rmv.guarded_length

lemma capped_step:
  assumes "world_step hash (r, L) op (r', L')" and "world_inv (r, L)"
    and "max_entries (lcr_tuning r) \<le> c" and "card L \<le> m" and "length (lcr_entries r) \<le> max c (Suc m)"
  shows "length (lcr_entries r') \<le> max c (Suc m)"
proof -
  note D = world_invD [OF assms(2)]
  have leases: "finite (purge_leases r)" "card (purge_leases r) \<le> m"
    using D(2,3,4) assms(4) by (auto simp: card_image [symmetric] D(4) [symmetric])
  have capped: "max (length (lcr_entries r)) (max (max_entries (lcr_tuning r)) (Suc (card (purge_leases r)))) \<le> max c (Suc m)"
    using assms(3,5) leases(2) by auto
  note len = guarded_bounds [THEN order_trans, OF D(1) leases(1) capped]
  from assms(1) show ?thesis
    by (cases rule: world_stepE)
       (auto simp: guarded_step_defs retune_def prepare_purge_def finalize_purge_def restore_purge_def
          release_lease_def with_boundary_cut_def rollback_pending_generation_def
          commit_boundary_transition_def Let_def
          intro: len order_trans [OF length_delete_le assms(5)]
            order_trans [OF length_filter_le assms(5)] assms(5)
          split: if_splits option.splits)
qed

text \<open>As long as no tuning allows more than \<open>c\<close> entries and at most \<open>m\<close> purges are open at a time,
  the registry holds at most \<open>c\<close> entries, or \<open>m + 1\<close> when that is more, whatever is observed.\<close>

lemma capacity_bound:
  assumes "world_path hash (\<lambda>op (r, L). max_entries (lcr_tuning r) \<le> c \<and> card L \<le> m) (registry_new d v c0, {}) (r, L)"
    and "c0 \<le> c"
  shows "length (lcr_entries r) \<le> max c (Suc m)"
proof -
  let ?P = "\<lambda>op (r, L). max_entries (lcr_tuning r) \<le> c \<and> card L \<le> m"
  have "length (lcr_entries (fst w')) \<le> max c (Suc m)"
    if "world_path hash ?P w w'" "world_inv w" "length (lcr_entries (fst w)) \<le> max c (Suc m)"
      "max_entries (lcr_tuning (fst w)) \<le> c" "card (snd w) \<le> m" for w w'
    using that
  proof (induction rule: world_path.induct)
    case (step w op w' w'')
    obtain r L r' L' where w: "w = (r, L)" "w' = (r', L')" by (cases w, cases w')
    have "length (lcr_entries r') \<le> max c (Suc m)"
      using capped_step [of hash r L op r' L' c m] step.hyps(1) step.prems w by simp
    moreover have "max_entries (lcr_tuning r') \<le> c" "card L' \<le> m" using step.hyps(2) w by simp_all
    moreover have "world_inv w'" using step.hyps(1) step.prems(1) by (rule world_step_inv)
    ultimately show ?case using step.IH w by simp
  qed simp
  from this [OF assms(1) new_inv] assms(2) show ?thesis by (simp add: registry_new_def)
qed

lemma capacity_bound_witness: "length (lcr_entries demo_learned) \<le> max 4 (Suc 0)"
proof -
  have "world_path (\<lambda>k n. 0) (\<lambda>op (r, L). max_entries (lcr_tuning r) \<le> 4 \<and> card L \<le> 0) (registry_new 10 5 4, {}) (demo_learned, {})"
    by (rule world_path.step [OF demo_observe _ world_path.stop]) (simp add: demo_learned_def registry_new_def)
  from capacity_bound [OF this] show ?thesis by simp
qed

end
