(* ===== verification/Probe_Guard.thy ===== *)
theory Probe_Guard
  imports Registry_Properties "HOL-Library.Multiset"
begin

text \<open>
  Ownership of the re-probes a request was admitted to run
  (\<open>routectl-router/src/router/runtime_gate.rs\<close>, second half): the set of admissions the chain filter
  staged, the guard a target's admissions move into when the walk reaches it, and the settlements of
  both, drops included. The settlement log lines are the events of the model, in the order written.
\<close>

subsection \<open>State\<close>

record ProbeAdmission =
  pa_state_key :: string
  pa_feature :: string
  pa_provider_kind :: string
  pa_generation :: u64

datatype SameCapabilitySettlement = SettlementApplied | SettlementStale | NoMatch

text \<open>\<open>lpg_registry\<close>: whether the guard still holds its handle on the registry.\<close>

record LearnedProbeGuard =
  lpg_registry :: bool
  lpg_probes :: "ProbeAdmission list"
  lpg_surface :: string

record CapabilityClearedEvent =
  cce_persistence_generation :: u64
  cce_incarnation :: u64
  cce_state_key :: string
  cce_capability_key :: string
  cce_provider_kind :: string

text \<open>\<open>emit_probe_settlement\<close> and \<open>emit_stale_probe_settlement\<close>.\<close>

datatype probe_event =
    is_ProbeSettled: ProbeSettled (ev_admission: ProbeAdmission) (ev_surface: string) (ev_outcome: string) (ev_reached: bool) (ev_reason: string)
  | ProbeStale (ev_admission: ProbeAdmission) (ev_surface: string) (ev_outcome: string)

type_synonym key_hash = "RegistryKey \<Rightarrow> u32 \<Rightarrow> u64"

definition armed :: "ProbeAdmission list \<Rightarrow> string \<Rightarrow> LearnedProbeGuard" where
  "armed probes surface = \<lparr>lpg_registry = True, lpg_probes = probes, lpg_surface = surface\<rparr>"

definition inert :: LearnedProbeGuard where
  "inert = \<lparr>lpg_registry = False, lpg_probes = [], lpg_surface = []\<rparr>"

subsection \<open>Settlements\<close>

definition settle_admission :: "key_hash \<Rightarrow> ProbeOutcome \<Rightarrow> instant \<Rightarrow> ProbeAdmission \<Rightarrow>
    LearnedCapabilityRegistry \<Rightarrow> LearnedCapabilityRegistry \<times> unit GenerationOutcome" where
  "settle_admission hash outcome now p r =
     record_probe_outcome_in_generation hash (pa_generation p) (pa_state_key p) (pa_feature p)
       (pa_provider_kind p) outcome now r"

fun settle_each_success :: "key_hash \<Rightarrow> instant \<Rightarrow> string \<Rightarrow> ProbeAdmission list \<Rightarrow> LearnedCapabilityRegistry \<Rightarrow>
    LearnedCapabilityRegistry \<times> CapabilityClearedEvent list \<times> probe_event list" where
  "settle_each_success hash now surface [] r = (r, [], [])"
| "settle_each_success hash now surface (p # ps) r =
     (let (r, settled) = settle_admission hash Success now p r;
          (r, cleared, evs) = settle_each_success hash now surface ps r
      in case settled of
        Applied v i g \<Rightarrow>
          (r, \<lparr>cce_persistence_generation = g, cce_incarnation = i, cce_state_key = pa_state_key p,
               cce_capability_key = pa_feature p, cce_provider_kind = pa_provider_kind p\<rparr> # cleared,
           ProbeSettled p surface ''success'' True ''success'' # evs)
      | _ \<Rightarrow> (r, cleared, ProbeStale p surface ''success'' # evs))"

definition settle_success :: "key_hash \<Rightarrow> instant \<Rightarrow> LearnedProbeGuard \<Rightarrow> LearnedCapabilityRegistry \<Rightarrow>
    LearnedCapabilityRegistry \<times> LearnedProbeGuard \<times> CapabilityClearedEvent list \<times> probe_event list" where
  "settle_success hash now gd r =
     (if lpg_registry gd
      then (let (r, cleared, evs) = settle_each_success hash now (lpg_surface gd) (lpg_probes gd) r
            in (r, gd\<lparr>lpg_registry := False, lpg_probes := []\<rparr>, cleared, evs))
      else (r, gd, [], []))"

definition settle_same_capability :: "key_hash \<Rightarrow> instant \<Rightarrow> string \<Rightarrow> string \<Rightarrow> string \<Rightarrow> LearnedProbeGuard \<Rightarrow>
    LearnedCapabilityRegistry \<Rightarrow> LearnedCapabilityRegistry \<times> LearnedProbeGuard \<times> SameCapabilitySettlement \<times> probe_event list" where
  "settle_same_capability hash now sk feature kind gd r =
     (if \<not> lpg_registry gd then (r, gd, NoMatch, [])
      else case position (\<lambda>p. pa_state_key p = sk \<and> pa_feature p = feature \<and> pa_provider_kind p = kind) (lpg_probes gd) of
        None \<Rightarrow> (r, gd, NoMatch, [])
      | Some pos \<Rightarrow>
          (let p = lpg_probes gd ! pos;
               rest = take pos (lpg_probes gd) @ drop (Suc pos) (lpg_probes gd);
               (r, settled) = settle_admission hash SameCapabilityRejection now p r;
               gd = gd\<lparr>lpg_registry := rest \<noteq> [], lpg_probes := rest\<rparr>
           in if settled = Stale
              then (r, gd, SettlementStale, [ProbeStale p (lpg_surface gd) ''same_capability''])
              else (r, gd, SettlementApplied,
                    [ProbeSettled p (lpg_surface gd) ''same_capability'' True ''same_capability''])))"

text \<open>Both drops settle every admission still held as an unrelated error.\<close>

fun settle_each_error :: "key_hash \<Rightarrow> instant \<Rightarrow> string \<Rightarrow> bool \<Rightarrow> string \<Rightarrow> ProbeAdmission list \<Rightarrow>
    LearnedCapabilityRegistry \<Rightarrow> LearnedCapabilityRegistry \<times> probe_event list" where
  "settle_each_error hash now surface reached reason [] r = (r, [])"
| "settle_each_error hash now surface reached reason (p # ps) r =
     (let (r, settled) = settle_admission hash OtherError now p r;
          (r, evs) = settle_each_error hash now surface reached reason ps r
      in (r, (if settled = Stale then ProbeStale p surface ''other_error''
              else ProbeSettled p surface ''other_error'' reached reason) # evs))"

definition probe_guard_drop :: "key_hash \<Rightarrow> instant \<Rightarrow> LearnedProbeGuard \<Rightarrow> LearnedCapabilityRegistry \<Rightarrow>
    LearnedCapabilityRegistry \<times> probe_event list" where
  "probe_guard_drop hash now gd r =
     (if lpg_registry gd then settle_each_error hash now (lpg_surface gd) True ''terminal'' (lpg_probes gd) r
      else (r, []))"

subsection \<open>The admission set\<close>

text \<open>A hash map from the key of a target to its admissions; a drop visits it in an order \<open>ks\<close> of its
  keys that the hasher picks.\<close>

record ProbeAdmissionSet =
  pas_pending :: "string \<rightharpoonup> ProbeAdmission list"
  pas_surface :: string

definition admission_set_new :: "ProbeAdmission list \<Rightarrow> string \<Rightarrow> ProbeAdmissionSet" where
  "admission_set_new admissions surface =
     \<lparr>pas_pending = foldl (\<lambda>pending a. pending(pa_state_key a \<mapsto>
          (case pending (pa_state_key a) of None \<Rightarrow> [] | Some as \<Rightarrow> as) @ [a])) Map.empty admissions,
      pas_surface = surface\<rparr>"

definition admission_set_take :: "string \<Rightarrow> ProbeAdmissionSet \<Rightarrow> ProbeAdmissionSet \<times> ProbeAdmission list option" where
  "admission_set_take sk s = (s\<lparr>pas_pending := (pas_pending s)(sk := None)\<rparr>, pas_pending s sk)"

definition admission_set_drop :: "key_hash \<Rightarrow> instant \<Rightarrow> string list \<Rightarrow> ProbeAdmissionSet \<Rightarrow>
    LearnedCapabilityRegistry \<Rightarrow> LearnedCapabilityRegistry \<times> probe_event list" where
  "admission_set_drop hash now ks s r =
     settle_each_error hash now (pas_surface s) False ''unreached''
       (concat (map (\<lambda>k. case pas_pending s k of None \<Rightarrow> [] | Some as \<Rightarrow> as) ks)) r"

subsection \<open>A request's use of them\<close>

text \<open>What happens while a target is visited: the upstream rejects a capability, the attempt is served,
  or another request changes the registry. The walk takes the admissions of each target it reaches,
  in the guard's scope, and drops the guard on leaving it, the set on leaving the request.\<close>

datatype visit_action =
    Rejected string string instant
  | Served instant
  | Meanwhile "LearnedCapabilityRegistry \<Rightarrow> LearnedCapabilityRegistry"

record visit =
  vis_state_key :: string
  vis_actions :: "visit_action list"
  vis_left :: instant

definition run_action :: "key_hash \<Rightarrow> string \<Rightarrow> visit_action \<Rightarrow> LearnedProbeGuard \<Rightarrow> LearnedCapabilityRegistry \<Rightarrow>
    LearnedCapabilityRegistry \<times> LearnedProbeGuard \<times> probe_event list" where
  "run_action hash sk a gd r = (case a of
     Rejected feature kind now \<Rightarrow>
       (let (r, gd, outcome, evs) = settle_same_capability hash now sk feature kind gd r in (r, gd, evs))
   | Served now \<Rightarrow> (let (r, gd, cleared, evs) = settle_success hash now gd r in (r, gd, evs))
   | Meanwhile f \<Rightarrow> (f r, gd, []))"

fun run_actions :: "key_hash \<Rightarrow> string \<Rightarrow> visit_action list \<Rightarrow> LearnedProbeGuard \<Rightarrow> LearnedCapabilityRegistry \<Rightarrow>
    LearnedCapabilityRegistry \<times> LearnedProbeGuard \<times> probe_event list" where
  "run_actions hash sk [] gd r = (r, gd, [])"
| "run_actions hash sk (a # acts) gd r =
     (let (r, gd, evs) = run_action hash sk a gd r; (r, gd, evs') = run_actions hash sk acts gd r
      in (r, gd, evs @ evs'))"

definition run_visit :: "key_hash \<Rightarrow> visit \<Rightarrow> ProbeAdmissionSet \<Rightarrow> LearnedCapabilityRegistry \<Rightarrow>
    ProbeAdmissionSet \<times> LearnedCapabilityRegistry \<times> probe_event list" where
  "run_visit hash v s r =
     (let (s', taken) = admission_set_take (vis_state_key v) s;
          gd = (case taken of Some admissions \<Rightarrow> armed admissions (pas_surface s) | None \<Rightarrow> inert);
          (r, gd, evs) = run_actions hash (vis_state_key v) (vis_actions v) gd r;
          (r, evs') = probe_guard_drop hash (vis_left v) gd r
      in (s', r, evs @ evs'))"

fun run_visits :: "key_hash \<Rightarrow> visit list \<Rightarrow> ProbeAdmissionSet \<Rightarrow> LearnedCapabilityRegistry \<Rightarrow>
    ProbeAdmissionSet \<times> LearnedCapabilityRegistry \<times> probe_event list" where
  "run_visits hash [] s r = (s, r, [])"
| "run_visits hash (v # vs) s r =
     (let (s, r, evs) = run_visit hash v s r; (s, r, evs') = run_visits hash vs s r
      in (s, r, evs @ evs'))"

definition run_request :: "key_hash \<Rightarrow> ProbeAdmission list \<Rightarrow> string \<Rightarrow> visit list \<Rightarrow> string list \<Rightarrow> instant \<Rightarrow>
    LearnedCapabilityRegistry \<Rightarrow> LearnedCapabilityRegistry \<times> probe_event list" where
  "run_request hash admissions surface vs ks now r =
     (let (s, r, evs) = run_visits hash vs (admission_set_new admissions surface) r;
          (r, evs') = admission_set_drop hash now ks s r
      in (r, evs @ evs'))"


text \<open>What an event of a request over the visits \<open>vs\<close> stands for.\<close>

definition accounted :: "visit list \<Rightarrow> probe_event \<Rightarrow> bool" where
  "accounted vs e =
     (let p = ev_admission e; here = filter (\<lambda>v. vis_state_key v = pa_state_key p) vs
      in (ev_outcome e = ''success'' \<longrightarrow> (\<exists>v \<in> set here. \<exists>t. Served t \<in> set (vis_actions v)))
       \<and> (ev_outcome e = ''same_capability'' \<longrightarrow>
            (\<exists>v \<in> set here. \<exists>t. Rejected (pa_feature p) (pa_provider_kind p) t \<in> set (vis_actions v)))
       \<and> (is_ProbeSettled e \<longrightarrow> ev_reached e = (here \<noteq> [])))"

subsection \<open>Exactly one settlement each\<close>

definition guard_wf :: "LearnedProbeGuard \<Rightarrow> bool" where
  "guard_wf gd \<longleftrightarrow> (lpg_probes gd \<noteq> [] \<longrightarrow> lpg_registry gd)"

lemma success_events:
  "settle_each_success hash now surface ps r = (r', cleared, evs) \<Longrightarrow>
     map ev_admission evs = ps \<and> (\<forall>e \<in> set evs. ev_outcome e = ''success'' \<and> (is_ProbeSettled e \<longrightarrow> ev_reached e))"
  by (induction ps arbitrary: r r' cleared evs) (auto simp: Let_def split: prod.splits GenerationOutcome.splits)

lemma error_events:
  "settle_each_error hash now surface reached reason ps r = (r', evs) \<Longrightarrow>
     map ev_admission evs = ps \<and> (\<forall>e \<in> set evs. ev_outcome e = ''other_error'' \<and> (is_ProbeSettled e \<longrightarrow> ev_reached e = reached))"
  by (induction ps arbitrary: r r' evs) (auto simp: Let_def split: prod.splits if_splits)

lemma position_mset:
  assumes "position P xs = Some i"
  shows "mset xs = add_mset (xs ! i) (mset (take i xs @ drop (Suc i) xs))"
proof -
  have "xs = take i xs @ xs ! i # drop (Suc i) xs" using position_Some [OF assms] by (simp add: id_take_nth_drop)
  then have "mset xs = mset (take i xs @ xs ! i # drop (Suc i) xs)" by (rule arg_cong)
  then show ?thesis by simp
qed

text \<open>What a step of a visit may do with the guard, and say about it.\<close>

definition visit_says :: "visit_action list \<Rightarrow> probe_event \<Rightarrow> bool" where
  "visit_says acts e \<longleftrightarrow> (is_ProbeSettled e \<longrightarrow> ev_reached e)
     \<and> (ev_outcome e = ''success'' \<longrightarrow> (\<exists>t. Served t \<in> set acts))
     \<and> (ev_outcome e = ''same_capability'' \<longrightarrow>
          (\<exists>t. Rejected (pa_feature (ev_admission e)) (pa_provider_kind (ev_admission e)) t \<in> set acts))"

definition conserves :: "LearnedProbeGuard \<Rightarrow> LearnedProbeGuard \<Rightarrow> probe_event list \<Rightarrow> bool" where
  "conserves gd gd' evs \<longleftrightarrow> guard_wf gd' \<and> lpg_surface gd' = lpg_surface gd
     \<and> mset (lpg_probes gd) = mset (lpg_probes gd') + mset (map ev_admission evs)"

lemma conserves_trans: "conserves a b evs \<Longrightarrow> conserves b c evs' \<Longrightarrow> conserves a c (evs @ evs')"
  by (simp add: conserves_def)

lemma same_capability_events:
  assumes "settle_same_capability hash now sk feature kind gd r = (r', gd', outcome, evs)" and "guard_wf gd"
  shows "conserves gd gd' evs \<and> (\<forall>e \<in> set evs. visit_says [Rejected feature kind now] e)"
proof (cases "lpg_registry gd")
  case reg: True
  let ?P = "\<lambda>p. pa_state_key p = sk \<and> pa_feature p = feature \<and> pa_provider_kind p = kind"
  show ?thesis
  proof (cases "position ?P (lpg_probes gd)")
    case None
    then show ?thesis using assms by (simp add: settle_same_capability_def conserves_def reg)
  next
    case (Some i)
    let ?r = "settle_admission hash SameCapabilityRejection now (lpg_probes gd ! i) r"
    have "gd' = gd\<lparr>lpg_registry := take i (lpg_probes gd) @ drop (Suc i) (lpg_probes gd) \<noteq> [],
              lpg_probes := take i (lpg_probes gd) @ drop (Suc i) (lpg_probes gd)\<rparr>"
      and evs: "evs = (if snd ?r = Stale then [ProbeStale (lpg_probes gd ! i) (lpg_surface gd) ''same_capability'']
          else [ProbeSettled (lpg_probes gd ! i) (lpg_surface gd) ''same_capability'' True ''same_capability''])"
      using assms(1) by (simp_all add: settle_same_capability_def reg Some Let_def split: prod.splits if_splits)
    then show ?thesis using position_mset [OF Some] position_Some [OF Some]
      by (simp add: conserves_def guard_wf_def visit_says_def)
  qed
qed (use assms in \<open>simp add: settle_same_capability_def conserves_def\<close>)

lemma action_events:
  assumes "run_action hash sk a gd r = (r', gd', evs)" and "guard_wf gd"
  shows "conserves gd gd' evs \<and> (\<forall>e \<in> set evs. visit_says [a] e)"
proof (cases a)
  case (Rejected feature kind now)
  then show ?thesis using assms(1) same_capability_events [OF _ assms(2), of hash now sk feature kind r]
    by (simp add: run_action_def split: prod.splits)
next
  case (Served now)
  show ?thesis
  proof (cases "settle_each_success hash now (lpg_surface gd) (lpg_probes gd) r")
    case (fields r1 cleared evs1)
    then show ?thesis using assms success_events [OF fields] Served
      by (auto simp: run_action_def settle_success_def conserves_def guard_wf_def visit_says_def
          simp del: mset_map split: if_splits)
  qed
next
  case (Meanwhile f)
  then show ?thesis using assms by (simp add: run_action_def conserves_def)
qed

lemma visit_says_mono: "visit_says as e \<Longrightarrow> set as \<subseteq> set bs \<Longrightarrow> visit_says bs e"
  unfolding visit_says_def by blast

lemma actions_events:
  assumes "run_actions hash sk acts gd r = (r', gd', evs)" and "guard_wf gd"
  shows "conserves gd gd' evs \<and> (\<forall>e \<in> set evs. visit_says acts e)"
  using assms
proof (induction acts arbitrary: gd r gd' r' evs)
  case (Cons a acts)
  obtain r1 gd1 evs1 where one: "run_action hash sk a gd r = (r1, gd1, evs1)" by (rule prod_cases3)
  obtain r2 gd2 evs2 where two: "run_actions hash sk acts gd1 r1 = (r2, gd2, evs2)" by (rule prod_cases3)
  have eq: "gd' = gd2" "evs = evs1 @ evs2" using Cons.prems(1) by (simp_all add: one two)
  have A: "conserves gd gd1 evs1 \<and> (\<forall>e \<in> set evs1. visit_says [a] e)" by (rule action_events [OF one Cons.prems(2)])
  then have B: "conserves gd1 gd2 evs2 \<and> (\<forall>e \<in> set evs2. visit_says acts e)"
    using Cons.IH [OF two] by (simp add: conserves_def)
  have "visit_says (a # acts) e" if "e \<in> set evs" for e
    using that A B visit_says_mono [of "[a]" e "a # acts"] visit_says_mono [of acts e "a # acts"]
    by (auto simp: eq)
  then show ?case using A B conserves_trans by (auto simp: eq)
qed (simp add: conserves_def)

text \<open>The admissions of the targets not yet taken.\<close>

definition staged :: "string set \<Rightarrow> ProbeAdmission list \<Rightarrow> string \<rightharpoonup> ProbeAdmission list" where
  "staged V as k = (let own = filter (\<lambda>a. pa_state_key a = k) as in if k \<in> V \<or> own = [] then None else Some own)"

lemma admission_set_new_pending: "pas_pending (admission_set_new as surface) = staged {} as"
proof -
  let ?f = "\<lambda>pending a. pending(pa_state_key a \<mapsto>
          (case pending (pa_state_key a) of None \<Rightarrow> [] | Some as \<Rightarrow> as) @ [a])"
  have "foldl ?f Map.empty as = staged {} as"
    by (induction as rule: rev_induct) (auto simp: staged_def fun_eq_iff Let_def)
  then show ?thesis by (simp add: admission_set_new_def)
qed

lemma staged_take: "(staged V as)(k := None) = staged (insert k V) as"
  by (auto simp: staged_def fun_eq_iff Let_def)

lemma filter_disj_mset:
  assumes "\<And>x. x \<in> set xs \<Longrightarrow> \<not> (P x \<and> Q x)"
  shows "mset (filter (\<lambda>x. P x \<or> Q x) xs) = mset (filter P xs) + mset (filter Q xs)"
  using assms by (induction xs) auto

lemma concat_filter_mset:
  "distinct ks \<Longrightarrow> mset (concat (map (\<lambda>k. filter (\<lambda>a. g a = k) as) ks)) = mset (filter (\<lambda>a. g a \<in> set ks) as)"
proof (induction ks)
  case (Cons k ks)
  have "mset (filter (\<lambda>a. g a = k \<or> g a \<in> set ks) as)
      = mset (filter (\<lambda>a. g a = k) as) + mset (filter (\<lambda>a. g a \<in> set ks) as)"
    using Cons.prems by (intro filter_disj_mset) auto
  then show ?case using Cons by simp
qed simp

lemma visit_events:
  assumes "run_visit hash v s r = (s', r', evs)" and "pas_pending s = staged V as"
  shows "pas_pending s' = staged (insert (vis_state_key v) V) as"
    and "mset (map ev_admission evs) = mset (filter (\<lambda>a. pa_state_key a = vis_state_key v \<and> vis_state_key v \<notin> V) as)"
    and "e \<in> set evs \<Longrightarrow> visit_says (vis_actions v) e"
proof -
  let ?own = "filter (\<lambda>a. pa_state_key a = vis_state_key v) as"
  define gd where "gd = (case pas_pending s (vis_state_key v) of
      Some admissions \<Rightarrow> armed admissions (pas_surface s) | None \<Rightarrow> inert)"
  have gd: "guard_wf gd" "lpg_probes gd = (if vis_state_key v \<in> V then [] else ?own)"
    by (simp_all add: gd_def assms(2) staged_def armed_def inert_def guard_wf_def Let_def)
  obtain r1 gd1 evs1 where one: "run_actions hash (vis_state_key v) (vis_actions v) gd r = (r1, gd1, evs1)"
    by (rule prod_cases3)
  obtain r2 evs2 where two: "probe_guard_drop hash (vis_left v) gd1 r1 = (r2, evs2)" by (rule prod.exhaust)
  have eq: "s' = s\<lparr>pas_pending := (pas_pending s)(vis_state_key v := None)\<rparr>" "evs = evs1 @ evs2"
    using assms(1) one two by (simp_all add: run_visit_def admission_set_take_def Let_def flip: gd_def)
  show "pas_pending s' = staged (insert (vis_state_key v) V) as" by (simp add: eq(1) assms(2) staged_take)
  have A: "conserves gd gd1 evs1" "\<forall>e \<in> set evs1. visit_says (vis_actions v) e"
    using actions_events [OF one gd(1)] by auto
  have B: "map ev_admission evs2 = lpg_probes gd1" "\<forall>e \<in> set evs2. visit_says (vis_actions v) e"
    using two A(1) error_events [of hash "vis_left v" "lpg_surface gd1" True "''terminal''" "lpg_probes gd1" r1 r2 evs2]
    by (auto simp: probe_guard_drop_def conserves_def guard_wf_def visit_says_def split: if_splits)
  have "mset (lpg_probes gd) = mset (map ev_admission evs)"
    using A(1) by (simp add: conserves_def eq(2) B(1) flip: mset_map)
  then show "mset (map ev_admission evs) = mset (filter (\<lambda>a. pa_state_key a = vis_state_key v \<and> vis_state_key v \<notin> V) as)"
    by (simp add: gd(2) split: if_splits)
  show "e \<in> set evs \<Longrightarrow> visit_says (vis_actions v) e" using A(2) B(2) by (auto simp: eq(2))
qed

lemma visits_events:
  assumes "run_visits hash vs s r = (s', r', evs)" and "pas_pending s = staged V as"
  shows "pas_pending s' = staged (vis_state_key ` set vs \<union> V) as
    \<and> mset (map ev_admission evs) = mset (filter (\<lambda>a. pa_state_key a \<in> vis_state_key ` set vs - V) as)
    \<and> (\<forall>e \<in> set evs. \<exists>v \<in> set vs. vis_state_key v = pa_state_key (ev_admission e) \<and> visit_says (vis_actions v) e)"
  using assms
proof (induction vs arbitrary: s r s' r' evs V)
  case (Cons v vs)
  obtain s1 r1 evs1 where one: "run_visit hash v s r = (s1, r1, evs1)" by (rule prod_cases3)
  obtain s2 r2 evs2 where two: "run_visits hash vs s1 r1 = (s2, r2, evs2)" by (rule prod_cases3)
  have eq: "s' = s2" "evs = evs1 @ evs2" using Cons.prems(1) by (simp_all add: one two)
  note A = visit_events [OF one Cons.prems(2)]
  note B = Cons.IH [OF two A(1)]
  let ?k = "vis_state_key v" and ?W = "vis_state_key ` set vs"
  have "mset (filter (\<lambda>a. pa_state_key a \<in> insert ?k ?W - V) as)
      = mset (filter (\<lambda>a. (pa_state_key a = ?k \<and> ?k \<notin> V) \<or> pa_state_key a \<in> ?W - insert ?k V) as)"
    by (rule arg_cong [where f = mset], rule filter_cong) auto
  also have "\<dots> = mset (filter (\<lambda>a. pa_state_key a = ?k \<and> ?k \<notin> V) as)
      + mset (filter (\<lambda>a. pa_state_key a \<in> ?W - insert ?k V) as)"
    by (rule filter_disj_mset) auto
  also have "\<dots> = mset (map ev_admission evs)" using A(2) B by (simp add: eq(2))
  finally have "mset (map ev_admission evs) = mset (filter (\<lambda>a. pa_state_key a \<in> vis_state_key ` set (v # vs) - V) as)"
    by simp
  moreover have "\<exists>x \<in> set (v # vs). vis_state_key x = pa_state_key (ev_admission e) \<and> visit_says (vis_actions x) e"
    if e: "e \<in> set evs" for e
  proof (cases "e \<in> set evs1")
    case True
    then have "ev_admission e \<in># mset (map ev_admission evs1)" by simp
    then have "pa_state_key (ev_admission e) = ?k" unfolding A(2) by simp
    then show ?thesis using A(3) [OF True] by auto
  next
    case False
    then show ?thesis using e B by (auto simp: eq(2))
  qed
  moreover have "pas_pending s' = staged (vis_state_key ` set (v # vs) \<union> V) as"
    using B by (simp add: eq(1) insert_commute Un_insert_right)
  ultimately show ?case by blast
qed simp

lemma request_events:
  assumes "run_request hash admissions surface vs ks now r = (r', evs)" and "distinct ks"
    and "set ks = pa_state_key ` set admissions - vis_state_key ` set vs"
  shows "mset (map ev_admission evs) = mset admissions" and "\<forall>e \<in> set evs. accounted vs e"
proof -
  let ?W = "vis_state_key ` set vs"
  obtain s1 r1 evs1 where one: "run_visits hash vs (admission_set_new admissions surface) r = (s1, r1, evs1)"
    by (rule prod_cases3)
  note A = visits_events [OF one admission_set_new_pending, simplified]
  obtain r2 evs2 where two: "admission_set_drop hash now ks s1 r1 = (r2, evs2)" by (rule prod.exhaust)
  have eq: "evs = evs1 @ evs2" using assms(1) by (simp add: run_request_def one two)
  have group: "(case pas_pending s1 k of None \<Rightarrow> [] | Some as \<Rightarrow> as) = filter (\<lambda>a. pa_state_key a = k) admissions"
    if "k \<in> set ks" for k using that assms(3) A by (simp add: staged_def Let_def)
  have "concat (map (\<lambda>k. case pas_pending s1 k of None \<Rightarrow> [] | Some as \<Rightarrow> as) ks)
      = concat (map (\<lambda>k. filter (\<lambda>a. pa_state_key a = k) admissions) ks)"
    by (rule arg_cong [where f = concat], rule map_cong [OF refl group])
  then have B: "map ev_admission evs2 = concat (map (\<lambda>k. filter (\<lambda>a. pa_state_key a = k) admissions) ks)"
    "\<forall>e \<in> set evs2. ev_outcome e = ''other_error'' \<and> (is_ProbeSettled e \<longrightarrow> \<not> ev_reached e)"
    using error_events [OF two [unfolded admission_set_drop_def]] by simp_all
  have rest: "mset (map ev_admission evs2) = mset (filter (\<lambda>a. pa_state_key a \<notin> ?W) admissions)"
    unfolding B(1) concat_filter_mset [OF assms(2)] assms(3)
    by (rule arg_cong [where f = mset], rule filter_cong) auto
  have "mset admissions = mset (filter (\<lambda>a. pa_state_key a \<in> ?W) admissions)
      + mset (filter (\<lambda>a. pa_state_key a \<notin> ?W) admissions)"
    by (simp add: multiset_partition)
  then show "mset (map ev_admission evs) = mset admissions" using A rest by (simp add: eq)
  have "accounted vs e" if e: "e \<in> set evs" for e
  proof (cases "e \<in> set evs1")
    case True
    then obtain v where "v \<in> set vs" "vis_state_key v = pa_state_key (ev_admission e)" "visit_says (vis_actions v) e"
      using A by blast
    then show ?thesis unfolding accounted_def visit_says_def Let_def by (auto simp: filter_empty_conv)
  next
    case False
    then have e2: "e \<in> set evs2" using e by (simp add: eq)
    then have "ev_admission e \<in># mset (map ev_admission evs2)" by simp
    then have "\<forall>v \<in> set vs. vis_state_key v \<noteq> pa_state_key (ev_admission e)" unfolding rest by (auto simp: image_iff)
    then show ?thesis using B(2) e2 by (auto simp: accounted_def Let_def filter_empty_conv)
  qed
  then show "\<forall>e \<in> set evs. accounted vs e" by blast
qed

text \<open>C17. Every re-probe a request was admitted to run is settled exactly once on every course of the
  request, whatever other requests do to the registry meanwhile: as a success only where its target
  was served, as a repeated rejection only where that capability was rejected on its target, and as
  never reached exactly when the walk never visited its target.\<close>

theorem admissions_settle_exactly_once:
  assumes "run_request hash admissions surface vs ks now r = (r', evs)" and "distinct ks"
    and "set ks = pa_state_key ` set admissions - vis_state_key ` set vs"
  shows "mset (map ev_admission evs) = mset admissions \<and> (\<forall>e \<in> set evs. accounted vs e)"
  using request_events [OF assms] by blast

subsection \<open>No slot stays claimed\<close>

definition pa_key :: "ProbeAdmission \<Rightarrow> RegistryKey" where
  "pa_key p = make_key (pa_state_key p) (pa_feature p) (pa_provider_kind p)"

definition settleable :: "LearnedCapabilityRegistry \<Rightarrow> ProbeAdmission \<Rightarrow> bool" where
  "settleable r p \<longleftrightarrow> admits_generation r (pa_generation p) (pa_feature p) \<and> pa_key p \<notin> purge_leases r"

lemma probe_outcome_slot:
  shows "map_of (record_probe_outcome_in hash tun key outcome now es) k = Some e \<Longrightarrow> in_flight e \<Longrightarrow>
     k \<noteq> key \<and> map_of es k = Some e"
    and "wf_entries es \<Longrightarrow> wf_entries (record_probe_outcome_in hash tun key outcome now es)"
proof -
  show "map_of (record_probe_outcome_in hash tun key outcome now es) k = Some e \<Longrightarrow> in_flight e \<Longrightarrow>
     k \<noteq> key \<and> map_of es k = Some e"
    by (auto simp: record_probe_outcome_in_def Let_def update_conv' delete_conv'
        split: ProbeOutcome.splits option.splits if_splits)
  show "wf_entries es \<Longrightarrow> wf_entries (record_probe_outcome_in hash tun key outcome now es)"
    by (simp add: record_probe_outcome_in_def Let_def distinct_update wf_delete
        split: ProbeOutcome.split option.split)
qed

lemma settle_admission_frees:
  fixes hash :: key_hash and outcome :: ProbeOutcome and now :: instant
  assumes "wf_entries (lcr_entries r)" and "settleable r p" and "next_incarnation r + 1 \<le> U64_MAX"
  defines "r' \<equiv> fst (settle_admission hash outcome now p r)"
  shows "wf_entries (lcr_entries r')" and "slot_held k r' \<Longrightarrow> k \<noteq> pa_key p \<and> slot_held k r"
    and "next_incarnation r' = next_incarnation r + 1" and "settleable r' q = settleable r q"
    and "snd (settle_admission hash outcome now p r) = Applied () (next_incarnation r + 1) (effective_persistence_generation r)"
proof -
  have eq: "settle_admission hash outcome now p r =
      (r\<lparr>next_incarnation := next_incarnation r + 1,
         lcr_entries := stamp_incarnation (pa_key p) (next_incarnation r + 1)
           (record_probe_outcome_in hash (lcr_tuning r) (pa_key p) outcome now (lcr_entries r))\<rparr>,
       Applied () (next_incarnation r + 1) (effective_persistence_generation r))"
    using assms(2,3) by (simp add: settle_admission_def record_probe_outcome_in_generation_def guarded_for_def
        guarded_keyed_def reserve_incarnation_def settleable_def pa_key_def effective_persistence_generation_def
        split: option.split)
  show "wf_entries (lcr_entries r')" using probe_outcome_slot(2) [OF assms(1)] by (simp add: r'_def eq stamp_wf)
  show "k \<noteq> pa_key p \<and> slot_held k r" if held: "slot_held k r'"
  proof -
    let ?es = "record_probe_outcome_in hash (lcr_tuning r) (pa_key p) outcome now (lcr_entries r)"
    obtain e where "map_of ?es k = Some e" "in_flight e"
      using held by (auto simp: r'_def eq slot_held_def stamp_map_of split: if_splits)
    from probe_outcome_slot(1) [OF this] this(2) show ?thesis by (auto simp: slot_held_def)
  qed
  show "next_incarnation r' = next_incarnation r + 1" by (simp add: r'_def eq)
  show "settleable r' q = settleable r q" by (simp add: r'_def eq settleable_def admits_generation_def)
  show "snd (settle_admission hash outcome now p r) = Applied () (next_incarnation r + 1) (effective_persistence_generation r)"
    by (simp add: eq)
qed

text \<open>The registry after settling the given admissions in order, each with some outcome.\<close>

inductive settled_by :: "key_hash \<Rightarrow> LearnedCapabilityRegistry \<Rightarrow> ProbeAdmission list \<Rightarrow> LearnedCapabilityRegistry \<Rightarrow> bool"
  for hash where
  none: "settled_by hash r [] r"
| one: "settle_admission hash outcome now p r = (r1, settled) \<Longrightarrow> settled_by hash r1 ps r' \<Longrightarrow> settled_by hash r (p # ps) r'"

lemma settled_by_append: "settled_by hash r ps r1 \<Longrightarrow> settled_by hash r1 qs r' \<Longrightarrow> settled_by hash r (ps @ qs) r'"
  by (induction rule: settled_by.induct) (auto intro: settled_by.intros)

lemma settled_by_frees:
  assumes "settled_by hash r ps r'" and "wf_entries (lcr_entries r)" and "\<forall>p \<in> set ps. settleable r p"
    and "next_incarnation r + length ps \<le> U64_MAX"
  shows "slot_held k r' \<Longrightarrow> slot_held k r \<and> k \<notin> pa_key ` set ps"
  using assms
proof (induction rule: settled_by.induct)
  case (one outcome now p r r1 settled ps r')
  have r1: "fst (settle_admission hash outcome now p r) = r1" using one.hyps(1) by simp
  have room: "next_incarnation r + 1 \<le> U64_MAX" and ok: "settleable r p" using one.prems by simp_all
  note F = settle_admission_frees [OF one.prems(2) ok room, where hash = hash and outcome = outcome and now = now,
      unfolded r1]
  from one.IH [OF one.prems(1) F(1)] one.prems F(3,4)
  have "slot_held k r1 \<and> k \<notin> pa_key ` set ps" by simp
  then show ?case using F(2) by auto
qed simp

lemma settled_one: "settle_admission hash outcome now p r = (r', settled) \<Longrightarrow> settled_by hash r [p] r'"
  by (rule settled_by.one) (auto intro: settled_by.none)

lemma success_settled_by:
  "settle_each_success hash now surface ps r = (r', cleared, evs) \<Longrightarrow> settled_by hash r ps r'"
  by (induction ps arbitrary: r r' cleared evs)
     (auto simp: Let_def intro: settled_by.intros split: prod.splits GenerationOutcome.splits)

lemma error_settled_by:
  "settle_each_error hash now surface reached reason ps r = (r', evs) \<Longrightarrow> settled_by hash r ps r'"
  by (induction ps arbitrary: r r' evs) (auto simp: Let_def intro: settled_by.intros split: prod.splits)

text \<open>A visit during which no other request touches the registry.\<close>

definition undisturbed :: "visit \<Rightarrow> bool" where
  "undisturbed v \<longleftrightarrow> (\<forall>f. Meanwhile f \<notin> set (vis_actions v))"

lemma action_settled_by:
  assumes "run_action hash sk a gd r = (r', gd', evs)" and "\<And>f. a \<noteq> Meanwhile f"
  shows "settled_by hash r (map ev_admission evs) r'"
proof (cases a)
  case (Rejected feature kind now)
  then show ?thesis using assms(1)
    by (auto simp: run_action_def settle_same_capability_def Let_def intro: settled_by.none settled_one
        split: prod.splits if_splits option.splits)
next
  case (Served now)
  then show ?thesis using assms(1) success_settled_by success_events
    by (fastforce simp: run_action_def settle_success_def intro: settled_by.none simp del: mset_map
        split: prod.splits if_splits)
qed (use assms(2) in simp)

lemma actions_settled_by:
  "run_actions hash sk acts gd r = (r', gd', evs) \<Longrightarrow> (\<And>f. Meanwhile f \<notin> set acts) \<Longrightarrow>
     settled_by hash r (map ev_admission evs) r'"
proof (induction acts arbitrary: gd r gd' r' evs)
  case (Cons a acts)
  obtain r1 gd1 evs1 where one: "run_action hash sk a gd r = (r1, gd1, evs1)" by (rule prod_cases3)
  obtain r2 gd2 evs2 where two: "run_actions hash sk acts gd1 r1 = (r2, gd2, evs2)" by (rule prod_cases3)
  have "settled_by hash r (map ev_admission evs1) r1" using Cons.prems(2) by (intro action_settled_by [OF one]) auto
  moreover have "settled_by hash r1 (map ev_admission evs2) r2" using Cons.prems(2) by (intro Cons.IH [OF two]) auto
  ultimately show ?case using Cons.prems(1) by (auto simp: one two intro: settled_by_append)
qed (simp add: settled_by.none)

lemma visit_settled_by:
  assumes "run_visit hash v s r = (s', r', evs)" and "undisturbed v"
  shows "settled_by hash r (map ev_admission evs) r'"
proof -
  define gd where "gd = (case pas_pending s (vis_state_key v) of
      Some admissions \<Rightarrow> armed admissions (pas_surface s) | None \<Rightarrow> inert)"
  obtain r1 gd1 evs1 where one: "run_actions hash (vis_state_key v) (vis_actions v) gd r = (r1, gd1, evs1)"
    by (rule prod_cases3)
  obtain r2 evs2 where two: "probe_guard_drop hash (vis_left v) gd1 r1 = (r2, evs2)" by (rule prod.exhaust)
  have eq: "r' = r2" "evs = evs1 @ evs2"
    using assms(1) one two by (simp_all add: run_visit_def admission_set_take_def Let_def flip: gd_def)
  have "settled_by hash r (map ev_admission evs1) r1"
    using assms(2) by (intro actions_settled_by [OF one]) (simp add: undisturbed_def)
  moreover have "settled_by hash r1 (map ev_admission evs2) r2"
  proof (cases "lpg_registry gd1")
    case True
    then have drop: "settle_each_error hash (vis_left v) (lpg_surface gd1) True ''terminal'' (lpg_probes gd1) r1 = (r2, evs2)"
      using two by (simp add: probe_guard_drop_def)
    from error_settled_by [OF this] error_events [OF drop] show ?thesis by simp
  qed (use two in \<open>simp add: probe_guard_drop_def settled_by.none\<close>)
  ultimately show ?thesis by (simp add: eq settled_by_append)
qed

lemma visits_settled_by:
  "run_visits hash vs s r = (s', r', evs) \<Longrightarrow> \<forall>v \<in> set vs. undisturbed v \<Longrightarrow> settled_by hash r (map ev_admission evs) r'"
proof (induction vs arbitrary: s r s' r' evs)
  case (Cons v vs)
  obtain s1 r1 evs1 where one: "run_visit hash v s r = (s1, r1, evs1)" by (rule prod_cases3)
  obtain s2 r2 evs2 where two: "run_visits hash vs s1 r1 = (s2, r2, evs2)" by (rule prod_cases3)
  have "settled_by hash r (map ev_admission evs1) r1" using Cons.prems(2) by (simp add: visit_settled_by [OF one])
  moreover have "settled_by hash r1 (map ev_admission evs2) r2" using Cons.prems(2) by (simp add: Cons.IH [OF two])
  ultimately show ?case using Cons.prems(1) by (auto simp: one two intro: settled_by_append)
qed (simp add: settled_by.none)

text \<open>When no other request interferes, after a request every re-probe slot it was admitted for is
  free again, whichever targets it visited and however they ended, and it claims no slot of its own.\<close>

lemma no_probe_slot_latched:
  assumes "run_request hash admissions surface vs ks now r = (r', evs)" and "distinct ks"
    and "set ks = pa_state_key ` set admissions - vis_state_key ` set vs"
    and "wf_entries (lcr_entries r)" and "\<forall>p \<in> set admissions. settleable r p"
    and "next_incarnation r + length admissions \<le> U64_MAX" and "\<forall>v \<in> set vs. undisturbed v"
  shows "(\<forall>p \<in> set admissions. \<not> slot_held (pa_key p) r') \<and> (\<forall>k. slot_held k r' \<longrightarrow> slot_held k r)"
proof -
  obtain s1 r1 evs1 where one: "run_visits hash vs (admission_set_new admissions surface) r = (s1, r1, evs1)"
    by (rule prod_cases3)
  obtain r2 evs2 where two: "admission_set_drop hash now ks s1 r1 = (r2, evs2)" by (rule prod.exhaust)
  have eq: "r' = r2" "evs = evs1 @ evs2" using assms(1) by (simp_all add: run_request_def one two)
  note drop = two [unfolded admission_set_drop_def]
  have "settled_by hash r1 (map ev_admission evs2) r2"
    using error_settled_by [OF drop] error_events [OF drop] by simp
  then have settled: "settled_by hash r (map ev_admission evs) r'"
    using visits_settled_by [OF one assms(7)] by (simp add: eq settled_by_append)
  have once: "mset (map ev_admission evs) = mset admissions" by (rule request_events [OF assms(1-3)])
  have "set (map ev_admission evs) = set admissions" using once by (rule mset_eq_setD)
  moreover have "length (map ev_admission evs) = length admissions" using once by (rule mset_eq_length)
  ultimately have "slot_held k r' \<Longrightarrow> slot_held k r \<and> k \<notin> pa_key ` set admissions" for k
    using settled_by_frees [OF settled, of k] assms(4-6) by simp
  then show ?thesis by blast
qed

subsection \<open>Instances\<close>

definition demo_admission :: ProbeAdmission where
  "demo_admission = \<lparr>pa_state_key = ''m'', pa_feature = ''web_search'', pa_provider_kind = ''gemini'', pa_generation = 1\<rparr>"

definition demo_visit :: "visit_action list \<Rightarrow> visit" where
  "demo_visit acts = \<lparr>vis_state_key = ''m'', vis_actions = acts, vis_left = 13\<rparr>"

lemma demo_pa_key [simp]: "pa_key demo_admission = demo_key" "pa_state_key demo_admission = ''m''"
  by (simp_all add: pa_key_def demo_admission_def)

theorem admissions_settle_exactly_once_witness:
  "mset (map ev_admission (snd (run_request (\<lambda>k n. 0) [demo_admission] ''complete''
     [demo_visit [Rejected ''x'' ''y'' 11, Served 12]] [] 14 demo_claimed))) = {#demo_admission#}"
  using admissions_settle_exactly_once [of "\<lambda>k n. 0" "[demo_admission]" "''complete''"
      "[demo_visit [Rejected ''x'' ''y'' 11, Served 12]]" "[]" 14 demo_claimed, OF surjective_pairing]
  by (simp add: demo_admission_def demo_visit_def del: mset_map)

lemma no_probe_slot_latched_witness:
  "\<not> slot_held demo_key (fst (run_request (\<lambda>k n. 0) [demo_admission] ''stream'' [] [''m''] 14 demo_claimed))"
proof -
  have "settleable demo_claimed demo_admission"
    by (simp add: settleable_def pa_key_def demo_admission_def admits_generation_def demo_defs)
  moreover have "wf_entries (lcr_entries demo_claimed)" by (simp add: demo_claimed_def)
  moreover have "next_incarnation demo_claimed + 1 \<le> U64_MAX" by (simp add: demo_defs U64_MAX_def)
  ultimately show ?thesis
    using no_probe_slot_latched [of "\<lambda>k n. 0" "[demo_admission]" "''stream''" "[]" "[''m'']" 14 demo_claimed, OF surjective_pairing]
    by simp
qed

text \<open>C30. A repeated rejection that settles while a purge holds the entry's lease is reported as applied
  and its admission is dropped, although the registry refused it and nothing was recorded; when the
  purge is then restored the slot is still claimed and no request is admitted to re-probe the lane.\<close>

theorem reserved_settlement_reported_applied:
  assumes "reachable_world hash (r, L)" and "slot_held (pa_key p) r"
    and "prepare_purge g (pa_state_key p) (pa_feature p) (pa_provider_kind p) r = (r1, ReservedLease l)"
    and "admits_generation r (pa_generation p) (pa_feature p)"
    and "settle_same_capability hash now (pa_state_key p) (pa_feature p) (pa_provider_kind p) (armed [p] surface) r1
           = (r2, gd, outcome, evs)"
    and "world_path hash (slot_untouched (pa_key p)) (restore_purge l r2, L) (r3, L3)"
  shows "outcome = SettlementApplied \<and> lpg_probes gd = [] \<and> r2 = r1
    \<and> snd (acting_negative_in_generation g' (pa_state_key p) (pa_feature p) (pa_provider_kind p) now' r3)
        \<noteq> Some (ProbeAdmitted, gen)"
proof -
  note K = lease_keeps_entries [OF assms(3)]
  have "settle_admission hash SameCapabilityRejection now p r1 = (r1, Reserved)"
    using assms(4) K(3,4,5)
    by (simp add: settle_admission_def record_probe_outcome_in_generation_def guarded_for_def guarded_keyed_def
        admits_generation_def split: option.splits)
  then have s: "outcome = SettlementApplied" "lpg_probes gd = []" "r2 = r1"
    and refused: "record_probe_outcome_in_generation hash (pa_generation p) (pa_state_key p) (pa_feature p)
        (pa_provider_kind p) SameCapabilityRejection now r1 = (r2, Reserved)"
    using assms(5) by (auto simp: settle_same_capability_def armed_def settle_admission_def)
  from settlement_lost_under_purge [OF assms(1) assms(2) [unfolded pa_key_def] assms(3) refused
      assms(6) [unfolded pa_key_def], of g' now' gen] s
  show ?thesis by blast
qed

theorem reserved_settlement_reported_applied_witness:
  "fst (snd (snd (settle_same_capability (\<lambda>k n. 0) 12 ''m'' ''web_search'' ''gemini'' (armed [demo_admission] ''complete'')
     (demo_leased demo_claimed)))) = SettlementApplied"
proof -
  have held: "slot_held (pa_key demo_admission) demo_claimed"
    by (simp add: slot_held_def demo_claimed_def)
  have ok: "admits_generation demo_claimed (pa_generation demo_admission) (pa_feature demo_admission)"
    by (simp add: demo_admission_def admits_generation_def demo_defs)
  obtain r2 gd outcome evs where s: "settle_same_capability (\<lambda>k n. 0) 12 (pa_state_key demo_admission) (pa_feature demo_admission)
      (pa_provider_kind demo_admission) (armed [demo_admission] ''complete'') (demo_leased demo_claimed) = (r2, gd, outcome, evs)"
    by (rule prod_cases4)
  have prep: "prepare_purge 1 (pa_state_key demo_admission) (pa_feature demo_admission) (pa_provider_kind demo_admission) demo_claimed
      = (demo_leased demo_claimed, ReservedLease (demo_lease (demo_entry\<lparr>in_flight := True\<rparr>)))"
    using demo_prepare(2) by (simp add: demo_admission_def)
  from reserved_settlement_reported_applied [OF demo_reachable(2) held prep ok s world_path.stop] s
  show ?thesis by (simp add: demo_admission_def)
qed

end
