(* ===== verification/Capability_Strip.thy ===== *)
theory Capability_Strip
  imports Capability_Keys BTree_Map
begin

text \<open>
  The capabilities a request asks for (\<open>routectl-router/src/feature_keys.rs\<close>), and the policy and
  interceptor that strip a droppable one from it (\<open>routectl-router/src/capability_strip.rs\<close>) under
  snapshot, validation and rollback. Of a request the surfaces these read are fields; a JSON object is
  its entries in key order. A debug build also asserts that the two tables of the policy agree, which
  they do.
\<close>

subsection \<open>Requests\<close>

record CustomTool =
  ct_name :: string
  ct_description :: "string option"
  ct_input_schema :: json
  ct_cache_control :: "json option"
  ct_defer_loading :: "bool option"
  ct_strict :: "bool option"
  ct_type_tag :: "string option"

datatype ToolDef = Custom CustomTool | OtherTool json

record 'x ToolRequest =
  tr_tools :: "ToolDef list option"
  tr_anthropic_beta :: "string list"
  tr_tool_choice :: "json option"
  tr_provider_extras :: "json option"
  tr_response_format :: "json option"
  tr_rest :: 'x

subsection \<open>Feature keys\<close>

definition strip_date_suffix :: "string \<Rightarrow> string" where
  "strip_date_suffix s =
     (if length s < 9 then s
      else (let suffix_start = length s - 9; sep = s ! suffix_start
            in if sep \<noteq> CHR ''-'' \<and> sep \<noteq> CHR ''_'' then s
               else if list_all is_digit (drop (suffix_start + 1) s) then take suffix_start s else s))"

definition response_format_requests_json :: "json option \<Rightarrow> bool" where
  "response_format_requests_json fmt = (case Option.bind fmt (\<lambda>o'. string_at o' ''type'') of
     Some t \<Rightarrow> t = ''json_schema'' \<or> t = ''json_object'' | None \<Rightarrow> False)"

definition needs_structured_output :: "ToolDef list \<Rightarrow> json option \<Rightarrow> json option \<Rightarrow> bool" where
  "needs_structured_output tools provider_extras response_format \<longleftrightarrow>
     (if response_format_requests_json response_format then True
      else if (case Option.bind provider_extras (\<lambda>v. Option.bind (json_get v ''output_config'') (\<lambda>oc. json_get oc ''format'')) of
          Some fmt \<Rightarrow> fmt \<noteq> JNull | None \<Rightarrow> False) then True
      else list_ex (\<lambda>tool. case tool of
          Custom c \<Rightarrow> ct_strict c = Some True
        | OtherTool v \<Rightarrow> json_get v ''strict'' = Some (JBool True)) tools)"

definition push_key :: "string \<Rightarrow> string list \<Rightarrow> string list" where
  "push_key key keys = (if list_ex (\<lambda>k. k = key) keys then keys else keys @ [key])"

definition derive_feature_keys :: "ToolDef list \<Rightarrow> json option \<Rightarrow> json option \<Rightarrow> string list" where
  "derive_feature_keys tools provider_extras response_format =
     (let keys = foldl (\<lambda>keys tool. case tool of
            Custom c \<Rightarrow> keys
          | OtherTool v \<Rightarrow> (case string_at v ''type'' of
              None \<Rightarrow> keys | Some type_str \<Rightarrow> push_key (strip_date_suffix type_str) keys)) [] tools
      in if needs_structured_output tools provider_extras response_format
         then push_key STRUCTURED_OUTPUT keys else keys)"

subsection \<open>The policy\<close>

definition ADVISOR :: string where "ADVISOR = ''advisor''"
definition CONTEXT_MANAGEMENT :: string where "CONTEXT_MANAGEMENT = ''context_management''"
definition CONTEXT_MANAGEMENT_BETA :: string where "CONTEXT_MANAGEMENT_BETA = ''context-management-2025-06-27''"

datatype StripKind = ToolParam | BetaFlag | AssistantReasoning
datatype CapabilityAction = ActRouteAway | ActStrip StripKind

definition STRIP_ACTIONS :: "(string \<times> StripKind) list" where
  "STRIP_ACTIONS = [(ADVISOR, ToolParam), (CONTEXT_MANAGEMENT, BetaFlag), (REASONING_REPLAY, AssistantReasoning)]"

definition action_for :: "string \<Rightarrow> CapabilityAction" where
  "action_for feature_key =
     (if feature_key = WEB_SEARCH \<or> feature_key = COMPUTER_USE \<or> feature_key = STRUCTURED_OUTPUT then ActRouteAway
      else case List.find (\<lambda>(key, kind). key = feature_key) STRIP_ACTIONS of
        None \<Rightarrow> ActRouteAway | Some (key, kind) \<Rightarrow> ActStrip kind)"

definition strippable_keys :: "string list" where
  "strippable_keys = map fst STRIP_ACTIONS"

definition is_strippable :: "string \<Rightarrow> bool" where
  "is_strippable feature_key \<longleftrightarrow> list_ex (\<lambda>key. key = feature_key) strippable_keys"

definition effective_action_for :: "string \<Rightarrow> string list \<Rightarrow> CapabilityAction" where
  "effective_action_for feature_key essential =
     (if list_ex (\<lambda>key. key = feature_key) essential then ActRouteAway else action_for feature_key)"

record StripPlan =
  tool_type :: "string option"
  beta_tokens :: "string list"
  body_keys :: "string list"

definition strip_plan :: "string \<Rightarrow> StripPlan option" where
  "strip_plan feature_key =
     (if feature_key = ADVISOR then Some \<lparr>tool_type = Some ADVISOR, beta_tokens = [], body_keys = []\<rparr>
      else if feature_key = CONTEXT_MANAGEMENT
        then Some \<lparr>tool_type = None, beta_tokens = [CONTEXT_MANAGEMENT_BETA], body_keys = [CONTEXT_MANAGEMENT]\<rparr>
      else None)"

definition strip_beta_tokens :: "string \<Rightarrow> string list" where
  "strip_beta_tokens feature_key = (case strip_plan feature_key of None \<Rightarrow> [] | Some plan \<Rightarrow> beta_tokens plan)"

subsection \<open>Surfaces\<close>

fun tool_matches_type :: "ToolDef \<Rightarrow> string \<Rightarrow> bool" where
  "tool_matches_type (OtherTool v) ty \<longleftrightarrow> map_option strip_date_suffix (string_at v ''type'') = Some ty"
| "tool_matches_type (Custom c) ty \<longleftrightarrow> False"

fun tool_name :: "ToolDef \<Rightarrow> string option" where
  "tool_name (Custom c) = Some (ct_name c)"
| "tool_name (OtherTool v) = string_at v ''name''"

definition tools_contains_type :: "'x ToolRequest \<Rightarrow> string \<Rightarrow> bool" where
  "tools_contains_type req ty \<longleftrightarrow> (case tr_tools req of
     None \<Rightarrow> False | Some tools \<Rightarrow> list_ex (\<lambda>tool. tool_matches_type tool ty) tools)"

definition tools_contains_name :: "'x ToolRequest \<Rightarrow> string \<Rightarrow> bool" where
  "tools_contains_name req name \<longleftrightarrow> (case tr_tools req of
     None \<Rightarrow> False | Some tools \<Rightarrow> list_ex (\<lambda>tool. tool_name tool = Some name) tools)"

definition tools_are_empty :: "'x ToolRequest \<Rightarrow> bool" where
  "tools_are_empty req \<longleftrightarrow> (case tr_tools req of None \<Rightarrow> True | Some tools \<Rightarrow> tools = [])"

definition body_contains_key :: "'x ToolRequest \<Rightarrow> string \<Rightarrow> bool" where
  "body_contains_key req key \<longleftrightarrow> (case tr_provider_extras req of
     Some (JObj obj) \<Rightarrow> map_of obj key \<noteq> None | _ \<Rightarrow> False)"

definition tool_choice_is_mandatory :: "json option \<Rightarrow> bool" where
  "tool_choice_is_mandatory choice = (case choice of
     None \<Rightarrow> False
   | Some c \<Rightarrow> c = JStr ''required''
       \<or> (case string_at c ''type'' of
            Some t \<Rightarrow> t = ''any'' \<or> t = ''tool'' \<or> t = ''function'' | None \<Rightarrow> False))"

definition forced_tool_name :: "json option \<Rightarrow> string option" where
  "forced_tool_name choice = (case choice of
     Some (JObj obj) \<Rightarrow>
       (case string_at (JObj obj) ''type'' of
          Some t \<Rightarrow>
            (if t = ''tool'' then string_at (JObj obj) ''name''
             else if t = ''function'' then
               (case map_of obj ''function'' of Some (JObj f) \<Rightarrow> string_at (JObj f) ''name'' | _ \<Rightarrow> None)
             else None)
        | None \<Rightarrow> None)
   | _ \<Rightarrow> None)"

definition plan_matches :: "'x ToolRequest \<Rightarrow> StripPlan \<Rightarrow> bool" where
  "plan_matches req plan \<longleftrightarrow>
     (case tool_type plan of None \<Rightarrow> False | Some ty \<Rightarrow> tools_contains_type req ty)
     \<or> list_ex (\<lambda>token. list_ex (\<lambda>b. b = token) (tr_anthropic_beta req)) (beta_tokens plan)
     \<or> list_ex (body_contains_key req) (body_keys plan)"

subsection \<open>The interceptor\<close>

datatype Outcome = Unchanged | Stripped | Reject Error

record StripContext =
  sc_keys :: "string list"
  sc_strict :: bool

datatype 'a FieldSnapshot = Untouched | RestoreTo 'a

definition capture :: "bool \<Rightarrow> 'a \<Rightarrow> 'a FieldSnapshot" where
  "capture touched value = (if touched then RestoreTo value else Untouched)"

record Snapshot =
  snap_tools :: "ToolDef list option FieldSnapshot"
  snap_anthropic_beta :: "string list FieldSnapshot"
  snap_provider_extras :: "json option FieldSnapshot"

definition restore :: "Snapshot \<Rightarrow> 'x ToolRequest \<Rightarrow> 'x ToolRequest" where
  "restore snap req =
     (let req = (case snap_tools snap of RestoreTo tools \<Rightarrow> req\<lparr>tr_tools := tools\<rparr> | Untouched \<Rightarrow> req);
          req = (case snap_anthropic_beta snap of RestoreTo betas \<Rightarrow> req\<lparr>tr_anthropic_beta := betas\<rparr> | Untouched \<Rightarrow> req)
      in case snap_provider_extras snap of RestoreTo extras \<Rightarrow> req\<lparr>tr_provider_extras := extras\<rparr> | Untouched \<Rightarrow> req)"

definition apply_plan :: "StripPlan \<Rightarrow> 'x ToolRequest \<Rightarrow> 'x ToolRequest" where
  "apply_plan plan req =
     (let req = (case tool_type plan of
            None \<Rightarrow> req
          | Some ty \<Rightarrow>
              (let req = req\<lparr>tr_tools := map_option (filter (\<lambda>tool. \<not> tool_matches_type tool ty)) (tr_tools req)\<rparr>
               in if tr_tools req = Some [] then req\<lparr>tr_tools := None\<rparr> else req));
          req = (if beta_tokens plan \<noteq> []
            then req\<lparr>tr_anthropic_beta := filter (\<lambda>token. \<not> list_ex (\<lambda>b. b = token) (beta_tokens plan)) (tr_anthropic_beta req)\<rparr>
            else req)
      in if body_keys plan \<noteq> [] then
           (case tr_provider_extras req of
              Some (JObj obj) \<Rightarrow>
                req\<lparr>tr_provider_extras := Some (JObj (foldl (\<lambda>obj key. filter (\<lambda>(k, v). k \<noteq> key) obj) obj (body_keys plan)))\<rparr>
            | _ \<Rightarrow> req)
         else req)"

definition validate_post_strip :: "'x ToolRequest \<Rightarrow> bool \<Rightarrow> Error option" where
  "validate_post_strip req stripped_tools =
     (if \<not> stripped_tools then None
      else case (case forced_tool_name (tr_tool_choice req) of
             Some forced \<Rightarrow> if \<not> tools_contains_name req forced then Some forced else None | None \<Rightarrow> None) of
        Some forced \<Rightarrow> Some (Validation (''capability strip removed tool `'' @ forced @ ''` still forced by tool_choice''))
      | None \<Rightarrow>
          if tool_choice_is_mandatory (tr_tool_choice req) \<and> tools_are_empty req
          then Some (Validation ''capability strip emptied tools while tool_choice mandates a tool'')
          else None)"

definition would_strip :: "'x ToolRequest \<Rightarrow> string \<Rightarrow> bool" where
  "would_strip req key = (case action_for key of
     ActRouteAway \<Rightarrow> False
   | ActStrip AssistantReasoning \<Rightarrow> False
   | ActStrip kind \<Rightarrow> (case strip_plan key of Some plan \<Rightarrow> plan_matches req plan | None \<Rightarrow> False))"

fun join_with :: "string \<Rightarrow> string list \<Rightarrow> string" where
  "join_with sep [] = []"
| "join_with sep [x] = x"
| "join_with sep (x # xs) = x @ sep @ join_with sep xs"

definition touches :: "(StripPlan \<Rightarrow> bool) \<Rightarrow> string list \<Rightarrow> bool" where
  "touches P keys = foldl (\<lambda>t key. case strip_plan key of Some plan \<Rightarrow> t \<or> P plan | None \<Rightarrow> t) False keys"

definition apply_keys :: "string list \<Rightarrow> 'x ToolRequest \<Rightarrow> 'x ToolRequest" where
  "apply_keys keys req = foldl (\<lambda>req key. case strip_plan key of Some plan \<Rightarrow> apply_plan plan req | None \<Rightarrow> req) req keys"

definition strip_apply :: "StripContext \<Rightarrow> 'x ToolRequest \<Rightarrow> 'x ToolRequest \<times> Outcome" where
  "strip_apply ctx req =
     (let keys = remdups_adj (sort (sc_keys ctx)); strip = filter (would_strip req) keys
      in if strip = [] then (req, Unchanged)
         else if sc_strict ctx
         then (req, Reject (Validation (''strict translation forbids stripping capability: '' @ join_with '', '' strip)))
         else (let touch_tools = touches (\<lambda>plan. tool_type plan \<noteq> None) strip;
                   snap = \<lparr>snap_tools = capture touch_tools (tr_tools req),
                     snap_anthropic_beta = capture (touches (\<lambda>plan. beta_tokens plan \<noteq> []) strip) (tr_anthropic_beta req),
                     snap_provider_extras = capture (touches (\<lambda>plan. body_keys plan \<noteq> []) strip) (tr_provider_extras req)\<rparr>;
                   stripped = apply_keys strip req
               in case validate_post_strip stripped touch_tools of
                    Some err \<Rightarrow> (restore snap stripped, Reject err)
                  | None \<Rightarrow> (stripped, Stripped)))"

subsection \<open>Feature keys of a request\<close>

definition tool_key :: "ToolDef \<Rightarrow> string option" where
  "tool_key tool = (case tool of Custom c \<Rightarrow> None
     | OtherTool v \<Rightarrow> map_option strip_date_suffix (string_at v ''type''))"

lemma push_key_props: "set (push_key k ks) = insert k (set ks)" "distinct ks \<Longrightarrow> distinct (push_key k ks)"
  by (auto simp: push_key_def list_ex_iff)

lemma derive_fold:
  fixes tools :: "ToolDef list"
  defines "step \<equiv> \<lambda>keys tool. case tool of
            Custom c \<Rightarrow> keys
          | OtherTool v \<Rightarrow> (case string_at v ''type'' of
              None \<Rightarrow> keys | Some type_str \<Rightarrow> push_key (strip_date_suffix type_str) keys)"
  shows "set (foldl step ks tools) = set ks \<union> {k. \<exists>t \<in> set tools. tool_key t = Some k}
    \<and> (distinct ks \<longrightarrow> distinct (foldl step ks tools))"
proof (induction tools arbitrary: ks)
  case (Cons t tools)
  have "set (step ks t) = set ks \<union> {k. tool_key t = Some k} \<and> (distinct ks \<longrightarrow> distinct (step ks t))"
    by (auto simp: step_def tool_key_def push_key_props split: ToolDef.split option.split)
  then show ?case using Cons [of "step ks t"] by auto
qed simp

text \<open>The features derived from a request are, each once, the types of its non-custom tools with
  a trailing date dropped, and \<open>structured_output\<close> when the response format, the output configuration
  or a strict tool asks for constrained decoding.\<close>

lemma feature_keys_exact:
  "distinct (derive_feature_keys tools extras fmt)
   \<and> set (derive_feature_keys tools extras fmt) = {k. \<exists>t \<in> set tools. tool_key t = Some k}
       \<union> (if needs_structured_output tools extras fmt then {STRUCTURED_OUTPUT} else {})"
  using derive_fold [of "[]" tools] by (auto simp: derive_feature_keys_def Let_def push_key_props)

subsection \<open>What a strip removes\<close>

definition key_removes_tool :: "string \<Rightarrow> ToolDef \<Rightarrow> bool" where
  "key_removes_tool k tool \<longleftrightarrow> (case strip_plan k of None \<Rightarrow> False
     | Some plan \<Rightarrow> (case tool_type plan of None \<Rightarrow> False | Some ty \<Rightarrow> tool_matches_type tool ty))"

definition key_body :: "string \<Rightarrow> string list" where
  "key_body k = (case strip_plan k of None \<Rightarrow> [] | Some plan \<Rightarrow> body_keys plan)"

definition touches_tools :: "string \<Rightarrow> bool" where
  "touches_tools k \<longleftrightarrow> (case strip_plan k of None \<Rightarrow> False | Some plan \<Rightarrow> tool_type plan \<noteq> None)"

fun without_keys :: "string set \<Rightarrow> json \<Rightarrow> json" where
  "without_keys K (JObj obj) = JObj (filter (\<lambda>(k, v). k \<notin> K) obj)"
| "without_keys K v = v"

text \<open>The request without the surfaces of the keys in \<open>S\<close>; a tool list emptied by it is absent.\<close>

definition stripped_of :: "string set \<Rightarrow> 'x ToolRequest \<Rightarrow> 'x ToolRequest" where
  "stripped_of S req = req\<lparr>
     tr_tools := (if \<exists>k \<in> S. touches_tools k
       then (case tr_tools req of None \<Rightarrow> None
             | Some tools \<Rightarrow> (let kept = filter (\<lambda>t. \<forall>k \<in> S. \<not> key_removes_tool k t) tools
                             in if kept = [] then None else Some kept))
       else tr_tools req),
     tr_anthropic_beta := filter (\<lambda>b. \<forall>k \<in> S. b \<notin> set (strip_beta_tokens k)) (tr_anthropic_beta req),
     tr_provider_extras := map_option (without_keys {b. \<exists>k \<in> S. b \<in> set (key_body k)}) (tr_provider_extras req)\<rparr>"

lemma without_no_keys [simp]: "without_keys {} v = v"
  by (cases v) (auto simp: filter_id_conv)

lemma without_keys_twice [simp]: "without_keys K' (without_keys K v) = without_keys (K \<union> K') v"
  by (cases v) (auto intro: filter_cong)

lemma map_option_without [simp]: "map_option (without_keys {}) v = v"
  by (cases v) simp_all

lemma stripped_of_nothing [simp]: "stripped_of {} req = req"
  by (simp add: stripped_of_def)

lemma foldl_without: "foldl (\<lambda>obj key. filter (\<lambda>(k, v). k \<noteq> key) obj) obj ks = filter (\<lambda>(k, v). k \<notin> set ks) obj"
  by (induction ks arbitrary: obj) (auto simp: case_prod_unfold intro: filter_cong)

lemma plan_extras:
  "tr_provider_extras (apply_plan plan req) = map_option (without_keys (set (body_keys plan))) (tr_provider_extras req)"
  by (auto simp: apply_plan_def Let_def foldl_without split: option.split json.split)

lemma plan_tools:
  "tr_tools (apply_plan plan req) = (case tool_type plan of
     None \<Rightarrow> tr_tools req
   | Some ty \<Rightarrow> (case tr_tools req of None \<Rightarrow> None
     | Some tools \<Rightarrow> (let kept = filter (\<lambda>tool. \<not> tool_matches_type tool ty) tools
                     in if kept = [] then None else Some kept)))"
  by (auto simp: apply_plan_def Let_def split: option.split json.split)

lemma plan_betas:
  "tr_anthropic_beta (apply_plan plan req) = filter (\<lambda>b. b \<notin> set (beta_tokens plan)) (tr_anthropic_beta req)"
  by (auto simp: apply_plan_def Let_def list_ex_iff split: option.split json.split)

lemma plan_rest:
  "tr_tool_choice (apply_plan plan req) = tr_tool_choice req"
  "tr_response_format (apply_plan plan req) = tr_response_format req" "tr_rest (apply_plan plan req) = tr_rest req"
  by (auto simp: apply_plan_def Let_def split: option.split json.split)

lemma apply_keys_rest [simp]:
  "tr_tool_choice (apply_keys ks req) = tr_tool_choice req"
  "tr_response_format (apply_keys ks req) = tr_response_format req" "tr_rest (apply_keys ks req) = tr_rest req"
  by (induction ks arbitrary: req) (auto simp: apply_keys_def plan_rest split: option.split)

lemma apply_keys_snoc:
  "apply_keys (ks @ [k]) req = (case strip_plan k of Some plan \<Rightarrow> apply_plan plan (apply_keys ks req) | None \<Rightarrow> apply_keys ks req)"
  by (simp add: apply_keys_def split: option.split)

lemma apply_keys_betas:
  "tr_anthropic_beta (apply_keys ks req) = filter (\<lambda>b. \<forall>k \<in> set ks. b \<notin> set (strip_beta_tokens k)) (tr_anthropic_beta req)"
proof (induction ks rule: rev_induct)
  case (snoc k ks)
  then show ?case
    by (cases "strip_plan k") (auto simp: apply_keys_snoc plan_betas strip_beta_tokens_def intro: filter_cong)
qed (simp add: apply_keys_def)

lemma apply_keys_extras:
  "tr_provider_extras (apply_keys ks req) = map_option (without_keys {b. \<exists>k \<in> set ks. b \<in> set (key_body k)}) (tr_provider_extras req)"
proof (induction ks rule: rev_induct)
  case (snoc k ks)
  have "{b. \<exists>x \<in> set (ks @ [k]). b \<in> set (key_body x)} = {b. \<exists>x \<in> set ks. b \<in> set (key_body x)} \<union> set (key_body k)"
    by auto
  with snoc show ?case
    by (cases "strip_plan k"; cases "tr_provider_extras req") (simp_all add: apply_keys_snoc plan_extras key_body_def)
qed (simp add: apply_keys_def option.map_ident)

lemma apply_keys_tools:
  "tr_tools (apply_keys ks req) = (if \<exists>k \<in> set ks. touches_tools k
     then (case tr_tools req of None \<Rightarrow> None
           | Some tools \<Rightarrow> (let kept = filter (\<lambda>t. \<forall>k \<in> set ks. \<not> key_removes_tool k t) tools
                           in if kept = [] then None else Some kept))
     else tr_tools req)"
proof (induction ks rule: rev_induct)
  case (snoc k ks)
  show ?case
  proof (cases "touches_tools k")
    case False
    then have "\<not> key_removes_tool k t" for t
      by (auto simp: touches_tools_def key_removes_tool_def split: option.splits)
    moreover have "tr_tools (apply_keys (ks @ [k]) req) = tr_tools (apply_keys ks req)"
      using False by (auto simp: apply_keys_snoc plan_tools touches_tools_def split: option.splits)
    ultimately show ?thesis using snoc False by (simp cong: option.case_cong)
  next
    case True
    then obtain plan ty where plan: "strip_plan k = Some plan" "tool_type plan = Some ty"
      by (auto simp: touches_tools_def split: option.splits)
    then have rm: "key_removes_tool k t = tool_matches_type t ty" for t by (simp add: key_removes_tool_def)
    have no: "\<not> (\<exists>x \<in> set ks. touches_tools x) \<Longrightarrow> \<forall>x \<in> set ks. \<not> key_removes_tool x t" for t
      by (auto simp: touches_tools_def key_removes_tool_def split: option.splits)
    show ?thesis
      using True no by (cases "tr_tools req")
        (auto simp: apply_keys_snoc plan plan_tools snoc Let_def rm filter_empty_conv intro!: filter_cong)
  qed
qed (simp add: apply_keys_def)

lemma apply_keys_stripped: "apply_keys ks req = stripped_of (set ks) req"
  by (intro ToolRequest.equality)
     (simp_all add: stripped_of_def apply_keys_tools apply_keys_betas apply_keys_extras)


lemma touches_iff: "touches P ks \<longleftrightarrow> (\<exists>k \<in> set ks. case strip_plan k of Some plan \<Rightarrow> P plan | None \<Rightarrow> False)"
  unfolding touches_def by (induction ks rule: rev_induct) (auto split: option.splits)

lemma touches_surfaces:
  "touches (\<lambda>plan. tool_type plan \<noteq> None) ks \<longleftrightarrow> (\<exists>k \<in> set ks. touches_tools k)"
  "touches (\<lambda>plan. beta_tokens plan \<noteq> []) ks \<longleftrightarrow> (\<exists>k \<in> set ks. strip_beta_tokens k \<noteq> [])"
  "touches (\<lambda>plan. body_keys plan \<noteq> []) ks \<longleftrightarrow> (\<exists>k \<in> set ks. key_body k \<noteq> [])"
  by (auto simp: touches_iff touches_tools_def strip_beta_tokens_def key_body_def split: option.splits)

text \<open>Rolling back gives the request before the strip: a surface no plan touches is unchanged.\<close>

lemma restore_undoes:
  "restore \<lparr>snap_tools = capture (touches (\<lambda>plan. tool_type plan \<noteq> None) ks) (tr_tools req),
     snap_anthropic_beta = capture (touches (\<lambda>plan. beta_tokens plan \<noteq> []) ks) (tr_anthropic_beta req),
     snap_provider_extras = capture (touches (\<lambda>plan. body_keys plan \<noteq> []) ks) (tr_provider_extras req)\<rparr>
     (stripped_of (set ks) req) = req"
proof -
  have "filter (\<lambda>b. \<forall>k \<in> set ks. b \<notin> set (strip_beta_tokens k)) (tr_anthropic_beta req) = tr_anthropic_beta req"
    if "\<forall>k \<in> set ks. strip_beta_tokens k = []" using that by (simp add: filter_id_conv)
  moreover have "map_option (without_keys {b. \<exists>k \<in> set ks. b \<in> set (key_body k)}) (tr_provider_extras req) = tr_provider_extras req"
    if "\<forall>k \<in> set ks. key_body k = []"
  proof -
    have "{b. \<exists>k \<in> set ks. b \<in> set (key_body k)} = {}" using that by auto
    then show ?thesis by (simp add: option.map_ident)
  qed
  ultimately show ?thesis
    unfolding touches_surfaces
    by (intro ToolRequest.equality) (auto simp: restore_def capture_def Let_def stripped_of_def)
qed

lemma stripped_no_match:
  assumes "k \<in> S"
  shows "\<not> would_strip (stripped_of S req) k"
proof (cases "strip_plan k")
  case (Some plan)
  have tools: "\<not> tools_contains_type (stripped_of S req) ty" if "tool_type plan = Some ty" for ty
  proof -
    have "touches_tools k" "key_removes_tool k t = tool_matches_type t ty" for t
      using Some that by (simp_all add: touches_tools_def key_removes_tool_def)
    then show ?thesis using assms
      by (auto simp: tools_contains_type_def stripped_of_def Let_def list_ex_iff split: option.split)
  qed
  have "\<not> body_contains_key (stripped_of S req) b" if "b \<in> set (body_keys plan)" for b
  proof -
    have "b \<in> set (key_body k)" using Some that by (simp add: key_body_def)
    then have "b \<in> {b. \<exists>k \<in> S. b \<in> set (key_body k)}" using assms by blast
    then show ?thesis
      by (cases "tr_provider_extras req")
         (auto simp: body_contains_key_def stripped_of_def map_of_eq_None_iff split: json.split
           elim!: without_keys.elims)
  qed
  moreover have "b \<notin> set (tr_anthropic_beta (stripped_of S req))" if "b \<in> set (beta_tokens plan)" for b
  proof -
    have "b \<in> set (strip_beta_tokens k)" using Some that by (simp add: strip_beta_tokens_def)
    with assms show ?thesis by (auto simp: stripped_of_def)
  qed
  ultimately have "\<not> plan_matches (stripped_of S req) plan"
    using tools by (auto simp: plan_matches_def list_ex_iff split: option.split)
  then show ?thesis using Some by (simp add: would_strip_def split: CapabilityAction.split StripKind.split)
qed (simp add: would_strip_def split: CapabilityAction.split StripKind.split)

lemma without_keys_mem: "body_contains_key (stripped_of S req) b \<Longrightarrow> body_contains_key req b"
  by (cases "tr_provider_extras req")
     (auto simp: body_contains_key_def stripped_of_def map_of_eq_None_iff split: json.splits elim!: without_keys.elims)

lemma stripped_mono:
  assumes "would_strip (stripped_of S req) k"
  shows "would_strip req k"
proof -
  have tools: "tools_contains_type req ty" if "tools_contains_type (stripped_of S req) ty" for ty
    using that by (auto simp: tools_contains_type_def stripped_of_def Let_def list_ex_iff split: option.splits if_splits)
  have betas: "set (tr_anthropic_beta (stripped_of S req)) \<subseteq> set (tr_anthropic_beta req)"
    by (auto simp: stripped_of_def)
  have "plan_matches req plan" if "plan_matches (stripped_of S req) plan" for plan
    using that tools betas without_keys_mem [of S req]
    unfolding plan_matches_def list_ex_iff by (cases "tool_type plan") (simp; blast)+
  then show ?thesis using assms
    by (auto simp: would_strip_def split: CapabilityAction.splits StripKind.splits option.splits)
qed


text \<open>C28. Stripping is a transaction. A run that does not report success leaves the request as it was,
  byte for byte; it reports nothing to do exactly when no key would strip anything, and never
  strips under strict translation. A successful run removes exactly the surfaces of the keys that
  strip something, whatever the order and repetition of the keys, leaves none of them behind, and a
  tool the request forces to be called is still there.\<close>

theorem strip_is_transactional:
  fixes req :: "'x ToolRequest" and ctx :: StripContext
  defines "act \<equiv> {k \<in> set (sc_keys ctx). would_strip req k}"
  assumes "strip_apply ctx req = (req', outcome)"
  shows "case outcome of
      Unchanged \<Rightarrow> req' = req \<and> act = {}
    | Reject err \<Rightarrow> req' = req \<and> act \<noteq> {}
    | Stripped \<Rightarrow> act \<noteq> {} \<and> \<not> sc_strict ctx \<and> req' = stripped_of act req
        \<and> {k \<in> set (sc_keys ctx). would_strip req' k} = {}
        \<and> validate_post_strip req' (\<exists>k \<in> act. touches_tools k) = None"
proof -
  define strip where "strip = filter (would_strip req) (remdups_adj (sort (sc_keys ctx)))"
  have act: "set strip = act" by (auto simp: strip_def act_def)
  then have empty: "strip = [] \<longleftrightarrow> act = {}" by auto
  define T where "T = touches (\<lambda>plan. tool_type plan \<noteq> None) strip"
  define A where "A = apply_keys strip req"
  define snap where "snap = \<lparr>snap_tools = capture T (tr_tools req),
     snap_anthropic_beta = capture (touches (\<lambda>plan. beta_tokens plan \<noteq> []) strip) (tr_anthropic_beta req),
     snap_provider_extras = capture (touches (\<lambda>plan. body_keys plan \<noteq> []) strip) (tr_provider_extras req)\<rparr>"
  have run: "(if strip = [] then (req, Unchanged)
       else if sc_strict ctx
       then (req, Reject (Validation (''strict translation forbids stripping capability: '' @ join_with '', '' strip)))
       else case validate_post_strip A T of Some err \<Rightarrow> (restore snap A, Reject err) | None \<Rightarrow> (A, Stripped)) = (req', outcome)"
    using assms(2) unfolding strip_apply_def Let_def strip_def T_def A_def snap_def .
  have A: "A = stripped_of act req" by (simp add: A_def apply_keys_stripped act)
  have T: "T = (\<exists>k \<in> act. touches_tools k)" unfolding T_def touches_surfaces(1) act by (rule refl)
  have rolled: "restore snap A = req"
    unfolding snap_def T_def A_def apply_keys_stripped by (rule restore_undoes)
  have done_with: "{k \<in> set (sc_keys ctx). would_strip A k} = {}"
  proof -
    have "\<not> would_strip A k" if "k \<in> set (sc_keys ctx)" for k
      using that stripped_mono [of act req k] stripped_no_match [of k act req]
      unfolding A by (cases "k \<in> act") (auto simp: act_def)
    then show ?thesis by blast
  qed
  show ?thesis
  proof (cases "strip = [] \<or> sc_strict ctx")
    case True
    then show ?thesis
    proof (cases "strip = []")
      case True
      then show ?thesis using run empty by auto
    next
      case False
      then have "(req, Reject (Validation (''strict translation forbids stripping capability: '' @ join_with '', '' strip))) = (req', outcome)"
        using run \<open>strip = [] \<or> sc_strict ctx\<close> by (simp only: if_False if_True simp_thms)
      then show ?thesis using False empty by auto
    qed
  next
    case False
    then have run': "(case validate_post_strip A T of Some err \<Rightarrow> (restore snap A, Reject err) | None \<Rightarrow> (A, Stripped)) = (req', outcome)"
      using run by simp
    show ?thesis
    proof (cases "validate_post_strip A T")
      case None
      then have "req' = A" "outcome = Stripped" using run' by simp_all
      moreover have "act \<noteq> {}" "\<not> sc_strict ctx" using False empty by simp_all
      ultimately show ?thesis using None done_with A T by simp
    next
      case (Some err)
      then have "req' = req" "outcome = Reject err" using run' rolled by simp_all
      then show ?thesis using False empty by simp
    qed
  qed
qed


definition demo_request :: "unit ToolRequest" where
  "demo_request = \<lparr>tr_tools = Some [OtherTool (JObj [(''name'', JStr ''a''), (''type'', JStr ''advisor_20250301'')])],
     tr_anthropic_beta = [CONTEXT_MANAGEMENT_BETA], tr_tool_choice = None, tr_provider_extras = None,
     tr_response_format = None, tr_rest = ()\<rparr>"

definition demo_strip_context :: StripContext where
  "demo_strip_context = \<lparr>sc_keys = [''advisor''], sc_strict = False\<rparr>"

lemma demo_strips:
  "would_strip demo_request ''advisor''"
  "strip_apply demo_strip_context demo_request = (demo_request\<lparr>tr_tools := None\<rparr>, Stripped)"
  by (simp_all add: strip_apply_def demo_strip_context_def demo_request_def would_strip_def action_for_def STRIP_ACTIONS_def
      ADVISOR_def CONTEXT_MANAGEMENT_def REASONING_REPLAY_def WEB_SEARCH_def COMPUTER_USE_def STRUCTURED_OUTPUT_def
      strip_plan_def plan_matches_def tools_contains_type_def string_at_def strip_date_suffix_def is_digit_def digit_val_def
      touches_def apply_keys_def apply_plan_def validate_post_strip_def forced_tool_name_def tool_choice_is_mandatory_def Let_def)

theorem strip_is_transactional_witness:
  "demo_request\<lparr>tr_tools := None\<rparr> = stripped_of {''advisor''} demo_request"
proof -
  have "{k \<in> set (sc_keys demo_strip_context). would_strip demo_request k} = {''advisor''}"
    using demo_strips(1) by (auto simp: demo_strip_context_def)
  then show ?thesis using strip_is_transactional [OF demo_strips(2)] by simp
qed

text \<open>The operator's list of essentials only tightens the policy, and the accept set of the
  configuration is the keys the policy strips.\<close>

lemma effective_action_tightens:
  "effective_action_for k essential = ActStrip kind \<longleftrightarrow> action_for k = ActStrip kind \<and> k \<notin> set essential"
  by (auto simp: effective_action_for_def list_ex_iff)

lemma is_strippable_iff: "is_strippable k \<longleftrightarrow> (\<exists>kind. action_for k = ActStrip kind)"
  by (auto simp: is_strippable_def strippable_keys_def STRIP_ACTIONS_def action_for_def ADVISOR_def
      CONTEXT_MANAGEMENT_def REASONING_REPLAY_def WEB_SEARCH_def COMPUTER_USE_def STRUCTURED_OUTPUT_def)

lemma strips_only_when: "action_for k = ActStrip kind \<Longrightarrow> k \<in> {ADVISOR, CONTEXT_MANAGEMENT, REASONING_REPLAY}"
  by (auto simp: STRIP_ACTIONS_def action_for_def split: if_splits)

end
