(* ===== verification/Override_Registry.thy ===== *)
theory Override_Registry
  imports Resolved_Model Capability_Keys "HOL-Library.AList" "HOL-Library.Product_Lexorder"
begin

text \<open>
  The operator's capability overrides (\<open>routectl-router/src/override_registry.rs\<close>): four sources of
  the configuration flattened into cells by target and capability, with their verdict and where it
  came from. A hash map of cells is its association list; its order is read only by \<open>snapshot\<close>, whose
  rows are unordered.
\<close>

subsection \<open>Configuration read here\<close>

record ModelFeatureEntry =
  me_provider :: string
  me_unsupported_features :: "string list"

record OverrideEntry =
  oe_unsupported :: "string list"
  oe_force_supported :: "string list"

record OverrideConfig =
  oc_providers :: "(string, ProviderEntry) btree"
  oc_models :: "(string, ModelFeatureEntry) btree"
  oc_overrides :: "(string, OverrideEntry) btree"

subsection \<open>Cells\<close>

datatype OverrideVerdict = VerdictRouteAway | ForceSupported
datatype OverrideProvenance = ProviderStatic | ModelStatic | Override

datatype CellKey = CellKey (ck_target_spec: string) (ck_capability_key: string)

record Cell =
  cell_verdict :: OverrideVerdict
  cell_provenance :: OverrideProvenance

record OverrideRow =
  or_target_spec :: string
  or_capability_key :: string
  or_verdict :: OverrideVerdict
  or_provenance :: OverrideProvenance

record Contribution =
  co_target_spec :: string
  co_capability_key :: string
  co_verdict :: OverrideVerdict
  co_provenance :: OverrideProvenance
  co_source :: string

type_synonym override_cells = "(CellKey \<times> Cell) list"

definition split_target_spec :: "string \<Rightarrow> string \<times> string option" where
  "split_target_spec spec = (case position (\<lambda>c. c = CHR '':'') spec of
     Some i \<Rightarrow> (take i spec, Some (drop (Suc i) spec)) | None \<Rightarrow> (spec, None))"

definition provider_of_spec :: "string \<Rightarrow> string" where
  "provider_of_spec spec = fst (split_target_spec spec)"

definition provider_kind_for :: "OverrideConfig \<Rightarrow> string \<Rightarrow> string" where
  "provider_kind_for cfg provider_name = (case bt_get (oc_providers cfg) provider_name of
     None \<Rightarrow> [] | Some entry \<Rightarrow> kind_str entry)"

definition merge_cell :: "Cell \<Rightarrow> Cell \<Rightarrow> Cell" where
  "merge_cell existing incoming =
     (if cell_verdict existing = cell_verdict incoming
      then \<lparr>cell_verdict = cell_verdict existing,
            cell_provenance = (if cell_provenance existing = Override then cell_provenance incoming
                               else cell_provenance existing)\<rparr>
      else (let route_away = (if cell_verdict existing = VerdictRouteAway then existing else incoming)
            in \<lparr>cell_verdict = VerdictRouteAway, cell_provenance = cell_provenance route_away\<rparr>))"

definition contribution :: "string \<Rightarrow> string \<Rightarrow> OverrideVerdict \<Rightarrow> OverrideProvenance \<Rightarrow> string \<Rightarrow> string \<Rightarrow> Contribution" where
  "contribution spec kind verdict provenance source raw =
     \<lparr>co_target_spec = spec, co_capability_key = normalize_capability_key raw kind, co_verdict = verdict,
      co_provenance = provenance, co_source = source\<rparr>"

fun provider_contributions :: "string \<times> ProviderEntry \<Rightarrow> Contribution list" where
  "provider_contributions (provider_name, entry) =
     map (contribution provider_name (kind_str entry) VerdictRouteAway ProviderStatic
           (''[providers.'' @ provider_name @ ''].unsupported_features''))
       (prp_unsupported_features (runtime entry))"

fun model_contributions :: "OverrideConfig \<Rightarrow> string \<times> ModelFeatureEntry \<Rightarrow> Contribution list" where
  "model_contributions cfg (nick, model) =
     map (contribution (me_provider model @ '':'' @ nick) (provider_kind_for cfg (me_provider model))
           VerdictRouteAway ModelStatic (''[models.'' @ nick @ ''].unsupported_features''))
       (me_unsupported_features model)"

fun override_contributions :: "OverrideConfig \<Rightarrow> string \<times> OverrideEntry \<Rightarrow> Contribution list" where
  "override_contributions cfg (spec, entry) =
     (let kind = provider_kind_for cfg (provider_of_spec spec)
      in map (contribution spec kind VerdictRouteAway Override (''[capability.overrides.'' @ spec @ ''].unsupported''))
           (oe_unsupported entry)
         @ map (contribution spec kind ForceSupported Override (''[capability.overrides.'' @ spec @ ''].force_supported''))
           (oe_force_supported entry))"

definition collect_contributions :: "OverrideConfig \<Rightarrow> Contribution list" where
  "collect_contributions cfg =
     concat (map provider_contributions (oc_providers cfg))
     @ concat (map (model_contributions cfg) (oc_models cfg))
     @ concat (map (override_contributions cfg) (oc_overrides cfg))"

definition cell_key :: "Contribution \<Rightarrow> CellKey" where
  "cell_key c = CellKey (co_target_spec c) (co_capability_key c)"

definition cell_of :: "Contribution \<Rightarrow> Cell" where
  "cell_of c = \<lparr>cell_verdict = co_verdict c, cell_provenance = co_provenance c\<rparr>"

definition add_contribution :: "override_cells \<Rightarrow> Contribution \<Rightarrow> override_cells" where
  "add_contribution cells c = (case map_of cells (cell_key c) of
     None \<Rightarrow> AList.update (cell_key c) (cell_of c) cells
   | Some existing \<Rightarrow> AList.update (cell_key c) (merge_cell existing (cell_of c)) cells)"

text \<open>The dead-key warnings \<open>build\<close> emits, as the (spec, raw key, stored key) they name.\<close>

definition override_key_reachable :: "string \<Rightarrow> string \<Rightarrow> bool" where
  "override_key_reachable stored_key kind \<longleftrightarrow> normalize_capability_key stored_key kind = stored_key"

definition dead_override_keys :: "OverrideConfig \<Rightarrow> (string \<times> string \<times> string) list" where
  "dead_override_keys cfg = concat (map (\<lambda>(spec, entry).
     let kind = provider_kind_for cfg (provider_of_spec spec) in
     map (\<lambda>raw. (spec, raw, normalize_capability_key raw kind))
       (filter (\<lambda>raw. \<not> override_key_reachable (normalize_capability_key raw kind) kind)
         (oe_unsupported entry @ oe_force_supported entry))) (oc_overrides cfg))"

definition override_build :: "OverrideConfig \<Rightarrow> override_cells" where
  "override_build cfg = foldl add_contribution [] (collect_contributions cfg)"

definition override_resolve :: "override_cells \<Rightarrow> string \<Rightarrow> string \<Rightarrow> string \<Rightarrow> string \<Rightarrow>
    (OverrideVerdict \<times> OverrideProvenance) option" where
  "override_resolve cells provider_name nick capability_raw provider_kind =
     (let capability_key = normalize_capability_key capability_raw provider_kind
      in case map_of cells (CellKey (provider_name @ '':'' @ nick) capability_key) of
        Some cell \<Rightarrow> Some (cell_verdict cell, cell_provenance cell)
      | None \<Rightarrow> map_option (\<lambda>cell. (cell_verdict cell, cell_provenance cell))
          (map_of cells (CellKey provider_name capability_key)))"

definition override_snapshot :: "override_cells \<Rightarrow> OverrideRow list" where
  "override_snapshot cells = map (\<lambda>(key, cell). \<lparr>or_target_spec = ck_target_spec key,
     or_capability_key = ck_capability_key key, or_verdict = cell_verdict cell,
     or_provenance = cell_provenance cell\<rparr>) cells"

subsection \<open>Validation\<close>

definition or_insert :: "'k \<Rightarrow> 'v \<Rightarrow> ('k \<times> 'v) list \<Rightarrow> ('k \<times> 'v) list" where
  "or_insert k v m = (case map_of m k of None \<Rightarrow> AList.update k v m | Some _ \<Rightarrow> m)"

definition verdict_bucket :: "OverrideVerdict \<Rightarrow> Contribution list \<Rightarrow> (CellKey \<times> string) list" where
  "verdict_bucket verdict cs = foldl (\<lambda>m c. if co_verdict c = verdict then or_insert (cell_key c) (co_source c) m else m) [] cs"

definition override_conflicts :: "OverrideConfig \<Rightarrow> (CellKey \<times> string \<times> string) list" where
  "override_conflicts cfg =
     (let cs = collect_contributions cfg;
          route_away = verdict_bucket VerdictRouteAway cs; force_supported = verdict_bucket ForceSupported cs
      in sort_key (\<lambda>(key, _). (ck_target_spec key, ck_capability_key key))
           (List.map_filter (\<lambda>(key, away). map_option (\<lambda>forced. (key, away, forced)) (map_of force_supported key)) route_away))"

definition validate_capability_overrides :: "OverrideConfig \<Rightarrow> string option" where
  "validate_capability_overrides cfg = (case override_conflicts cfg of
     [] \<Rightarrow> None
   | (key, away, forced) # _ \<Rightarrow>
       Some (''[capability.overrides.'' @ ck_target_spec key @ ''] contradictory override for capability `''
         @ ck_capability_key key @ ''`: '' @ away @ '' marks it route-away while '' @ forced
         @ '' marks it force-supported -- one target/capability cannot be both''))"

subsection \<open>What a cell stands for\<close>

text \<open>The contributions of one cell, in the order they are collected.\<close>

definition contributions_at :: "OverrideConfig \<Rightarrow> CellKey \<Rightarrow> Contribution list" where
  "contributions_at cfg k = filter (\<lambda>c. cell_key c = k) (collect_contributions cfg)"

text \<open>The first static provenance of a list, and \<open>Override\<close> when there is none.\<close>

definition leading_provenance :: "Contribution list \<Rightarrow> OverrideProvenance" where
  "leading_provenance cs = (case List.find (\<lambda>c. co_provenance c \<noteq> Override) cs of
     None \<Rightarrow> Override | Some c \<Rightarrow> co_provenance c)"

definition folded_cell :: "Contribution list \<Rightarrow> Cell option" where
  "folded_cell cs =
     (let away = filter (\<lambda>c. co_verdict c = VerdictRouteAway) cs
      in if away \<noteq> [] then Some \<lparr>cell_verdict = VerdictRouteAway, cell_provenance = leading_provenance away\<rparr>
         else if cs = [] then None
         else Some \<lparr>cell_verdict = ForceSupported, cell_provenance = leading_provenance cs\<rparr>)"

lemma verdict_not [simp]: "v \<noteq> VerdictRouteAway \<longleftrightarrow> v = ForceSupported" "v \<noteq> ForceSupported \<longleftrightarrow> v = VerdictRouteAway"
  by (cases v; simp)+

lemma find_snoc: "List.find P (xs @ [x]) = (case List.find P xs of None \<Rightarrow> if P x then Some x else None | Some y \<Rightarrow> Some y)"
  by (induction xs) auto

lemma leading_snoc:
  "leading_provenance (cs @ [c]) = (if leading_provenance cs = Override then co_provenance c else leading_provenance cs)"
  using find_Some_mem [of "\<lambda>c. co_provenance c \<noteq> Override" cs]
  by (auto simp: leading_provenance_def find_snoc split: option.splits)

lemma leading_Nil [simp]: "leading_provenance [] = Override"
  by (simp add: leading_provenance_def)

lemma folded_snoc:
  "folded_cell (cs @ [c]) = (case folded_cell cs of None \<Rightarrow> Some (cell_of c) | Some e \<Rightarrow> Some (merge_cell e (cell_of c)))"
proof -
  have cs: "filter (\<lambda>c. co_verdict c = VerdictRouteAway) cs = [] \<Longrightarrow> leading_provenance [c] = co_provenance c"
    by (simp add: leading_snoc [of "[]", simplified])
  show ?thesis
    by (cases "co_verdict c"; cases "cs = []"; cases "filter (\<lambda>c. co_verdict c = VerdictRouteAway) cs = []")
       (simp_all add: folded_cell_def Let_def merge_cell_def cell_of_def leading_snoc leading_snoc [of "[]", simplified])
qed

lemma build_cell: "map_of (foldl add_contribution [] cs) k = folded_cell (filter (\<lambda>c. cell_key c = k) cs)"
proof (induction cs rule: rev_induct)
  case (snoc c cs)
  then show ?case
    by (auto simp: add_contribution_def update_conv' folded_snoc split: option.split)
qed (simp add: folded_cell_def)

lemma override_build_cell: "map_of (override_build cfg) k = folded_cell (contributions_at cfg k)"
  by (simp add: override_build_def build_cell contributions_at_def)


lemma folded_None [simp]: "folded_cell cs = None \<longleftrightarrow> cs = []"
  by (auto simp: folded_cell_def Let_def)

lemma folded_Some:
  "folded_cell cs = Some cell \<longleftrightarrow> cs \<noteq> []
     \<and> (cell_verdict cell = VerdictRouteAway \<longleftrightarrow> (\<exists>c \<in> set cs. co_verdict c = VerdictRouteAway))
     \<and> cell_provenance cell = leading_provenance (filter (\<lambda>c. co_verdict c = cell_verdict cell) cs)"
proof (cases "filter (\<lambda>c. co_verdict c = VerdictRouteAway) cs = []")
  case True
  then have none: "\<forall>c \<in> set cs. co_verdict c = ForceSupported" by (auto simp: filter_empty_conv)
  then have "filter (\<lambda>c. co_verdict c = ForceSupported) cs = cs" by (simp add: filter_id_conv)
  then show ?thesis using True none
    by (cases cell; cases "cell_verdict cell") (auto simp: folded_cell_def Let_def)
next
  case False
  then have "\<exists>c \<in> set cs. co_verdict c = VerdictRouteAway" "cs \<noteq> []" by (auto simp: filter_empty_conv)
  then show ?thesis using False
    by (cases cell; cases "cell_verdict cell") (auto simp: folded_cell_def Let_def)
qed

text \<open>C29. Resolving a capability for a target consults the contributions made for that model, and those
  made for its provider only when there are none: it answers nothing when there are no contributions,
  routes away exactly when one of them does, and names the first static source of that verdict, or
  the override table when no static list gave it.\<close>

theorem override_resolution_exact:
  "let key = normalize_capability_key feature kind;
       here = contributions_at cfg (CellKey (provider @ '':'' @ nick) key);
       cs = (if here \<noteq> [] then here else contributions_at cfg (CellKey provider key));
       answer = override_resolve (override_build cfg) provider nick feature kind
   in (answer = None \<longleftrightarrow> cs = [])
    \<and> (answer = Some (v, prov) \<longleftrightarrow> cs \<noteq> [] \<and> (v = VerdictRouteAway \<longleftrightarrow> (\<exists>c \<in> set cs. co_verdict c = VerdictRouteAway))
         \<and> prov = leading_provenance (filter (\<lambda>c. co_verdict c = v) cs))"
proof -
  let ?key = "normalize_capability_key feature kind"
  let ?here = "contributions_at cfg (CellKey (provider @ '':'' @ nick) ?key)"
  let ?cs = "if ?here \<noteq> [] then ?here else contributions_at cfg (CellKey provider ?key)"
  have eq: "override_resolve (override_build cfg) provider nick feature kind
      = map_option (\<lambda>cell. (cell_verdict cell, cell_provenance cell)) (folded_cell ?cs)"
    by (cases "folded_cell ?here") (simp_all add: override_resolve_def override_build_cell Let_def flip: folded_None)
  have "map_option (\<lambda>cell. (cell_verdict cell, cell_provenance cell)) (folded_cell ?cs) = Some (v, prov)
      \<longleftrightarrow> folded_cell ?cs = Some \<lparr>cell_verdict = v, cell_provenance = prov\<rparr>"
    by (cases "folded_cell ?cs") (auto intro: Cell.equality)
  then show ?thesis unfolding Let_def eq folded_Some by simp
qed

lemma or_insert_dom: "map_of (or_insert q x m) k \<noteq> None \<longleftrightarrow> map_of m k \<noteq> None \<or> k = q"
  by (cases "map_of m q") (auto simp: or_insert_def update_conv')

lemma bucket_dom:
  "map_of (verdict_bucket v cs) k \<noteq> None \<longleftrightarrow> (\<exists>c \<in> set cs. cell_key c = k \<and> co_verdict c = v)"
proof (induction cs rule: rev_induct)
  case (snoc c cs)
  show ?case
  proof (cases "co_verdict c = v")
    case True
    then have "verdict_bucket v (cs @ [c]) = or_insert (cell_key c) (co_source c) (verdict_bucket v cs)"
      by (simp add: verdict_bucket_def)
    then show ?thesis unfolding or_insert_dom snoc \<open>verdict_bucket v (cs @ [c]) = _\<close> using True by auto
  next
    case False
    then have "verdict_bucket v (cs @ [c]) = verdict_bucket v cs" by (simp add: verdict_bucket_def)
    with False show ?thesis unfolding snoc \<open>verdict_bucket v (cs @ [c]) = _\<close> by auto
  qed
qed (simp add: verdict_bucket_def)

lemma sort_key_Nil_iff: "sort_key f xs = [] \<longleftrightarrow> xs = []"
  by (metis length_0_conv length_sort)

lemma map_filter_Nil_iff: "List.map_filter f xs = [] \<longleftrightarrow> (\<forall>x \<in> set xs. f x = None)"
  by (simp add: List.map_filter_def filter_empty_conv)

lemma conflicts_iff:
  "override_conflicts cfg = [] \<longleftrightarrow> \<not> (\<exists>c \<in> set (collect_contributions cfg). \<exists>d \<in> set (collect_contributions cfg).
     cell_key c = cell_key d \<and> co_verdict c = VerdictRouteAway \<and> co_verdict d = ForceSupported)"
proof -
  let ?cs = "collect_contributions cfg"
  have "override_conflicts cfg = [] \<longleftrightarrow>
      (\<forall>e \<in> set (verdict_bucket VerdictRouteAway ?cs). map_of (verdict_bucket ForceSupported ?cs) (fst e) = None)"
    by (simp only: override_conflicts_def Let_def sort_key_Nil_iff map_filter_Nil_iff) auto
  also have "\<dots> \<longleftrightarrow> \<not> (\<exists>k. map_of (verdict_bucket VerdictRouteAway ?cs) k \<noteq> None
      \<and> map_of (verdict_bucket ForceSupported ?cs) k \<noteq> None)"
    by (auto simp: map_of_eq_None_iff)
  also have "\<dots> \<longleftrightarrow> \<not> (\<exists>c \<in> set ?cs. \<exists>d \<in> set ?cs.
     cell_key c = cell_key d \<and> co_verdict c = VerdictRouteAway \<and> co_verdict d = ForceSupported)"
    unfolding bucket_dom by metis
  finally show ?thesis .
qed

text \<open>Validation accepts an override configuration exactly when flattening loses no intention: every
  contribution is the verdict of its own cell.\<close>

lemma override_validation_exact:
  "validate_capability_overrides cfg = None \<longleftrightarrow>
     (\<forall>c \<in> set (collect_contributions cfg).
        map_option cell_verdict (map_of (override_build cfg) (cell_key c)) = Some (co_verdict c))"
proof -
  let ?cs = "collect_contributions cfg"
  have cell: "map_option cell_verdict (map_of (override_build cfg) (cell_key c))
      = Some (if \<exists>d \<in> set ?cs. cell_key d = cell_key c \<and> co_verdict d = VerdictRouteAway then VerdictRouteAway else ForceSupported)"
    if "c \<in> set ?cs" for c
  proof -
    have ne: "contributions_at cfg (cell_key c) \<noteq> []" using that by (auto simp: contributions_at_def filter_empty_conv)
    then obtain cell where cell: "folded_cell (contributions_at cfg (cell_key c)) = Some cell" by (meson folded_None not_None_eq)
    then have "cell_verdict cell = VerdictRouteAway \<longleftrightarrow> (\<exists>d \<in> set (contributions_at cfg (cell_key c)). co_verdict d = VerdictRouteAway)"
      by (simp add: folded_Some)
    then show ?thesis using cell by (cases "cell_verdict cell") (auto simp: override_build_cell contributions_at_def)
  qed
  have "validate_capability_overrides cfg = None \<longleftrightarrow> override_conflicts cfg = []"
    by (auto simp: validate_capability_overrides_def split: list.split)
  also have "\<dots> \<longleftrightarrow> (\<forall>c \<in> set ?cs. co_verdict c =
      (if \<exists>d \<in> set ?cs. cell_key d = cell_key c \<and> co_verdict d = VerdictRouteAway then VerdictRouteAway else ForceSupported))"
    unfolding conflicts_iff by (auto split: if_splits)
  also have "\<dots> \<longleftrightarrow> (\<forall>c \<in> set ?cs. map_option cell_verdict (map_of (override_build cfg) (cell_key c)) = Some (co_verdict c))"
    by (rule ball_cong [OF refl]) (auto simp only: cell option.inject)
  finally show ?thesis .
qed

text \<open>No override key is ever reported dead: a stored key is a normalized one, and normalizing is
  idempotent.\<close>

lemma no_dead_override_keys: "dead_override_keys cfg = []"
  by (auto simp: dead_override_keys_def override_key_reachable_def Let_def)

subsection \<open>Models on a pool\<close>

text \<open>The configuration without the list of features model \<open>n\<close> does not support.\<close>

definition without_model_list :: "string \<Rightarrow> OverrideConfig \<Rightarrow> OverrideConfig" where
  "without_model_list n cfg = cfg\<lparr>oc_models :=
     map (\<lambda>(nick, me). (nick, if nick = n then me\<lparr>me_unsupported_features := []\<rparr> else me)) (oc_models cfg)\<rparr>"

lemma without_model_list_at:
  assumes "\<And>me. (n, me) \<in> set (oc_models cfg) \<Longrightarrow> me_provider me @ '':'' @ n \<noteq> spec"
  shows "contributions_at (without_model_list n cfg) (CellKey spec key) = contributions_at cfg (CellKey spec key)"
proof -
  let ?at = "filter (\<lambda>c. cell_key c = CellKey spec key)"
  let ?drop = "\<lambda>(nick, me). (nick, if nick = n then me\<lparr>me_unsupported_features := []\<rparr> else me)"
  have kind: "provider_kind_for (without_model_list n cfg) p = provider_kind_for cfg p" for p
    by (simp add: provider_kind_for_def without_model_list_def)
  have models: "model_contributions (without_model_list n cfg) x = model_contributions cfg x"
    and overrides: "override_contributions (without_model_list n cfg) y = override_contributions cfg y" for x y
    by (cases x, simp add: kind) (cases y, simp add: kind)
  have "?at (model_contributions cfg (?drop x)) = ?at (model_contributions cfg x)" if "x \<in> set (oc_models cfg)" for x
    using assms that by (cases x) (auto simp: filter_empty_conv cell_key_def contribution_def)
  then have "?at (concat (map (model_contributions cfg) (map ?drop (oc_models cfg))))
      = ?at (concat (map (model_contributions cfg) (oc_models cfg)))"
    unfolding filter_concat map_map o_def by (intro arg_cong [where f = concat] map_cong refl)
  moreover have "oc_models (without_model_list n cfg) = map ?drop (oc_models cfg)"
    "oc_providers (without_model_list n cfg) = oc_providers cfg" "oc_overrides (without_model_list n cfg) = oc_overrides cfg"
    by (simp_all add: without_model_list_def)
  ultimately show ?thesis
    unfolding contributions_at_def collect_contributions_def models overrides by (simp only: filter_append)
qed

text \<open>The features a model is configured not to support are ignored when the model is backed by a
  pool: the cells are keyed by the name of the pool, a target on the pool by the provider entry of
  its seat, so every seat is resolved as if the list were empty.\<close>

lemma pooled_model_list_ignored:
  fixes s :: SeatTarget and m :: ResolvedModel and kind :: "string option"
  defines "t \<equiv> dispatch_target_for_seat m s kind"
  assumes "\<forall>me. (nickname m, me) \<in> set (oc_models cfg) \<longrightarrow> me_provider me \<noteq> seat_provider_name s"
    and "CHR '':'' \<notin> set (seat_provider_name s)"
  shows "override_resolve (override_build cfg) (dt_provider_name t) (nickname m) feature k
    = override_resolve (override_build (without_model_list (nickname m) cfg)) (dt_provider_name t) (nickname m) feature k"
proof -
  have prov: "dt_provider_name t = seat_provider_name s" by (simp add: t_def dispatch_target_for_seat_def)
  have same: "map_of (override_build (without_model_list (nickname m) cfg)) (CellKey spec key)
      = map_of (override_build cfg) (CellKey spec key)"
    if "spec = seat_provider_name s @ '':'' @ nickname m \<or> spec = seat_provider_name s" for spec key
  proof -
    have "me_provider me @ '':'' @ nickname m \<noteq> spec" if "(nickname m, me) \<in> set (oc_models cfg)" for me
    proof -
      have "me_provider me \<noteq> seat_provider_name s" using assms(2) that by blast
      moreover have "CHR '':'' \<in> set (me_provider me @ '':'' @ nickname m)" by simp
      ultimately show ?thesis using assms(3) \<open>spec = _ \<or> spec = _\<close> by (metis append_same_eq)
    qed
    from without_model_list_at [OF this] show ?thesis by (simp add: override_build_cell)
  qed
  show ?thesis
    unfolding override_resolve_def prov Let_def same [OF disjI1 [OF refl]] same [OF disjI2 [OF refl]] by (rule refl)
qed

subsection \<open>Instances\<close>

definition demo_overrides :: OverrideConfig where
  "demo_overrides = \<lparr>oc_providers = [], oc_models = [(''m'', \<lparr>me_provider = ''pool'', me_unsupported_features = [''web_search'']\<rparr>)],
     oc_overrides = [(''p'', \<lparr>oe_unsupported = [], oe_force_supported = [''web_search'']\<rparr>)]\<rparr>"

lemma demo_contributions:
  "collect_contributions demo_overrides =
     [contribution ''pool:m'' [] VerdictRouteAway ModelStatic ''[models.m].unsupported_features'' ''web_search'',
      contribution ''p'' [] ForceSupported Override ''[capability.overrides.p].force_supported'' ''web_search'']"
  by (simp add: collect_contributions_def demo_overrides_def provider_kind_for_def bt_get_def)

lemma override_validation_exact_witness:
  "map_option cell_verdict (map_of (override_build demo_overrides) (CellKey ''p'' ''web_search'')) = Some ForceSupported"
proof -
  have "override_conflicts demo_overrides = []"
    unfolding conflicts_iff by (simp add: demo_contributions contribution_def cell_key_def)
  then have "validate_capability_overrides demo_overrides = None" by (simp add: validate_capability_overrides_def)
  from iffD1 [OF override_validation_exact this] show ?thesis
    by (simp add: demo_contributions contribution_def cell_key_def normalize_capability_key_def)
qed

lemma pooled_model_list_ignored_witness:
  "override_resolve (override_build demo_overrides) ''a'' ''m'' ''web_search'' ''gemini'' = None
   \<and> override_resolve (override_build demo_overrides) ''pool'' ''m'' ''web_search'' ''gemini'' \<noteq> None"
proof -
  let ?m = "resolved_model_new ''m'' ''pool'' 0 ''up''"
  let ?s = "\<lparr>seat_provider = 0, seat_provider_name = ''a'', seat_auth_secret_ref = None\<rparr>"
  have "override_resolve (override_build (without_model_list ''m'' demo_overrides)) ''a'' ''m'' ''web_search'' ''gemini'' = None"
    by (simp add: override_resolve_def override_build_cell contributions_at_def collect_contributions_def demo_overrides_def
        without_model_list_def provider_kind_for_def bt_get_def contribution_def cell_key_def folded_cell_def)
  moreover have "override_resolve (override_build demo_overrides) ''pool'' ''m'' ''web_search'' ''gemini'' \<noteq> None"
    by (simp add: override_resolve_def override_build_cell contributions_at_def demo_contributions
        contribution_def cell_key_def folded_cell_def normalize_capability_key_def)
  moreover note pooled_model_list_ignored [of ?m demo_overrides ?s None "''web_search''" "''gemini''"]
  ultimately show ?thesis
    by (simp add: demo_overrides_def dispatch_target_for_seat_def resolved_model_new_def)
qed

end
