(* ===== verification/Feature_Filter.thy ===== *)
theory Feature_Filter
  imports Dispatch_Walk Probe_Guard Capability_Strip Override_Registry
begin

text \<open>
  The capability pre-filter of a chain (\<open>routectl-router/src/router/feature_filter.rs\<close>): per target
  the verdict of the override registry, the learned registry and the catalog priors, in that order of
  precedence; the three buckets of the chain; the re-probes admitted on the way. The clock is read
  once per target (\<open>clock\<close> by position). Of a provider entry the beta floor and the header extras
  are fields of the filter's configuration.
\<close>

subsection \<open>What the filter reads\<close>

record FeatureConfig =
  fc_overrides :: override_cells
  fc_enabled :: bool
  fc_essential :: "string list"
  fc_generation :: u64
  fc_beta_floor :: "string \<Rightarrow> string list"
  fc_header_extras :: "string \<Rightarrow> (string, string) btree option"

datatype FilterSource = SrcProviderStatic | SrcModelStatic | SrcOverride | SrcLearned | SrcPrior

fun source_label :: "FilterSource \<Rightarrow> string" where
  "source_label SrcProviderStatic = ''provider''"
| "source_label SrcModelStatic = ''model''"
| "source_label SrcOverride = ''override''"
| "source_label SrcLearned = ''learned''"
| "source_label SrcPrior = ''prior''"

fun from_provenance :: "OverrideProvenance \<Rightarrow> FilterSource" where
  "from_provenance ProviderStatic = SrcProviderStatic"
| "from_provenance ModelStatic = SrcModelStatic"
| "from_provenance Override = SrcOverride"

subsection \<open>Registry reads of a router generation\<close>

definition acting_negative_with_generation :: "FeatureConfig \<Rightarrow> string \<Rightarrow> string \<Rightarrow> string \<Rightarrow> instant \<Rightarrow>
    LearnedCapabilityRegistry \<Rightarrow> LearnedCapabilityRegistry \<times> RoutingDecision \<times> u64" where
  "acting_negative_with_generation fc sk feature kind now r =
     (case acting_negative_in_generation (fc_generation fc) sk feature kind now r of
        (r, Some (dec, generation)) \<Rightarrow> (r, dec, generation)
      | (r, None) \<Rightarrow> (r, RoutingDecision.Allow, fc_generation fc))"

definition is_verified_working_or_false :: "FeatureConfig \<Rightarrow> string \<Rightarrow> string \<Rightarrow> string \<Rightarrow> instant \<Rightarrow>
    LearnedCapabilityRegistry \<Rightarrow> LearnedCapabilityRegistry \<times> bool" where
  "is_verified_working_or_false fc sk feature kind now r =
     (case is_verified_working_in_generation (fc_generation fc) sk feature kind now r of
        (r, Some v) \<Rightarrow> (r, v) | (r, None) \<Rightarrow> (r, False))"

subsection \<open>Operator pins and masks\<close>

definition trim :: "string \<Rightarrow> string" where
  "trim s = rev (dropWhile is_whitespace (rev (dropWhile is_whitespace s)))"

definition beta_header :: "(string, string) btree \<Rightarrow> string" where
  "beta_header extras = (case List.find (\<lambda>(k, v). map ascii_lower k = ''anthropic-beta'') extras of
     None \<Rightarrow> [] | Some (k, v) \<Rightarrow> v)"

definition operator_betas :: "(string, string) btree option \<Rightarrow> (string, string) btree \<Rightarrow> string list" where
  "operator_betas provider_extras model_extras =
     foldl (\<lambda>out raw. foldl (\<lambda>out piece. let t = trim piece in if t \<noteq> [] then push_key t out else out)
         out (split_on (CHR '','') raw)) []
       [case provider_extras of None \<Rightarrow> [] | Some m \<Rightarrow> beta_header m, beta_header model_extras]"

definition beta_pinned_for_target :: "FeatureConfig \<Rightarrow> DispatchTarget \<Rightarrow> string \<Rightarrow> bool" where
  "beta_pinned_for_target fc target feature =
     (let tokens = strip_beta_tokens feature
      in if tokens = [] then False
         else (let provider_floor = fc_beta_floor fc (dt_provider_name target);
                   header_floor = operator_betas (fc_header_extras fc (dt_provider_name target)) (rm_header_extras (dt_model target))
               in list_ex (\<lambda>token. list_ex (\<lambda>pinned. pinned = token) provider_floor
                    \<or> list_ex (\<lambda>pinned. pinned = token) header_floor) tokens))"

definition target_nickname :: "DispatchTarget \<Rightarrow> string" where
  "target_nickname target = (case dt_nickname target of None \<Rightarrow> [] | Some nick \<Rightarrow> nick)"

definition override_for :: "FeatureConfig \<Rightarrow> DispatchTarget \<Rightarrow> string \<Rightarrow> string \<Rightarrow> (OverrideVerdict \<times> OverrideProvenance) option" where
  "override_for fc target feature kind =
     override_resolve (fc_overrides fc) (dt_provider_name target) (target_nickname target) feature kind"

definition override_forces_supported :: "FeatureConfig \<Rightarrow> DispatchTarget \<Rightarrow> string \<Rightarrow> string \<Rightarrow> bool" where
  "override_forces_supported fc target feature kind = (case override_for fc target feature kind of
     Some (ForceSupported, _) \<Rightarrow> True | _ \<Rightarrow> False)"

subsection \<open>The verdict of a target\<close>

record LearnedScan =
  sc_registry :: LearnedCapabilityRegistry
  sc_admissions :: "ProbeAdmission list"
  sc_route_away :: "string option"
  sc_strip :: "string list"
  sc_claimed :: "string list"

definition strips_here :: "FeatureConfig \<Rightarrow> DispatchTarget \<Rightarrow> string \<Rightarrow> bool" where
  "strips_here fc target feature \<longleftrightarrow>
     (case effective_action_for feature (fc_essential fc) of ActStrip kind \<Rightarrow> True | ActRouteAway \<Rightarrow> False)
     \<and> \<not> beta_pinned_for_target fc target feature"

definition scan_feature :: "FeatureConfig \<Rightarrow> DispatchTarget \<Rightarrow> string \<Rightarrow> instant \<Rightarrow> LearnedScan \<Rightarrow> string \<Rightarrow> LearnedScan" where
  "scan_feature fc target kind now sc feature =
     (if override_forces_supported fc target feature kind then sc
      else (let (r, dec, generation) = acting_negative_with_generation fc (state_key target) feature kind now (sc_registry sc);
                sc = sc\<lparr>sc_registry := r\<rparr>
            in case dec of
              RoutingDecision.RouteAway sig ph \<Rightarrow>
                (let sc = sc\<lparr>sc_claimed := sc_claimed sc @ [feature]\<rparr>
                 in if ph = F1 \<and> strips_here fc target feature
                    then sc\<lparr>sc_strip := sc_strip sc @ [normalize_capability_key feature kind]\<rparr>
                    else if sc_route_away sc = None then sc\<lparr>sc_route_away := Some feature\<rparr> else sc)
            | ProbeAdmitted \<Rightarrow>
                sc\<lparr>sc_claimed := sc_claimed sc @ [feature],
                   sc_admissions := sc_admissions sc @
                     [\<lparr>pa_state_key = state_key target, pa_feature = normalize_capability_key feature kind,
                       pa_provider_kind = kind, pa_generation = generation\<rparr>]\<rparr>
            | RoutingDecision.Allow \<Rightarrow> sc))"

fun prior_pass :: "FeatureConfig \<Rightarrow> DispatchTarget \<Rightarrow> string \<Rightarrow> instant \<Rightarrow> string list \<Rightarrow> string list \<Rightarrow>
    LearnedCapabilityRegistry \<Rightarrow> LearnedCapabilityRegistry \<times> string option" where
  "prior_pass fc target kind now claimed [] r = (r, None)"
| "prior_pass fc target kind now claimed (feature # features) r =
     (if list_ex (\<lambda>f. f = feature) claimed \<or> override_forces_supported fc target feature kind
      then prior_pass fc target kind now claimed features r
      else (let (r, verified) = is_verified_working_or_false fc (state_key target) feature kind now r
            in if verified then prior_pass fc target kind now claimed features r
               else if capability_prior target feature = Some False then (r, Some feature)
               else prior_pass fc target kind now claimed features r))"

fun hard_drop :: "FeatureConfig \<Rightarrow> DispatchTarget \<Rightarrow> string list \<Rightarrow> (string \<times> FilterSource) option" where
  "hard_drop fc target [] = None"
| "hard_drop fc target (feature # features) =
     (case override_for fc target feature (case dt_provider_kind target of None \<Rightarrow> [] | Some k \<Rightarrow> k) of
        Some (VerdictRouteAway, provenance) \<Rightarrow> Some (feature, from_provenance provenance)
      | _ \<Rightarrow> hard_drop fc target features)"

record TargetVerdict =
  tv_match :: "(string \<times> FilterSource) option"
  tv_strip_keys :: "string list"

definition unsupported_feature_for_target :: "FeatureConfig \<Rightarrow> DispatchTarget \<Rightarrow> string list \<Rightarrow> instant \<Rightarrow>
    LearnedCapabilityRegistry \<times> ProbeAdmission list \<Rightarrow> (LearnedCapabilityRegistry \<times> ProbeAdmission list) \<times> TargetVerdict" where
  "unsupported_feature_for_target fc target features now st =
     (case hard_drop fc target features of
        Some m \<Rightarrow> (st, \<lparr>tv_match = Some m, tv_strip_keys = []\<rparr>)
      | None \<Rightarrow>
          (if fc_enabled fc
           then (case dt_provider_kind target of
             None \<Rightarrow> (st, \<lparr>tv_match = None, tv_strip_keys = []\<rparr>)
           | Some kind \<Rightarrow>
               (let sc = foldl (scan_feature fc target kind now)
                      \<lparr>sc_registry = fst st, sc_admissions = snd st, sc_route_away = None, sc_strip = [], sc_claimed = []\<rparr> features
                in case sc_route_away sc of
                  Some feature \<Rightarrow> ((sc_registry sc, sc_admissions sc), \<lparr>tv_match = Some (feature, SrcLearned), tv_strip_keys = []\<rparr>)
                | None \<Rightarrow>
                    (let strip = remdups_adj (sort (sc_strip sc));
                         (r, prior) = prior_pass fc target kind now (sc_claimed sc) features (sc_registry sc)
                     in ((r, sc_admissions sc),
                         \<lparr>tv_match = map_option (\<lambda>feature. (feature, SrcPrior)) prior, tv_strip_keys = strip\<rparr>))))
           else (st, \<lparr>tv_match = None, tv_strip_keys = []\<rparr>)))"

subsection \<open>The filter\<close>

record RouteAwayEvent =
  ra_tail_only :: bool
  ra_state_key :: string
  ra_capability_key :: string
  ra_source :: FilterSource

record Buckets =
  bk_supported :: "DispatchTarget list"
  bk_prior_tail :: "DispatchTarget list"
  bk_learned_tail :: "DispatchTarget list"
  bk_route_aways :: "(string \<times> string \<times> FilterSource) list"

definition attach_strip :: "string list \<Rightarrow> DispatchTarget \<Rightarrow> DispatchTarget" where
  "attach_strip strip_keys target = (if strip_keys \<noteq> [] then target\<lparr>strip_capabilities := strip_keys\<rparr> else target)"

definition place_target :: "DispatchTarget \<Rightarrow> TargetVerdict \<Rightarrow> Buckets \<Rightarrow> Buckets" where
  "place_target target v bk = (case tv_match v of
     None \<Rightarrow> bk\<lparr>bk_supported := bk_supported bk @ [attach_strip (tv_strip_keys v) target]\<rparr>
   | Some (feature, SrcLearned) \<Rightarrow>
       bk\<lparr>bk_route_aways := bk_route_aways bk @ [(state_key target, feature, SrcLearned)],
          bk_learned_tail := bk_learned_tail bk @ [target]\<rparr>
   | Some (feature, SrcPrior) \<Rightarrow>
       bk\<lparr>bk_route_aways := bk_route_aways bk @ [(state_key target, feature, SrcPrior)],
          bk_prior_tail := bk_prior_tail bk @ [attach_strip (tv_strip_keys v) target]\<rparr>
   | Some (feature, source) \<Rightarrow> bk)"

fun filter_loop :: "FeatureConfig \<Rightarrow> string list \<Rightarrow> (nat \<Rightarrow> instant) \<Rightarrow> nat \<Rightarrow> DispatchTarget list \<Rightarrow> Buckets \<Rightarrow>
    LearnedCapabilityRegistry \<times> ProbeAdmission list \<Rightarrow> (LearnedCapabilityRegistry \<times> ProbeAdmission list) \<times> Buckets" where
  "filter_loop fc features clock i [] bk st = (st, bk)"
| "filter_loop fc features clock i (target # chain) bk st =
     (let (st, v) = unsupported_feature_for_target fc target features (clock i) st
      in filter_loop fc features clock (Suc i) chain (place_target target v bk) st)"

definition filter_chain_by_features :: "FeatureConfig \<Rightarrow> (nat \<Rightarrow> instant) \<Rightarrow> DispatchTarget list \<Rightarrow> string list \<Rightarrow> string \<Rightarrow>
    LearnedCapabilityRegistry \<times> ProbeAdmission list \<Rightarrow>
    (LearnedCapabilityRegistry \<times> ProbeAdmission list) \<times> RouteAwayEvent list \<times> (Error + DispatchTarget list)" where
  "filter_chain_by_features fc clock chain features alias st =
     (if features = [] \<or> chain = [] then (st, [], Inr chain)
      else (let (st, bk) = filter_loop fc features clock 0 chain
                  \<lparr>bk_supported = [], bk_prior_tail = [], bk_learned_tail = [], bk_route_aways = []\<rparr> st
            in if bk_supported bk = [] \<and> bk_prior_tail bk = [] \<and> bk_learned_tail bk = []
               then (st, [], Inl (NotImplemented alias
                      (''no provider in chain supports features: '' @ join_with '', '' features)))
               else (st, map (\<lambda>(sk, key, source). \<lparr>ra_tail_only = (bk_supported bk = []), ra_state_key = sk,
                            ra_capability_key = key, ra_source = source\<rparr>) (bk_route_aways bk),
                     Inr (bk_supported bk @ bk_prior_tail bk @ bk_learned_tail bk))))"

subsection \<open>The strip of an attempt\<close>

fun outcome_token :: "bool \<Rightarrow> Outcome \<Rightarrow> string" where
  "outcome_token strict Stripped = ''applied''"
| "outcome_token strict Unchanged = ''noop''"
| "outcome_token strict (Reject err) = (if strict then ''strict_rejected'' else ''validation_rolled_back'')"

text \<open>With the outcome token of the log line, when there is one.\<close>

definition apply_strip_interceptor :: "bool \<Rightarrow> DispatchTarget \<Rightarrow> 'x ToolRequest \<Rightarrow>
    'x ToolRequest \<times> StripDecision \<times> string option" where
  "apply_strip_interceptor strict target req =
     (if strip_capabilities target = [] then (req, Proceed, None)
      else (let ctx = \<lparr>sc_keys = strip_capabilities target, sc_strict = strict\<rparr>;
                (req, outcome) = strip_apply ctx req; tok = outcome_token strict outcome
            in case outcome of
              Stripped \<Rightarrow> (req, Proceed, Some tok)
            | Unchanged \<Rightarrow> (req, Proceed, Some tok)
            | Reject err \<Rightarrow> if strict then (req, StrictReject err, Some tok) else (req, StripDecision.RouteAway err, Some tok)))"

subsection \<open>Claims of re-probe slots\<close>

text \<open>\<open>claims K r r'\<close>: \<open>r'\<close> is \<open>r\<close> with the free slots of the resident keys \<open>K\<close> claimed.\<close>

definition claims :: "RegistryKey set \<Rightarrow> LearnedCapabilityRegistry \<Rightarrow> LearnedCapabilityRegistry \<Rightarrow> bool" where
  "claims K r r' \<longleftrightarrow> (\<exists>es. r' = r\<lparr>lcr_entries := es\<rparr>
     \<and> (wf_entries (lcr_entries r) \<longrightarrow> wf_entries es)
     \<and> (\<forall>k. map_of es k = (if k \<in> K then map_option (\<lambda>e. e\<lparr>in_flight := True\<rparr>) (map_of (lcr_entries r) k)
                        else map_of (lcr_entries r) k))
     \<and> (\<forall>k \<in> K. \<exists>e. map_of (lcr_entries r) k = Some e \<and> \<not> in_flight e))"

lemma claims_refl [simp]: "claims {} r r"
  by (auto simp: claims_def intro: exI [of _ "lcr_entries r"])

lemma claims_slot: "claims K r r' \<Longrightarrow> slot_held k r' \<longleftrightarrow> slot_held k r \<or> k \<in> K"
  by (fastforce simp: claims_def slot_held_def)

lemma claims_free: "claims K r r' \<Longrightarrow> k \<in> K \<Longrightarrow> \<not> slot_held k r"
  by (fastforce simp: claims_def slot_held_def)

lemma claims_disjoint: "claims K r r' \<Longrightarrow> claims K' r' r'' \<Longrightarrow> K \<inter> K' = {}"
  by (auto dest: claims_free claims_slot)

lemma claims_trans:
  assumes "claims K r r'" and "claims K' r' r''"
  shows "claims (K \<union> K') r r''"
proof -
  from assms obtain es es' where
    e: "r' = r\<lparr>lcr_entries := es\<rparr>" "wf_entries (lcr_entries r) \<longrightarrow> wf_entries es"
       "\<And>k. map_of es k = (if k \<in> K then map_option (\<lambda>e. e\<lparr>in_flight := True\<rparr>) (map_of (lcr_entries r) k)
              else map_of (lcr_entries r) k)"
       "\<And>k. k \<in> K \<Longrightarrow> \<exists>e. map_of (lcr_entries r) k = Some e \<and> \<not> in_flight e"
    and e': "r'' = r'\<lparr>lcr_entries := es'\<rparr>" "wf_entries es \<longrightarrow> wf_entries es'"
       "\<And>k. map_of es' k = (if k \<in> K' then map_option (\<lambda>e. e\<lparr>in_flight := True\<rparr>) (map_of es k) else map_of es k)"
       "\<And>k. k \<in> K' \<Longrightarrow> \<exists>e. map_of es k = Some e \<and> \<not> in_flight e"
    by (auto simp: claims_def)
  have dis: "k \<notin> K" if "k \<in> K'" for k using claims_disjoint [OF assms] that by blast
  have "map_of es' k = (if k \<in> K \<union> K' then map_option (\<lambda>e. e\<lparr>in_flight := True\<rparr>) (map_of (lcr_entries r) k)
      else map_of (lcr_entries r) k)" for k
    using dis by (auto simp: e(3) e'(3))
  moreover have "\<exists>e. map_of (lcr_entries r) k = Some e \<and> \<not> in_flight e" if "k \<in> K \<union> K'" for k
    using that e(4) e'(4) dis by (auto simp: e(3))
  ultimately show ?thesis using e(1,2) e'(1,2) by (auto simp: claims_def intro!: exI [of _ es'])
qed

lemma claims_same:
  assumes "claims K r r'"
  shows "purge_leases r' = purge_leases r" and "admits_generation r' g f = admits_generation r g f"
    and "effective_persistence_generation r' = effective_persistence_generation r"
    and "settleable r' p = settleable r p" and "next_incarnation r' = next_incarnation r"
    and "wf_entries (lcr_entries r) \<Longrightarrow> wf_entries (lcr_entries r')"
  using assms by (auto simp: claims_def admits_generation_def effective_persistence_generation_def settleable_def split: option.split)

text \<open>The learned read of a feature, by the entry of its key.\<close>

definition entry_decision :: "LearnedEntry \<Rightarrow> instant \<Rightarrow> RoutingDecision" where
  "entry_decision e now =
     (if \<not> is_acting e then RoutingDecision.Allow
      else if acting_decision e = RoutingDecision.Allow then RoutingDecision.Allow
      else if \<not> is_expired e now \<or> in_flight e then acting_decision e else ProbeAdmitted)"

definition decision_at :: "FeatureConfig \<Rightarrow> string \<Rightarrow> string \<Rightarrow> string \<Rightarrow> instant \<Rightarrow> LearnedCapabilityRegistry \<Rightarrow> RoutingDecision" where
  "decision_at fc sk f kind now r =
     (if admits_generation r (fc_generation fc) f \<and> make_key sk f kind \<notin> purge_leases r
      then (case map_of (lcr_entries r) (make_key sk f kind) of None \<Rightarrow> RoutingDecision.Allow | Some e \<Rightarrow> entry_decision e now)
      else RoutingDecision.Allow)"

lemma entry_decision_admits: "entry_decision e now = ProbeAdmitted \<Longrightarrow> \<not> in_flight e"
  by (auto simp: entry_decision_def acting_decision_def split: if_splits EntryVerdict.splits)

lemma acting_negative_for_in_cases:
  "acting_negative_for_in key now es = (case map_of es key of
     None \<Rightarrow> (es, RoutingDecision.Allow)
   | Some e \<Rightarrow> (if entry_decision e now = ProbeAdmitted then AList.update key (e\<lparr>in_flight := True\<rparr>) es else es,
                entry_decision e now))"
  by (auto simp: acting_negative_for_in_def entry_decision_def acting_decision_def split: option.split EntryVerdict.split)

lemma acting_read_eq:
  "acting_negative_with_generation fc sk f kind now r =
     (let key = make_key sk f kind; d = decision_at fc sk f kind now r in
      (if d = ProbeAdmitted
       then r\<lparr>lcr_entries := AList.update key ((the (map_of (lcr_entries r) key))\<lparr>in_flight := True\<rparr>) (lcr_entries r)\<rparr>
       else r, d,
       if admits_generation r (fc_generation fc) f \<and> key \<notin> purge_leases r
       then effective_persistence_generation r else fc_generation fc))"
  by (auto simp: acting_negative_with_generation_def acting_negative_in_generation_def guarded_read_def guarded_keyed_def
      decision_at_def acting_negative_for_in_cases effective_persistence_generation_def Let_def split: option.split)

lemma decision_at_admits:
  assumes "decision_at fc sk f kind now r = ProbeAdmitted"
  shows "\<exists>e. map_of (lcr_entries r) (make_key sk f kind) = Some e \<and> \<not> in_flight e"
    and "make_key sk f kind \<notin> purge_leases r" and "admits_generation r (fc_generation fc) f"
  using assms by (auto simp: decision_at_def entry_decision_admits split: if_splits option.splits)

lemma acting_read:
  assumes "acting_negative_with_generation fc sk f kind now r = (r', d, gen)"
  shows "d = decision_at fc sk f kind now r"
    and "claims (if d = ProbeAdmitted then {make_key sk f kind} else {}) r r'"
    and "d = ProbeAdmitted \<Longrightarrow> gen = effective_persistence_generation r \<and> make_key sk f kind \<notin> purge_leases r"
proof -
  let ?key = "make_key sk f kind"
  have d: "d = decision_at fc sk f kind now r"
    and r': "r' = (if d = ProbeAdmitted
        then r\<lparr>lcr_entries := AList.update ?key ((the (map_of (lcr_entries r) ?key))\<lparr>in_flight := True\<rparr>) (lcr_entries r)\<rparr> else r)"
    and g: "gen = (if admits_generation r (fc_generation fc) f \<and> ?key \<notin> purge_leases r
        then effective_persistence_generation r else fc_generation fc)"
    using assms unfolding acting_read_eq Let_def by auto
  show "d = decision_at fc sk f kind now r" by (rule d)
  show "d = ProbeAdmitted \<Longrightarrow> gen = effective_persistence_generation r \<and> ?key \<notin> purge_leases r"
    using decision_at_admits(2,3) [of fc sk f kind now r] d g by simp
  show "claims (if d = ProbeAdmitted then {?key} else {}) r r'"
  proof (cases "d = ProbeAdmitted")
    case True
    then obtain e where e: "map_of (lcr_entries r) ?key = Some e" "\<not> in_flight e"
      using decision_at_admits(1) [of fc sk f kind now r] d by auto
    then show ?thesis using True
      by (auto simp: r' claims_def distinct_update
          intro!: exI [of _ "AList.update ?key (e\<lparr>in_flight := True\<rparr>) (lcr_entries r)"])
  qed (simp add: r')
qed

lemma verified_read:
  "is_verified_working_or_false fc sk f kind now r = (r, snd (is_verified_working_or_false fc sk f kind now r))"
  by (auto simp: is_verified_working_or_false_def is_verified_working_in_generation_def guarded_read_def guarded_keyed_def
      split: prod.splits GenerationOutcome.splits option.splits if_splits)

subsection \<open>Every claimed slot is handed out once\<close>

definition hands_out :: "string set \<Rightarrow> LearnedCapabilityRegistry \<times> ProbeAdmission list \<Rightarrow>
    LearnedCapabilityRegistry \<times> ProbeAdmission list \<Rightarrow> bool" where
  "hands_out sks st st' \<longleftrightarrow> (\<exists>new. snd st' = snd st @ new \<and> distinct (map pa_key new)
     \<and> claims (pa_key ` set new) (fst st) (fst st')
     \<and> (\<forall>p \<in> set new. settleable (fst st) p \<and> pa_state_key p \<in> sks))"

lemma hands_out_refl [simp]: "hands_out sks st st"
  by (auto simp: hands_out_def intro: exI [of _ "[]"])

lemma hands_out_trans:
  assumes "hands_out sks st st'" and "hands_out sks st' st''"
  shows "hands_out sks st st''"
proof -
  from assms obtain new new' where
    n: "snd st' = snd st @ new" "distinct (map pa_key new)" "claims (pa_key ` set new) (fst st) (fst st')"
       "\<forall>p \<in> set new. settleable (fst st) p \<and> pa_state_key p \<in> sks"
    and n': "snd st'' = snd st' @ new'" "distinct (map pa_key new')" "claims (pa_key ` set new') (fst st') (fst st'')"
       "\<forall>p \<in> set new'. settleable (fst st') p \<and> pa_state_key p \<in> sks"
    unfolding hands_out_def by blast
  show ?thesis unfolding hands_out_def
  proof (intro exI [of _ "new @ new'"] conjI)
    show "claims (pa_key ` set (new @ new')) (fst st) (fst st'')"
      using claims_trans [OF n(3) n'(3)] by (simp add: image_Un)
    show "distinct (map pa_key (new @ new'))" using n(2) n'(2) claims_disjoint [OF n(3) n'(3)] by simp
    show "\<forall>p \<in> set (new @ new'). settleable (fst st) p \<and> pa_state_key p \<in> sks"
      using n(4) n'(4) claims_same(4) [OF n(3)] by auto
  qed (use n(1) n'(1) in simp)
qed

lemma hands_out_mono: "hands_out sks st st' \<Longrightarrow> sks \<subseteq> sks' \<Longrightarrow> hands_out sks' st st'"
  by (auto simp: hands_out_def)

abbreviation scan_state :: "LearnedScan \<Rightarrow> LearnedCapabilityRegistry \<times> ProbeAdmission list" where
  "scan_state sc \<equiv> (sc_registry sc, sc_admissions sc)"

lemma scan_feature_admits:
  "hands_out {state_key target} (scan_state sc) (scan_state (scan_feature fc target kind now sc f))"
proof (cases "override_forces_supported fc target f kind")
  case False
  obtain r d gen where rd: "acting_negative_with_generation fc (state_key target) f kind now (sc_registry sc) = (r, d, gen)"
    by (rule prod_cases3)
  note A = acting_read [OF rd]
  let ?p = "\<lparr>pa_state_key = state_key target, pa_feature = normalize_capability_key f kind,
      pa_provider_kind = kind, pa_generation = gen\<rparr>"
  have key: "pa_key ?p = make_key (state_key target) f kind" by (simp add: pa_key_def make_key_def)
  show ?thesis
  proof (cases d)
    case ProbeAdmitted
    then have "admits_generation (sc_registry sc) gen (normalize_capability_key f kind)"
      using A(3) by (simp add: admits_generation_def effective_persistence_generation_def split: option.splits)
    then have "settleable (sc_registry sc) ?p" using A(3) ProbeAdmitted unfolding settleable_def key by simp
    then show ?thesis using A(2) False rd ProbeAdmitted key
      by (auto simp: scan_feature_def hands_out_def intro!: exI [of _ "[?p]"])
  next
    case Allow
    then show ?thesis using A(2) False rd by (auto simp: scan_feature_def hands_out_def)
  next
    case (RouteAway s p)
    then show ?thesis using A(2) False rd by (auto simp: scan_feature_def hands_out_def Let_def)
  qed
qed (simp add: scan_feature_def)

lemma scan_admits:
  "hands_out {state_key target} (scan_state sc) (scan_state (foldl (scan_feature fc target kind now) sc fs))"
proof (induction fs arbitrary: sc)
  case (Cons f fs)
  show ?case using hands_out_trans [OF scan_feature_admits Cons.IH] by simp
qed simp

lemma prior_pass_keeps: "prior_pass fc target kind now claimed fs r = (r, snd (prior_pass fc target kind now claimed fs r))"
proof (induction fs)
  case (Cons f fs)
  show ?case using verified_read [of fc "state_key target" f kind now r] Cons
    by (cases "is_verified_working_or_false fc (state_key target) f kind now r") (auto split: prod.splits)
qed simp

lemma target_admits:
  assumes "unsupported_feature_for_target fc target fs now st = (st', v)"
  shows "hands_out {state_key target} st st'"
proof (cases "hard_drop fc target fs = None \<and> fc_enabled fc \<and> dt_provider_kind target \<noteq> None")
  case True
  then obtain kind where k: "dt_provider_kind target = Some kind" by blast
  let ?sc = "foldl (scan_feature fc target kind now)
      \<lparr>sc_registry = fst st, sc_admissions = snd st, sc_route_away = None, sc_strip = [], sc_claimed = []\<rparr> fs"
  have "st' = scan_state ?sc"
    using assms True k prior_pass_keeps [of fc target kind now "sc_claimed ?sc" fs "sc_registry ?sc"]
    by (auto simp: unsupported_feature_for_target_def Let_def split: option.splits prod.splits)
  then show ?thesis using scan_admits [of target
      "\<lparr>sc_registry = fst st, sc_admissions = snd st, sc_route_away = None, sc_strip = [], sc_claimed = []\<rparr>" fc kind now fs]
    by simp
next
  case False
  then have "st' = st" using assms
    by (auto simp: unsupported_feature_for_target_def split: option.splits if_splits)
  then show ?thesis by simp
qed

lemma loop_admits:
  "filter_loop fc fs clock i chain bk st = (st', bk') \<Longrightarrow> hands_out (state_key ` set chain) st st'"
proof (induction chain arbitrary: i bk st)
  case (Cons t chain)
  obtain st1 v where one: "unsupported_feature_for_target fc t fs (clock i) st = (st1, v)" by (rule prod.exhaust)
  have "hands_out (state_key ` set chain) st1 st'" using Cons by (simp add: one)
  then show ?case
    by (auto intro: hands_out_trans [OF hands_out_mono [OF target_admits [OF one]] hands_out_mono])
qed simp

lemma filter_admits:
  assumes "filter_chain_by_features fc clock chain fs alias st = (st', evs, res)"
  shows "hands_out (state_key ` set chain) st st'"
proof (cases "fs = [] \<or> chain = []")
  case False
  then show ?thesis using assms
    by (auto simp: filter_chain_by_features_def loop_admits split: prod.splits if_splits)
qed (use assms in \<open>auto simp: filter_chain_by_features_def\<close>)

text \<open>C16. A filtered request hands out every slot it claims exactly once, and leaves none claimed: after
  the filter and the walk over whatever targets, no slot is held that was not held before, when no
  other request interferes.\<close>

theorem filtered_request_frees_its_probes:
  assumes "filter_chain_by_features fc clock chain features alias (r, []) = ((r1, admissions), evs, res)"
    and "run_request hash admissions surface vs ks now r1 = (r2, events)"
    and "distinct ks" and "set ks = pa_state_key ` set admissions - vis_state_key ` set vs"
    and "wf_entries (lcr_entries r)" and "next_incarnation r + length admissions \<le> U64_MAX"
    and "\<forall>v \<in> set vs. undisturbed v"
  shows "distinct (map pa_key admissions)
    \<and> (\<forall>k. slot_held k r1 \<longleftrightarrow> slot_held k r \<or> k \<in> pa_key ` set admissions)
    \<and> (\<forall>k. slot_held k r2 \<longrightarrow> slot_held k r)"
proof -
  from filter_admits [OF assms(1)]
  have d: "distinct (map pa_key admissions)" and c: "claims (pa_key ` set admissions) r r1"
    and s: "\<forall>p \<in> set admissions. settleable r p" by (auto simp: hands_out_def)
  note same = claims_same [OF c]
  have "\<forall>p \<in> set admissions. settleable r1 p" using s same(4) by simp
  moreover have "wf_entries (lcr_entries r1)" by (rule same(6) [OF assms(5)])
  moreover have "next_incarnation r1 + length admissions \<le> U64_MAX" using assms(6) same(5) by simp
  ultimately have "(\<forall>p \<in> set admissions. \<not> slot_held (pa_key p) r2) \<and> (\<forall>k. slot_held k r2 \<longrightarrow> slot_held k r1)"
    using no_probe_slot_latched [OF assms(2-4) _ _ _ assms(7)] by blast
  then show ?thesis using d claims_slot [OF c] by auto
qed

subsection \<open>The verdict of a target, feature by feature\<close>

definition routes_away :: "FeatureConfig \<Rightarrow> DispatchTarget \<Rightarrow> string \<Rightarrow> bool" where
  "routes_away fc target f \<longleftrightarrow> (\<exists>provenance. override_for fc target f
     (case dt_provider_kind target of None \<Rightarrow> [] | Some k \<Rightarrow> k) = Some (VerdictRouteAway, provenance))"

definition learned_decision :: "FeatureConfig \<Rightarrow> DispatchTarget \<Rightarrow> string \<Rightarrow> instant \<Rightarrow> LearnedCapabilityRegistry \<Rightarrow>
    string \<Rightarrow> RoutingDecision" where
  "learned_decision fc target kind now r f =
     (if override_forces_supported fc target f kind then RoutingDecision.Allow
      else decision_at fc (state_key target) f kind now r)"

definition stripped :: "FeatureConfig \<Rightarrow> DispatchTarget \<Rightarrow> RoutingDecision \<Rightarrow> string \<Rightarrow> bool" where
  "stripped fc target d f = (case d of RoutingDecision.RouteAway sig ph \<Rightarrow> ph = F1 \<and> strips_here fc target f | _ \<Rightarrow> False)"

definition tailed :: "FeatureConfig \<Rightarrow> DispatchTarget \<Rightarrow> RoutingDecision \<Rightarrow> string \<Rightarrow> bool" where
  "tailed fc target d f = (case d of RoutingDecision.RouteAway sig ph \<Rightarrow> \<not> (ph = F1 \<and> strips_here fc target f) | _ \<Rightarrow> False)"

definition prior_absent :: "FeatureConfig \<Rightarrow> DispatchTarget \<Rightarrow> string \<Rightarrow> instant \<Rightarrow> LearnedCapabilityRegistry \<Rightarrow> string \<Rightarrow> bool" where
  "prior_absent fc target kind now r f \<longleftrightarrow>
     learned_decision fc target kind now r f = RoutingDecision.Allow
     \<and> \<not> override_forces_supported fc target f kind
     \<and> \<not> snd (is_verified_working_or_false fc (state_key target) f kind now r)
     \<and> capability_prior target f = Some False"

definition admission_of :: "DispatchTarget \<Rightarrow> string \<Rightarrow> LearnedCapabilityRegistry \<Rightarrow> string \<Rightarrow> ProbeAdmission" where
  "admission_of target kind r f = \<lparr>pa_state_key = state_key target, pa_feature = normalize_capability_key f kind,
     pa_provider_kind = kind, pa_generation = effective_persistence_generation r\<rparr>"

lemma hard_drop_spec:
  "map_option fst (hard_drop fc target fs) = List.find (routes_away fc target) fs"
  by (induction fs) (auto simp: routes_away_def split: option.split OverrideVerdict.split)

lemma claims_decision:
  assumes "claims K r r'" and "make_key sk f kind \<notin> K"
  shows "decision_at fc sk f kind now r' = decision_at fc sk f kind now r"
  using assms claims_same(1,2) [OF assms(1)] by (auto simp: decision_at_def claims_def)

lemma claims_verified:
  assumes "claims K r r'"
  shows "snd (is_verified_working_or_false fc sk f kind now r') = snd (is_verified_working_or_false fc sk f kind now r)"
proof -
  have "is_verified_working_in (lcr_entries r') k = is_verified_working_in (lcr_entries r) k" for k
  proof -
    have "map_of (lcr_entries r') k = (if k \<in> K then map_option (\<lambda>e. e\<lparr>in_flight := True\<rparr>) (map_of (lcr_entries r) k)
        else map_of (lcr_entries r) k)" using assms by (auto simp: claims_def)
    then show ?thesis
      by (cases "map_of (lcr_entries r) k") (auto simp: is_verified_working_in_def is_acting_def)
  qed
  then show ?thesis using claims_same(1,2) [OF assms]
    by (simp add: is_verified_working_or_false_def is_verified_working_in_generation_def guarded_read_def guarded_keyed_def)
qed

text \<open>What a scan has found, feature by feature, against the registry \<open>r\<close> it started from.\<close>

definition scanned :: "FeatureConfig \<Rightarrow> DispatchTarget \<Rightarrow> string \<Rightarrow> instant \<Rightarrow> LearnedCapabilityRegistry \<Rightarrow>
    ProbeAdmission list \<Rightarrow> string list \<Rightarrow> LearnedScan \<Rightarrow> bool" where
  "scanned fc target kind now r as fs sc \<longleftrightarrow>
     (let D = learned_decision fc target kind now r in
        claims ((\<lambda>f. make_key (state_key target) f kind) ` set (filter (\<lambda>f. D f = ProbeAdmitted) fs)) r (sc_registry sc)
      \<and> sc_admissions sc = as @ map (admission_of target kind r) (filter (\<lambda>f. D f = ProbeAdmitted) fs)
      \<and> sc_route_away sc = List.find (\<lambda>f. tailed fc target (D f) f) fs
      \<and> sc_strip sc = map (\<lambda>f. normalize_capability_key f kind) (filter (\<lambda>f. stripped fc target (D f) f) fs)
      \<and> sc_claimed sc = filter (\<lambda>f. D f \<noteq> RoutingDecision.Allow) fs)"

lemma scan_step:
  assumes "scanned fc target kind now r as fs sc" and "f \<notin> set fs"
    and new: "make_key (state_key target) f kind \<notin> (\<lambda>f. make_key (state_key target) f kind) ` set fs"
  shows "scanned fc target kind now r as (fs @ [f]) (scan_feature fc target kind now sc f)"
proof (cases "override_forces_supported fc target f kind")
  case True
  then show ?thesis using assms(1)
    by (simp add: scanned_def Let_def scan_feature_def find_snoc learned_decision_def tailed_def stripped_def
        split: option.split)
next
  case False
  let ?D = "learned_decision fc target kind now r" and ?key = "make_key (state_key target) f kind"
  let ?K = "(\<lambda>f. make_key (state_key target) f kind) ` set (filter (\<lambda>f. ?D f = ProbeAdmitted) fs)"
  have c: "claims ?K r (sc_registry sc)" and old: "sc_admissions sc = as @ map (admission_of target kind r) (filter (\<lambda>f. ?D f = ProbeAdmitted) fs)"
    "sc_route_away sc = List.find (\<lambda>f. tailed fc target (?D f) f) fs"
    "sc_strip sc = map (\<lambda>f. normalize_capability_key f kind) (filter (\<lambda>f. stripped fc target (?D f) f) fs)"
    "sc_claimed sc = filter (\<lambda>f. ?D f \<noteq> RoutingDecision.Allow) fs"
    using assms(1) by (simp_all add: scanned_def Let_def)
  obtain r1 d gen where rd: "acting_negative_with_generation fc (state_key target) f kind now (sc_registry sc) = (r1, d, gen)"
    by (rule prod_cases3)
  note A = acting_read [OF rd]
  have "?key \<notin> ?K" using new by auto
  then have d: "d = ?D f" using A(1) False claims_decision [OF c] by (simp add: learned_decision_def)
  have c1: "claims (?K \<union> (if d = ProbeAdmitted then {?key} else {})) r r1" by (rule claims_trans [OF c A(2)])
  have gen: "d = ProbeAdmitted \<Longrightarrow> gen = effective_persistence_generation r" using A(3) claims_same(3) [OF c] by simp
  show ?thesis
  proof (cases d)
    case (RouteAway sg ph)
    then show ?thesis using c1 False rd d old
      by (auto simp: scanned_def Let_def scan_feature_def find_snoc tailed_def stripped_def split: option.splits)
  next
    case ProbeAdmitted
    then show ?thesis using c1 False rd d old gen
      by (simp add: scanned_def Let_def scan_feature_def find_snoc tailed_def stripped_def admission_of_def split: option.splits)
  next
    case Allow
    then show ?thesis using c1 False rd d old
      by (simp add: scanned_def Let_def scan_feature_def find_snoc tailed_def stripped_def split: option.splits)
  qed
qed

lemma scan_spec:
  assumes "distinct (map (\<lambda>f. make_key (state_key target) f kind) fs)"
  shows "scanned fc target kind now r as fs (foldl (scan_feature fc target kind now)
     \<lparr>sc_registry = r, sc_admissions = as, sc_route_away = None, sc_strip = [], sc_claimed = []\<rparr> fs)"
  using assms
proof (induction fs rule: rev_induct)
  case Nil
  then show ?case by (simp add: scanned_def Let_def)
next
  case (snoc f fs)
  then show ?case using scan_step [of fc target kind now r as fs _ f] by auto
qed

lemma prior_pass_spec:
  "snd (prior_pass fc target kind now claimed fs r) =
     List.find (\<lambda>f. f \<notin> set claimed \<and> \<not> override_forces_supported fc target f kind
       \<and> \<not> snd (is_verified_working_or_false fc (state_key target) f kind now r) \<and> capability_prior target f = Some False) fs"
proof (induction fs)
  case (Cons f fs)
  show ?case using verified_read [of fc "state_key target" f kind now r] Cons
    by (cases "is_verified_working_or_false fc (state_key target) f kind now r")
       (auto simp: list_ex_iff split: prod.splits)
qed simp

text \<open>The verdict a target should get: overrides first, then every learned negative that cannot be
  stripped, then the catalog priors of features nothing better is known of.\<close>

definition reference_verdict :: "FeatureConfig \<Rightarrow> DispatchTarget \<Rightarrow> string \<Rightarrow> string list \<Rightarrow> instant \<Rightarrow>
    LearnedCapabilityRegistry \<Rightarrow> (string \<times> FilterSource) option \<times> string set" where
  "reference_verdict fc target kind fs now r =
     (let D = learned_decision fc target kind now r
      in case List.find (\<lambda>f. tailed fc target (D f) f) fs of
        Some f \<Rightarrow> (Some (f, SrcLearned), {})
      | None \<Rightarrow> (map_option (\<lambda>f. (f, SrcPrior)) (List.find (prior_absent fc target kind now r) fs),
                 (\<lambda>f. normalize_capability_key f kind) ` {f \<in> set fs. stripped fc target (D f) f}))"

lemma find_cong_set: "(\<And>x. x \<in> set xs \<Longrightarrow> P x = Q x) \<Longrightarrow> List.find P xs = List.find Q xs"
  by (induction xs) auto

lemma sorted_dedup: "remdups_adj (sort xs) = sorted_list_of_set (set xs)" for xs :: "string list"
proof -
  have "sorted ys \<Longrightarrow> distinct (remdups_adj ys)" for ys :: "string list"
    by (induction ys rule: remdups_adj.induct) (auto simp: order.antisym)
  then show ?thesis by (intro sorted_distinct_set_unique) simp_all
qed

lemma learned_verdict:
  assumes "hard_drop fc target fs = None" and "fc_enabled fc" and "dt_provider_kind target = Some kind"
    and "distinct (map (\<lambda>f. normalize_capability_key f kind) fs)"
    and "unsupported_feature_for_target fc target fs now (r, as) = ((r', as'), v)"
  shows "(tv_match v, tv_strip_keys v) =
       (case reference_verdict fc target kind fs now r of (m, strip) \<Rightarrow> (m, sorted_list_of_set strip))"
    and "as' = as @ map (admission_of target kind r)
       (filter (\<lambda>f. learned_decision fc target kind now r f = ProbeAdmitted) fs)"
proof -
  let ?D = "learned_decision fc target kind now r"
  let ?key = "\<lambda>f. make_key (state_key target) f kind"
  define sc where "sc = foldl (scan_feature fc target kind now)
      \<lparr>sc_registry = r, sc_admissions = as, sc_route_away = None, sc_strip = [], sc_claimed = []\<rparr> fs"
  have "distinct (map ?key fs)" using assms(4) by (simp add: distinct_map inj_on_def make_key_def)
  then have "scanned fc target kind now r as fs sc" unfolding sc_def by (rule scan_spec)
  then have c: "claims (?key ` set (filter (\<lambda>f. ?D f = ProbeAdmitted) fs)) r (sc_registry sc)"
    and adm: "sc_admissions sc = as @ map (admission_of target kind r) (filter (\<lambda>f. ?D f = ProbeAdmitted) fs)"
    and away: "sc_route_away sc = List.find (\<lambda>f. tailed fc target (?D f) f) fs"
    and strip: "set (sc_strip sc) = (\<lambda>f. normalize_capability_key f kind) ` {f \<in> set fs. stripped fc target (?D f) f}"
    and claimed: "sc_claimed sc = filter (\<lambda>f. ?D f \<noteq> RoutingDecision.Allow) fs"
    by (simp_all add: scanned_def Let_def)
  have pass: "prior_pass fc target kind now (sc_claimed sc) fs (sc_registry sc) =
      (sc_registry sc, List.find (prior_absent fc target kind now r) fs)"
    using prior_pass_keeps [of fc target kind now "sc_claimed sc" fs "sc_registry sc"]
    by (simp add: prior_pass_spec claims_verified [OF c] prior_absent_def claimed cong: find_cong_set)
  have v: "((r', as'), v) = (case sc_route_away sc of
       Some f \<Rightarrow> (scan_state sc, \<lparr>tv_match = Some (f, SrcLearned), tv_strip_keys = []\<rparr>)
     | None \<Rightarrow> (scan_state sc, \<lparr>tv_match = map_option (\<lambda>f. (f, SrcPrior)) (List.find (prior_absent fc target kind now r) fs),
           tv_strip_keys = remdups_adj (sort (sc_strip sc))\<rparr>))"
    using assms(1-3,5) by (simp add: unsupported_feature_for_target_def pass Let_def flip: sc_def split: option.splits)
  show "(tv_match v, tv_strip_keys v) =
       (case reference_verdict fc target kind fs now r of (m, strip) \<Rightarrow> (m, sorted_list_of_set strip))"
    using v by (auto simp: reference_verdict_def sorted_dedup away strip split: option.splits)
  show "as' = as @ map (admission_of target kind r) (filter (\<lambda>f. ?D f = ProbeAdmitted) fs)"
    using v adm by (auto split: option.splits)
qed

text \<open>C27. The verdict of a target is decided feature by feature, whatever the order in which the scan
  claims slots: a route-away override of any feature drops the target untouched; then one learned
  negative that cannot be stripped demotes it and strips nothing; otherwise the droppable ones are its
  strip keys, sorted and without repetition, and a catalog prior may demote it. Exactly the features
  whose lapsed negative was free are handed out as re-probes.\<close>

theorem target_verdict_exact:
  assumes "unsupported_feature_for_target fc target fs now (r, as) = ((r', as'), v)"
    and "dt_provider_kind target = Some kind"
    and "distinct (map (\<lambda>f. normalize_capability_key f kind) fs)"
  shows "case List.find (routes_away fc target) fs of
      Some f \<Rightarrow> map_option fst (tv_match v) = Some f \<and> tv_strip_keys v = [] \<and> r' = r \<and> as' = as
    | None \<Rightarrow>
        if fc_enabled fc
        then (tv_match v, tv_strip_keys v) =
               (case reference_verdict fc target kind fs now r of (m, strip) \<Rightarrow> (m, sorted_list_of_set strip))
           \<and> as' = as @ map (admission_of target kind r)
               (filter (\<lambda>f. learned_decision fc target kind now r f = ProbeAdmitted) fs)
        else tv_match v = None \<and> tv_strip_keys v = [] \<and> r' = r \<and> as' = as"
proof (cases "hard_drop fc target fs")
  case None
  then have "List.find (routes_away fc target) fs = None" using hard_drop_spec [of fc target fs] by simp
  then show ?thesis using learned_verdict [OF None _ assms(2,3,1)] assms(1) None
    by (cases "fc_enabled fc") (auto simp: unsupported_feature_for_target_def)
next
  case (Some m)
  then have "List.find (routes_away fc target) fs = Some (fst m)" using hard_drop_spec [of fc target fs] by simp
  then show ?thesis using assms(1) Some by (cases m) (auto simp: unsupported_feature_for_target_def)
qed

subsection \<open>The order of the filtered chain\<close>

fun chain_verdicts :: "FeatureConfig \<Rightarrow> string list \<Rightarrow> (nat \<Rightarrow> instant) \<Rightarrow> nat \<Rightarrow> DispatchTarget list \<Rightarrow>
    LearnedCapabilityRegistry \<times> ProbeAdmission list \<Rightarrow>
    (LearnedCapabilityRegistry \<times> ProbeAdmission list) \<times> (DispatchTarget \<times> TargetVerdict) list" where
  "chain_verdicts fc fs clock i [] st = (st, [])"
| "chain_verdicts fc fs clock i (t # chain) st =
     (let (st, v) = unsupported_feature_for_target fc t fs (clock i) st;
          (st, tvs) = chain_verdicts fc fs clock (Suc i) chain st
      in (st, (t, v) # tvs))"

fun bucket :: "(string \<times> FilterSource) option \<Rightarrow> nat" where
  "bucket None = 0"
| "bucket (Some (f, SrcPrior)) = 1"
| "bucket (Some (f, SrcLearned)) = 2"
| "bucket (Some (f, SrcProviderStatic)) = 3"
| "bucket (Some (f, SrcModelStatic)) = 3"
| "bucket (Some (f, SrcOverride)) = 3"

lemma bucket_prior [simp]: "bucket (map_option (\<lambda>f. (f, SrcPrior)) p) = (if p = None then 0 else 1)"
  by (cases p) simp_all

definition in_bucket :: "nat \<Rightarrow> (DispatchTarget \<times> TargetVerdict) list \<Rightarrow> DispatchTarget list" where
  "in_bucket n tvs = map (\<lambda>(t, v). attach_strip (tv_strip_keys v) t) (filter (\<lambda>(t, v). bucket (tv_match v) = n) tvs)"

lemma learned_no_strip:
  assumes "unsupported_feature_for_target fc t fs now st = (st', v)" and "bucket (tv_match v) = 2"
  shows "tv_strip_keys v = []"
  using assms
  by (auto simp: unsupported_feature_for_target_def Let_def split: option.splits if_splits prod.splits)

definition routed :: "(DispatchTarget \<times> TargetVerdict) list \<Rightarrow> (string \<times> string \<times> FilterSource) list" where
  "routed tvs = map (\<lambda>(t, v). (state_key t, the (tv_match v))) (filter (\<lambda>(t, v). bucket (tv_match v) \<in> {1, 2}) tvs)"

lemma filter_loop_spec:
  "filter_loop fc fs clock i chain bk st =
     (let (st', tvs) = chain_verdicts fc fs clock i chain st
      in (st', bk\<lparr>bk_supported := bk_supported bk @ in_bucket 0 tvs, bk_prior_tail := bk_prior_tail bk @ in_bucket 1 tvs,
            bk_learned_tail := bk_learned_tail bk @ in_bucket 2 tvs, bk_route_aways := bk_route_aways bk @ routed tvs\<rparr>))"
proof (induction chain arbitrary: i bk st)
  case (Cons t chain)
  obtain st1 v where one: "unsupported_feature_for_target fc t fs (clock i) st = (st1, v)" by (rule prod.exhaust)
  show ?case using learned_no_strip [OF one]
    by (cases "tv_match v" rule: bucket.cases)
       (simp_all add: one Cons.IH Let_def place_target_def in_bucket_def routed_def attach_strip_def split: prod.split)
qed (simp add: in_bucket_def routed_def)

lemma verdicts_fst: "map fst (snd (chain_verdicts fc fs clock i chain st)) = chain"
  by (induction chain arbitrary: i st) (simp_all add: split_beta Let_def)

lemma dropped_untouched:
  assumes "unsupported_feature_for_target fc t fs now st = (st', v)" and "bucket (tv_match v) = 3"
  shows "st' = st"
  using assms
  by (auto simp: unsupported_feature_for_target_def Let_def split: option.splits if_splits prod.splits)

lemma all_dropped_untouched:
  "chain_verdicts fc fs clock i chain st = (st', tvs) \<Longrightarrow> list_all (\<lambda>(t, v). bucket (tv_match v) = 3) tvs \<Longrightarrow> st' = st"
proof (induction chain arbitrary: i st st' tvs)
  case (Cons t chain)
  obtain st1 v where one: "unsupported_feature_for_target fc t fs (clock i) st = (st1, v)" by (rule prod.exhaust)
  obtain st2 tvs2 where two: "chain_verdicts fc fs clock (Suc i) chain st1 = (st2, tvs2)" by (rule prod.exhaust)
  from Cons.prems have "bucket (tv_match v) = 3" "st' = st2" "list_all (\<lambda>(t, v). bucket (tv_match v) = 3) tvs2"
    by (auto simp: one two)
  with dropped_untouched [OF one] Cons.IH [OF two] show ?case by simp
qed simp

lemma buckets_empty:
  "in_bucket 0 tvs = [] \<and> in_bucket 1 tvs = [] \<and> in_bucket 2 tvs = [] \<longleftrightarrow> list_all (\<lambda>(t, v). bucket (tv_match v) = 3) tvs"
proof (induction tvs)
  case (Cons tv tvs)
  obtain t v where "tv = (t, v)" by (rule prod.exhaust)
  then show ?case using Cons by (cases "tv_match v" rule: bucket.cases) (simp_all add: in_bucket_def)
qed (simp add: in_bucket_def)

lemma filter_result:
  assumes "filter_chain_by_features fc clock chain features alias st = (st', evs, res)"
    and "features \<noteq> []" and "chain \<noteq> []"
    and "chain_verdicts fc features clock 0 chain st = (st_end, tvs)"
  shows "map fst tvs = chain \<and> st' = st_end
    \<and> (if list_all (\<lambda>(t, v). bucket (tv_match v) = 3) tvs
       then st' = st \<and> evs = []
          \<and> res = Inl (NotImplemented alias (''no provider in chain supports features: '' @ join_with '', '' features))
       else res = Inr (in_bucket 0 tvs @ in_bucket 1 tvs @ in_bucket 2 tvs)
          \<and> map (\<lambda>e. (ra_state_key e, ra_capability_key e, ra_source e)) evs = routed tvs
          \<and> list_all (\<lambda>e. ra_tail_only e = (in_bucket 0 tvs = [])) evs)"
proof -
  note L = filter_loop_spec [of fc features clock 0 chain
      "\<lparr>bk_supported = [], bk_prior_tail = [], bk_learned_tail = [], bk_route_aways = []\<rparr>" st, unfolded assms(4)]
  have fst_tvs: "map fst tvs = chain" using verdicts_fst [of fc features clock 0 chain st] assms(4) by simp
  show ?thesis
  proof (cases "list_all (\<lambda>(t, v). bucket (tv_match v) = 3) tvs")
    case True
    note none = True [folded buckets_empty]
    have "st_end = st" by (rule all_dropped_untouched [OF assms(4) True])
    then show ?thesis using assms(1-3) none True fst_tvs by (simp add: filter_chain_by_features_def L)
  next
    case False
    note some = False [folded buckets_empty]
    show ?thesis using assms(1-3) some False fst_tvs
      by (auto simp: filter_chain_by_features_def L comp_def split_beta list_all_iff)
  qed
qed

text \<open>The filtered chain is the given one, stably sorted by verdict: supported targets, then those a
  catalog prior demotes, then those a learned negative demotes, without the targets an override drops.
  The request fails, as not implemented, exactly when every target is dropped by an override, and then
  neither the registry nor the admissions have changed; the events report a tail-only chain exactly
  when no target is supported.\<close>

lemma filter_is_stable_partition:
  assumes "filter_chain_by_features fc clock chain features alias st = (st', evs, res)"
    and "features \<noteq> []" and "chain \<noteq> []"
    and "chain_verdicts fc features clock 0 chain st = (st_end, tvs)"
  shows "map fst tvs = chain \<and> st' = st_end
    \<and> (if list_all (\<lambda>(t, v). bucket (tv_match v) = 3) tvs
       then st' = st \<and> evs = []
          \<and> res = Inl (NotImplemented alias (''no provider in chain supports features: '' @ join_with '', '' features))
       else res = Inr (in_bucket 0 tvs @ in_bucket 1 tvs @ in_bucket 2 tvs)
          \<and> map (\<lambda>e. (ra_state_key e, ra_capability_key e, ra_source e)) evs = routed tvs
          \<and> list_all (\<lambda>e. ra_tail_only e = (in_bucket 0 tvs = [])) evs)"
  by (rule filter_result [OF assms])

subsection \<open>Instances\<close>

definition demo_filter :: FeatureConfig where
  "demo_filter = \<lparr>fc_overrides = [], fc_enabled = True, fc_essential = [], fc_generation = 1,
     fc_beta_floor = (\<lambda>p. []), fc_header_extras = (\<lambda>p. None)\<rparr>"

definition demo_lane :: DispatchTarget where
  "demo_lane = (into_one_dispatch_target (resolved_model_new ''m'' ''p'' 0 ''up''))\<lparr>dt_provider_kind := Some ''gemini''\<rparr>"

lemma demo_lane_fields [simp]:
  "state_key demo_lane = ''m''" "dt_provider_kind demo_lane = Some ''gemini''"
  "override_for demo_filter demo_lane f k = None" "override_forces_supported demo_filter demo_lane f k = False"
  "hard_drop demo_filter demo_lane fs = None" "fc_enabled demo_filter" "fc_generation demo_filter = 1"
  by (induction fs) (simp_all add: demo_lane_def into_one_dispatch_target_def resolved_model_new_def override_forces_supported_def
      override_for_def override_resolve_def demo_filter_def Let_def)

lemma demo_read:
  "acting_negative_with_generation demo_filter ''m'' ''web_search'' ''gemini'' 11 demo_learned = (demo_claimed, ProbeAdmitted, 1)"
  using demo_query(1) by (simp add: acting_negative_with_generation_def)

lemma demo_filtered:
  "filter_chain_by_features demo_filter (\<lambda>i. 11) [demo_lane] [''web_search''] ''alias'' (demo_learned, [])
     = ((demo_claimed, [demo_admission]), [], Inr [demo_lane])"
proof -
  have "normalize_capability_key ''web_search'' ''gemini'' = ''web_search''" by (simp add: normalize_capability_key_def)
  then have "unsupported_feature_for_target demo_filter demo_lane [''web_search''] 11 (demo_learned, [])
      = ((demo_claimed, [demo_admission]), \<lparr>tv_match = None, tv_strip_keys = []\<rparr>)"
    by (simp add: unsupported_feature_for_target_def scan_feature_def demo_read demo_admission_def)
  then show ?thesis by (simp add: filter_chain_by_features_def place_target_def attach_strip_def)
qed

theorem filtered_request_frees_its_probes_witness:
  "slot_held demo_key demo_claimed \<and> \<not> slot_held demo_key (fst (run_request (\<lambda>k n. 0) [demo_admission] ''stream'' [] [''m''] 14
     (fst (fst (filter_chain_by_features demo_filter (\<lambda>i. 11) [demo_lane] [''web_search''] ''alias'' (demo_learned, []))))))"
proof -
  have "wf_entries (lcr_entries demo_learned)" and "next_incarnation demo_learned + 1 \<le> U64_MAX"
    and free: "\<not> slot_held demo_key demo_learned" and "slot_held demo_key demo_claimed"
    by (simp_all add: slot_held_def demo_defs U64_MAX_def)
  with filtered_request_frees_its_probes [OF demo_filtered surjective_pairing, where hash = "\<lambda>k n. 0" and surface = "''stream''"
      and vs = "[]" and ks = "[''m'']" and now = 14]
  show ?thesis by (auto simp: demo_filtered)
qed

theorem target_verdict_exact_witness:
  "snd (unsupported_feature_for_target demo_filter demo_lane [''web_search''] 5 (demo_learned, []))
     = \<lparr>tv_match = Some (''web_search'', SrcLearned), tv_strip_keys = []\<rparr>"
proof -
  obtain r' as' v where run: "unsupported_feature_for_target demo_filter demo_lane [''web_search''] 5 (demo_learned, []) = ((r', as'), v)"
    by (metis prod.exhaust)
  have "decision_at demo_filter ''m'' ''web_search'' ''gemini'' 5 demo_learned = RoutingDecision.RouteAway SelfIdentifying F1"
    unfolding decision_at_def demo_make_key
    by (simp add: entry_decision_def admits_generation_def is_acting_def is_expired_def acting_decision_def demo_defs)
  moreover have "\<not> strips_here demo_filter demo_lane ''web_search''" by (simp add: strips_here_def effective_action_for_def action_for_def WEB_SEARCH_def)
  ultimately have ref: "reference_verdict demo_filter demo_lane ''gemini'' [''web_search''] 5 demo_learned
      = (Some (''web_search'', SrcLearned), {})"
    by (simp add: reference_verdict_def learned_decision_def tailed_def)
  have "List.find (routes_away demo_filter demo_lane) [''web_search''] = None" by (simp add: routes_away_def)
  with target_verdict_exact [OF run] ref run show ?thesis by simp
qed

lemma filter_is_stable_partition_witness:
  "map fst (snd (chain_verdicts demo_filter [''web_search''] (\<lambda>i. 11) 0 [demo_lane] (demo_learned, []))) = [demo_lane]"
proof -
  obtain st_end tvs where v: "chain_verdicts demo_filter [''web_search''] (\<lambda>i. 11) 0 [demo_lane] (demo_learned, []) = (st_end, tvs)"
    by (rule prod.exhaust)
  from filter_is_stable_partition [OF demo_filtered list.distinct(2) list.distinct(2) v] have "map fst tvs = [demo_lane]" by blast
  then show ?thesis by (simp only: v snd_conv)
qed

end
