(* ===== verification/Calibration.thy ===== *)
theory Calibration
  imports BTree_Map "HOL-Library.AList"
begin

text \<open>
  The per-lane correction of token estimates (\<open>routectl-router/src/calibration/\<close>): the bounded ring of
  evidence of a lane, its reduction to a factor (\<open>factor.rs\<close>), the store (\<open>store.rs\<close>) and its rebuild
  from the ledger at boot (\<open>rebuild.rs\<close>). The store's map is an association list; the log hash and the
  ledger reader, code outside the crate, are arguments. A system time is its distance from the epoch.
\<close>

subsection \<open>Evidence\<close>

record LaneKey =
  lk_provider_kind :: string
  lk_nickname :: string

record Sample =
  sample_ts :: instant
  sample_permille :: u32
  sample_cohort :: u64

type_synonym LaneSamples = "Sample list"

definition SAMPLES_PER_LANE :: usize where "SAMPLES_PER_LANE = 64"
definition IDENTITY_PERMILLE :: u32 where "IDENTITY_PERMILLE = 1000"
definition MIN_SAMPLES :: usize where "MIN_SAMPLES = 8"
definition MIN_COHORTS :: usize where "MIN_COHORTS = 3"
definition MAX_SAMPLE_AGE :: duration where "MAX_SAMPLE_AGE = from_hours 24"
definition MIN_SANE_PERMILLE :: u32 where "MIN_SANE_PERMILLE = 500"
definition MAX_SANE_PERMILLE :: u32 where "MAX_SANE_PERMILLE = 2000"

definition lane_push :: "Sample \<Rightarrow> LaneSamples \<Rightarrow> LaneSamples" where
  "lane_push s samples = (if length samples = SAMPLES_PER_LANE then tl samples else samples) @ [s]"

subsection \<open>Reduction\<close>

datatype Factor = Factor (factor_permille: u32)

definition factor_apply :: "Factor \<Rightarrow> u64 \<Rightarrow> u64" where
  "factor_apply f raw = min (raw * factor_permille f) U64_MAX div IDENTITY_PERMILLE"

definition is_stale :: "instant \<Rightarrow> instant \<Rightarrow> bool" where
  "is_stale ts now \<longleftrightarrow> (case checked_duration_since now ts of Some age \<Rightarrow> MAX_SAMPLE_AGE < age | None \<Rightarrow> False)"

text \<open>The code panics on an empty list; \<open>group_nonempty\<close> shows that no group is empty.\<close>

definition median_of_sorted :: "u32 list \<Rightarrow> u32" where
  "median_of_sorted xs =
     (let mid = length xs div 2
      in if length xs mod 2 = 1 then xs ! mid else min ((xs ! (mid - 1) + xs ! mid) div 2) U32_MAX)"

definition group_sample :: "instant \<Rightarrow> (u64, u32 list) btree \<times> usize \<Rightarrow> Sample \<Rightarrow> (u64, u32 list) btree \<times> usize" where
  "group_sample now = (\<lambda>(per_cohort, fresh) s.
     if is_stale (sample_ts s) now then (per_cohort, fresh)
     else (bt_insert (sample_cohort s)
             ((case bt_get per_cohort (sample_cohort s) of None \<Rightarrow> [] | Some ratios \<Rightarrow> ratios) @ [sample_permille s])
             per_cohort, fresh + 1))"

definition reduce :: "LaneSamples \<Rightarrow> instant \<Rightarrow> Factor option" where
  "reduce samples now =
     (let (per_cohort, fresh) = foldl (group_sample now) ([], 0) samples
      in if fresh < MIN_SAMPLES \<or> length per_cohort < MIN_COHORTS then None
         else (let cohort_medians = map (\<lambda>(cohort, ratios). median_of_sorted (sort ratios)) per_cohort;
                   permille = median_of_sorted (sort cohort_medians)
               in if \<not> (MIN_SANE_PERMILLE \<le> permille \<and> permille \<le> MAX_SANE_PERMILLE) then None
                  else Some (Factor permille)))"

subsection \<open>Store\<close>

type_synonym CalibrationStore = "(LaneKey \<times> LaneSamples) list"

definition permille_ratio :: "u64 \<Rightarrow> u64 \<Rightarrow> u32 option" where
  "permille_ratio estimated actual =
     (if U64_MAX < actual * IDENTITY_PERMILLE then None
      else (let ratio = actual * IDENTITY_PERMILLE div estimated in if ratio \<le> U32_MAX then Some ratio else None))"

definition record_pair :: "LaneKey \<Rightarrow> u64 \<Rightarrow> u64 \<Rightarrow> u64 \<Rightarrow> instant \<Rightarrow> CalibrationStore \<Rightarrow> CalibrationStore \<times> bool" where
  "record_pair key estimated actual cohort ts lanes =
     (if estimated = 0 \<or> actual = 0 then (lanes, False)
      else case permille_ratio estimated actual of
        None \<Rightarrow> (lanes, False)
      | Some permille \<Rightarrow>
          (AList.update key (lane_push \<lparr>sample_ts = ts, sample_permille = permille, sample_cohort = cohort\<rparr>
             (case map_of lanes key of None \<Rightarrow> [] | Some samples \<Rightarrow> samples)) lanes, True))"

definition factor_for :: "LaneKey \<Rightarrow> instant \<Rightarrow> CalibrationStore \<Rightarrow> Factor option" where
  "factor_for key now lanes = Option.bind (map_of lanes key) (\<lambda>samples. reduce samples now)"

definition calibrated_lane_count :: "instant \<Rightarrow> CalibrationStore \<Rightarrow> usize" where
  "calibrated_lane_count now lanes = length (filter (\<lambda>(key, samples). reduce samples now \<noteq> None) lanes)"

definition retain_lanes :: "(LaneKey \<Rightarrow> bool) \<Rightarrow> CalibrationStore \<Rightarrow> CalibrationStore" where
  "retain_lanes pred lanes = filter (\<lambda>(key, samples). pred key) lanes"

definition cohort_of :: "(string \<Rightarrow> u64) \<Rightarrow> string option \<Rightarrow> u64" where
  "cohort_of salted_log_hash session_key = (case session_key of None \<Rightarrow> 0 | Some s \<Rightarrow> salted_log_hash s)"

text \<open>The router's write: a target without a kind or a nickname forms no lane.\<close>

definition record_calibration_sample :: "(string \<Rightarrow> u64) \<Rightarrow> string option \<Rightarrow> string option \<Rightarrow> string option \<Rightarrow>
    u64 \<Rightarrow> u64 \<Rightarrow> instant \<Rightarrow> CalibrationStore \<Rightarrow> CalibrationStore" where
  "record_calibration_sample salted_log_hash kind nick session_key estimated prompt ts lanes =
     (case (kind, nick) of
        (Some kind, Some nick) \<Rightarrow>
          fst (record_pair \<lparr>lk_provider_kind = kind, lk_nickname = nick\<rparr> estimated prompt
            (cohort_of salted_log_hash session_key) ts lanes)
      | _ \<Rightarrow> lanes)"

subsection \<open>Rebuild\<close>

record CalibrationLedgerRow =
  row_ts :: instant
  row_provider_kind :: string
  row_nickname :: string
  row_session_key :: "string option"
  row_estimated_tokens :: u64
  row_prompt_tokens :: u64

record CalibrationRebuildSummary =
  rows_loaded :: usize
  accepted :: usize
  rejected_unknown_nickname :: usize
  rejected_pair :: usize
  lanes_calibrated :: usize

definition row_lane :: "CalibrationLedgerRow \<Rightarrow> LaneKey" where
  "row_lane row = \<lparr>lk_provider_kind = row_provider_kind row, lk_nickname = row_nickname row\<rparr>"

definition rebuild_row :: "(string \<Rightarrow> u64) \<Rightarrow> (string \<Rightarrow> bool) \<Rightarrow> CalibrationStore \<times> CalibrationRebuildSummary \<Rightarrow>
    CalibrationLedgerRow \<Rightarrow> CalibrationStore \<times> CalibrationRebuildSummary" where
  "rebuild_row salted_log_hash known_nickname = (\<lambda>(lanes, summary) row.
     if \<not> known_nickname (row_nickname row)
     then (lanes, summary\<lparr>rejected_unknown_nickname := rejected_unknown_nickname summary + 1\<rparr>)
     else (let (lanes, stored) = record_pair (row_lane row) (row_estimated_tokens row) (row_prompt_tokens row)
                  (cohort_of salted_log_hash (row_session_key row)) (row_ts row) lanes
           in (lanes, if stored then summary\<lparr>accepted := accepted summary + 1\<rparr>
                      else summary\<lparr>rejected_pair := rejected_pair summary + 1\<rparr>)))"

definition rebuild_into :: "(string \<Rightarrow> u64) \<Rightarrow> (instant \<Rightarrow> usize \<Rightarrow> CalibrationLedgerRow list) \<Rightarrow> (string \<Rightarrow> bool) \<Rightarrow>
    instant \<Rightarrow> usize \<Rightarrow> CalibrationStore \<Rightarrow> CalibrationStore \<times> CalibrationRebuildSummary" where
  "rebuild_into salted_log_hash reader known_nickname now limit lanes =
     (let rows = sort_key row_ts (reader (now - MAX_SAMPLE_AGE) limit);
          (lanes, summary) = foldl (rebuild_row salted_log_hash known_nickname)
            (lanes, \<lparr>rows_loaded = length rows, accepted = 0, rejected_unknown_nickname = 0, rejected_pair = 0,
                     lanes_calibrated = 0\<rparr>) rows
      in (lanes, summary\<lparr>lanes_calibrated := calibrated_lane_count now lanes\<rparr>))"

subsection \<open>One vote for each cohort\<close>

definition fresh_samples :: "instant \<Rightarrow> LaneSamples \<Rightarrow> LaneSamples" where
  "fresh_samples now samples = filter (\<lambda>s. \<not> is_stale (sample_ts s) now) samples"

definition cohort_ratios :: "instant \<Rightarrow> LaneSamples \<Rightarrow> u64 \<Rightarrow> u32 list" where
  "cohort_ratios now samples c = map sample_permille (filter (\<lambda>s. sample_cohort s = c) (fresh_samples now samples))"

definition cohort_median :: "instant \<Rightarrow> LaneSamples \<Rightarrow> u64 \<Rightarrow> u32" where
  "cohort_median now samples c = median_of_sorted (sort (cohort_ratios now samples c))"

lemma is_stale_iff: "is_stale ts now \<longleftrightarrow> ts < now - MAX_SAMPLE_AGE"
  by (auto simp: is_stale_def checked_duration_since_def)

lemma group_step:
  "group_sample now (pc, n) s =
     (if is_stale (sample_ts s) now then (pc, n)
      else (bt_insert (sample_cohort s)
              ((case bt_get pc (sample_cohort s) of None \<Rightarrow> [] | Some ratios \<Rightarrow> ratios) @ [sample_permille s]) pc, n + 1))"
  by (simp add: group_sample_def)

lemma group_fold:
  assumes "foldl (group_sample now) ([], 0) samples = (per_cohort, fresh)"
  shows "bt_wf per_cohort \<and> fresh = length (fresh_samples now samples)
    \<and> (\<forall>c. bt_get per_cohort c =
          (if cohort_ratios now samples c = [] then None else Some (cohort_ratios now samples c)))"
  using assms
proof (induction samples arbitrary: per_cohort fresh rule: rev_induct)
  case Nil
  then show ?case by (simp add: bt_wf_def fresh_samples_def cohort_ratios_def bt_get_def)
next
  case (snoc s samples)
  obtain pc n where one: "foldl (group_sample now) ([], 0) samples = (pc, n)" by (rule prod.exhaust)
  note IH = snoc.IH [OF one]
  show ?case
  proof (cases "is_stale (sample_ts s) now")
    case True
    then show ?thesis using snoc.prems IH
      by (simp add: one group_step fresh_samples_def cohort_ratios_def)
  next
    case False
    then show ?thesis using snoc.prems IH
      by (auto simp: one group_step fresh_samples_def cohort_ratios_def bt_wf_insert bt_get_insert)
  qed
qed

lemma group_nonempty: "foldl (group_sample now) ([], 0) samples = (per_cohort, fresh) \<Longrightarrow> (c, ratios) \<in> set per_cohort \<Longrightarrow> ratios \<noteq> []"
  by (auto dest!: group_fold map_of_is_SomeI [OF bt_wf_distinct] simp: bt_get_def split: if_splits)

lemma groups_are_cohorts:
  assumes "foldl (group_sample now) ([], 0) samples = (per_cohort, fresh)"
  shows "per_cohort = map (\<lambda>c. (c, cohort_ratios now samples c)) (map fst per_cohort)"
    and "distinct (map fst per_cohort)" and "fst ` set per_cohort = sample_cohort ` set (fresh_samples now samples)"
proof -
  note G = group_fold [OF assms]
  show d: "distinct (map fst per_cohort)" using G bt_wf_distinct by blast
  have entry: "ratios = cohort_ratios now samples c \<and> ratios \<noteq> []" if "(c, ratios) \<in> set per_cohort" for c ratios
    using G map_of_is_SomeI [OF d that] by (auto simp: bt_get_def split: if_splits)
  then show "per_cohort = map (\<lambda>c. (c, cohort_ratios now samples c)) (map fst per_cohort)"
    by (auto simp: comp_def intro!: map_idI [symmetric])
  have "c \<in> fst ` set per_cohort \<longleftrightarrow> c \<in> sample_cohort ` set (fresh_samples now samples)" for c
  proof -
    have "c \<in> fst ` set per_cohort \<longleftrightarrow> cohort_ratios now samples c \<noteq> []"
      using G bt_get_None [of per_cohort c] by (metis option.distinct(1))
    then show ?thesis by (auto simp: cohort_ratios_def filter_empty_conv)
  qed
  then show "fst ` set per_cohort = sample_cohort ` set (fresh_samples now samples)" by blast
qed

lemma median_between:
  assumes "sorted xs" and "3 \<le> length xs" and "median_of_sorted xs \<le> MAX_SANE_PERMILLE"
  shows "xs ! 0 \<le> median_of_sorted xs" and "xs ! 1 \<le> median_of_sorted xs"
    and "median_of_sorted xs \<le> xs ! (length xs - 2)" and "median_of_sorted xs \<le> xs ! (length xs - 1)"
proof -
  define m where "m = length xs div 2"
  have at: "xs ! i \<le> xs ! j" if "i \<le> j" "j < length xs" for i j using assms(1) that by (simp add: sorted_nth_mono)
  have "xs ! 1 \<le> median_of_sorted xs \<and> median_of_sorted xs \<le> xs ! (length xs - 2)"
  proof (cases "length xs mod 2 = 1")
    case True
    then have "median_of_sorted xs = xs ! m" by (simp add: median_of_sorted_def m_def Let_def)
    moreover have "1 \<le> m" "m \<le> length xs - 2" using True assms(2) by (auto simp: m_def elim: oddE; presburger)+
    ultimately show ?thesis using assms(2) by (auto intro: at)
  next
    case False
    then have med: "median_of_sorted xs = min ((xs ! (m - 1) + xs ! m) div 2) U32_MAX"
      by (simp add: median_of_sorted_def m_def Let_def)
    then have avg: "median_of_sorted xs = (xs ! (m - 1) + xs ! m) div 2"
      using assms(3) by (auto simp: MAX_SANE_PERMILLE_def U32_MAX_def min_def split: if_splits)
    have "1 \<le> m - 1" "m \<le> length xs - 2" "m < length xs" using False assms(2) by (auto simp: m_def; presburger)+
    then have "xs ! 1 \<le> xs ! (m - 1)" "xs ! m \<le> xs ! (length xs - 2)" "xs ! (m - 1) \<le> xs ! m"
      using assms(2) by (auto intro!: at)
    then show ?thesis unfolding avg by linarith
  qed
  moreover have "xs ! 0 \<le> xs ! 1" "xs ! (length xs - 2) \<le> xs ! (length xs - 1)" using assms(2) by (auto intro!: at)
  ultimately show "xs ! 0 \<le> median_of_sorted xs" and "xs ! 1 \<le> median_of_sorted xs"
    and "median_of_sorted xs \<le> xs ! (length xs - 2)" and "median_of_sorted xs \<le> xs ! (length xs - 1)" by auto
qed

lemma another_witness:
  fixes g :: "'a \<Rightarrow> nat"
  assumes "distinct cs" and "i < length cs" and "j < length cs" and "i \<noteq> j"
    and "P (sort (map g cs) ! i)" and "P (sort (map g cs) ! j)"
  shows "\<exists>a \<in> set cs. a \<noteq> c \<and> P (g a)"
proof -
  let ?ys = "sort (map g cs)"
  have "{i, j} \<subseteq> {i. i < length ?ys \<and> P (?ys ! i)}" using assms(2,3,5,6) by (simp del: sort_key_simps)
  then have "card {i, j} \<le> length (filter P ?ys)" unfolding length_filter_conv_card by (intro card_mono) simp_all
  also have "length (filter P ?ys) = length (filter (\<lambda>a. P (g a)) cs)" by (simp add: filter_sort filter_map comp_def)
  also have "\<dots> = card (set (filter (\<lambda>a. P (g a)) cs))" using assms(1) by (intro distinct_card [symmetric]) simp
  finally have "2 \<le> card {a \<in> set cs. P (g a)}" using assms(4) by simp
  then have "\<not> {a \<in> set cs. P (g a)} \<subseteq> {c}" using card_mono [of "{c}" "{a \<in> set cs. P (g a)}"] by auto
  then show ?thesis by blast
qed

text \<open>C31. A lane's correction is sane and rests on enough evidence, and no single caller can drive it: it
  lies between the medians of two other cohorts of the lane, whatever and however much evidence one
  cohort contributes.\<close>

theorem one_cohort_cannot_drive_factor:
  assumes "reduce samples now = Some f"
  defines "cohorts \<equiv> sample_cohort ` set (fresh_samples now samples)"
  shows "MIN_SANE_PERMILLE \<le> factor_permille f \<and> factor_permille f \<le> MAX_SANE_PERMILLE
    \<and> MIN_SAMPLES \<le> length (fresh_samples now samples) \<and> MIN_COHORTS \<le> card cohorts
    \<and> (\<exists>a \<in> cohorts - {c}. \<exists>b \<in> cohorts - {c}.
         cohort_median now samples a \<le> factor_permille f \<and> factor_permille f \<le> cohort_median now samples b)"
proof -
  obtain pc n where g: "foldl (group_sample now) ([], 0) samples = (pc, n)" by (rule prod.exhaust)
  note G = group_fold [OF g] and C = groups_are_cohorts [OF g]
  define cs where "cs = map fst pc"
  define ys where "ys = sort (map (cohort_median now samples) cs)"
  have "map (\<lambda>(c, ratios). median_of_sorted (sort ratios)) pc = map (cohort_median now samples) cs"
    by (subst C(1)) (simp add: cohort_median_def cs_def comp_def)
  note medians = this [unfolded cs_def]
  have run: "MIN_SAMPLES \<le> n" "MIN_COHORTS \<le> length ys" "MIN_SANE_PERMILLE \<le> median_of_sorted ys"
      "median_of_sorted ys \<le> MAX_SANE_PERMILLE" "f = Factor (median_of_sorted ys)"
    using assms(1) unfolding reduce_def g ys_def cs_def Let_def prod.case medians by (auto split: if_splits)
  have cs: "distinct cs" "set cs = cohorts" "length cs = length ys"
    using C(2,3) by (simp_all add: cs_def cohorts_def ys_def)
  have len: "3 \<le> length ys" using run(2) by (simp add: MIN_COHORTS_def)
  have "sorted ys" by (simp add: ys_def)
  note B = median_between [OF this len run(4)]
  have "\<exists>a \<in> set cs. a \<noteq> c \<and> cohort_median now samples a \<le> median_of_sorted ys"
    by (rule another_witness [of cs 0 1]) (use len cs B in \<open>auto simp flip: ys_def\<close>)
  moreover have "\<exists>b \<in> set cs. b \<noteq> c \<and> median_of_sorted ys \<le> cohort_median now samples b"
    by (rule another_witness [of cs "length ys - 2" "length ys - 1"]) (use len cs B in \<open>auto simp flip: ys_def\<close>)
  moreover have "MIN_COHORTS \<le> card cohorts" using run(2) cs by (metis distinct_card)
  ultimately show ?thesis using run G cs(2) by auto
qed

subsection \<open>The ring\<close>

definition ring :: "'a list \<Rightarrow> 'a list" where
  "ring xs = drop (length xs - SAMPLES_PER_LANE) xs"

lemma lane_push_ring: "lane_push s (ring xs) = ring (xs @ [s])"
proof (cases "length xs < SAMPLES_PER_LANE")
  case False
  then have "length (ring xs) = SAMPLES_PER_LANE" by (simp add: ring_def)
  then have "lane_push s (ring xs) = drop (Suc (length xs - SAMPLES_PER_LANE)) xs @ [s]"
    by (simp add: lane_push_def ring_def drop_Suc tl_drop)
  moreover have "Suc (length xs - SAMPLES_PER_LANE) = length (xs @ [s]) - SAMPLES_PER_LANE" using False by simp
  moreover have "length (xs @ [s]) - SAMPLES_PER_LANE \<le> length xs" by (simp add: SAMPLES_PER_LANE_def)
  ultimately show ?thesis by (simp add: ring_def)
qed (auto simp: lane_push_def ring_def SAMPLES_PER_LANE_def)

lemma ring_Nil [simp]: "ring [] = []"
  by (simp add: ring_def)

lemma ring_bound: "length (ring xs) \<le> SAMPLES_PER_LANE"
  by (simp add: ring_def)

lemma ring_sorted_filter:
  assumes "sorted (map g xs)"
  shows "filter (\<lambda>x. b \<le> g x) (ring xs) = ring (filter (\<lambda>x. b \<le> g x) xs)"
proof -
  define old where "old = takeWhile (\<lambda>x. g x < b) xs"
  define new where "new = dropWhile (\<lambda>x. g x < b) xs"
  have xs: "xs = old @ new" by (simp add: old_def new_def)
  have "\<forall>x \<in> set old. \<not> b \<le> g x" by (auto simp: old_def dest: set_takeWhileD)
  then have old: "filter (\<lambda>x. b \<le> g x) (drop n old) = []" for n
    by (auto simp: filter_empty_conv dest: in_set_dropD)
  have "\<forall>x \<in> set new. b \<le> g x"
  proof (cases new)
    case (Cons y ys)
    have "b \<le> g y" using Cons hd_dropWhile [of "\<lambda>x. g x < b" xs] by (auto simp: new_def)
    moreover have "sorted (map g new)" using assms xs by (simp add: sorted_append)
    ultimately show ?thesis by (auto simp: Cons)
  qed simp
  then have new: "filter (\<lambda>x. b \<le> g x) (drop n new) = drop n new" for n
    by (auto intro!: filter_True dest: in_set_dropD)
  show ?thesis using old [of 0] old new [of 0] new by (simp add: ring_def xs)
qed

lemma reduce_fresh: "reduce (fresh_samples now samples) now = reduce samples now"
proof -
  have "foldl (group_sample now) g (fresh_samples now samples) = foldl (group_sample now) g samples" for g
    by (induction samples arbitrary: g) (auto simp: fresh_samples_def group_sample_def)
  then show ?thesis by (simp add: reduce_def)
qed

subsection \<open>A restart does not unlearn\<close>

definition row_sample :: "(string \<Rightarrow> u64) \<Rightarrow> CalibrationLedgerRow \<Rightarrow> Sample option" where
  "row_sample salted_log_hash row =
     (if row_estimated_tokens row = 0 \<or> row_prompt_tokens row = 0 then None
      else map_option (\<lambda>p. \<lparr>sample_ts = row_ts row, sample_permille = p,
               sample_cohort = cohort_of salted_log_hash (row_session_key row)\<rparr>)
             (permille_ratio (row_estimated_tokens row) (row_prompt_tokens row)))"

definition lane_evidence :: "(string \<Rightarrow> u64) \<Rightarrow> LaneKey \<Rightarrow> CalibrationLedgerRow list \<Rightarrow> Sample list" where
  "lane_evidence salted_log_hash key rows =
     List.map_filter (\<lambda>row. if row_lane row = key then row_sample salted_log_hash row else None) rows"

definition record_live :: "(string \<Rightarrow> u64) \<Rightarrow> CalibrationLedgerRow list \<Rightarrow> CalibrationStore" where
  "record_live salted_log_hash rows = foldl (\<lambda>lanes row. record_calibration_sample salted_log_hash
     (Some (row_provider_kind row)) (Some (row_nickname row)) (row_session_key row)
     (row_estimated_tokens row) (row_prompt_tokens row) (row_ts row) lanes) [] rows"

definition lane_entry :: "Sample list \<Rightarrow> LaneSamples option" where
  "lane_entry evidence = (if evidence = [] then None else Some (ring evidence))"

lemma evidence_Nil [simp]: "lane_evidence h key [] = []"
  by (simp add: lane_evidence_def map_filter_def)

lemma evidence_snoc [simp]:
  "lane_evidence h key (rows @ [row]) = lane_evidence h key rows @
     (case (if row_lane row = key then row_sample h row else None) of None \<Rightarrow> [] | Some s \<Rightarrow> [s])"
  by (simp add: lane_evidence_def map_filter_def split: option.split)

text \<open>The write of a row, as both the live path and the rebuild do it.\<close>

definition record_row :: "(string \<Rightarrow> u64) \<Rightarrow> CalibrationLedgerRow \<Rightarrow> CalibrationStore \<Rightarrow> CalibrationStore \<times> bool" where
  "record_row h row = record_pair (row_lane row) (row_estimated_tokens row) (row_prompt_tokens row)
     (cohort_of h (row_session_key row)) (row_ts row)"

lemma record_row_sample:
  "record_row h row lanes = (case row_sample h row of
     None \<Rightarrow> (lanes, False)
   | Some s \<Rightarrow> (AList.update (row_lane row)
       (lane_push s (case map_of lanes (row_lane row) of None \<Rightarrow> [] | Some samples \<Rightarrow> samples)) lanes, True))"
  by (simp add: record_row_def record_pair_def row_sample_def split: option.split)

lemma record_row_lane:
  assumes "map_of lanes key = lane_entry (lane_evidence h key rows)"
  shows "map_of (fst (record_row h row lanes)) key = lane_entry (lane_evidence h key (rows @ [row]))"
proof -
  have "lane_push s (case lane_entry xs of None \<Rightarrow> [] | Some samples \<Rightarrow> samples) = ring (xs @ [s])" for s xs
    using lane_push_ring [of s xs] by (auto simp: lane_entry_def)
  then show ?thesis using assms
    by (auto simp: record_row_sample update_conv' lane_entry_def split: option.split)
qed

lemma record_row_other: "row_lane row \<noteq> key \<Longrightarrow> map_of (fst (record_row h row lanes)) key = map_of lanes key"
  by (auto simp: record_row_sample update_conv' split: option.split)

lemma live_lane: "map_of (record_live h rows) key = lane_entry (lane_evidence h key rows)"
proof (induction rows rule: rev_induct)
  case Nil
  then show ?case by (simp add: record_live_def lane_entry_def lane_evidence_def map_filter_def)
next
  case (snoc row rows)
  have "record_live h (rows @ [row]) = fst (record_row h row (record_live h rows))"
    by (simp add: record_live_def record_calibration_sample_def record_row_def row_lane_def)
  then show ?case using record_row_lane [OF snoc.IH] by simp
qed

lemma rebuild_step:
  "rebuild_row h known (lanes, summary) row =
     (if \<not> known (row_nickname row)
      then (lanes, summary\<lparr>rejected_unknown_nickname := rejected_unknown_nickname summary + 1\<rparr>)
      else (let (lanes, stored) = record_row h row lanes
           in (lanes, if stored then summary\<lparr>accepted := accepted summary + 1\<rparr>
                      else summary\<lparr>rejected_pair := rejected_pair summary + 1\<rparr>)))"
  by (simp add: rebuild_row_def record_row_def)

lemma rebuilt_lane:
  fixes known :: "string \<Rightarrow> bool"
  assumes "foldl (rebuild_row h known) ([], summary) rows = (lanes, summary')"
  shows "map_of lanes key = (if known (lk_nickname key) then lane_entry (lane_evidence h key rows) else None)
    \<and> accepted summary' + rejected_unknown_nickname summary' + rejected_pair summary' =
        accepted summary + rejected_unknown_nickname summary + rejected_pair summary + length rows
    \<and> rows_loaded summary' = rows_loaded summary"
  using assms
proof (induction rows arbitrary: lanes summary' rule: rev_induct)
  case Nil
  then show ?case by (auto simp: lane_entry_def)
next
  case (snoc row rows)
  obtain lanes1 summary1 where one: "foldl (rebuild_row h known) ([], summary) rows = (lanes1, summary1)" by (rule prod.exhaust)
  note IH = snoc.IH [OF one]
  obtain lanes2 stored where two: "record_row h row lanes1 = (lanes2, stored)" by (rule prod.exhaust)
  have lane: "row_lane row = key \<Longrightarrow> row_nickname row = lk_nickname key" by (auto simp: row_lane_def)
  show ?case
  proof (cases "known (row_nickname row)")
    case True
    have "map_of lanes2 key = (if known (lk_nickname key) then lane_entry (lane_evidence h key (rows @ [row])) else None)"
      using IH record_row_lane [of lanes1 key h rows row] record_row_other [of row key h lanes1] two True lane
      by (cases "row_lane row = key"; cases "known (lk_nickname key)") auto
    then show ?thesis using snoc.prems True IH by (auto simp: one two rebuild_step split: if_splits)
  next
    case False
    then show ?thesis using snoc.prems IH lane by (auto simp: one rebuild_step)
  qed
qed

lemma evidence_fresh:
  "lane_evidence h key (filter (\<lambda>row. b \<le> row_ts row) rows) = filter (\<lambda>s. b \<le> sample_ts s) (lane_evidence h key rows)"
  by (induction rows rule: rev_induct) (auto simp: row_sample_def split: option.split)

lemma evidence_sorted: "sorted (map row_ts rows) \<Longrightarrow> sorted (map sample_ts (lane_evidence h key rows))"
proof (induction rows rule: rev_induct)
  case (snoc row rows)
  have "\<exists>row \<in> set rows. sample_ts s = row_ts row" if "s \<in> set (lane_evidence h key rows)" for s
    using that by (auto simp: lane_evidence_def map_filter_def row_sample_def split: if_splits)
  then show ?case using snoc
    by (fastforce simp: sorted_append row_sample_def split: option.split)
qed simp

lemma reduce_ring_window:
  assumes "sorted (map sample_ts samples)"
  shows "reduce (ring (filter (\<lambda>s. now - MAX_SAMPLE_AGE \<le> sample_ts s) samples)) now = reduce (ring samples) now"
proof -
  have "fresh_samples now xs = filter (\<lambda>s. now - MAX_SAMPLE_AGE \<le> sample_ts s) xs" for xs
    by (simp add: fresh_samples_def is_stale_iff not_less)
  then show ?thesis using ring_sorted_filter [OF assms, of "now - MAX_SAMPLE_AGE"] reduce_fresh by metis
qed

text \<open>C32. A restart unlearns nothing. When the ledger reader hands back the rows of the last day of the
  history, the rebuilt store corrects every lane of a known model by the same factor as the store that
  saw the whole history live in ledger order, and has no other lane; every row read is accounted for.\<close>

theorem rebuild_matches_history:
  assumes "rebuild_into h reader known now limit [] = (lanes, summary)"
    and "reader (now - MAX_SAMPLE_AGE) limit = filter (\<lambda>row. now - MAX_SAMPLE_AGE \<le> row_ts row) history"
    and "sorted (map row_ts history)"
  shows "(known (lk_nickname key) \<longrightarrow> factor_for key now lanes = factor_for key now (record_live h history))
    \<and> (\<not> known (lk_nickname key) \<longrightarrow> map_of lanes key = None)
    \<and> rows_loaded summary = accepted summary + rejected_unknown_nickname summary + rejected_pair summary"
proof -
  define rows where "rows = filter (\<lambda>row. now - MAX_SAMPLE_AGE \<le> row_ts row) history"
  have "sorted (map row_ts rows)" using assms(3) by (simp add: rows_def sorted_filter)
  then have sort: "sort_key row_ts (reader (now - MAX_SAMPLE_AGE) limit) = rows"
    by (simp add: assms(2) sort_key_id_if_sorted flip: rows_def)
  obtain lanes' summary' where run: "foldl (rebuild_row h known)
      ([], \<lparr>rows_loaded = length rows, accepted = 0, rejected_unknown_nickname = 0, rejected_pair = 0, lanes_calibrated = 0\<rparr>)
      rows = (lanes', summary')" by (rule prod.exhaust)
  have eq: "lanes = lanes'" "summary = summary'\<lparr>lanes_calibrated := calibrated_lane_count now lanes'\<rparr>"
    using assms(1) by (auto simp: rebuild_into_def sort run)
  define ev where "ev = lane_evidence h key history"
  have rebuilt: "lane_evidence h key rows = filter (\<lambda>s. now - MAX_SAMPLE_AGE \<le> sample_ts s) ev"
    unfolding rows_def ev_def by (rule evidence_fresh)
  have same: "reduce (ring (lane_evidence h key rows)) now = reduce (ring ev) now"
    unfolding rebuilt ev_def by (rule reduce_ring_window [OF evidence_sorted [OF assms(3)]])
  have "reduce [] now = None" by (simp add: reduce_def MIN_SAMPLES_def)
  then have "Option.bind (lane_entry xs) (\<lambda>samples. reduce samples now) = reduce (ring xs) now" for xs
    by (simp add: lane_entry_def)
  then show ?thesis using rebuilt_lane [OF run, of key] same live_lane [of h history key]
    by (auto simp: eq factor_for_def ev_def)
qed

subsection \<open>Instances\<close>

definition demo_sample :: "u32 \<Rightarrow> u64 \<Rightarrow> Sample" where
  "demo_sample p c = \<lparr>sample_ts = 1, sample_permille = p, sample_cohort = c\<rparr>"

definition demo_samples :: LaneSamples where
  "demo_samples = [demo_sample 900 1, demo_sample 1100 2, demo_sample 1300 3, demo_sample 900 1, demo_sample 1100 2,
     demo_sample 9000 1, demo_sample 9000 1, demo_sample 9000 1]"

lemma demo_reduce: "reduce demo_samples 2 = Some (Factor 1300)"
proof -
  have f: "\<not> is_stale 1 2" by (simp add: is_stale_def checked_duration_since_def MAX_SAMPLE_AGE_def from_hours_def from_secs_def NANOS_PER_SEC_def)
  have "foldl (group_sample 2) ([], 0) demo_samples =
      ([(1, [900, 900, 9000, 9000, 9000]), (2, [1100, 1100]), (3, [1300])], 8)"
    by (simp add: demo_samples_def demo_sample_def group_step bt_get_def f [simplified])
  then show ?thesis
    by (simp add: reduce_def median_of_sorted_def MIN_SAMPLES_def MIN_COHORTS_def MIN_SANE_PERMILLE_def
        MAX_SANE_PERMILLE_def U32_MAX_def)
qed

theorem one_cohort_cannot_drive_factor_witness:
  "reduce demo_samples 2 = Some (Factor 1300)
   \<and> (\<exists>b. b \<noteq> 1 \<and> 1300 \<le> cohort_median 2 demo_samples b)"
  using one_cohort_cannot_drive_factor [OF demo_reduce, of 1] demo_reduce by auto

definition demo_row :: CalibrationLedgerRow where
  "demo_row = \<lparr>row_ts = 1, row_provider_kind = ''bedrock'', row_nickname = ''opus'', row_session_key = None,
     row_estimated_tokens = 100, row_prompt_tokens = 130\<rparr>"

theorem rebuild_matches_history_witness:
  "factor_for (row_lane demo_row) 2 (fst (rebuild_into (\<lambda>s. 7) (\<lambda>w l. [demo_row]) (\<lambda>n. n = ''opus'') 2 10 []))
     = factor_for (row_lane demo_row) 2 (record_live (\<lambda>s. 7) [demo_row])"
proof -
  obtain lanes summary where r: "rebuild_into (\<lambda>s. 7) (\<lambda>w l. [demo_row]) (\<lambda>n. n = ''opus'') 2 10 [] = (lanes, summary)"
    by (rule prod.exhaust)
  have "lk_nickname (row_lane demo_row) = ''opus''" and "2 - MAX_SAMPLE_AGE \<le> row_ts demo_row"
    by (simp_all add: row_lane_def demo_row_def MAX_SAMPLE_AGE_def from_hours_def from_secs_def NANOS_PER_SEC_def)
  with rebuild_matches_history [OF r, of "[demo_row]" "row_lane demo_row"] show ?thesis unfolding r by simp
qed

end
