(* ===== verification/Window_Gate.thy ===== *)
theory Window_Gate
  imports Resolved_Model Calibration "HOL-Library.Word"
begin

text \<open>
  The context-window gate of a chain (\<open>routectl-router/src/router/window_gate.rs\<close>, the factor lookup of
  \<open>router/opening_lookup.rs\<close>): which targets are clearly too small for the estimated request, the
  refusal to empty a chain, the skip counter and the warning throttle. The byte length of the
  serialized request and the two clocks are arguments.
\<close>

subsection \<open>The margin\<close>

definition WINDOW_MARGIN_NUMERATOR :: u64 where "WINDOW_MARGIN_NUMERATOR = 3"
definition WINDOW_MARGIN_DENOMINATOR :: u64 where "WINDOW_MARGIN_DENOMINATOR = 4"
definition SKIP_WARN_INTERVAL_SECS :: u64 where "SKIP_WARN_INTERVAL_SECS = 60"
definition BYTES_PER_TOKEN_ESTIMATE :: u64 where "BYTES_PER_TOKEN_ESTIMATE = 4"

definition exceeds_window_margin :: "u64 \<Rightarrow> u64 \<Rightarrow> bool" where
  "exceeds_window_margin estimate window \<longleftrightarrow>
     window * WINDOW_MARGIN_NUMERATOR div WINDOW_MARGIN_DENOMINATOR < estimate"

definition estimate_total_tokens :: "u64 \<Rightarrow> u64" where
  "estimate_total_tokens serialized_len = serialized_len div BYTES_PER_TOKEN_ESTIMATE"

subsection \<open>The learned factor of a lane\<close>

definition lane_calibration_factor :: "bool \<Rightarrow> CalibrationStore \<Rightarrow> string \<Rightarrow> string \<Rightarrow> instant \<Rightarrow> Factor option" where
  "lane_calibration_factor calibration_enabled lanes kind nick now =
     (if \<not> calibration_enabled then None
      else factor_for \<lparr>lk_provider_kind = kind, lk_nickname = nick\<rparr> now lanes)"

definition calibrated_estimate :: "bool \<Rightarrow> CalibrationStore \<Rightarrow> string \<Rightarrow> string \<Rightarrow> instant \<Rightarrow> u64 \<Rightarrow> u64 option" where
  "calibrated_estimate calibration_enabled lanes kind nick now raw =
     map_option (\<lambda>f. factor_apply f raw) (lane_calibration_factor calibration_enabled lanes kind nick now)"

definition calibration_factor :: "bool \<Rightarrow> CalibrationStore \<Rightarrow> DispatchTarget \<Rightarrow> instant \<Rightarrow> Factor option" where
  "calibration_factor calibration_enabled lanes target now =
     (case dt_provider_kind target of None \<Rightarrow> None
      | Some kind \<Rightarrow> (case dt_nickname target of None \<Rightarrow> None
        | Some nick \<Rightarrow> lane_calibration_factor calibration_enabled lanes kind nick now))"

subsection \<open>The throttle\<close>

definition throttle_claim :: "u64 \<Rightarrow> u64 \<Rightarrow> u64 \<times> bool" where
  "throttle_claim now_secs last_secs =
     (if now_secs - last_secs < SKIP_WARN_INTERVAL_SECS then (last_secs, False) else (now_secs, True))"

text \<open>The atomic cell under concurrent claimants: a claim loads it, then compares and swaps.\<close>

record 'c ThrottleWorld =
  last_warn_epoch_secs :: u64
  loaded :: "'c \<Rightarrow> (u64 \<times> u64) option"
  warned :: "u64 list"

inductive throttle_step :: "'c ThrottleWorld \<Rightarrow> 'c ThrottleWorld \<Rightarrow> bool" where
  load: "\<not> now_secs - last_warn_epoch_secs w < SKIP_WARN_INTERVAL_SECS \<Longrightarrow>
     throttle_step w (w\<lparr>loaded := (loaded w)(c \<mapsto> (now_secs, last_warn_epoch_secs w))\<rparr>)"
| swapped: "loaded w c = Some (now_secs, last_secs) \<Longrightarrow> last_warn_epoch_secs w = last_secs \<Longrightarrow>
     throttle_step w (w\<lparr>last_warn_epoch_secs := now_secs, loaded := (loaded w)(c := None), warned := warned w @ [now_secs]\<rparr>)"
| lost: "loaded w c = Some (now_secs, last_secs) \<Longrightarrow> last_warn_epoch_secs w \<noteq> last_secs \<Longrightarrow>
     throttle_step w (w\<lparr>loaded := (loaded w)(c := None)\<rparr>)"

definition throttle_new :: "'c ThrottleWorld" where
  "throttle_new = \<lparr>last_warn_epoch_secs = 0, loaded = Map.empty, warned = []\<rparr>"

subsection \<open>The gate\<close>

record SkipReport =
  sr_state_key :: string
  sr_nickname :: string
  sr_window :: u64
  sr_corrected_tokens :: u64

record WindowScan =
  ws_estimate :: "u64 option"
  ws_overflowing :: "bool list"
  ws_first_skipped :: "SkipReport option"

text \<open>\<open>window_gate_skips_total\<close>, and the throttle's cell as one claimant sees it.\<close>

record WindowGateState =
  window_gate_skips_total :: "64 word"
  last_warn :: u64

record SkipWarning =
  sw_report :: SkipReport
  sw_estimated_tokens :: u64
  sw_skips_total :: "64 word"

definition scan_window :: "(DispatchTarget \<Rightarrow> Factor option) \<Rightarrow> u64 \<Rightarrow> WindowScan \<Rightarrow> DispatchTarget \<Rightarrow> WindowScan" where
  "scan_window factor serialized_len ws target =
     (case context_window_tokens (dt_model target) of
        None \<Rightarrow> ws\<lparr>ws_overflowing := ws_overflowing ws @ [False]\<rparr>
      | Some window \<Rightarrow>
          (let estimated_tokens = (case ws_estimate ws of None \<Rightarrow> estimate_total_tokens serialized_len | Some e \<Rightarrow> e);
               corrected_tokens = (case factor target of None \<Rightarrow> estimated_tokens | Some f \<Rightarrow> factor_apply f estimated_tokens);
               ws = ws\<lparr>ws_estimate := Some estimated_tokens\<rparr>
           in if \<not> exceeds_window_margin corrected_tokens window
              then ws\<lparr>ws_overflowing := ws_overflowing ws @ [False]\<rparr>
              else ws\<lparr>ws_overflowing := ws_overflowing ws @ [True],
                      ws_first_skipped := (case ws_first_skipped ws of
                        None \<Rightarrow> Some \<lparr>sr_state_key = state_key target,
                          sr_nickname = (case dt_nickname target of None \<Rightarrow> [] | Some nick \<Rightarrow> nick),
                          sr_window = window, sr_corrected_tokens = corrected_tokens\<rparr>
                      | Some report \<Rightarrow> Some report)\<rparr>))"

definition incr_window_gate_skip :: "64 word \<Rightarrow> 64 word \<times> 64 word" where
  "incr_window_gate_skip n = (n + 1, n + 1)"

fun incr_skips :: "nat \<Rightarrow> 64 word \<Rightarrow> 64 word \<Rightarrow> 64 word \<times> 64 word" where
  "incr_skips 0 counter reported = (counter, reported)"
| "incr_skips (Suc n) counter reported = (let (counter, reported) = incr_window_gate_skip counter in incr_skips n counter reported)"

definition filter_chain_by_window_with :: "bool \<Rightarrow> (DispatchTarget \<Rightarrow> Factor option) \<Rightarrow> u64 \<Rightarrow> u64 \<Rightarrow>
    DispatchTarget list \<Rightarrow> WindowGateState \<Rightarrow> WindowGateState \<times> SkipWarning option \<times> DispatchTarget list" where
  "filter_chain_by_window_with gate_enabled factor serialized_len now_secs chain st =
     (if \<not> gate_enabled \<or> length chain \<le> 1 then (st, None, chain)
      else (let ws = foldl (scan_window factor serialized_len)
                   \<lparr>ws_estimate = None, ws_overflowing = [], ws_first_skipped = None\<rparr> chain;
                skips = length (filter (\<lambda>over. over) (ws_overflowing ws))
            in if skips = 0 \<or> skips = length chain then (st, None, chain)
               else (case (ws_estimate ws, ws_first_skipped ws) of
                 (Some estimated_tokens, Some report) \<Rightarrow>
                   (let (counter, skips_total) = incr_skips skips (window_gate_skips_total st) 0;
                        (cell, won) = throttle_claim now_secs (last_warn st);
                        warning = (if won then Some \<lparr>sw_report = report, sw_estimated_tokens = estimated_tokens,
                                     sw_skips_total = skips_total\<rparr> else None);
                        kept = map fst (filter (\<lambda>(target, over). \<not> over) (zip chain (ws_overflowing ws)));
                        skipped = map fst (filter (\<lambda>(target, over). over) (zip chain (ws_overflowing ws)))
                    in (\<lparr>window_gate_skips_total = counter, last_warn = cell\<rparr>, warning,
                        if kept = [] then skipped else kept))
               | _ \<Rightarrow> (st, None, chain))))"

subsection \<open>What the gate does\<close>

definition corrected_estimate :: "(DispatchTarget \<Rightarrow> Factor option) \<Rightarrow> u64 \<Rightarrow> DispatchTarget \<Rightarrow> u64" where
  "corrected_estimate factor serialized_len t = (case factor t of
     None \<Rightarrow> estimate_total_tokens serialized_len | Some f \<Rightarrow> factor_apply f (estimate_total_tokens serialized_len))"

definition too_small :: "(DispatchTarget \<Rightarrow> Factor option) \<Rightarrow> u64 \<Rightarrow> DispatchTarget \<Rightarrow> bool" where
  "too_small factor serialized_len t = (case context_window_tokens (dt_model t) of
     None \<Rightarrow> False | Some window \<Rightarrow> exceeds_window_margin (corrected_estimate factor serialized_len t) window)"

definition skip_report :: "(DispatchTarget \<Rightarrow> Factor option) \<Rightarrow> u64 \<Rightarrow> DispatchTarget \<Rightarrow> SkipReport" where
  "skip_report factor serialized_len t =
     \<lparr>sr_state_key = state_key t, sr_nickname = (case dt_nickname t of None \<Rightarrow> [] | Some nick \<Rightarrow> nick),
      sr_window = the (context_window_tokens (dt_model t)), sr_corrected_tokens = corrected_estimate factor serialized_len t\<rparr>"

definition window_scanned :: "(DispatchTarget \<Rightarrow> Factor option) \<Rightarrow> u64 \<Rightarrow> DispatchTarget list \<Rightarrow> WindowScan \<Rightarrow> bool" where
  "window_scanned factor serialized_len chain ws \<longleftrightarrow>
     ws_overflowing ws = map (too_small factor serialized_len) chain
     \<and> ws_first_skipped ws = map_option (skip_report factor serialized_len) (List.find (too_small factor serialized_len) chain)
     \<and> ws_estimate ws = (if list_ex (\<lambda>t. context_window_tokens (dt_model t) \<noteq> None) chain
         then Some (estimate_total_tokens serialized_len) else None)"

lemma find_append: "List.find P (xs @ ys) = (case List.find P xs of None \<Rightarrow> List.find P ys | Some x \<Rightarrow> Some x)"
  by (induction xs) auto

lemma scan_window_spec:
  "window_scanned factor serialized_len chain (foldl (scan_window factor serialized_len)
     \<lparr>ws_estimate = None, ws_overflowing = [], ws_first_skipped = None\<rparr> chain)"
proof (induction chain rule: rev_induct)
  case (snoc t chain)
  then show ?case
    by (auto simp: window_scanned_def scan_window_def Let_def find_append too_small_def corrected_estimate_def skip_report_def
        split: option.split)
qed (simp add: window_scanned_def)

lemma incr_skips_total: "incr_skips n counter reported = (counter + of_nat n, if n = 0 then reported else counter + of_nat n)"
  by (induction n arbitrary: counter reported) (simp_all add: incr_window_gate_skip_def algebra_simps)

lemma kept_targets: "map fst (filter (\<lambda>(t, over). over = b) (zip chain (map P chain))) = filter (\<lambda>t. P t = b) chain"
  by (induction chain) auto

lemma window_gate_result:
  fixes factor :: "DispatchTarget \<Rightarrow> Factor option" and serialized_len :: u64 and chain :: "DispatchTarget list"
  assumes "filter_chain_by_window_with enabled factor serialized_len now_secs chain st = (st', warning, chain')"
  defines "fits \<equiv> filter (\<lambda>t. \<not> too_small factor serialized_len t) chain"
  shows "(chain' = [] \<longleftrightarrow> chain = [])
    \<and> (if \<not> enabled \<or> length chain \<le> 1 \<or> fits = [] \<or> fits = chain
       then chain' = chain \<and> st' = st \<and> warning = None
       else chain' = fits
         \<and> window_gate_skips_total st' = window_gate_skips_total st + of_nat (length chain - length fits)
         \<and> (last_warn st', warning \<noteq> None) = throttle_claim now_secs (last_warn st)
         \<and> (\<forall>w. warning = Some w \<longrightarrow> sw_skips_total w = window_gate_skips_total st'
              \<and> sw_report w = skip_report factor serialized_len (hd (filter (too_small factor serialized_len) chain))
              \<and> sw_estimated_tokens w = estimate_total_tokens serialized_len))"
proof (cases "\<not> enabled \<or> length chain \<le> 1")
  case True
  then show ?thesis using assms(1) by (auto simp: filter_chain_by_window_with_def)
next
  case on: False
  let ?P = "too_small factor serialized_len"
  define ws where "ws = foldl (scan_window factor serialized_len)
     \<lparr>ws_estimate = None, ws_overflowing = [], ws_first_skipped = None\<rparr> chain"
  have W: "ws_overflowing ws = map ?P chain"
      "ws_first_skipped ws = map_option (skip_report factor serialized_len) (List.find ?P chain)"
      "ws_estimate ws = (if list_ex (\<lambda>t. context_window_tokens (dt_model t) \<noteq> None) chain
         then Some (estimate_total_tokens serialized_len) else None)"
    using scan_window_spec [of factor serialized_len chain] by (simp_all add: window_scanned_def ws_def)
  have split: "length (filter ?P chain) + length fits = length chain"
    unfolding fits_def by (rule sum_length_filter_compl)
  have skips: "length (filter (\<lambda>over. over) (ws_overflowing ws)) = length (filter ?P chain)"
    by (simp add: W(1) filter_map comp_def)
  show ?thesis
  proof (cases "fits = [] \<or> fits = chain")
    case True
    then have "length (filter ?P chain) = 0 \<or> length (filter ?P chain) = length chain" using split by auto
    then show ?thesis using assms(1) on True skips
      by (auto simp: filter_chain_by_window_with_def simp flip: ws_def)
  next
    case False
    have some: "filter ?P chain \<noteq> []"
    proof
      assume "filter ?P chain = []"
      then have "\<forall>t \<in> set chain. \<not> ?P t" by (simp add: filter_empty_conv)
      then show False using False by (simp add: fits_def)
    qed
    then obtain t where t: "t \<in> set chain" "?P t" by (auto simp: filter_empty_conv)
    have "list_ex (\<lambda>t. context_window_tokens (dt_model t) \<noteq> None) chain"
      using t by (auto simp: list_ex_iff too_small_def split: option.splits)
    moreover have "List.find ?P chain = Some (hd (filter ?P chain))"
      using some by (induction chain) auto
    moreover have "length (filter ?P chain) \<noteq> 0" "length (filter ?P chain) \<noteq> length chain"
      using some split False by auto
    moreover have "map fst (filter (\<lambda>(t, over). \<not> over) (zip chain (ws_overflowing ws))) = fits"
      using kept_targets [of False chain ?P] by (simp add: W(1) fits_def)
    moreover have "filter (\<lambda>over. over) (ws_overflowing ws) \<noteq> []" using skips some by (metis length_0_conv)
    ultimately have run: "filter_chain_by_window_with enabled factor serialized_len now_secs chain st =
        (\<lparr>window_gate_skips_total = window_gate_skips_total st + of_nat (length (filter ?P chain)),
          last_warn = fst (throttle_claim now_secs (last_warn st))\<rparr>,
         if snd (throttle_claim now_secs (last_warn st))
         then Some \<lparr>sw_report = skip_report factor serialized_len (hd (filter ?P chain)),
                sw_estimated_tokens = estimate_total_tokens serialized_len,
                sw_skips_total = window_gate_skips_total st + of_nat (length (filter ?P chain))\<rparr> else None, fits)"
      using on False unfolding filter_chain_by_window_with_def
      by (simp add: skips W(2,3) incr_skips_total split_beta Let_def flip: ws_def)
    have "length chain - length fits = length (filter ?P chain)" using split by simp
    then show ?thesis using assms(1) [unfolded run] on False by (auto simp: prod_eq_iff split: if_splits)
  qed
qed

text \<open>C33. The gate removes from a chain exactly the targets whose confirmed window is clearly too small
  for their corrected estimate, in order, except that it never empties a chain: when it is off, when
  the chain has one target, or when every target is too small, the chain is untouched and nothing is
  counted or logged. It counts each skip, and warns of the first one when the throttle allows it.\<close>

theorem window_gate_exact:
  fixes factor :: "DispatchTarget \<Rightarrow> Factor option" and serialized_len :: u64 and chain :: "DispatchTarget list"
  assumes "filter_chain_by_window_with enabled factor serialized_len now_secs chain st = (st', warning, chain')"
  defines "fits \<equiv> filter (\<lambda>t. \<not> too_small factor serialized_len t) chain"
  shows "(chain' = [] \<longleftrightarrow> chain = [])
    \<and> (if \<not> enabled \<or> length chain \<le> 1 \<or> fits = [] \<or> fits = chain
       then chain' = chain \<and> st' = st \<and> warning = None
       else chain' = fits
         \<and> window_gate_skips_total st' = window_gate_skips_total st + of_nat (length chain - length fits)
         \<and> (last_warn st', warning \<noteq> None) = throttle_claim now_secs (last_warn st)
         \<and> (\<forall>w. warning = Some w \<longrightarrow> sw_skips_total w = window_gate_skips_total st'
              \<and> sw_report w = skip_report factor serialized_len (hd (filter (too_small factor serialized_len) chain))
              \<and> sw_estimated_tokens w = estimate_total_tokens serialized_len))"
  unfolding fits_def by (rule window_gate_result [OF assms(1)])

subsection \<open>Who survives\<close>

lemma margin_mono: "exceeds_window_margin e w \<Longrightarrow> w' \<le> w \<Longrightarrow> exceeds_window_margin e w'"
  unfolding exceeds_window_margin_def
  by (meson div_le_mono le_less_trans mult_le_mono1)

text \<open>While all lanes are corrected alike, a target that is kept with a confirmed window has a strictly
  larger one than every skipped target.\<close>

lemma kept_window_larger:
  assumes "\<And>t u. t \<in> set chain \<Longrightarrow> u \<in> set chain \<Longrightarrow> factor t = factor u"
    and "t \<in> set chain" and "too_small factor n t" and "context_window_tokens (dt_model t) = Some wt"
    and "u \<in> set chain" and "\<not> too_small factor n u" and "context_window_tokens (dt_model u) = Some wu"
  shows "wt < wu"
proof (rule ccontr)
  assume "\<not> wt < wu"
  moreover have "corrected_estimate factor n t = corrected_estimate factor n u"
    using assms(1) [OF assms(2,5)] by (simp add: corrected_estimate_def)
  ultimately show False using assms(3,4,6,7) margin_mono by (auto simp: too_small_def)
qed

text \<open>With a learned correction on one lane the gate may skip the larger of two confirmed windows and
  keep the smaller, for one and the same request.\<close>

lemma corrected_gate_may_keep_smaller:
  assumes "context_window_tokens (dt_model a) = Some wa" and "context_window_tokens (dt_model b) = Some wb" and "wb < wa"
    and "factor a = Some f" and "factor b = None"
    and "exceeds_window_margin (factor_apply f (estimate_total_tokens n)) wa"
    and "\<not> exceeds_window_margin (estimate_total_tokens n) wb"
  shows "snd (snd (filter_chain_by_window_with True factor n now_secs [a, b] st)) = [b]"
proof -
  obtain st' warning chain' where run: "filter_chain_by_window_with True factor n now_secs [a, b] st = (st', warning, chain')"
    by (rule prod_cases3)
  have "too_small factor n a" "\<not> too_small factor n b" using assms by (simp_all add: too_small_def corrected_estimate_def)
  with window_gate_result [OF run] show ?thesis by (simp add: run)
qed

subsection \<open>The warning rate\<close>

definition spaced :: "u64 list \<Rightarrow> bool" where
  "spaced ts \<longleftrightarrow> sorted_wrt (\<lambda>a b. a + SKIP_WARN_INTERVAL_SECS \<le> b) ts"

definition throttle_inv :: "'c ThrottleWorld \<Rightarrow> bool" where
  "throttle_inv w \<longleftrightarrow> spaced (warned w) \<and> (\<forall>t \<in> set (warned w). t \<le> last_warn_epoch_secs w)
     \<and> (\<forall>c now_secs last_secs. loaded w c = Some (now_secs, last_secs) \<longrightarrow> last_secs + SKIP_WARN_INTERVAL_SECS \<le> now_secs)"

lemma throttle_step_inv: "throttle_step w w' \<Longrightarrow> throttle_inv w \<Longrightarrow> throttle_inv w'"
proof (induction rule: throttle_step.induct)
  case (swapped w c now_secs last_secs)
  then have room: "last_secs + SKIP_WARN_INTERVAL_SECS \<le> now_secs" by (simp add: throttle_inv_def)
  have "t + SKIP_WARN_INTERVAL_SECS \<le> now_secs \<and> t \<le> now_secs" if "t \<in> set (warned w)" for t
    using that swapped room by (fastforce simp: throttle_inv_def)
  then show ?case using swapped by (simp add: throttle_inv_def spaced_def sorted_wrt_append)
qed (auto simp: throttle_inv_def SKIP_WARN_INTERVAL_SECS_def)

lemma throttle_reach_inv: "throttle_step\<^sup>*\<^sup>* w w' \<Longrightarrow> throttle_inv w \<Longrightarrow> throttle_inv w'"
  by (induction rule: rtranclp_induct) (auto intro: throttle_step_inv)

lemma spaced_count:
  assumes "spaced ts" and "\<forall>t \<in> set ts. a \<le> t \<and> t \<le> b"
  shows "length ts \<le> (b - a) div SKIP_WARN_INTERVAL_SECS + 1"
  using assms
proof (induction ts arbitrary: a)
  case (Cons t ts)
  have rest: "\<forall>u \<in> set ts. t + SKIP_WARN_INTERVAL_SECS \<le> u \<and> u \<le> b" and ts: "spaced ts"
    using Cons.prems by (auto simp: spaced_def)
  show ?case
  proof (cases ts)
    case (Cons u us)
    have "length ts \<le> (b - (t + SKIP_WARN_INTERVAL_SECS)) div SKIP_WARN_INTERVAL_SECS + 1"
      by (rule Cons.IH [OF ts rest])
    moreover have "t + SKIP_WARN_INTERVAL_SECS \<le> b" using rest Cons by auto
    moreover have "a \<le> t" using Cons.prems by simp
    ultimately show ?thesis by (simp add: SKIP_WARN_INTERVAL_SECS_def)
  qed simp
qed simp

text \<open>However concurrent requests interleave their loads and swaps of the throttle, and whatever their
  clocks read, two skip warnings of a process are stamped at least a minute apart, so the number
  stamped in any period is bounded by its length.\<close>

lemma skip_warnings_rate_bounded:
  assumes "throttle_step\<^sup>*\<^sup>* throttle_new w"
  shows "length (filter (\<lambda>t. a \<le> t \<and> t \<le> b) (warned w)) \<le> (b - a) div 60 + 1"
proof -
  have "throttle_inv (throttle_new :: 'a ThrottleWorld)" by (simp add: throttle_inv_def throttle_new_def spaced_def)
  then have "throttle_inv w" using assms by (rule throttle_reach_inv [rotated])
  then have "spaced (filter (\<lambda>t. a \<le> t \<and> t \<le> b) (warned w))"
    by (simp add: throttle_inv_def spaced_def sorted_wrt_filter)
  from spaced_count [OF this, of a b] show ?thesis by (simp add: SKIP_WARN_INTERVAL_SECS_def)
qed

subsection \<open>Instances\<close>

definition demo_catalog_row :: "u32 \<Rightarrow> CatalogRow" where
  "demo_catalog_row window = \<lparr>wm = Fin 1, rm = Fin 1, ttl_seconds = 0, min_prefix_tokens = 0, has_storage_rent = False,
     storage_rent = Fin 0, auto_cacher = False, cr_tier = None, cr_max_context_tokens = Some window,
     cr_max_output_tokens = None, input_cost_per_token = None, output_cost_per_token = None, capabilities = []\<rparr>"

definition demo_window_lane :: "string \<Rightarrow> u32 \<Rightarrow> DispatchTarget" where
  "demo_window_lane nick window = into_one_dispatch_target
     ((resolved_model_new nick ''p'' 0 ''up'')\<lparr>effective_row := Present (demo_catalog_row window) Baked ''now''\<rparr>)"

definition demo_factor :: "DispatchTarget \<Rightarrow> Factor option" where
  "demo_factor t = (if state_key t = ''a'' then Some (Factor 2000) else None)"

lemma demo_window_lane_fields [simp]:
  "state_key (demo_window_lane nick window) = nick"
  "context_window_tokens (dt_model (demo_window_lane nick window)) = (if 0 < window then Some window else None)"
  by (simp_all add: demo_window_lane_def into_one_dispatch_target_def resolved_model_new_def context_window_tokens_def
      demo_catalog_row_def)

lemma corrected_gate_may_keep_smaller_witness:
  "snd (snd (filter_chain_by_window_with True demo_factor 400 1000 [demo_window_lane ''a'' 200, demo_window_lane ''b'' 150]
     \<lparr>window_gate_skips_total = 0, last_warn = 0\<rparr>))
     = [demo_window_lane ''b'' 150]"
  by (rule corrected_gate_may_keep_smaller [where wa = 200 and wb = 150 and f = "Factor 2000"])
     (simp_all add: demo_factor_def exceeds_window_margin_def WINDOW_MARGIN_NUMERATOR_def WINDOW_MARGIN_DENOMINATOR_def
       factor_apply_def estimate_total_tokens_def BYTES_PER_TOKEN_ESTIMATE_def IDENTITY_PERMILLE_def U64_MAX_def)

theorem window_gate_exact_witness:
  "snd (snd (filter_chain_by_window_with True (\<lambda>t. None) 400 1000
     [demo_window_lane ''a'' 100, demo_window_lane ''b'' 150] \<lparr>window_gate_skips_total = 0, last_warn = 0\<rparr>))
     = [demo_window_lane ''b'' 150]"
proof -
  let ?chain = "[demo_window_lane ''a'' 100, demo_window_lane ''b'' 150]"
  obtain st' warning chain' where run: "filter_chain_by_window_with True (\<lambda>t. None) 400 1000 ?chain
      \<lparr>window_gate_skips_total = 0, last_warn = 0\<rparr> = (st', warning, chain')" by (rule prod_cases3)
  have "too_small (\<lambda>t. None) 400 (demo_window_lane ''a'' 100)" "\<not> too_small (\<lambda>t. None) 400 (demo_window_lane ''b'' 150)"
    by (simp_all add: too_small_def corrected_estimate_def exceeds_window_margin_def WINDOW_MARGIN_NUMERATOR_def
        WINDOW_MARGIN_DENOMINATOR_def estimate_total_tokens_def BYTES_PER_TOKEN_ESTIMATE_def)
  with window_gate_exact [OF run] show ?thesis by (simp add: run)
qed

definition demo_warned :: "nat ThrottleWorld" where
  "demo_warned = throttle_new\<lparr>last_warn_epoch_secs := 100, loaded := (Map.empty(7 \<mapsto> (100, 0)))(7 := None), warned := [] @ [100]\<rparr>"

lemma skip_warnings_rate_bounded_witness:
  "length (filter (\<lambda>t. 90 \<le> t \<and> t \<le> 200) (warned demo_warned)) \<le> 2 \<and> warned demo_warned = [100]"
proof -
  have "throttle_step throttle_new (throttle_new\<lparr>loaded := Map.empty(7::nat \<mapsto> (100, 0))\<rparr>)"
    using throttle_step.load [of 100 throttle_new 7] by (simp add: throttle_new_def SKIP_WARN_INTERVAL_SECS_def)
  moreover have "throttle_step (throttle_new\<lparr>loaded := Map.empty(7::nat \<mapsto> (100, 0))\<rparr>) demo_warned"
    using throttle_step.swapped [of "throttle_new\<lparr>loaded := Map.empty(7::nat \<mapsto> (100, 0))\<rparr>" 7 100 0]
    by (simp add: throttle_new_def demo_warned_def)
  ultimately have "throttle_step\<^sup>*\<^sup>* throttle_new demo_warned" by (rule converse_rtranclp_into_rtranclp [OF _ r_into_rtranclp])
  from skip_warnings_rate_bounded [OF this, of 90 200] show ?thesis by (simp add: demo_warned_def throttle_new_def)
qed

end
