(* ===== verification/Chain_Filters.thy ===== *)
theory Chain_Filters
  imports Feature_Filter Window_Gate
begin

text \<open>
  The chain of one request (\<open>dispatch_chain_for_request\<close>, \<open>routectl-router/src/router/chain.rs\<close>): the
  expansion of its model name, then the feature filter, then the window gate. Both filters are passes
  in the sense of the locale below, which is where what they do together is proved.
\<close>

subsection \<open>Passes over a chain\<close>

text \<open>A pass may refuse a chain; otherwise it keeps some of its lanes and empties no chain.\<close>

locale chain_pass =
  fixes pass :: "'a list \<Rightarrow> 'a list option" and lane :: "'a \<Rightarrow> 'b"
  assumes pass_lanes: "pass c = Some c' \<Longrightarrow> mset (map lane c') \<subseteq># mset (map lane c)"
    and pass_nonempty: "pass c = Some c' \<Longrightarrow> c \<noteq> [] \<Longrightarrow> c' \<noteq> []"

locale chain_passes = first: chain_pass pass lane + second: chain_pass pass' lane
  for pass :: "'a list \<Rightarrow> 'a list option" and pass' and lane :: "'a \<Rightarrow> 'b"
begin

lemma both:
  assumes "pass c = Some c1" and "pass' c1 = Some c2"
  shows "mset (map lane c2) \<subseteq># mset (map lane c)" and "c \<noteq> [] \<Longrightarrow> c2 \<noteq> []"
  using first.pass_lanes [OF assms(1)] second.pass_lanes [OF assms(2)]
    first.pass_nonempty [OF assms(1)] second.pass_nonempty [OF assms(2)] by auto

end

sublocale chain_passes \<subseteq> chain_pass "\<lambda>c. Option.bind (pass c) pass'" lane
  by unfold_locales (auto simp: bind_eq_Some_conv dest: both)

definition feature_pass :: "FeatureConfig \<Rightarrow> (nat \<Rightarrow> instant) \<Rightarrow> string list \<Rightarrow> string \<Rightarrow>
    LearnedCapabilityRegistry \<times> ProbeAdmission list \<Rightarrow> DispatchTarget list \<Rightarrow> DispatchTarget list option" where
  "feature_pass fc clock features al st chain =
     (case snd (snd (filter_chain_by_features fc clock chain features al st)) of Inl e \<Rightarrow> None | Inr c \<Rightarrow> Some c)"

definition window_pass :: "bool \<Rightarrow> (DispatchTarget \<Rightarrow> Factor option) \<Rightarrow> u64 \<Rightarrow> u64 \<Rightarrow> WindowGateState \<Rightarrow>
    DispatchTarget list \<Rightarrow> DispatchTarget list option" where
  "window_pass enabled factor serialized_len now_secs st chain =
     Some (snd (snd (filter_chain_by_window_with enabled factor serialized_len now_secs chain st)))"

lemma lane_attach_strip [simp]: "lane_of (attach_strip ks t) = lane_of t"
  by (simp add: attach_strip_def lane_of_def)

lemma buckets_lanes:
  "mset (map lane_of (in_bucket 0 tvs @ in_bucket 1 tvs @ in_bucket 2 tvs)) \<subseteq># mset (map (lane_of \<circ> fst) tvs)"
proof (induction tvs)
  case (Cons tv tvs)
  obtain t v where "tv = (t, v)" by (rule prod.exhaust)
  then show ?case using Cons
    by (cases "tv_match v" rule: bucket.cases)
       (simp_all add: in_bucket_def subset_mset.add_increasing2 add_mset_subseteq_single_iff subset_mset.trans)
qed (simp add: in_bucket_def)

lemma feature_pass_Some:
  "feature_pass fc clock features al st chain = Some c \<longleftrightarrow>
     (\<exists>st' evs. filter_chain_by_features fc clock chain features al st = (st', evs, Inr c))"
  by (cases "filter_chain_by_features fc clock chain features al st") (auto simp: feature_pass_def split: sum.splits)

interpretation features_pass: chain_pass "feature_pass fc clock features al st" lane_of
  for fc clock features al st
proof unfold_locales
  fix chain c
  assume "feature_pass fc clock features al st chain = Some c"
  then obtain st' evs where run: "filter_chain_by_features fc clock chain features al st = (st', evs, Inr c)"
    by (auto simp: feature_pass_Some)
  obtain st_end tvs where v: "chain_verdicts fc features clock 0 chain st = (st_end, tvs)" by (rule prod.exhaust)
  have "(features = [] \<or> chain = []) \<and> c = chain
      \<or> map fst tvs = chain \<and> c = in_bucket 0 tvs @ in_bucket 1 tvs @ in_bucket 2 tvs \<and> c \<noteq> []"
    using run filter_result [OF run _ _ v] by (auto simp: filter_chain_by_features_def buckets_empty [symmetric] split: if_splits)
  then show "mset (map lane_of c) \<subseteq># mset (map lane_of chain)" and "chain \<noteq> [] \<Longrightarrow> c \<noteq> []"
    using buckets_lanes [of tvs] by (auto simp flip: map_map)
qed

interpretation windows_pass: chain_pass "window_pass enabled factor serialized_len now_secs st" lane_of
  for enabled factor serialized_len now_secs st
proof unfold_locales
  fix chain c
  assume "window_pass enabled factor serialized_len now_secs st chain = Some c"
  then obtain st' warning where run: "filter_chain_by_window_with enabled factor serialized_len now_secs chain st = (st', warning, c)"
    by (cases "filter_chain_by_window_with enabled factor serialized_len now_secs chain st") (auto simp: window_pass_def)
  have "c = chain \<or> c = filter (\<lambda>t. \<not> too_small factor serialized_len t) chain" and "c = [] \<longleftrightarrow> chain = []"
    using window_gate_result [OF run] by (auto split: if_splits)
  then show "mset (map lane_of c) \<subseteq># mset (map lane_of chain)" and "chain \<noteq> [] \<Longrightarrow> c \<noteq> []"
    by (auto simp: image_mset_subseteq_mono multiset_filter_subset)
qed

interpretation filters: chain_passes "feature_pass fc clock features al st"
    "window_pass enabled factor serialized_len now_secs gst" lane_of
  for fc clock features al st enabled factor serialized_len now_secs gst ..

subsection \<open>The chain of a request\<close>

record ChainRequest =
  cq_model :: string
  cq_session_key :: "string option"
  cq_features :: "string list"
  cq_serialized_len :: u64

text \<open>What the router holds for this: the seat cursors and pins, the learned registry, the gate's counters.\<close>

record 'l ChainState =
  cs_routing :: "'l RoutingState"
  cs_registry :: LearnedCapabilityRegistry
  cs_gate :: WindowGateState

record ChainConfig =
  cc_features :: FeatureConfig
  cc_window_gate_enabled :: bool
  cc_calibration_enabled :: bool

record ChainClock =
  clk_target :: "nat \<Rightarrow> instant"
  clk_system :: instant
  clk_epoch_secs :: u64

definition dispatch_chain_for_request ::
  "'l LruOps \<Rightarrow> Router \<Rightarrow> Surroundings \<Rightarrow> ChainConfig \<Rightarrow> CalibrationStore \<Rightarrow> ChainClock \<Rightarrow> ChainRequest \<Rightarrow>
   'l ChainState \<Rightarrow> 'l ChainState \<times> (Error + DispatchTarget list \<times> ProbeAdmission list)" where
  "dispatch_chain_for_request ops r sur cc lanes clk req cs =
     (case dispatch_chain ops r sur (cq_model req) (cq_session_key req) (cs_routing cs) of
        (rs, Inl e) \<Rightarrow> (cs\<lparr>cs_routing := rs\<rparr>, Inl e)
      | (rs, Inr chain) \<Rightarrow>
          (case filter_chain_by_features (cc_features cc) (clk_target clk) chain (cq_features req) (cq_model req)
                  (cs_registry cs, []) of
             ((reg, admissions), events, Inl e) \<Rightarrow> (cs\<lparr>cs_routing := rs, cs_registry := reg\<rparr>, Inl e)
           | ((reg, admissions), events, Inr chain) \<Rightarrow>
               (let (gst, warning, chain) = filter_chain_by_window_with (cc_window_gate_enabled cc)
                      (\<lambda>target. calibration_factor (cc_calibration_enabled cc) lanes target (clk_system clk))
                      (cq_serialized_len req) (clk_epoch_secs clk) chain (cs_gate cs)
                in (cs\<lparr>cs_routing := rs, cs_registry := reg, cs_gate := gst\<rparr>, Inr (chain, admissions)))))"

definition slots :: "LearnedCapabilityRegistry \<Rightarrow> RegistryKey set" where
  "slots r = {k. slot_held k r}"

text \<open>C15. The chain of a request is either refused, and then no re-probe slot was claimed and nothing was
  counted, the error being the expansion's or that overrides drop every target; or it is not empty and
  each of its lanes is a lane of the expansion of the requested model, none twice as often, and the
  re-probe slots claimed are exactly those handed to the request, each for one lane of that expansion.\<close>

theorem request_chain_accounted:
  "case dispatch_chain_for_request ops r sur cc lanes clk req cs of
      (cs', Inl e) \<Rightarrow> cs_registry cs' = cs_registry cs \<and> cs_gate cs' = cs_gate cs
        \<and> (case snd (dispatch_chain ops r sur (cq_model req) (cq_session_key req) (cs_routing cs)) of
             Inl e' \<Rightarrow> e = e' | Inr chain \<Rightarrow> \<exists>msg. e = NotImplemented (cq_model req) msg)
    | (cs', Inr (chain', admissions)) \<Rightarrow>
        (\<exists>chain. snd (dispatch_chain ops r sur (cq_model req) (cq_session_key req) (cs_routing cs)) = Inr chain
        \<and> chain' \<noteq> [] \<and> mset (map lane_of chain') \<subseteq># mset (map lane_of chain)
        \<and> distinct (map pa_key admissions) \<and> pa_state_key ` set admissions \<subseteq> state_key ` set chain
        \<and> slots (cs_registry cs') = slots (cs_registry cs) \<union> pa_key ` set admissions
        \<and> slots (cs_registry cs) \<inter> pa_key ` set admissions = {})"
proof -
  obtain rs expanded where exp: "dispatch_chain ops r sur (cq_model req) (cq_session_key req) (cs_routing cs) = (rs, expanded)"
    by (rule prod.exhaust)
  show ?thesis
  proof (cases expanded)
    case (Inl e)
    then show ?thesis using exp by (auto simp: dispatch_chain_for_request_def)
  next
    case (Inr chain)
    have "expanded \<noteq> Inr []" using dispatch_chain_routed [of ops r sur "cq_model req" "cq_session_key req" "cs_routing cs"] exp
      by (auto simp: expansion_empty_iff split: sum.splits if_splits)
    then have chain: "chain \<noteq> []" using Inr by simp
    let ?fc = "cc_features cc" and ?st = "(cs_registry cs, [])"
    obtain reg admissions evs out where flt: "filter_chain_by_features ?fc (clk_target clk) chain (cq_features req) (cq_model req) ?st
        = ((reg, admissions), evs, out)" by (metis prod.exhaust)
    show ?thesis
    proof (cases out)
      case (Inl e)
      obtain st_end tvs where v: "chain_verdicts ?fc (cq_features req) (clk_target clk) 0 chain ?st = (st_end, tvs)"
        by (rule prod.exhaust)
      have some: "cq_features req \<noteq> []" using flt Inl by (auto simp: filter_chain_by_features_def)
      have "reg = cs_registry cs \<and> (\<exists>msg. e = NotImplemented (cq_model req) msg)"
        using filter_result [OF flt some chain v] Inl by (auto split: if_splits)
      then show ?thesis using exp Inr Inl flt by (auto simp: dispatch_chain_for_request_def)
    next
      case out: (Inr chain1)
      let ?factor = "\<lambda>target. calibration_factor (cc_calibration_enabled cc) lanes target (clk_system clk)"
      obtain gst warning chain2 where win: "filter_chain_by_window_with (cc_window_gate_enabled cc) ?factor
          (cq_serialized_len req) (clk_epoch_secs clk) chain1 (cs_gate cs) = (gst, warning, chain2)" by (rule prod_cases3)
      have run: "dispatch_chain_for_request ops r sur cc lanes clk req cs =
          (cs\<lparr>cs_routing := rs, cs_registry := reg, cs_gate := gst\<rparr>, Inr (chain2, admissions))"
        using exp Inr out by (simp add: dispatch_chain_for_request_def flt win)
      have "feature_pass ?fc (clk_target clk) (cq_features req) (cq_model req) ?st chain = Some chain1"
        using flt out by (auto simp: feature_pass_Some)
      moreover have "window_pass (cc_window_gate_enabled cc) ?factor (cq_serialized_len req) (clk_epoch_secs clk) (cs_gate cs)
          chain1 = Some chain2" by (simp add: window_pass_def win)
      ultimately have "mset (map lane_of chain2) \<subseteq># mset (map lane_of chain)" and "chain2 \<noteq> []"
        using chain by (auto dest: filters.both)
      moreover have "hands_out (state_key ` set chain) ?st (reg, admissions)" by (rule filter_admits [OF flt])
      then have "distinct (map pa_key admissions)" and c: "claims (pa_key ` set admissions) (cs_registry cs) reg"
        and "pa_state_key ` set admissions \<subseteq> state_key ` set chain" by (auto simp: hands_out_def)
      moreover note claims_slot [OF c] claims_free [OF c]
      ultimately show ?thesis using exp Inr by (auto simp: run slots_def)
    qed
  qed
qed

end
