(* ===== verification/Probe_Vocab.thy ===== *)
theory Probe_Vocab
  imports Capability_Keys
begin

text \<open>
  The vocabulary of background probing: the identity of a field verdict
  (\<open>routectl-router/src/field_verdict.rs\<close>, \<open>FieldVerdictKey\<close>), the bounds, validators, outcomes and
  counters of \<open>routectl-router/src/probe_scheduler/{bounds,vocab}.rs\<close>, and the bounded payload a probe
  carries (\<open>probe_scheduler/payload.rs\<close>). A beta token is a list of Unicode scalar values, because
  the payload checks read its characters (\<open>trim\<close>, \<open>is_control\<close>) and its UTF-8 length.
\<close>

subsection \<open>The identity of a field verdict\<close>

record FieldVerdictKey =
  fvk_state_key :: string
  fvk_capability_key :: string
  fvk_provider_kind :: string

definition field_verdict_key_new :: "string \<Rightarrow> string \<Rightarrow> string \<Rightarrow> FieldVerdictKey option" where
  "field_verdict_key_new state_key field_path provider_kind =
     (case field_capability_key field_path of None \<Rightarrow> None
      | Some minted \<Rightarrow>
          if normalize_capability_key minted provider_kind \<noteq> minted then None
          else Some \<lparr>fvk_state_key = state_key, fvk_capability_key = minted, fvk_provider_kind = provider_kind\<rparr>)"

subsection \<open>Bounds\<close>

definition PROBE_QUEUE_DEPTH :: usize where "PROBE_QUEUE_DEPTH = 16"
definition PROBE_MAX_CONCURRENCY :: usize where "PROBE_MAX_CONCURRENCY = 2"
definition PROBE_BACKOFF_BASE :: duration where "PROBE_BACKOFF_BASE = from_mins 1"
definition PROBE_BACKOFF_CEILING :: duration where "PROBE_BACKOFF_CEILING = from_hours 1"
definition PROBE_TOMBSTONE_CAPACITY :: usize where "PROBE_TOMBSTONE_CAPACITY = 256"
definition PROBE_MAX_ATTEMPTS :: u32 where "PROBE_MAX_ATTEMPTS = 3"
definition PROBE_MAX_DEFERRALS :: u32 where "PROBE_MAX_DEFERRALS = 8"

definition backoff_for_attempt :: "u32 \<Rightarrow> duration" where
  "backoff_for_attempt attempt =
     (let raw = attempt - 1;
          exponent = (if 20 < raw then 20 else raw);
          scaled = min (PROBE_BACKOFF_BASE * 2 ^ exponent) DURATION_MAX
      in if PROBE_BACKOFF_CEILING < scaled then PROBE_BACKOFF_CEILING else scaled)"

lemmas backoff_consts = PROBE_BACKOFF_BASE_def PROBE_BACKOFF_CEILING_def from_mins_def from_hours_def
  from_secs_def NANOS_PER_SEC_def DURATION_MAX_def U64_MAX_def

lemma backoff_bounds: "PROBE_BACKOFF_BASE \<le> backoff_for_attempt n \<and> backoff_for_attempt n \<le> PROBE_BACKOFF_CEILING"
proof -
  have "(1::nat) \<le> 2 ^ k" for k by simp
  then have "PROBE_BACKOFF_BASE * 1 \<le> PROBE_BACKOFF_BASE * 2 ^ k" for k by (rule mult_le_mono2)
  then have "PROBE_BACKOFF_BASE \<le> PROBE_BACKOFF_BASE * 2 ^ k" for k by simp
  then have "PROBE_BACKOFF_BASE \<le> min (PROBE_BACKOFF_BASE * 2 ^ k) DURATION_MAX" for k
    by (simp add: backoff_consts)
  moreover have "PROBE_BACKOFF_BASE \<le> PROBE_BACKOFF_CEILING" by (simp add: backoff_consts)
  ultimately show ?thesis by (auto simp: backoff_for_attempt_def Let_def)
qed

lemma backoff_ge: "PROBE_BACKOFF_BASE \<le> backoff_for_attempt n"
  and backoff_le: "backoff_for_attempt n \<le> PROBE_BACKOFF_CEILING"
  using backoff_bounds by blast+

lemma backoff_pos: "0 < backoff_for_attempt n"
  using backoff_ge [of n] by (simp add: backoff_consts)

subsection \<open>Validators, outcomes and counters\<close>

datatype ProbeValidator = VCountTokens | VExpectedRejection | VPaidCompletion

fun is_free :: "ProbeValidator \<Rightarrow> bool" where
  "is_free VCountTokens = True"
| "is_free VExpectedRejection = True"
| "is_free VPaidCompletion = False"

datatype FreeValidatorOutcome =
  FvSettled | FvTransient | FvInconclusive | FvUnavailable | FvProbeRequestRefused | FvGateDeferred | FvExhausted

definition validator_plan :: "bool \<Rightarrow> ProbeValidator list" where
  "validator_plan supports_count_tokens =
     (let plan = []; plan = (if supports_count_tokens then plan @ [VCountTokens] else plan)
      in plan @ [VPaidCompletion])"

definition paid_probe_permitted :: "FreeValidatorOutcome \<Rightarrow> u32 \<Rightarrow> bool" where
  "paid_probe_permitted free daily_cap \<longleftrightarrow> 0 < daily_cap \<and> free = FvExhausted"

datatype ProbeActivation =
  PaQueued | PaDeduped | PaQueueFull | PaRetired | PaNoFreeValidator | PaTombstoned

datatype ProbeSettlement = PsResolved | PsRetryable | PsDeferred | PsSpentFreeStep | PsTimedOut | PsAbandoned

datatype PaidPassSettlement = PpRefused | PpGateDeferred | PpCompleted | PpProviderFailed | PpTimedOut

datatype ReleaseOutcome = RStale | RCommitted bool

fun exhausted_free_plan :: "ReleaseOutcome \<Rightarrow> bool" where
  "exhausted_free_plan (RCommitted free_spent) = free_spent"
| "exhausted_free_plan RStale = False"

text \<open>The lifetime counters of \<open>ProbeSchedulerSnapshot\<close>; its sampled fields are computed by
  \<open>scheduler_snapshot\<close> from the job table.\<close>

record ProbeCounters =
  activations_total :: "64 word"
  deduped_total :: "64 word"
  queue_full_total :: "64 word"
  timeouts_total :: "64 word"
  retired_total :: "64 word"
  stale_settlements_total :: "64 word"
  resolved_total :: "64 word"
  abandoned_total :: "64 word"
  free_exhausted_total :: "64 word"
  deferrals_total :: "64 word"
  deferral_evictions_total :: "64 word"
  abandoned_probe_requests_total :: "64 word"
  tombstone_refusals_total :: "64 word"
  tombstone_saturations_total :: "64 word"
  paid_candidate_capacity_refusals_total :: "64 word"
  paid_slot_refusals_total :: "64 word"
  payload_refusals_total :: "64 word"
  paid_candidate_attempts_total :: "64 word"
  paid_reservations_committed_total :: "64 word"
  paid_provider_calls_started_total :: "64 word"
  paid_completed_total :: "64 word"
  paid_provider_failed_total :: "64 word"
  paid_timeouts_total :: "64 word"
  paid_gate_deferrals_total :: "64 word"
  paid_authorization_refusals_total :: "64 word"

definition counters_new :: ProbeCounters where
  "counters_new = \<lparr>activations_total = 0, deduped_total = 0, queue_full_total = 0, timeouts_total = 0,
     retired_total = 0, stale_settlements_total = 0, resolved_total = 0, abandoned_total = 0,
     free_exhausted_total = 0, deferrals_total = 0, deferral_evictions_total = 0,
     abandoned_probe_requests_total = 0, tombstone_refusals_total = 0, tombstone_saturations_total = 0,
     paid_candidate_capacity_refusals_total = 0, paid_slot_refusals_total = 0, payload_refusals_total = 0,
     paid_candidate_attempts_total = 0, paid_reservations_committed_total = 0,
     paid_provider_calls_started_total = 0, paid_completed_total = 0, paid_provider_failed_total = 0,
     paid_timeouts_total = 0, paid_gate_deferrals_total = 0, paid_authorization_refusals_total = 0\<rparr>"

subsection \<open>The payload of a probe\<close>

type_synonym unicode = "nat list"

definition PROBE_BETA_MAX_COUNT_PER_SOURCE :: usize where "PROBE_BETA_MAX_COUNT_PER_SOURCE = 24"
definition PROBE_BETA_MAX_TOKEN_BYTES :: usize where "PROBE_BETA_MAX_TOKEN_BYTES = 64"
definition PROBE_BETA_MAX_TOTAL_BYTES :: usize where "PROBE_BETA_MAX_TOTAL_BYTES = 512"

definition PROBE_MODELED_DISPLAY_VALUES :: "string list" where
  "PROBE_MODELED_DISPLAY_VALUES = [''summarized'', ''omitted'', ''updates'']"

definition char_len_utf8 :: "nat \<Rightarrow> usize" where
  "char_len_utf8 c = (if c < 0x80 then 1 else if c < 0x800 then 2 else if c < 0x10000 then 3 else 4)"

definition utf8_len :: "unicode \<Rightarrow> usize" where
  "utf8_len s = sum_list (map char_len_utf8 s)"

definition char_is_control :: "nat \<Rightarrow> bool" where
  "char_is_control c \<longleftrightarrow> c \<le> 0x1F \<or> (0x7F \<le> c \<and> c \<le> 0x9F)"

definition char_is_whitespace :: "nat \<Rightarrow> bool" where
  "char_is_whitespace c \<longleftrightarrow> (9 \<le> c \<and> c \<le> 13) \<or> c = 0x20 \<or> c = 0x85 \<or> c = 0xA0 \<or> c = 0x1680
     \<or> (0x2000 \<le> c \<and> c \<le> 0x200A) \<or> c = 0x2028 \<or> c = 0x2029 \<or> c = 0x202F \<or> c = 0x205F \<or> c = 0x3000"

definition trim_unicode :: "unicode \<Rightarrow> unicode" where
  "trim_unicode s = rev (dropWhile char_is_whitespace (rev (dropWhile char_is_whitespace s)))"

definition is_retainable_beta :: "unicode \<Rightarrow> bool" where
  "is_retainable_beta token \<longleftrightarrow> token \<noteq> [] \<and> utf8_len token \<le> PROBE_BETA_MAX_TOKEN_BYTES
     \<and> \<not> list_ex (\<lambda>c. c = 44) token \<and> \<not> list_ex (\<lambda>c. c = 13) token \<and> \<not> list_ex (\<lambda>c. c = 10) token
     \<and> list_all (\<lambda>c. \<not> char_is_control c) token"

fun retain_tokens :: "unicode set \<Rightarrow> unicode list \<Rightarrow> unicode list \<Rightarrow> unicode list option" where
  "retain_tokens seen out [] = Some out"
| "retain_tokens seen out (token # raw) =
     (let trimmed = trim_unicode token
      in if \<not> is_retainable_beta trimmed then None
         else if trimmed \<in> seen then retain_tokens seen out raw
         else retain_tokens (insert trimmed seen) (out @ [trimmed]) raw)"

definition bounded_source :: "unicode list \<Rightarrow> unicode list option" where
  "bounded_source raw =
     (if PROBE_BETA_MAX_COUNT_PER_SOURCE < length raw then None else retain_tokens {} [] raw)"

record ProbePayload =
  pl_field_path :: string
  pl_field_value :: string
  pl_client_betas :: "unicode list"
  pl_operator_betas :: "unicode list"
  pl_originating_claude_code_session :: bool

definition probe_payload_new :: "string \<Rightarrow> string \<Rightarrow> unicode list \<Rightarrow> unicode list \<Rightarrow> bool \<Rightarrow> ProbePayload option" where
  "probe_payload_new field_path field_value client_betas operator_betas session =
     (if \<not> list_ex (\<lambda>v. v = field_value) PROBE_MODELED_DISPLAY_VALUES then None
      else case bounded_source client_betas of None \<Rightarrow> None
      | Some client_betas \<Rightarrow> (case bounded_source operator_betas of None \<Rightarrow> None
        | Some operator_betas \<Rightarrow>
            if PROBE_BETA_MAX_TOTAL_BYTES < sum_list (map utf8_len (client_betas @ operator_betas)) then None
            else Some \<lparr>pl_field_path = field_path, pl_field_value = field_value,
              pl_client_betas = client_betas, pl_operator_betas = operator_betas,
              pl_originating_claude_code_session = session\<rparr>))"

text \<open>One pass keeps exactly the trimmed tokens, once each and in order of first occurrence, or
  refuses the whole source.\<close>

definition first_occurrences :: "'a list \<Rightarrow> 'a list" where
  "first_occurrences xs = rev (remdups (rev xs))"

lemma first_occurrences_snoc:
  "first_occurrences (xs @ [x]) = (if x \<in> set xs then first_occurrences xs else first_occurrences xs @ [x])"
  by (simp add: first_occurrences_def)

lemma set_first_occurrences [simp]: "set (first_occurrences xs) = set xs"
  and distinct_first_occurrences [simp]: "distinct (first_occurrences xs)"
  by (simp_all add: first_occurrences_def)

lemma length_first_occurrences: "length (first_occurrences xs) \<le> length xs"
  using length_remdups_leq [of "rev xs"] by (simp add: first_occurrences_def)

lemma retain_tokens_spec:
  assumes "out = first_occurrences (map trim_unicode pre)" and "seen = set out"
  shows "retain_tokens seen out raw =
    (if \<forall>t \<in> set raw. is_retainable_beta (trim_unicode t)
     then Some (first_occurrences (map trim_unicode (pre @ raw))) else None)"
  using assms
proof (induction raw arbitrary: seen out pre)
  case Nil
  then show ?case by simp
next
  case (Cons t raw)
  have "retain_tokens (insert (trim_unicode t) seen)
      (if trim_unicode t \<in> seen then out else out @ [trim_unicode t]) raw =
    (if \<forall>t \<in> set raw. is_retainable_beta (trim_unicode t)
     then Some (first_occurrences (map trim_unicode ((pre @ [t]) @ raw))) else None)"
    using Cons.prems by (intro Cons.IH) (auto simp: first_occurrences_snoc simp del: append_assoc)
  then show ?case by (auto simp: Let_def insert_absorb)
qed

lemma bounded_source_spec:
  "bounded_source raw = Some out \<longleftrightarrow> length raw \<le> PROBE_BETA_MAX_COUNT_PER_SOURCE
     \<and> (\<forall>t \<in> set raw. is_retainable_beta (trim_unicode t)) \<and> out = first_occurrences (map trim_unicode raw)"
  using retain_tokens_spec [of "[]" "[]" "{}" raw]
  by (auto simp: bounded_source_def first_occurrences_def)

end
