(* ===== verification/Probe_Scheduler.thy ===== *)
theory Probe_Scheduler
  imports Probe_Vocab "HOL-Library.Multiset"
begin

text \<open>
  The bounded probe scheduler (\<open>routectl-router/src/probe_scheduler/{mod,schedule,lease,paid_slot}.rs\<close>):
  the job table, activation, leasing, settlement, retirement, shutdown, terminal markers and the paid
  slots that share its concurrency ceiling. Every operation of the source runs under one lock, so each
  is one atomic step here; the leases and paid slots the callers hold are part of the world the step
  relation moves. Lease sequences are \<open>nat\<close>: the source's \<open>u64\<close> is taken not to wrap.
\<close>

subsection \<open>The job table\<close>

datatype JobPhase = JQueued | JInFlight | JBackingOff instant

record Job =
  pj_key :: FieldVerdictKey
  pj_generation :: u64
  pj_payload :: ProbePayload
  pj_plan :: "ProbeValidator list"
  pj_plan_cursor :: usize
  pj_attempts :: u32
  pj_deferrals :: u32
  pj_phase :: JobPhase
  pj_lease_seq :: u64

record SchedulerInner =
  ps_jobs :: "Job list"
  ps_tombstones :: "(FieldVerdictKey \<times> u64) list"
  ps_tombstone_saturated_at :: "u64 option"
  ps_retired_below :: u64
  ps_next_lease_seq :: u64
  ps_paid_slots_held :: usize
  ps_counters :: ProbeCounters
  ps_last_settlement :: "ProbeSettlement option"

record ProbeLease =
  ls_key :: FieldVerdictKey
  ls_payload :: ProbePayload
  ls_generation :: u64
  ls_validator :: ProbeValidator
  ls_lease_seq :: u64

definition scheduler_new :: SchedulerInner where
  "scheduler_new = \<lparr>ps_jobs = [], ps_tombstones = [], ps_tombstone_saturated_at = None, ps_retired_below = 0,
     ps_next_lease_seq = 0, ps_paid_slots_held = 0, ps_counters = counters_new, ps_last_settlement = None\<rparr>"

definition job_validator :: "Job \<Rightarrow> ProbeValidator option" where
  "job_validator job =
     (if pj_plan_cursor job < length (pj_plan job) then Some (pj_plan job ! pj_plan_cursor job) else None)"

definition job_position :: "FieldVerdictKey \<Rightarrow> SchedulerInner \<Rightarrow> usize option" where
  "job_position key inner = position (\<lambda>job. pj_key job = key) (ps_jobs inner)"

definition count_phase :: "(JobPhase \<Rightarrow> bool) \<Rightarrow> SchedulerInner \<Rightarrow> usize" where
  "count_phase matcher inner = length (filter (\<lambda>job. matcher (pj_phase job)) (ps_jobs inner))"

definition slots_in_flight :: "SchedulerInner \<Rightarrow> usize" where
  "slots_in_flight inner = count_phase (\<lambda>phase. phase = JInFlight) inner + ps_paid_slots_held inner"

definition next_retry_in :: "instant \<Rightarrow> SchedulerInner \<Rightarrow> duration option" where
  "next_retry_in now inner =
     (let waits = List.map_filter (\<lambda>job. case pj_phase job of
            JBackingOff due_at \<Rightarrow> Some (duration_since due_at now)
          | JQueued \<Rightarrow> None | JInFlight \<Rightarrow> None) (ps_jobs inner)
      in if waits = [] then None else Some (Min (set waits)))"

text \<open>\<open>Vec::swap_remove\<close>, on an index inside the table.\<close>

definition swap_remove :: "usize \<Rightarrow> 'a list \<Rightarrow> 'a list" where
  "swap_remove i xs = (if i = length xs - 1 then butlast xs else (butlast xs)[i := last xs])"

definition update_counters :: "(ProbeCounters \<Rightarrow> ProbeCounters) \<Rightarrow> SchedulerInner \<Rightarrow> SchedulerInner" where
  "update_counters f inner = inner\<lparr>ps_counters := f (ps_counters inner)\<rparr>"

definition drop_job :: "usize \<Rightarrow> SchedulerInner \<Rightarrow> SchedulerInner" where
  "drop_job i inner = inner\<lparr>ps_jobs := swap_remove i (ps_jobs inner)\<rparr>"

definition set_job :: "usize \<Rightarrow> Job \<Rightarrow> SchedulerInner \<Rightarrow> SchedulerInner" where
  "set_job i job inner = inner\<lparr>ps_jobs := (ps_jobs inner)[i := job]\<rparr>"

subsection \<open>Terminal markers, backing off and giving up\<close>

definition tombstone :: "FieldVerdictKey \<Rightarrow> u64 \<Rightarrow> SchedulerInner \<Rightarrow> SchedulerInner" where
  "tombstone key generation inner =
     (case position (\<lambda>(k, inc). k = key) (ps_tombstones inner) of
        Some i \<Rightarrow> inner\<lparr>ps_tombstones := (ps_tombstones inner)
          [i := (key, max (snd (ps_tombstones inner ! i)) generation)]\<rparr>
      | None \<Rightarrow>
          if PROBE_TOMBSTONE_CAPACITY \<le> length (ps_tombstones inner)
          then update_counters (\<lambda>c. c\<lparr>tombstone_saturations_total := tombstone_saturations_total c + 1\<rparr>)
            (inner\<lparr>ps_tombstone_saturated_at := Some (case ps_tombstone_saturated_at inner of
               None \<Rightarrow> generation | Some existing \<Rightarrow> max existing generation)\<rparr>)
          else inner\<lparr>ps_tombstones := ps_tombstones inner @ [(key, generation)]\<rparr>)"

definition reschedule_or_abandon :: "usize \<Rightarrow> instant \<Rightarrow> SchedulerInner \<Rightarrow> SchedulerInner" where
  "reschedule_or_abandon index now inner =
     (let job = ps_jobs inner ! index;
          job = job\<lparr>pj_attempts := saturating_add_u32 (pj_attempts job) 1\<rparr>
      in if PROBE_MAX_ATTEMPTS \<le> pj_attempts job
         then tombstone (pj_key job) (pj_generation job)
           (update_counters (\<lambda>c. c\<lparr>abandoned_total := abandoned_total c + 1\<rparr>) (drop_job index inner))
         else set_job index (job\<lparr>pj_phase := JBackingOff (now + backoff_for_attempt (pj_attempts job))\<rparr>) inner)"

definition defer_without_charging_attempt :: "usize \<Rightarrow> instant \<Rightarrow> SchedulerInner \<Rightarrow> SchedulerInner" where
  "defer_without_charging_attempt index now inner =
     (let job = ps_jobs inner ! index;
          job = job\<lparr>pj_deferrals := saturating_add_u32 (pj_deferrals job) 1\<rparr>
      in if PROBE_MAX_DEFERRALS \<le> pj_deferrals job
         then update_counters (\<lambda>c. c\<lparr>deferral_evictions_total := deferral_evictions_total c + 1\<rparr>)
           (drop_job index inner)
         else set_job index (job\<lparr>pj_phase :=
           JBackingOff (now + backoff_for_attempt (saturating_add_u32 (pj_attempts job) 1))\<rparr>) inner)"

subsection \<open>Activation and leasing\<close>

definition activate :: "FieldVerdictKey \<Rightarrow> u64 \<Rightarrow> ProbeValidator list \<Rightarrow> ProbePayload \<Rightarrow> SchedulerInner
    \<Rightarrow> SchedulerInner \<times> ProbeActivation" where
  "activate key generation plan payload inner =
     (if generation < ps_retired_below inner then (inner, PaRetired)
      else if (case ps_tombstone_saturated_at inner of None \<Rightarrow> False | Some saturated \<Rightarrow> generation \<le> saturated)
      then (update_counters (\<lambda>c. c\<lparr>tombstone_refusals_total := tombstone_refusals_total c + 1\<rparr>) inner, PaTombstoned)
      else if list_ex (\<lambda>(k, inc). k = key \<and> generation \<le> inc) (ps_tombstones inner)
      then (update_counters (\<lambda>c. c\<lparr>tombstone_refusals_total := tombstone_refusals_total c + 1\<rparr>) inner, PaTombstoned)
      else if job_position key inner \<noteq> None
      then (update_counters (\<lambda>c. c\<lparr>deduped_total := deduped_total c + 1\<rparr>) inner, PaDeduped)
      else if PROBE_QUEUE_DEPTH \<le> length (ps_jobs inner)
      then (update_counters (\<lambda>c. c\<lparr>queue_full_total := queue_full_total c + 1\<rparr>) inner, PaQueueFull)
      else (let plan = filter is_free plan
            in if plan = [] then (inner, PaNoFreeValidator)
               else (update_counters (\<lambda>c. c\<lparr>activations_total := activations_total c + 1\<rparr>)
                 (inner\<lparr>ps_jobs := ps_jobs inner @ [\<lparr>pj_key = key, pj_generation = generation,
                    pj_payload = payload, pj_plan = plan, pj_plan_cursor = 0, pj_attempts = 0,
                    pj_deferrals = 0, pj_phase = JQueued, pj_lease_seq = 0\<rparr>]\<rparr>), PaQueued)))"

definition leasable :: "u64 \<Rightarrow> instant \<Rightarrow> Job \<Rightarrow> bool" where
  "leasable retired_below now job =
     (if pj_generation job < retired_below \<or> job_validator job = None then False
      else (case pj_phase job of JQueued \<Rightarrow> True | JBackingOff due_at \<Rightarrow> due_at \<le> now | JInFlight \<Rightarrow> False))"

definition lease_due :: "instant \<Rightarrow> SchedulerInner \<Rightarrow> SchedulerInner \<times> ProbeLease option" where
  "lease_due now inner =
     (if PROBE_MAX_CONCURRENCY \<le> slots_in_flight inner then (inner, None)
      else case position (leasable (ps_retired_below inner) now) (ps_jobs inner) of
        None \<Rightarrow> (inner, None)
      | Some index \<Rightarrow>
          (let lease_seq = ps_next_lease_seq inner + 1; job = ps_jobs inner ! index
           in ((set_job index (job\<lparr>pj_phase := JInFlight, pj_lease_seq := lease_seq\<rparr>) inner)
                 \<lparr>ps_next_lease_seq := lease_seq\<rparr>,
               map_option (\<lambda>validator. \<lparr>ls_key = pj_key job, ls_payload = pj_payload job,
                 ls_generation = pj_generation job, ls_validator = validator, ls_lease_seq = lease_seq\<rparr>)
                 (job_validator job))))"

subsection \<open>Retirement, shutdown and paid slots\<close>

definition retire_before :: "u64 \<Rightarrow> SchedulerInner \<Rightarrow> SchedulerInner \<times> usize" where
  "retire_before generation inner =
     (let inner = (if ps_retired_below inner < generation then inner\<lparr>ps_retired_below := generation\<rparr> else inner);
          inner = inner\<lparr>ps_tombstones := filter (\<lambda>(k, inc). generation \<le> inc) (ps_tombstones inner)\<rparr>;
          inner = (if (case ps_tombstone_saturated_at inner of None \<Rightarrow> False | Some saturated \<Rightarrow> saturated < generation)
            then inner\<lparr>ps_tombstone_saturated_at := None\<rparr> else inner);
          before = length (ps_jobs inner);
          inner = inner\<lparr>ps_jobs := filter (\<lambda>job. generation \<le> pj_generation job \<or> pj_phase job = JInFlight) (ps_jobs inner)\<rparr>;
          cancelled = before - length (ps_jobs inner)
      in (update_counters (\<lambda>c. c\<lparr>retired_total := retired_total c + of_nat cancelled\<rparr>) inner, cancelled))"

definition cancel_all_and_retire_to :: "u64 \<Rightarrow> SchedulerInner \<Rightarrow> SchedulerInner \<times> usize" where
  "cancel_all_and_retire_to generation inner =
     (let cancelled = length (ps_jobs inner);
          inner = inner\<lparr>ps_jobs := [], ps_tombstones := [], ps_tombstone_saturated_at := None\<rparr>;
          inner = (if ps_retired_below inner < generation then inner\<lparr>ps_retired_below := generation\<rparr> else inner)
      in (update_counters (\<lambda>c. c\<lparr>retired_total := retired_total c + of_nat cancelled\<rparr>) inner, cancelled))"

definition try_acquire_paid_slot :: "SchedulerInner \<Rightarrow> SchedulerInner \<times> bool" where
  "try_acquire_paid_slot inner =
     (if PROBE_MAX_CONCURRENCY \<le> slots_in_flight inner
      then (update_counters (\<lambda>c. c\<lparr>paid_slot_refusals_total := paid_slot_refusals_total c + 1\<rparr>) inner, False)
      else (inner\<lparr>ps_paid_slots_held := ps_paid_slots_held inner + 1\<rparr>, True))"

definition release_paid_slot :: "SchedulerInner \<Rightarrow> SchedulerInner" where
  "release_paid_slot inner = inner\<lparr>ps_paid_slots_held := ps_paid_slots_held inner - 1\<rparr>"

definition note_paid_candidate_capacity_refusal :: "SchedulerInner \<Rightarrow> SchedulerInner" where
  "note_paid_candidate_capacity_refusal = update_counters (\<lambda>c. c\<lparr>paid_candidate_capacity_refusals_total :=
     paid_candidate_capacity_refusals_total c + 1\<rparr>)"

definition note_payload_refusal :: "SchedulerInner \<Rightarrow> SchedulerInner" where
  "note_payload_refusal = update_counters (\<lambda>c. c\<lparr>payload_refusals_total := payload_refusals_total c + 1\<rparr>)"

definition note_paid_candidate_claimed :: "SchedulerInner \<Rightarrow> SchedulerInner" where
  "note_paid_candidate_claimed = update_counters (\<lambda>c. c\<lparr>paid_candidate_attempts_total :=
     paid_candidate_attempts_total c + 1\<rparr>)"

definition note_paid_reservation_committed :: "SchedulerInner \<Rightarrow> SchedulerInner" where
  "note_paid_reservation_committed = update_counters (\<lambda>c. c\<lparr>paid_reservations_committed_total :=
     paid_reservations_committed_total c + 1\<rparr>)"

definition note_paid_provider_call_started :: "SchedulerInner \<Rightarrow> SchedulerInner" where
  "note_paid_provider_call_started = update_counters (\<lambda>c. c\<lparr>paid_provider_calls_started_total :=
     paid_provider_calls_started_total c + 1\<rparr>)"

fun record_paid_settlement :: "PaidPassSettlement \<Rightarrow> SchedulerInner \<Rightarrow> SchedulerInner" where
  "record_paid_settlement PpRefused inner = update_counters (\<lambda>c. c\<lparr>paid_authorization_refusals_total :=
     paid_authorization_refusals_total c + 1\<rparr>) inner"
| "record_paid_settlement PpGateDeferred inner = update_counters (\<lambda>c. c\<lparr>paid_gate_deferrals_total :=
     paid_gate_deferrals_total c + 1\<rparr>) inner"
| "record_paid_settlement PpCompleted inner = update_counters (\<lambda>c. c\<lparr>paid_completed_total :=
     paid_completed_total c + 1\<rparr>) inner"
| "record_paid_settlement PpProviderFailed inner = update_counters (\<lambda>c. c\<lparr>paid_provider_failed_total :=
     paid_provider_failed_total c + 1\<rparr>) inner"
| "record_paid_settlement PpTimedOut inner = update_counters (\<lambda>c. c\<lparr>paid_timeouts_total :=
     paid_timeouts_total c + 1\<rparr>) inner"

subsection \<open>Settlement\<close>

definition settlement_stale :: "FieldVerdictKey \<Rightarrow> u64 \<Rightarrow> u64 \<Rightarrow> SchedulerInner \<Rightarrow> bool" where
  "settlement_stale key generation lease_seq inner =
     (case job_position key inner of None \<Rightarrow> True
      | Some index \<Rightarrow> (let job = ps_jobs inner ! index
          in pj_generation job \<noteq> generation \<or> pj_lease_seq job \<noteq> lease_seq \<or> pj_phase job \<noteq> JInFlight))"

text \<open>The per-outcome arms of \<open>release\<close>, on the live row of the lease.\<close>

definition settle_row :: "usize \<Rightarrow> ProbeSettlement option \<Rightarrow> instant \<Rightarrow> SchedulerInner
    \<Rightarrow> SchedulerInner \<times> ReleaseOutcome" where
  "settle_row index settlement now inner =
     (let key = pj_key (ps_jobs inner ! index); owner = pj_generation (ps_jobs inner ! index)
      in case settlement of
        Some PsResolved \<Rightarrow> (tombstone key owner (update_counters
          (\<lambda>c. c\<lparr>resolved_total := resolved_total c + 1\<rparr>) (drop_job index inner)), RCommitted False)
      | Some PsTimedOut \<Rightarrow> (reschedule_or_abandon index now (update_counters
          (\<lambda>c. c\<lparr>timeouts_total := timeouts_total c + 1\<rparr>) inner), RCommitted False)
      | Some PsAbandoned \<Rightarrow> (tombstone key owner (update_counters
          (\<lambda>c. c\<lparr>abandoned_probe_requests_total := abandoned_probe_requests_total c + 1\<rparr>) (drop_job index inner)),
          RCommitted False)
      | Some PsSpentFreeStep \<Rightarrow>
          (let job = ps_jobs inner ! index; job = job\<lparr>pj_plan_cursor := pj_plan_cursor job + 1\<rparr>;
               inner = set_job index job inner
           in if job_validator job = None
              then (tombstone key owner (update_counters
                (\<lambda>c. c\<lparr>free_exhausted_total := free_exhausted_total c + 1\<rparr>) (drop_job index inner)), RCommitted True)
              else (reschedule_or_abandon index now inner, RCommitted False))
      | Some PsDeferred \<Rightarrow> (defer_without_charging_attempt index now (update_counters
          (\<lambda>c. c\<lparr>deferrals_total := deferrals_total c + 1\<rparr>) inner), RCommitted False)
      | Some PsRetryable \<Rightarrow> (reschedule_or_abandon index now inner, RCommitted False)
      | None \<Rightarrow> (reschedule_or_abandon index now inner, RCommitted False))"

definition release :: "FieldVerdictKey \<Rightarrow> u64 \<Rightarrow> u64 \<Rightarrow> ProbeSettlement option \<Rightarrow> instant \<Rightarrow> SchedulerInner
    \<Rightarrow> SchedulerInner \<times> ReleaseOutcome" where
  "release key generation lease_seq settlement now inner =
     (if settlement_stale key generation lease_seq inner
      then (update_counters (\<lambda>c. c\<lparr>stale_settlements_total := stale_settlements_total c + 1\<rparr>) inner, RStale)
      else case job_position key inner of None \<Rightarrow> (inner, RStale)
      | Some index \<Rightarrow>
          if pj_generation (ps_jobs inner ! index) < ps_retired_below inner
          then (update_counters (\<lambda>c. c\<lparr>retired_total := retired_total c + 1,
                  stale_settlements_total := stale_settlements_total c + 1\<rparr>) (drop_job index inner), RStale)
          else settle_row index settlement now
            (case settlement of None \<Rightarrow> inner | Some settled \<Rightarrow> inner\<lparr>ps_last_settlement := Some settled\<rparr>))"

definition lease_settle :: "ProbeSettlement \<Rightarrow> instant \<Rightarrow> ProbeLease \<Rightarrow> SchedulerInner \<Rightarrow> SchedulerInner \<times> ReleaseOutcome" where
  "lease_settle settlement now lease =
     release (ls_key lease) (ls_generation lease) (ls_lease_seq lease) (Some settlement) now"

definition lease_drop :: "instant \<Rightarrow> ProbeLease \<Rightarrow> SchedulerInner \<Rightarrow> SchedulerInner \<times> ReleaseOutcome" where
  "lease_drop now lease = release (ls_key lease) (ls_generation lease) (ls_lease_seq lease) None now"

record ProbeSnapshot =
  sn_queued :: usize
  sn_in_flight :: usize
  sn_backing_off :: usize
  sn_tombstoned :: usize
  sn_tombstone_saturated :: bool
  sn_last_settlement :: "ProbeSettlement option"
  sn_next_retry_in :: "duration option"
  sn_counters :: ProbeCounters

definition scheduler_snapshot :: "instant \<Rightarrow> SchedulerInner \<Rightarrow> ProbeSnapshot" where
  "scheduler_snapshot now inner =
     \<lparr>sn_queued = count_phase (\<lambda>phase. phase = JQueued) inner, sn_in_flight = slots_in_flight inner,
      sn_backing_off = count_phase (\<lambda>phase. case phase of JBackingOff _ \<Rightarrow> True | _ \<Rightarrow> False) inner,
      sn_tombstoned = length (ps_tombstones inner),
      sn_tombstone_saturated = (ps_tombstone_saturated_at inner \<noteq> None),
      sn_last_settlement = ps_last_settlement inner, sn_next_retry_in = next_retry_in now inner,
      sn_counters = ps_counters inner\<rparr>"


subsection \<open>The world of the scheduler\<close>

text \<open>The scheduler beside what its callers hold: the leases handed out and not yet settled or dropped,
  the paid slots, and a count, kept for the proofs, of the leases of an identity since it was queued.\<close>

record ProbeWorld =
  pw_inner :: SchedulerInner
  pw_leases :: "ProbeLease list"
  pw_slots :: nat
  pw_asked :: "FieldVerdictKey \<Rightarrow> nat"

definition probe_world_new :: ProbeWorld where
  "probe_world_new = \<lparr>pw_inner = scheduler_new, pw_leases = [], pw_slots = 0, pw_asked = (\<lambda>_. 0)\<rparr>"

inductive probe_step :: "ProbeWorld \<Rightarrow> ProbeWorld \<Rightarrow> bool" where
  activated: "activate key generation plan payload (pw_inner w) = (s, out) \<Longrightarrow>
    probe_step w (w\<lparr>pw_inner := s, pw_asked := (if out = PaQueued then (pw_asked w)(key := 0) else pw_asked w)\<rparr>)"
| leased: "lease_due now (pw_inner w) = (s, Some l) \<Longrightarrow>
    probe_step w (w\<lparr>pw_inner := s, pw_leases := l # pw_leases w,
      pw_asked := (pw_asked w)(ls_key l := pw_asked w (ls_key l) + 1)\<rparr>)"
| lease_settled: "l \<in> set (pw_leases w) \<Longrightarrow> lease_settle settlement now l (pw_inner w) = (s, out) \<Longrightarrow>
    probe_step w (w\<lparr>pw_inner := s, pw_leases := remove1 l (pw_leases w)\<rparr>)"
| lease_dropped: "l \<in> set (pw_leases w) \<Longrightarrow> lease_drop now l (pw_inner w) = (s, out) \<Longrightarrow>
    probe_step w (w\<lparr>pw_inner := s, pw_leases := remove1 l (pw_leases w)\<rparr>)"
| incarnation_retired: "retire_before generation (pw_inner w) = (s, cancelled) \<Longrightarrow> probe_step w (w\<lparr>pw_inner := s\<rparr>)"
| slot_taken: "try_acquire_paid_slot (pw_inner w) = (s, taken) \<Longrightarrow>
    probe_step w (w\<lparr>pw_inner := s, pw_slots := pw_slots w + (if taken then 1 else 0)\<rparr>)"
| slot_given_back: "0 < pw_slots w \<Longrightarrow>
    probe_step w (w\<lparr>pw_inner := release_paid_slot (pw_inner w), pw_slots := pw_slots w - 1\<rparr>)"
| candidate_claimed: "probe_step w (w\<lparr>pw_inner := note_paid_candidate_claimed (pw_inner w)\<rparr>)"
| candidate_refused: "probe_step w (w\<lparr>pw_inner := note_paid_candidate_capacity_refusal (pw_inner w)\<rparr>)"
| payload_refused: "probe_step w (w\<lparr>pw_inner := note_payload_refusal (pw_inner w)\<rparr>)"
| reservation_committed: "probe_step w (w\<lparr>pw_inner := note_paid_reservation_committed (pw_inner w)\<rparr>)"
| call_started: "probe_step w (w\<lparr>pw_inner := note_paid_provider_call_started (pw_inner w)\<rparr>)"
| paid_settled: "probe_step w (w\<lparr>pw_inner := record_paid_settlement settlement (pw_inner w)\<rparr>)"

inductive probe_shutdown :: "u64 \<Rightarrow> ProbeWorld \<Rightarrow> ProbeWorld \<Rightarrow> bool" where
  swept: "cancel_all_and_retire_to generation (pw_inner w) = (s, cancelled) \<Longrightarrow>
    probe_shutdown generation w (w\<lparr>pw_inner := s\<rparr>)"

text \<open>A step of a life in which a shutdown may come, at a generation above \<open>g\<close>.\<close>

definition life_step :: "u64 \<Rightarrow> ProbeWorld \<Rightarrow> ProbeWorld \<Rightarrow> bool" where
  "life_step g w w' \<longleftrightarrow> probe_step w w' \<or> (\<exists>terminal. g < terminal \<and> probe_shutdown terminal w w')"

subsection \<open>The table as a multiset\<close>

lemma mset_butlast_last: "xs \<noteq> [] \<Longrightarrow> mset xs = add_mset (last xs) (mset (butlast xs))"
proof -
  assume "xs \<noteq> []"
  then have "mset xs = mset (butlast xs @ [last xs])" by simp
  also have "\<dots> = add_mset (last xs) (mset (butlast xs))" by (simp only: mset_append mset.simps) simp
  finally show ?thesis .
qed

lemma swap_remove_mset:
  assumes "i < length xs"
  shows "mset (swap_remove i xs) = mset xs - {#xs ! i#}"
proof -
  have eq: "mset xs = add_mset (last xs) (mset (butlast xs))" using assms by (intro mset_butlast_last) auto
  show ?thesis
  proof (cases "i = length xs - 1")
    case True
    then have "xs ! i = last xs" using assms by (metis last_conv_nth less_nat_zero_code list.size(3))
    then show ?thesis using True by (simp add: swap_remove_def eq)
  next
    case False
    with assms have i: "i < length (butlast xs)" by simp
    then have nth: "butlast xs ! i = xs ! i" by (rule nth_butlast)
    from i have mem: "butlast xs ! i \<in># mset (butlast xs)" by simp
    have "mset (swap_remove i xs) = add_mset (last xs) (mset (butlast xs) - {#xs ! i#})"
      using False i nth by (simp add: swap_remove_def mset_update)
    also have "\<dots> = mset xs - {#xs ! i#}" using mem nth by (simp add: eq)
    finally show ?thesis .
  qed
qed

lemma swap_remove_set: "i < length xs \<Longrightarrow> set (swap_remove i xs) \<subseteq> set xs"
  by (metis in_diffD set_mset_mset subsetI swap_remove_mset)

lemma swap_remove_length: "i < length xs \<Longrightarrow> length (swap_remove i xs) = length xs - 1"
  by (metis swap_remove_mset size_mset size_Diff_singleton nth_mem_mset)

lemma swap_remove_distinct:
  assumes "i < length xs" and "distinct (map f xs)"
  shows "distinct (map f (swap_remove i xs))" and "f (xs ! i) \<notin> f ` set (swap_remove i xs)"
proof -
  have eq: "mset xs = add_mset (xs ! i) (mset (swap_remove i xs))"
    using assms(1) by (simp add: swap_remove_mset)
  then have "mset (map f xs) = mset (f (xs ! i) # map f (swap_remove i xs))" by simp
  then have "distinct (f (xs ! i) # map f (swap_remove i xs))"
    using assms(2) mset_eq_imp_distinct_iff by blast
  then show "distinct (map f (swap_remove i xs))" "f (xs ! i) \<notin> f ` set (swap_remove i xs)" by simp_all
qed


lemma swap_remove_update [simp]: "i < length xs \<Longrightarrow> swap_remove i (xs[i := x]) = swap_remove i xs"
  by (cases "xs = []") (auto simp: swap_remove_def butlast_list_update last_list_update)

subsection \<open>The table invariant\<close>

definition job_ok :: "u64 \<Rightarrow> Job \<Rightarrow> bool" where
  "job_ok next job \<longleftrightarrow> list_all is_free (pj_plan job) \<and> pj_plan_cursor job < length (pj_plan job)
     \<and> pj_attempts job < PROBE_MAX_ATTEMPTS \<and> pj_deferrals job < PROBE_MAX_DEFERRALS \<and> pj_lease_seq job \<le> next"

definition table_ok :: "SchedulerInner \<Rightarrow> bool" where
  "table_ok s \<longleftrightarrow> distinct (map pj_key (ps_jobs s)) \<and> length (ps_jobs s) \<le> PROBE_QUEUE_DEPTH
     \<and> (\<forall>job \<in> set (ps_jobs s). job_ok (ps_next_lease_seq s) job)
     \<and> distinct (map fst (ps_tombstones s)) \<and> length (ps_tombstones s) \<le> PROBE_TOMBSTONE_CAPACITY
     \<and> slots_in_flight s \<le> PROBE_MAX_CONCURRENCY"

text \<open>The identity of the lease a running row waits for.\<close>

definition row_id :: "Job \<Rightarrow> FieldVerdictKey \<times> u64 \<times> u64" where
  "row_id job = (pj_key job, pj_generation job, pj_lease_seq job)"

definition lease_id :: "ProbeLease \<Rightarrow> FieldVerdictKey \<times> u64 \<times> u64" where
  "lease_id l = (ls_key l, ls_generation l, ls_lease_seq l)"

definition running_ids :: "SchedulerInner \<Rightarrow> (FieldVerdictKey \<times> u64 \<times> u64) multiset" where
  "running_ids s = {# row_id job. job \<in># mset (filter (\<lambda>job. pj_phase job = JInFlight) (ps_jobs s)) #}"

text \<open>No activation of \<open>key\<close> at \<open>generation\<close> or below can pass.\<close>

definition settled_at :: "FieldVerdictKey \<Rightarrow> u64 \<Rightarrow> SchedulerInner \<Rightarrow> bool" where
  "settled_at key generation s \<longleftrightarrow> generation < ps_retired_below s
     \<or> (\<exists>saturated. ps_tombstone_saturated_at s = Some saturated \<and> generation \<le> saturated)
     \<or> (\<exists>inc. (key, inc) \<in> set (ps_tombstones s) \<and> generation \<le> inc)"

definition same_frame :: "SchedulerInner \<Rightarrow> SchedulerInner \<Rightarrow> bool" where
  "same_frame s s' \<longleftrightarrow> ps_retired_below s' = ps_retired_below s \<and> ps_next_lease_seq s' = ps_next_lease_seq s
     \<and> ps_paid_slots_held s' = ps_paid_slots_held s"

definition same_marks :: "SchedulerInner \<Rightarrow> SchedulerInner \<Rightarrow> bool" where
  "same_marks s s' \<longleftrightarrow> ps_tombstones s' = ps_tombstones s \<and> ps_tombstone_saturated_at s' = ps_tombstone_saturated_at s"

definition marks_ok :: "SchedulerInner \<Rightarrow> bool" where
  "marks_ok s \<longleftrightarrow> distinct (map fst (ps_tombstones s)) \<and> length (ps_tombstones s) \<le> PROBE_TOMBSTONE_CAPACITY"

lemmas probe_bounds = PROBE_QUEUE_DEPTH_def PROBE_MAX_CONCURRENCY_def PROBE_TOMBSTONE_CAPACITY_def
  PROBE_MAX_ATTEMPTS_def PROBE_MAX_DEFERRALS_def

lemma update_counters_simps [simp]:
  "ps_jobs (update_counters f s) = ps_jobs s" "ps_tombstones (update_counters f s) = ps_tombstones s"
  "ps_tombstone_saturated_at (update_counters f s) = ps_tombstone_saturated_at s"
  "ps_retired_below (update_counters f s) = ps_retired_below s"
  "ps_next_lease_seq (update_counters f s) = ps_next_lease_seq s"
  "ps_paid_slots_held (update_counters f s) = ps_paid_slots_held s"
  "ps_last_settlement (update_counters f s) = ps_last_settlement s"
  by (simp_all add: update_counters_def)

lemma drop_job_simps [simp]:
  "ps_jobs (drop_job i s) = swap_remove i (ps_jobs s)" "ps_tombstones (drop_job i s) = ps_tombstones s"
  "ps_tombstone_saturated_at (drop_job i s) = ps_tombstone_saturated_at s"
  "ps_retired_below (drop_job i s) = ps_retired_below s" "ps_next_lease_seq (drop_job i s) = ps_next_lease_seq s"
  "ps_paid_slots_held (drop_job i s) = ps_paid_slots_held s" "ps_last_settlement (drop_job i s) = ps_last_settlement s"
  by (simp_all add: drop_job_def)

lemma set_job_simps [simp]:
  "ps_jobs (set_job i job s) = (ps_jobs s)[i := job]" "ps_tombstones (set_job i job s) = ps_tombstones s"
  "ps_tombstone_saturated_at (set_job i job s) = ps_tombstone_saturated_at s"
  "ps_retired_below (set_job i job s) = ps_retired_below s" "ps_next_lease_seq (set_job i job s) = ps_next_lease_seq s"
  "ps_paid_slots_held (set_job i job s) = ps_paid_slots_held s" "ps_last_settlement (set_job i job s) = ps_last_settlement s"
  by (simp_all add: set_job_def)

lemma tombstone_frame [simp]:
  "ps_jobs (tombstone key g s) = ps_jobs s" "ps_retired_below (tombstone key g s) = ps_retired_below s"
  "ps_next_lease_seq (tombstone key g s) = ps_next_lease_seq s"
  "ps_paid_slots_held (tombstone key g s) = ps_paid_slots_held s"
  "ps_last_settlement (tombstone key g s) = ps_last_settlement s"
  by (simp_all add: tombstone_def split: option.splits)

lemma settled_at_cong:
  "same_marks s s' \<Longrightarrow> ps_retired_below s' = ps_retired_below s \<Longrightarrow> settled_at key g s' = settled_at key g s"
  by (simp add: settled_at_def same_marks_def)

lemma tombstone_marks:
  shows tombstone_settles: "settled_at key g (tombstone key g s)"
    and tombstone_mono: "settled_at k h s \<Longrightarrow> settled_at k h (tombstone key g s)"
    and tombstone_marks_ok: "marks_ok s \<Longrightarrow> marks_ok (tombstone key g s)"
proof -
  have "settled_at key g (tombstone key g s) \<and> (settled_at k h s \<longrightarrow> settled_at k h (tombstone key g s))
    \<and> (marks_ok s \<longrightarrow> marks_ok (tombstone key g s))"
  proof (cases "position (\<lambda>(k, inc). k = key) (ps_tombstones s)")
    case None
    then have "key \<notin> fst ` set (ps_tombstones s)" by (auto simp: position_None)
    then show ?thesis using None
      by (auto simp: tombstone_def settled_at_def marks_ok_def split: option.splits)
  next
    case (Some i)
    let ?ts = "ps_tombstones s"
    have i: "i < length ?ts" and key: "fst (?ts ! i) = key" using position_Some [OF Some] by auto
    let ?ts' = "?ts[i := (key, max (snd (?ts ! i)) g)]"
    have fsts: "map fst ?ts' = map fst ?ts"
      using i key by (simp add: map_update list_update_same_conv)
    have mem: "(key, max (snd (?ts ! i)) g) \<in> set ?ts'" using i by (simp add: set_update_memI)
    have "(k, inc) \<in> set ?ts \<Longrightarrow> \<exists>inc'. (k, inc') \<in> set ?ts' \<and> inc \<le> inc'" for k inc
    proof -
      assume "(k, inc) \<in> set ?ts"
      then obtain j where j: "j < length ?ts" "?ts ! j = (k, inc)" by (auto simp: in_set_conv_nth)
      then have "?ts' ! j = (if j = i then (key, max (snd (?ts ! i)) g) else (k, inc))" by simp
      moreover have "?ts' ! j \<in> set ?ts'" using j by (intro nth_mem) simp
      ultimately show ?thesis using j key by (cases "j = i") auto
    qed
    note mono = this
    have tomb: "tombstone key g s = s\<lparr>ps_tombstones := ?ts'\<rparr>" using Some by (simp add: tombstone_def)
    have "settled_at key g (tombstone key g s)" unfolding tomb settled_at_def using mem
      by (auto intro!: exI [of _ "max (snd (?ts ! i)) g"])
    moreover have "settled_at k h s \<Longrightarrow> settled_at k h (tombstone key g s)"
      unfolding tomb settled_at_def using mono by simp (meson le_trans)
    moreover have "marks_ok s \<Longrightarrow> marks_ok (tombstone key g s)"
      using fsts by (simp add: tomb marks_ok_def)
    ultimately show ?thesis by blast
  qed
  then show "settled_at key g (tombstone key g s)"
    "settled_at k h s \<Longrightarrow> settled_at k h (tombstone key g s)" "marks_ok s \<Longrightarrow> marks_ok (tombstone key g s)"
    by blast+
qed

lemma size_running_ids: "size (running_ids s) = count_phase (\<lambda>phase. phase = JInFlight) s"
  by (simp add: running_ids_def count_phase_def del: mset_filter)


subsection \<open>What one settlement does to its row\<close>

lemma reschedule_effect:
  fixes s :: SchedulerInner and now :: instant
  assumes "i < length (ps_jobs s)" and "pj_attempts (ps_jobs s ! i) < PROBE_MAX_ATTEMPTS"
    and "pj_deferrals (ps_jobs s ! i) < PROBE_MAX_DEFERRALS"
  defines "job \<equiv> ps_jobs s ! i" and "s' \<equiv> reschedule_or_abandon i now s"
  shows "same_frame s s' \<and>
    ((ps_jobs s' = swap_remove i (ps_jobs s) \<and> settled_at (pj_key job) (pj_generation job) s'
        \<and> (marks_ok s \<longrightarrow> marks_ok s') \<and> (\<forall>k g. settled_at k g s \<longrightarrow> settled_at k g s'))
    \<or> (same_marks s s' \<and> (\<exists>due. ps_jobs s' = (ps_jobs s)[i := job\<lparr>pj_attempts := pj_attempts job + 1,
         pj_phase := JBackingOff due\<rparr>] \<and> pj_attempts job + 1 < PROBE_MAX_ATTEMPTS
         \<and> now + PROBE_BACKOFF_BASE \<le> due \<and> due \<le> now + PROBE_BACKOFF_CEILING)))"
proof -
  have sat: "saturating_add_u32 (pj_attempts job) 1 = pj_attempts job + 1"
    using assms(2) by (simp add: job_def saturating_add_u32_def U32_MAX_def probe_bounds)
  show ?thesis
  proof (cases "PROBE_MAX_ATTEMPTS \<le> pj_attempts job + 1")
    case True
    let ?d = "update_counters (\<lambda>c. c\<lparr>abandoned_total := abandoned_total c + 1\<rparr>) (drop_job i s)"
    have s': "s' = tombstone (pj_key job) (pj_generation job) ?d"
      using True sat by (simp add: s'_def reschedule_or_abandon_def Let_def job_def)
    have "settled_at k g s \<Longrightarrow> settled_at k g ?d" for k g by (simp add: settled_at_def)
    moreover have "marks_ok s \<Longrightarrow> marks_ok ?d" by (simp add: marks_ok_def)
    ultimately show ?thesis unfolding s'
      by (simp add: same_frame_def tombstone_settles tombstone_mono tombstone_marks_ok)
  next
    case False
    then show ?thesis using sat backoff_ge backoff_le
      by (auto simp: s'_def reschedule_or_abandon_def Let_def job_def same_frame_def same_marks_def)
  qed
qed

lemma defer_effect:
  fixes s :: SchedulerInner and now :: instant
  assumes "i < length (ps_jobs s)" and "pj_attempts (ps_jobs s ! i) < PROBE_MAX_ATTEMPTS"
    and "pj_deferrals (ps_jobs s ! i) < PROBE_MAX_DEFERRALS"
  defines "job \<equiv> ps_jobs s ! i" and "s' \<equiv> defer_without_charging_attempt i now s"
  shows "same_frame s s' \<and> same_marks s s' \<and>
    (ps_jobs s' = swap_remove i (ps_jobs s)
    \<or> (\<exists>due. ps_jobs s' = (ps_jobs s)[i := job\<lparr>pj_deferrals := pj_deferrals job + 1,
         pj_phase := JBackingOff due\<rparr>] \<and> pj_deferrals job + 1 < PROBE_MAX_DEFERRALS
         \<and> now + PROBE_BACKOFF_BASE \<le> due \<and> due \<le> now + PROBE_BACKOFF_CEILING))"
proof -
  have sat: "saturating_add_u32 (pj_deferrals job) 1 = pj_deferrals job + 1"
    using assms(3) by (simp add: job_def saturating_add_u32_def U32_MAX_def probe_bounds)
  then show ?thesis using backoff_ge backoff_le
    by (auto simp: s'_def defer_without_charging_attempt_def Let_def job_def same_frame_def same_marks_def)
qed

text \<open>A row leaves the table, marked terminal unless it was evicted by deferrals, or backs off with one
  more attempt or deferral spent.\<close>

definition row_leaves :: "usize \<Rightarrow> ProbeSettlement option \<Rightarrow> SchedulerInner \<Rightarrow> SchedulerInner \<Rightarrow> bool" where
  "row_leaves i settlement s s' \<longleftrightarrow> ps_jobs s' = swap_remove i (ps_jobs s)
     \<and> (settlement \<noteq> Some PsDeferred \<longrightarrow> settled_at (pj_key (ps_jobs s ! i)) (pj_generation (ps_jobs s ! i)) s')
     \<and> (marks_ok s \<longrightarrow> marks_ok s') \<and> (\<forall>k g. settled_at k g s \<longrightarrow> settled_at k g s')"

definition row_waits :: "usize \<Rightarrow> instant \<Rightarrow> SchedulerInner \<Rightarrow> SchedulerInner \<Rightarrow> bool" where
  "row_waits i now s s' \<longleftrightarrow> same_marks s s' \<and> (\<exists>c a d due. ps_jobs s' = (ps_jobs s)
       [i := (ps_jobs s ! i)\<lparr>pj_plan_cursor := c, pj_attempts := a, pj_deferrals := d, pj_phase := JBackingOff due\<rparr>]
     \<and> c < length (pj_plan (ps_jobs s ! i)) \<and> a < PROBE_MAX_ATTEMPTS \<and> d < PROBE_MAX_DEFERRALS
     \<and> a + d = pj_attempts (ps_jobs s ! i) + pj_deferrals (ps_jobs s ! i) + 1
     \<and> now + PROBE_BACKOFF_BASE \<le> due \<and> due \<le> now + PROBE_BACKOFF_CEILING)"


lemma counters_effect [simp]:
  "same_frame (update_counters f s) s' = same_frame s s'" "same_marks (update_counters f s) s' = same_marks s s'"
  "settled_at k g (update_counters f s) = settled_at k g s" "marks_ok (update_counters f s) = marks_ok s"
  "row_leaves i settlement (update_counters f s) s' = row_leaves i settlement s s'"
  "row_waits i now (update_counters f s) s' = row_waits i now s s'"
  by (simp_all add: same_frame_def same_marks_def settled_at_def marks_ok_def row_leaves_def row_waits_def)

lemma reschedule_row:
  fixes s :: SchedulerInner and now :: instant
  assumes "i < length (ps_jobs s)" and "job_ok n (ps_jobs s ! i)"
  defines "s' \<equiv> reschedule_or_abandon i now s"
  shows "same_frame s s' \<and> (row_leaves i settlement s s' \<or> row_waits i now s s')"
proof -
  let ?job = "ps_jobs s ! i"
  from assms(2) have b: "pj_attempts ?job < PROBE_MAX_ATTEMPTS" "pj_deferrals ?job < PROBE_MAX_DEFERRALS"
    and c: "pj_plan_cursor ?job < length (pj_plan ?job)" by (simp_all add: job_ok_def)
  from reschedule_effect [OF assms(1) b, of now] have frame: "same_frame s s'"
    and "row_leaves i settlement s s' \<or> (same_marks s s' \<and> (\<exists>due. ps_jobs s' = (ps_jobs s)[i := ?job\<lparr>pj_attempts := pj_attempts ?job + 1,
         pj_phase := JBackingOff due\<rparr>] \<and> pj_attempts ?job + 1 < PROBE_MAX_ATTEMPTS
         \<and> now + PROBE_BACKOFF_BASE \<le> due \<and> due \<le> now + PROBE_BACKOFF_CEILING))" (is "_ \<or> ?waits")
    unfolding s'_def row_leaves_def by auto
  then consider "row_leaves i settlement s s'" | ?waits by blast
  then have "row_leaves i settlement s s' \<or> row_waits i now s s'"
  proof cases
    case 2
    then obtain due where m: "same_marks s s'"
      and jobs: "ps_jobs s' = (ps_jobs s)[i := ?job\<lparr>pj_attempts := pj_attempts ?job + 1, pj_phase := JBackingOff due\<rparr>]"
      and d: "pj_attempts ?job + 1 < PROBE_MAX_ATTEMPTS" "now + PROBE_BACKOFF_BASE \<le> due" "due \<le> now + PROBE_BACKOFF_CEILING"
      by blast
    have "row_waits i now s s'" unfolding row_waits_def using m jobs d b c
      by (intro conjI exI [of _ "pj_plan_cursor ?job"] exI [of _ "pj_attempts ?job + 1"] exI [of _ "pj_deferrals ?job"] exI [of _ due]) simp_all
    then show ?thesis ..
  qed simp
  with frame show ?thesis by blast
qed

lemma settle_row_effect:
  assumes i: "i < length (ps_jobs s)" and ok: "job_ok n (ps_jobs s ! i)"
    and settle: "settle_row i settlement now s = (s', out)"
  shows "same_frame s s' \<and> (row_leaves i settlement s s' \<or> row_waits i now s s')
    \<and> (exhausted_free_plan out \<longrightarrow> settlement = Some PsSpentFreeStep \<and> row_leaves i settlement s s') \<and> (\<exists>b. out = RCommitted b)"
proof -
  let ?job = "ps_jobs s ! i"
  have terminal: "same_frame s (tombstone (pj_key ?job) (pj_generation ?job) (update_counters f (drop_job i t)))
      \<and> row_leaves i settlement s (tombstone (pj_key ?job) (pj_generation ?job) (update_counters f (drop_job i t)))"
    if "t = s \<or> (\<exists>x. t = set_job i x s)" for f t
  proof -
    let ?d = "update_counters f (drop_job i t)"
    have "settled_at k g s \<Longrightarrow> settled_at k g ?d" for k g using that by (auto simp: settled_at_def)
    moreover have "marks_ok s \<Longrightarrow> marks_ok ?d" using that by (auto simp: marks_ok_def)
    ultimately show ?thesis using that i
      by (auto simp: row_leaves_def same_frame_def tombstone_settles tombstone_mono tombstone_marks_ok)
  qed
  have resched: "same_frame s (reschedule_or_abandon i now (update_counters f s)) \<and>
      (row_leaves i settlement s (reschedule_or_abandon i now (update_counters f s))
       \<or> row_waits i now s (reschedule_or_abandon i now (update_counters f s)))" for f
    using reschedule_row [of i "update_counters f s" n now settlement] i ok by simp
  have plain: "update_counters id s = s" by (simp add: update_counters_def)
  show ?thesis
  proof (cases settlement)
    case None
    then show ?thesis using settle resched [of id] by (auto simp: settle_row_def Let_def plain)
  next
    case (Some st)
    show ?thesis
    proof (cases st)
      case PsResolved
      then show ?thesis using settle terminal [of s] Some by (auto simp: settle_row_def Let_def)
    next
      case PsRetryable
      then show ?thesis using settle resched [of id] Some by (auto simp: settle_row_def Let_def plain)
    next
      case PsTimedOut
      then show ?thesis using settle resched Some by (auto simp: settle_row_def Let_def)
    next
      case PsAbandoned
      then show ?thesis using settle terminal [of s] Some by (auto simp: settle_row_def Let_def)
    next
      case PsDeferred
      let ?u = "update_counters (\<lambda>c. c\<lparr>deferrals_total := deferrals_total c + 1\<rparr>) s"
      from ok have b: "pj_attempts ?job < PROBE_MAX_ATTEMPTS" "pj_deferrals ?job < PROBE_MAX_DEFERRALS"
        and c: "pj_plan_cursor ?job < length (pj_plan ?job)" by (simp_all add: job_ok_def)
      have s': "s' = defer_without_charging_attempt i now ?u" "out = RCommitted False"
        using settle Some PsDeferred by (auto simp: settle_row_def Let_def)
      from defer_effect [of i ?u now] i b
      have frame: "same_frame s s'" and m: "same_marks s s'"
        and "ps_jobs s' = swap_remove i (ps_jobs s)
         \<or> (\<exists>due. ps_jobs s' = (ps_jobs s)[i := ?job\<lparr>pj_deferrals := pj_deferrals ?job + 1,
           pj_phase := JBackingOff due\<rparr>] \<and> pj_deferrals ?job + 1 < PROBE_MAX_DEFERRALS
           \<and> now + PROBE_BACKOFF_BASE \<le> due \<and> due \<le> now + PROBE_BACKOFF_CEILING)" (is "?gone \<or> ?waits")
        by (auto simp: s' same_frame_def same_marks_def)
      then consider ?gone | ?waits by blast
      then have "row_leaves i settlement s s' \<or> row_waits i now s s'"
      proof cases
        case 1
        then show ?thesis using m frame Some PsDeferred
          by (simp add: row_leaves_def same_marks_def same_frame_def marks_ok_def settled_at_def)
      next
        case 2
        then obtain due where w: "ps_jobs s' = (ps_jobs s)[i := ?job\<lparr>pj_deferrals := pj_deferrals ?job + 1, pj_phase := JBackingOff due\<rparr>]"
            "pj_deferrals ?job + 1 < PROBE_MAX_DEFERRALS" "now + PROBE_BACKOFF_BASE \<le> due" "due \<le> now + PROBE_BACKOFF_CEILING"
          by blast
        have "row_waits i now s s'" unfolding row_waits_def using m w b c
          by (intro conjI exI [of _ "pj_plan_cursor ?job"] exI [of _ "pj_attempts ?job"] exI [of _ "pj_deferrals ?job + 1"] exI [of _ due]) simp_all
        then show ?thesis ..
      qed
      then show ?thesis using frame s'(2) by auto
    next
      case PsSpentFreeStep
      let ?next = "?job\<lparr>pj_plan_cursor := pj_plan_cursor ?job + 1\<rparr>"
      let ?t = "set_job i ?next s"
      show ?thesis
      proof (cases "job_validator ?next = None")
        case True
        then show ?thesis using settle terminal [of ?t] Some PsSpentFreeStep by (auto simp: settle_row_def Let_def)
      next
        case False
        then have c: "pj_plan_cursor ?next < length (pj_plan ?next)" by (simp add: job_validator_def split: if_splits)
        have s': "s' = reschedule_or_abandon i now ?t" "out = RCommitted False"
          using settle False Some PsSpentFreeStep by (auto simp: settle_row_def Let_def)
        have row: "ps_jobs ?t ! i = ?next" and it: "i < length (ps_jobs ?t)" using i by simp_all
        have "job_ok n ?next" using ok c by (simp add: job_ok_def)
        with reschedule_row [OF it, of n now settlement] row
        have frame: "same_frame ?t s'" and "row_leaves i settlement ?t s' \<or> row_waits i now ?t s'" by (simp_all add: s')
        then have "row_leaves i settlement s s' \<or> row_waits i now s s'"
          using i unfolding row_leaves_def row_waits_def same_marks_def marks_ok_def settled_at_def by (auto simp: list_update_overwrite)
        then show ?thesis using frame s'(2) by (auto simp: same_frame_def)
      qed
    qed
  qed
qed


text \<open>A settlement is stale, sweeps the retired row it was holding, or settles its row.\<close>

lemma release_cases:
  assumes "release key g q settlement now s = (s', out)"
  obtains (stale) "settlement_stale key g q s" "out = RStale"
      "s' = update_counters (\<lambda>c. c\<lparr>stale_settlements_total := stale_settlements_total c + 1\<rparr>) s"
  | (swept) i where "i < length (ps_jobs s)" "row_id (ps_jobs s ! i) = (key, g, q)" "pj_phase (ps_jobs s ! i) = JInFlight"
      "g < ps_retired_below s" "out = RStale"
      "s' = update_counters (\<lambda>c. c\<lparr>retired_total := retired_total c + 1,
                  stale_settlements_total := stale_settlements_total c + 1\<rparr>) (drop_job i s)"
  | (settles) i where "i < length (ps_jobs s)" "row_id (ps_jobs s ! i) = (key, g, q)" "pj_phase (ps_jobs s ! i) = JInFlight"
      "\<not> g < ps_retired_below s"
      "settle_row i settlement now (case settlement of None \<Rightarrow> s | Some settled \<Rightarrow> s\<lparr>ps_last_settlement := Some settled\<rparr>) = (s', out)"
proof (cases "settlement_stale key g q s")
  case True
  then show ?thesis using assms stale by (simp add: release_def)
next
  case False
  then obtain i where pos: "job_position key s = Some i"
    by (auto simp: settlement_stale_def split: option.splits)
  then have i: "i < length (ps_jobs s)" "pj_key (ps_jobs s ! i) = key"
    by (auto simp: job_position_def dest: position_Some)
  from False pos have row: "pj_generation (ps_jobs s ! i) = g" "pj_lease_seq (ps_jobs s ! i) = q" "pj_phase (ps_jobs s ! i) = JInFlight"
    by (auto simp: settlement_stale_def Let_def)
  show ?thesis
  proof (cases "g < ps_retired_below s")
    case True
    then show ?thesis using assms False pos i row swept [of i] by (simp add: release_def row_id_def)
  next
    case nret: False
    then show ?thesis using assms False pos i row settles [of i] by (simp add: release_def row_id_def)
  qed
qed

lemma running_mem:
  "(key, g, q) \<in># running_ids s \<longleftrightarrow>
     (\<exists>job \<in> set (ps_jobs s). pj_phase job = JInFlight \<and> row_id job = (key, g, q))"
  by (auto simp: running_ids_def intro: rev_image_eqI)

lemma stale_not_running:
  assumes "settlement_stale key g q s" and "distinct (map pj_key (ps_jobs s))"
  shows "(key, g, q) \<notin># running_ids s"
proof
  assume "(key, g, q) \<in># running_ids s"
  then obtain job where job: "job \<in> set (ps_jobs s)" "pj_phase job = JInFlight" "row_id job = (key, g, q)"
    unfolding running_mem by blast
  then obtain j where j: "j < length (ps_jobs s)" "ps_jobs s ! j = job" by (auto simp: in_set_conv_nth)
  have "job_position key s \<noteq> None" using job by (auto simp: job_position_def position_None row_id_def)
  then obtain i where pos: "job_position key s = Some i" by blast
  then have i: "i < length (ps_jobs s)" "pj_key (ps_jobs s ! i) = key"
    by (auto simp: job_position_def dest: position_Some)
  have "i = j" using assms(2) i j job(3) by (auto simp: distinct_conv_nth row_id_def)
  then show False using assms(1) pos j job by (auto simp: settlement_stale_def row_id_def Let_def)
qed

lemma running_swap_remove:
  assumes "i < length (ps_jobs s)" and "pj_phase (ps_jobs s ! i) = JInFlight" and "ps_jobs s' = swap_remove i (ps_jobs s)"
  shows "running_ids s' = running_ids s - {#row_id (ps_jobs s ! i)#}"
  using assms by (simp add: running_ids_def swap_remove_mset image_mset_Diff)

lemma running_update:
  assumes "i < length (ps_jobs s)" and "ps_jobs s' = (ps_jobs s)[i := job]"
  shows "running_ids s' = (running_ids s - (if pj_phase (ps_jobs s ! i) = JInFlight then {#row_id (ps_jobs s ! i)#} else {#}))
     + (if pj_phase job = JInFlight then {#row_id job#} else {#})"
  using assms by (simp add: running_ids_def mset_update image_mset_Diff)

lemma release_running:
  assumes ok: "table_ok s" and rel: "release key g q settlement now s = (s', out)"
  shows "running_ids s' = running_ids s - {#(key, g, q)#}"
  using rel
proof (cases rule: release_cases)
  case stale
  then have "(key, g, q) \<notin># running_ids s" using ok by (simp add: stale_not_running table_ok_def)
  then show ?thesis using stale by (simp add: running_ids_def)
next
  case (swept i)
  have "ps_jobs s' = swap_remove i (ps_jobs s)" using swept by simp
  from running_swap_remove [OF swept(1,3) this] show ?thesis by (simp add: swept)
next
  case (settles i)
  let ?s = "case settlement of None \<Rightarrow> s | Some settled \<Rightarrow> s\<lparr>ps_last_settlement := Some settled\<rparr>"
  have jobs: "ps_jobs ?s = ps_jobs s" by (simp split: option.splits)
  have "job_ok (ps_next_lease_seq s) (ps_jobs s ! i)" using ok settles(1) by (simp add: table_ok_def)
  with settle_row_effect [of i ?s _ settlement now s' out] settles jobs
  consider "row_leaves i settlement ?s s'" | "row_waits i now ?s s'" by auto
  then show ?thesis
  proof cases
    case 1
    then have "ps_jobs s' = swap_remove i (ps_jobs s)" by (simp add: row_leaves_def jobs)
    from running_swap_remove [OF settles(1,3) this] show ?thesis by (simp add: settles)
  next
    case 2
    then obtain job where "ps_jobs s' = (ps_jobs s)[i := job]" "pj_phase job \<noteq> JInFlight"
      unfolding row_waits_def jobs by fastforce
    from running_update [OF settles(1) this(1)] this(2) show ?thesis by (simp add: settles)
  qed
qed


subsection \<open>Preservation of the table\<close>

lemma slots_running: "slots_in_flight s = size (running_ids s) + ps_paid_slots_held s"
  by (simp add: slots_in_flight_def size_running_ids)

lemma job_ok_mono: "job_ok n job \<Longrightarrow> n \<le> m \<Longrightarrow> job_ok m job"
  by (simp add: job_ok_def)

lemma table_ok_counters [simp]: "table_ok (update_counters f s) = table_ok s"
  by (simp add: table_ok_def slots_in_flight_def count_phase_def)

lemma running_counters [simp]: "running_ids (update_counters f s) = running_ids s"
  by (simp add: running_ids_def)

lemma table_ok_row:
  assumes ok: "table_ok s" and i: "i < length (ps_jobs s)" and frame: "same_frame s s'"
    and less: "slots_in_flight s' \<le> PROBE_MAX_CONCURRENCY" and row: "row_leaves i settlement s s' \<or> row_waits i now s s'"
  shows "table_ok s'"
proof -
  have seq: "ps_next_lease_seq s' = ps_next_lease_seq s" using frame by (simp add: same_frame_def)
  have marks: "marks_ok s" using ok by (simp add: table_ok_def marks_ok_def)
  from row show ?thesis
  proof
    assume "row_leaves i settlement s s'"
    then have "ps_jobs s' = swap_remove i (ps_jobs s)" "marks_ok s'" using marks by (simp_all add: row_leaves_def)
    then show ?thesis using ok i less seq swap_remove_set [OF i] swap_remove_distinct(1) [OF i, of pj_key]
      by (auto simp: table_ok_def marks_ok_def swap_remove_length)
  next
    assume "row_waits i now s s'"
    then obtain job where jobs: "ps_jobs s' = (ps_jobs s)[i := job]" and key: "pj_key job = pj_key (ps_jobs s ! i)"
      and "job_ok (ps_next_lease_seq s) (ps_jobs s ! i) \<Longrightarrow> job_ok (ps_next_lease_seq s) job" and m: "same_marks s s'"
      unfolding row_waits_def job_ok_def by fastforce
    then have "job_ok (ps_next_lease_seq s) job" using ok i by (simp add: table_ok_def)
    moreover have "map pj_key (ps_jobs s') = map pj_key (ps_jobs s)"
      using i key by (simp add: jobs map_update list_update_same_conv)
    moreover have "job' \<in> set (ps_jobs s') \<Longrightarrow> job' = job \<or> job' \<in> set (ps_jobs s)" for job'
      using set_update_subset_insert [of "ps_jobs s" i job] by (auto simp: jobs)
    ultimately show ?thesis using ok less seq m by (auto simp: table_ok_def same_marks_def jobs)
  qed
qed

lemma release_frame:
  assumes ok: "table_ok s" and rel: "release key g q settlement now s = (s', out)"
  shows "same_frame s s'"
  using rel
proof (cases rule: release_cases)
  case (settles i)
  let ?s = "case settlement of None \<Rightarrow> s | Some settled \<Rightarrow> s\<lparr>ps_last_settlement := Some settled\<rparr>"
  have jobs: "ps_jobs ?s = ps_jobs s" by (simp split: option.splits)
  have "job_ok (ps_next_lease_seq s) (ps_jobs s ! i)" using ok settles(1) by (simp add: table_ok_def)
  with settle_row_effect [of i ?s _ settlement now s' out] settles jobs have "same_frame ?s s'" by auto
  then show ?thesis by (auto simp: same_frame_def split: option.splits)
qed (simp_all add: same_frame_def)

lemma release_table_ok:
  assumes ok: "table_ok s" and rel: "release key g q settlement now s = (s', out)"
  shows "table_ok s'"
proof -
  have "size (running_ids s') \<le> size (running_ids s)"
    unfolding release_running [OF ok rel] by (rule size_mset_mono) simp
  then have less: "slots_in_flight s' \<le> PROBE_MAX_CONCURRENCY"
    using ok release_frame [OF ok rel] by (simp add: slots_running table_ok_def same_frame_def)
  from rel show ?thesis
  proof (cases rule: release_cases)
    case stale
    then show ?thesis using ok by simp
  next
    case (swept i)
    have "table_ok (drop_job i s)" using ok swept(1) less swap_remove_set [OF swept(1)] swap_remove_distinct(1) [OF swept(1), of pj_key]
      by (auto simp: table_ok_def swap_remove_length swept(6) slots_in_flight_def count_phase_def)
    then show ?thesis by (simp add: swept(6))
  next
    case (settles i)
    let ?s = "case settlement of None \<Rightarrow> s | Some settled \<Rightarrow> s\<lparr>ps_last_settlement := Some settled\<rparr>"
    have jobs: "ps_jobs ?s = ps_jobs s" by (simp split: option.splits)
    have oks: "table_ok ?s" using ok by (simp add: table_ok_def slots_in_flight_def count_phase_def split: option.splits)
    have "job_ok (ps_next_lease_seq s) (ps_jobs s ! i)" using ok settles(1) by (simp add: table_ok_def)
    with settle_row_effect [of i ?s _ settlement now s' out] settles jobs
    have "same_frame ?s s'" "row_leaves i settlement ?s s' \<or> row_waits i now ?s s'" by auto
    with table_ok_row [OF oks, of i] settles(1) jobs less show ?thesis by auto
  qed
qed

lemma activate_table_ok:
  assumes ok: "table_ok s" and act: "activate key generation plan payload s = (s', out)"
  shows "table_ok s' \<and> running_ids s' = running_ids s \<and> same_frame s s' \<and> same_marks s s'
    \<and> (if out = PaQueued then job_position key s = None \<and> (\<exists>job. ps_jobs s' = ps_jobs s @ [job] \<and> pj_key job = key
           \<and> pj_generation job = generation \<and> pj_attempts job + pj_deferrals job = 0 \<and> pj_phase job = JQueued)
         \<and> \<not> settled_at key generation s
       else ps_jobs s' = ps_jobs s)"
proof -
  have plain: "table_ok s \<and> running_ids s = running_ids s \<and> same_frame s s \<and> same_marks s s"
    "same_frame s (update_counters f s)" "same_marks s (update_counters f s)" for f
    using ok by (simp_all add: same_frame_def same_marks_def)
  show ?thesis
  proof (cases "out = PaQueued")
    case False
    then show ?thesis using act plain ok
      by (auto simp: activate_def Let_def split: if_splits)
  next
    case True
    let ?job = "\<lparr>pj_key = key, pj_generation = generation, pj_payload = payload, pj_plan = filter is_free plan,
       pj_plan_cursor = 0, pj_attempts = 0, pj_deferrals = 0, pj_phase = JQueued, pj_lease_seq = 0\<rparr>"
    let ?s = "s\<lparr>ps_jobs := ps_jobs s @ [?job]\<rparr>"
    from act True have g: "\<not> generation < ps_retired_below s" "\<not> list_ex (\<lambda>(k, inc). k = key \<and> generation \<le> inc) (ps_tombstones s)"
      "\<not> (case ps_tombstone_saturated_at s of None \<Rightarrow> False | Some saturated \<Rightarrow> generation \<le> saturated)"
      "job_position key s = None" "length (ps_jobs s) < PROBE_QUEUE_DEPTH" "filter is_free plan \<noteq> []"
      and s': "s' = update_counters (\<lambda>c. c\<lparr>activations_total := activations_total c + 1\<rparr>) ?s"
      by (auto simp: activate_def Let_def split: if_splits)
    have new: "key \<notin> pj_key ` set (ps_jobs s)" using g(4) by (auto simp: job_position_def position_None)
    have "job_ok n ?job" for n using g(6) by (auto simp: job_ok_def probe_bounds list_all_iff)
    then have "table_ok ?s" using ok new g(5) by (auto simp: table_ok_def slots_in_flight_def count_phase_def)
    moreover have "running_ids ?s = running_ids s" by (simp add: running_ids_def)
    moreover have "\<not> settled_at key generation s"
      using g(1-3) by (auto simp: settled_at_def list_ex_iff split: option.splits)
    ultimately show ?thesis using True g(4) by (simp add: s' same_frame_def same_marks_def)
  qed
qed

lemma lease_due_result:
  assumes "lease_due now s = (s', Some l)"
  obtains i where "i < length (ps_jobs s)" and "leasable (ps_retired_below s) now (ps_jobs s ! i)"
    and "slots_in_flight s < PROBE_MAX_CONCURRENCY" and "job_validator (ps_jobs s ! i) = Some (ls_validator l)"
    and "ls_key l = pj_key (ps_jobs s ! i)" and "ls_generation l = pj_generation (ps_jobs s ! i)"
    and "ls_payload l = pj_payload (ps_jobs s ! i)" and "ls_lease_seq l = ps_next_lease_seq s + 1"
    and "s' = (set_job i ((ps_jobs s ! i)\<lparr>pj_phase := JInFlight, pj_lease_seq := ps_next_lease_seq s + 1\<rparr>) s)
       \<lparr>ps_next_lease_seq := ps_next_lease_seq s + 1\<rparr>"
proof -
  from assms obtain i where free: "slots_in_flight s < PROBE_MAX_CONCURRENCY"
    and pos: "position (leasable (ps_retired_below s) now) (ps_jobs s) = Some i"
    by (auto simp: lease_due_def Let_def split: if_splits option.splits)
  from position_Some [OF pos] have i: "i < length (ps_jobs s)" "leasable (ps_retired_below s) now (ps_jobs s ! i)" by auto
  with assms free pos show ?thesis by (intro that [of i]) (auto simp: lease_due_def Let_def)
qed


lemma job_ok_lease: "job_ok n job \<Longrightarrow> job_ok (n + 1) (job\<lparr>pj_phase := phase, pj_lease_seq := n + 1\<rparr>)"
  and job_ok_free: "job_ok n job \<Longrightarrow> list_all is_free (pj_plan job)"
  by (simp_all add: job_ok_def)

lemma lease_due_table_ok:
  assumes ok: "table_ok s" and lease: "lease_due now s = (s', Some l)"
  shows "table_ok s' \<and> running_ids s' = add_mset (lease_id l) (running_ids s) \<and> same_marks s s'
    \<and> ps_retired_below s' = ps_retired_below s \<and> ps_paid_slots_held s' = ps_paid_slots_held s
    \<and> ps_next_lease_seq s' = ps_next_lease_seq s + 1 \<and> ls_lease_seq l = ps_next_lease_seq s + 1
    \<and> is_free (ls_validator l) \<and> \<not> ls_generation l < ps_retired_below s"
  using lease
proof (rule lease_due_result)
  fix i
  let ?job = "ps_jobs s ! i" and ?n = "ps_next_lease_seq s + 1"
  let ?new = "?job\<lparr>pj_phase := JInFlight, pj_lease_seq := ?n\<rparr>"
  assume i: "i < length (ps_jobs s)" and due: "leasable (ps_retired_below s) now ?job"
    and free: "slots_in_flight s < PROBE_MAX_CONCURRENCY" and v: "job_validator ?job = Some (ls_validator l)"
    and l: "ls_key l = pj_key ?job" "ls_generation l = pj_generation ?job" "ls_payload l = pj_payload ?job" "ls_lease_seq l = ?n"
    and s': "s' = (set_job i ?new s)\<lparr>ps_next_lease_seq := ?n\<rparr>"
  have idle: "pj_phase ?job \<noteq> JInFlight" and live: "\<not> pj_generation ?job < ps_retired_below s"
    using due by (auto simp: leasable_def split: if_splits)
  have jobs: "ps_jobs s' = (ps_jobs s)[i := ?new]" by (simp add: s')
  have run: "running_ids s' = add_mset (lease_id l) (running_ids s)"
    using running_update [OF i jobs] idle l by (simp add: row_id_def lease_id_def)
  have slots: "slots_in_flight s' \<le> PROBE_MAX_CONCURRENCY" using free run by (simp add: slots_running s')
  have old: "job_ok ?n job" if "job \<in> set (ps_jobs s)" for job
    using ok that by (auto simp: table_ok_def intro: job_ok_mono [of "ps_next_lease_seq s"])
  have "job_ok (ps_next_lease_seq s) ?job" using ok i by (simp add: table_ok_def)
  note plan = job_ok_free [OF this] and new = job_ok_lease [OF this]
  have "job_ok ?n job" if "job \<in> set (ps_jobs s')" for job
    using that old new set_update_subset_insert [of "ps_jobs s" i ?new] by (auto simp: jobs)
  moreover have "map pj_key (ps_jobs s') = map pj_key (ps_jobs s)"
    using i by (simp add: jobs map_update list_update_same_conv)
  ultimately have "table_ok s'" using ok slots unfolding table_ok_def by (simp add: s')
  moreover have "is_free (ls_validator l)"
    using v plan by (auto simp: job_validator_def list_all_length split: if_splits)
  moreover have "same_marks s s' \<and> ps_retired_below s' = ps_retired_below s
    \<and> ps_paid_slots_held s' = ps_paid_slots_held s \<and> ps_next_lease_seq s' = ?n" by (simp add: s' same_marks_def)
  ultimately show ?thesis using run l(2,4) live by simp
qed

lemma retire_before_effect:
  assumes "retire_before generation s = (s', cancelled)"
  shows "ps_jobs s' = filter (\<lambda>job. generation \<le> pj_generation job \<or> pj_phase job = JInFlight) (ps_jobs s)
    \<and> ps_tombstones s' = filter (\<lambda>(k, inc). generation \<le> inc) (ps_tombstones s)
    \<and> ps_tombstone_saturated_at s' = (case ps_tombstone_saturated_at s of None \<Rightarrow> None
        | Some saturated \<Rightarrow> if saturated < generation then None else Some saturated)
    \<and> ps_retired_below s' = max (ps_retired_below s) generation
    \<and> ps_next_lease_seq s' = ps_next_lease_seq s \<and> ps_paid_slots_held s' = ps_paid_slots_held s"
proof -
  have s': "s' = fst (retire_before generation s)" using assms by simp
  show ?thesis unfolding s'
    by (cases "ps_retired_below s < generation"; cases "ps_tombstone_saturated_at s")
       (simp_all add: retire_before_def Let_def max_def)
qed

lemma retire_before_ok:
  assumes ok: "table_ok s" and ret: "retire_before generation s = (s', cancelled)"
  shows "table_ok s' \<and> running_ids s' = running_ids s \<and> slots_in_flight s' = slots_in_flight s"
proof -
  note eff = retire_before_effect [OF ret]
  have run: "running_ids s' = running_ids s"
  proof -
    have "filter (\<lambda>job. pj_phase job = JInFlight) (ps_jobs s') = filter (\<lambda>job. pj_phase job = JInFlight) (ps_jobs s)"
      using eff by (auto simp: filter_filter intro: filter_cong)
    then show ?thesis by (simp only: running_ids_def)
  qed
  have "distinct (map pj_key (ps_jobs s'))" "distinct (map fst (ps_tombstones s'))"
    "length (ps_jobs s') \<le> length (ps_jobs s)" "length (ps_tombstones s') \<le> length (ps_tombstones s)"
    using eff ok by (simp_all add: distinct_map_filter table_ok_def)
  moreover have slots: "slots_in_flight s' = slots_in_flight s" using eff run by (simp add: slots_running)
  moreover have "\<forall>job \<in> set (ps_jobs s'). job_ok (ps_next_lease_seq s') job" using eff ok by (simp add: table_ok_def)
  ultimately have "table_ok s'" using ok unfolding table_ok_def by linarith
  then show ?thesis using run slots by blast
qed

lemma cancel_all_effect:
  assumes "cancel_all_and_retire_to generation s = (s', cancelled)"
  shows "ps_jobs s' = [] \<and> ps_tombstones s' = [] \<and> ps_tombstone_saturated_at s' = None
    \<and> ps_retired_below s' = max (ps_retired_below s) generation
    \<and> ps_next_lease_seq s' = ps_next_lease_seq s \<and> ps_paid_slots_held s' = ps_paid_slots_held s"
  using assms by (auto simp: cancel_all_and_retire_to_def Let_def max_def)

lemma paid_slot_ok:
  assumes ok: "table_ok s" and acq: "try_acquire_paid_slot s = (s', taken)"
  shows "table_ok s' \<and> ps_jobs s' = ps_jobs s \<and> same_marks s s' \<and> ps_retired_below s' = ps_retired_below s
    \<and> ps_next_lease_seq s' = ps_next_lease_seq s
    \<and> ps_paid_slots_held s' = ps_paid_slots_held s + (if taken then 1 else 0)"
  using assms by (auto simp: try_acquire_paid_slot_def table_ok_def same_marks_def slots_in_flight_def count_phase_def split: if_splits)

lemma give_back_ok: "table_ok s \<Longrightarrow> table_ok (release_paid_slot s)"
  by (auto simp: release_paid_slot_def table_ok_def slots_in_flight_def count_phase_def)

subsection \<open>The world invariant\<close>

definition lease_ids :: "ProbeWorld \<Rightarrow> (FieldVerdictKey \<times> u64 \<times> u64) multiset" where
  "lease_ids w = {# lease_id l. l \<in># mset (pw_leases w) #}"

definition spent :: "Job \<Rightarrow> nat" where
  "spent job = pj_attempts job + pj_deferrals job + (if pj_phase job = JInFlight then 1 else 0)"

definition MAX_LEASES :: nat where "MAX_LEASES = PROBE_MAX_ATTEMPTS + PROBE_MAX_DEFERRALS - 1"

definition probe_inv :: "ProbeWorld \<Rightarrow> bool" where
  "probe_inv w \<longleftrightarrow> table_ok (pw_inner w) \<and> ps_paid_slots_held (pw_inner w) = pw_slots w
     \<and> running_ids (pw_inner w) \<subseteq># lease_ids w
     \<and> (\<forall>job \<in> set (ps_jobs (pw_inner w)). pw_asked w (pj_key job) = spent job)
     \<and> (\<forall>key. pw_asked w key \<le> MAX_LEASES)
     \<and> (\<forall>l \<in> set (pw_leases w). is_free (ls_validator l))"

lemma asked_row:
  assumes eff: "row_leaves i settlement s s' \<or> row_waits i now s s'" and i: "i < length (ps_jobs s)"
    and ok: "table_ok s" and run: "pj_phase (ps_jobs s ! i) = JInFlight"
    and asked: "\<forall>job \<in> set (ps_jobs s). asked (pj_key job) = spent job"
  shows "\<forall>job \<in> set (ps_jobs s'). asked (pj_key job) = spent job"
  using eff
proof
  assume "row_leaves i settlement s s'"
  then show ?thesis using asked swap_remove_set [OF i] by (auto simp: row_leaves_def)
next
  assume "row_waits i now s s'"
  then obtain job where jobs: "ps_jobs s' = (ps_jobs s)[i := job]" and key: "pj_key job = pj_key (ps_jobs s ! i)"
    and sp: "spent job = spent (ps_jobs s ! i)"
    unfolding row_waits_def spent_def using run by fastforce
  have "asked (pj_key job) = spent job" using asked i key sp by simp
  then show ?thesis using asked set_update_subset_insert [of "ps_jobs s" i job] by (auto simp: jobs)
qed

lemma release_asked:
  assumes ok: "table_ok s" and rel: "release key g q settlement now s = (s', out)"
    and asked: "\<forall>job \<in> set (ps_jobs s). asked (pj_key job) = spent job"
  shows "\<forall>job \<in> set (ps_jobs s'). asked (pj_key job) = spent job"
  using rel
proof (cases rule: release_cases)
  case stale
  then show ?thesis using asked by simp
next
  case (swept i)
  then show ?thesis using asked swap_remove_set [OF swept(1)] by auto
next
  case (settles i)
  let ?s = "case settlement of None \<Rightarrow> s | Some settled \<Rightarrow> s\<lparr>ps_last_settlement := Some settled\<rparr>"
  have jobs: "ps_jobs ?s = ps_jobs s" by (simp split: option.splits)
  have oks: "table_ok ?s" using ok by (simp add: table_ok_def slots_in_flight_def count_phase_def split: option.splits)
  have "job_ok (ps_next_lease_seq s) (ps_jobs s ! i)" using ok settles(1) by (simp add: table_ok_def)
  with settle_row_effect [of i ?s _ settlement now s' out] settles jobs
  have "row_leaves i settlement ?s s' \<or> row_waits i now ?s s'" by auto
  from asked_row [OF this _ oks, of asked] settles jobs asked show ?thesis by auto
qed

lemma spent_bound: "job_ok n job \<Longrightarrow> pj_phase job \<noteq> JInFlight \<Longrightarrow> spent job < MAX_LEASES"
  and spent_le: "job_ok n job \<Longrightarrow> spent job \<le> MAX_LEASES"
  by (auto simp: job_ok_def spent_def MAX_LEASES_def probe_bounds)


lemma mset_diff_mono: "A \<subseteq># B \<Longrightarrow> A - C \<subseteq># B - C"
  by (simp add: subseteq_mset_def diff_le_mono)

lemma probe_invI:
  assumes "table_ok (pw_inner w)" and "ps_paid_slots_held (pw_inner w) = pw_slots w"
    and "running_ids (pw_inner w) \<subseteq># lease_ids w"
    and "\<forall>job \<in> set (ps_jobs (pw_inner w)). pw_asked w (pj_key job) = spent job"
    and "\<forall>key. pw_asked w key \<le> MAX_LEASES" and "\<forall>l \<in> set (pw_leases w). is_free (ls_validator l)"
  shows "probe_inv w"
  using assms by (simp add: probe_inv_def)

lemma probe_inv_counters:
  "probe_inv w \<Longrightarrow> probe_inv (w\<lparr>pw_inner := update_counters f (pw_inner w)\<rparr>)"
  by (simp add: probe_inv_def lease_ids_def)

lemma notes_are_counters:
  "\<exists>f. note_paid_candidate_claimed s = update_counters f s" "\<exists>f. note_paid_candidate_capacity_refusal s = update_counters f s"
  "\<exists>f. note_payload_refusal s = update_counters f s" "\<exists>f. note_paid_reservation_committed s = update_counters f s"
  "\<exists>f. note_paid_provider_call_started s = update_counters f s"
  "\<exists>f. record_paid_settlement settlement s = update_counters f s"
  unfolding note_paid_candidate_claimed_def note_paid_candidate_capacity_refusal_def note_payload_refusal_def
    note_paid_reservation_committed_def note_paid_provider_call_started_def
  by blast+ (cases settlement; auto)

lemma activated_inv:
  assumes inv: "probe_inv w" and act: "activate key generation plan payload (pw_inner w) = (s, out)"
  shows "probe_inv (w\<lparr>pw_inner := s, pw_asked := (if out = PaQueued then (pw_asked w)(key := 0) else pw_asked w)\<rparr>)"
proof -
  from inv have ok: "table_ok (pw_inner w)" by (simp add: probe_inv_def)
  note eff = activate_table_ok [OF ok act]
  show ?thesis
  proof (cases "out = PaQueued")
    case False
    then show ?thesis using eff inv by (auto simp: probe_inv_def lease_ids_def same_frame_def)
  next
    case True
    with eff obtain job where job: "ps_jobs s = ps_jobs (pw_inner w) @ [job]" "pj_key job = key"
      "pj_attempts job + pj_deferrals job = 0" "pj_phase job = JQueued" and new: "job_position key (pw_inner w) = None"
      by auto
    from new have other: "pj_key j \<noteq> key" if "j \<in> set (ps_jobs (pw_inner w))" for j
      using that by (auto simp: job_position_def position_None)
    have "spent job = 0" using job by (simp add: spent_def)
    then show ?thesis using eff inv job other True
      by (intro probe_invI) (auto simp: probe_inv_def lease_ids_def same_frame_def)
  qed
qed

lemma leased_inv:
  assumes inv: "probe_inv w" and lease: "lease_due now (pw_inner w) = (s, Some l)"
  shows "probe_inv (w\<lparr>pw_inner := s, pw_leases := l # pw_leases w,
      pw_asked := (pw_asked w)(ls_key l := pw_asked w (ls_key l) + 1)\<rparr>)"
proof -
  from inv have ok: "table_ok (pw_inner w)" by (simp add: probe_inv_def)
  note eff = lease_due_table_ok [OF ok lease]
  from lease obtain i where i: "i < length (ps_jobs (pw_inner w))"
    and due: "leasable (ps_retired_below (pw_inner w)) now (ps_jobs (pw_inner w) ! i)"
    and key: "ls_key l = pj_key (ps_jobs (pw_inner w) ! i)"
    and s: "s = (set_job i ((ps_jobs (pw_inner w) ! i)\<lparr>pj_phase := JInFlight, pj_lease_seq := ps_next_lease_seq (pw_inner w) + 1\<rparr>) (pw_inner w))
       \<lparr>ps_next_lease_seq := ps_next_lease_seq (pw_inner w) + 1\<rparr>"
    by (rule lease_due_result)
  let ?job = "ps_jobs (pw_inner w) ! i"
  let ?new = "?job\<lparr>pj_phase := JInFlight, pj_lease_seq := ps_next_lease_seq (pw_inner w) + 1\<rparr>"
  let ?asked = "(pw_asked w)(ls_key l := pw_asked w (ls_key l) + 1)"
  have idle: "pj_phase ?job \<noteq> JInFlight" using due by (auto simp: leasable_def split: if_splits)
  have jok: "job_ok (ps_next_lease_seq (pw_inner w)) ?job" using ok i by (simp add: table_ok_def)
  have askedi: "pw_asked w (pj_key ?job) = spent ?job" using inv i by (simp add: probe_inv_def)
  have more: "spent ?new = spent ?job + 1" using idle by (simp add: spent_def)
  have dist: "distinct (map pj_key (ps_jobs (pw_inner w)))" using ok by (simp add: table_ok_def)
  have jobs: "ps_jobs s = (ps_jobs (pw_inner w))[i := ?new]" by (simp add: s)
  have rows: "\<forall>job \<in> set (ps_jobs s). ?asked (pj_key job) = spent job"
  proof
    fix job assume "job \<in> set (ps_jobs s)"
    then obtain j where j: "j < length (ps_jobs (pw_inner w))" "job = ps_jobs s ! j" by (auto simp: in_set_conv_nth jobs)
    show "?asked (pj_key job) = spent job"
    proof (cases "j = i")
      case True
      then show ?thesis using j askedi more key by (simp add: jobs)
    next
      case False
      then have "pj_key (ps_jobs (pw_inner w) ! j) \<noteq> pj_key ?job" using dist i j(1) by (simp add: distinct_conv_nth)
      then show ?thesis using False j key inv by (simp add: jobs probe_inv_def)
    qed
  qed
  have "pw_asked w (pj_key ?job) < MAX_LEASES" using spent_bound [OF jok idle] askedi by simp
  then have bound: "\<forall>k. ?asked k \<le> MAX_LEASES" using inv key by (simp add: probe_inv_def)
  show ?thesis using eff inv rows bound by (intro probe_invI) (auto simp: probe_inv_def lease_ids_def)
qed

lemma released_inv:
  assumes inv: "probe_inv w" and l: "l \<in> set (pw_leases w)"
    and rel: "release (ls_key l) (ls_generation l) (ls_lease_seq l) settlement now (pw_inner w) = (s, out)"
  shows "probe_inv (w\<lparr>pw_inner := s, pw_leases := remove1 l (pw_leases w)\<rparr>)"
proof -
  from inv have ok: "table_ok (pw_inner w)" by (simp add: probe_inv_def)
  have ids: "lease_ids (w\<lparr>pw_inner := s, pw_leases := remove1 l (pw_leases w)\<rparr>) = lease_ids w - {#lease_id l#}"
    using l by (simp add: lease_ids_def image_mset_Diff)
  have "running_ids s = running_ids (pw_inner w) - {#lease_id l#}"
    using release_running [OF ok rel] by (simp add: lease_id_def)
  with inv have "running_ids s \<subseteq># lease_ids (w\<lparr>pw_inner := s, pw_leases := remove1 l (pw_leases w)\<rparr>)"
    by (simp add: ids probe_inv_def mset_diff_mono del: mset_subset_eq_single)
  moreover have "ps_paid_slots_held s = pw_slots w" using release_frame [OF ok rel] inv by (simp add: same_frame_def probe_inv_def)
  moreover have "\<forall>job \<in> set (ps_jobs s). pw_asked w (pj_key job) = spent job"
    by (rule release_asked [OF ok rel]) (use inv in \<open>simp add: probe_inv_def\<close>)
  moreover have "\<forall>l' \<in> set (remove1 l (pw_leases w)). is_free (ls_validator l')"
    using inv set_remove1_subset [of l "pw_leases w"] unfolding probe_inv_def by blast
  moreover have "\<forall>key. pw_asked w key \<le> MAX_LEASES" using inv by (simp add: probe_inv_def)
  ultimately show ?thesis using release_table_ok [OF ok rel] by (intro probe_invI) simp_all
qed

lemma step_inv: "probe_step w w' \<Longrightarrow> probe_inv w \<Longrightarrow> probe_inv w'"
proof (induction rule: probe_step.induct)
  case (activated key generation plan payload w s out)
  then show ?case by (simp add: activated_inv)
next
  case (leased now w s l)
  then show ?case using leased_inv by blast
next
  case (lease_settled l w settlement now s out)
  then show ?case using released_inv [of w l "Some settlement" now s out] by (simp add: lease_settle_def)
next
  case (lease_dropped l w now s out)
  then show ?case using released_inv [of w l None now s out] by (simp add: lease_drop_def)
next
  case (incarnation_retired generation w s cancelled)
  then have ok: "table_ok (pw_inner w)" by (simp add: probe_inv_def)
  from retire_before_ok [OF ok incarnation_retired(1)] retire_before_effect [OF incarnation_retired(1)] incarnation_retired(2)
  show ?case by (intro probe_invI) (auto simp: probe_inv_def lease_ids_def)
next
  case (slot_taken w s taken)
  then have ok: "table_ok (pw_inner w)" by (simp add: probe_inv_def)
  from paid_slot_ok [OF ok slot_taken(1)] slot_taken(2) show ?case
    by (intro probe_invI) (auto simp: probe_inv_def lease_ids_def running_ids_def)
next
  case (slot_given_back w)
  then have "table_ok (pw_inner w)" by (simp add: probe_inv_def)
  from give_back_ok [OF this] slot_given_back show ?case
    by (intro probe_invI) (auto simp: probe_inv_def lease_ids_def running_ids_def release_paid_slot_def)
qed (metis notes_are_counters probe_inv_counters)+

lemma shutdown_inv: "probe_shutdown g w w' \<Longrightarrow> probe_inv w \<Longrightarrow> probe_inv w'"
proof (induction rule: probe_shutdown.induct)
  case (swept generation w s cancelled)
  from cancel_all_effect [OF swept(1)] swept(2) show ?case
    by (intro probe_invI) (auto simp: probe_inv_def lease_ids_def running_ids_def table_ok_def slots_in_flight_def count_phase_def)
qed

lemma new_world_inv: "probe_inv probe_world_new"
  by (simp add: probe_inv_def probe_world_new_def scheduler_new_def table_ok_def running_ids_def
      slots_in_flight_def count_phase_def)


subsection \<open>Without a shutdown every running row is an outstanding lease, and the converse\<close>

lemma lease_settled_ids:
  assumes "table_ok (pw_inner w)" and "running_ids (pw_inner w) = lease_ids w" and "l \<in> set (pw_leases w)"
    and "release (ls_key l) (ls_generation l) (ls_lease_seq l) settlement now (pw_inner w) = (s, out)"
  shows "running_ids s = lease_ids (w\<lparr>pw_inner := s, pw_leases := remove1 l (pw_leases w)\<rparr>)"
  using release_running [OF assms(1,4)] assms(2,3) by (simp add: lease_ids_def lease_id_def image_mset_Diff)

lemma step_ids:
  "probe_step w w' \<Longrightarrow> table_ok (pw_inner w) \<Longrightarrow> running_ids (pw_inner w) = lease_ids w \<Longrightarrow>
     running_ids (pw_inner w') = lease_ids w'"
proof (induction rule: probe_step.induct)
  case (activated key generation plan payload w s out)
  then show ?case using activate_table_ok by (simp add: lease_ids_def)
next
  case (leased now w s l)
  then show ?case using lease_due_table_ok by (simp add: lease_ids_def)
next
  case (lease_settled l w settlement now s out)
  then show ?case using lease_settled_ids [of w l "Some settlement" now s out] by (simp add: lease_settle_def)
next
  case (lease_dropped l w now s out)
  then show ?case using lease_settled_ids [of w l None now s out] by (simp add: lease_drop_def)
next
  case (incarnation_retired generation w s cancelled)
  then show ?case using retire_before_ok by (simp add: lease_ids_def)
next
  case (slot_taken w s taken)
  then show ?case using paid_slot_ok [of "pw_inner w" s taken] by (simp add: lease_ids_def running_ids_def)
next
  case (slot_given_back w)
  then show ?case by (simp add: lease_ids_def running_ids_def release_paid_slot_def)
qed (simp add: lease_ids_def, metis notes_are_counters running_counters)+

lemma reached_inv: "probe_step\<^sup>*\<^sup>* probe_world_new w \<Longrightarrow> probe_inv w \<and> running_ids (pw_inner w) = lease_ids w"
proof (induction rule: rtranclp_induct)
  case base
  then show ?case using new_world_inv
    by (simp add: running_ids_def lease_ids_def probe_world_new_def scheduler_new_def)
next
  case (step y z)
  then show ?case using step_inv step_ids by (simp add: probe_inv_def)
qed

lemma life_inv:
  assumes "(life_step g)\<^sup>*\<^sup>* probe_world_new w"
  shows "probe_inv w"
  using assms by (induction rule: rtranclp_induct) (auto simp: life_step_def new_world_inv dest: step_inv shutdown_inv)

subsection \<open>Once settled, never asked again\<close>

definition answered :: "FieldVerdictKey \<Rightarrow> u64 \<Rightarrow> SchedulerInner \<Rightarrow> bool" where
  "answered key g s \<longleftrightarrow> settled_at key g s \<and> (\<forall>job \<in> set (ps_jobs s). pj_key job = key \<longrightarrow> g < pj_generation job)"

lemma settled_at_le: "settled_at key g s \<Longrightarrow> g' \<le> g \<Longrightarrow> settled_at key g' s"
  by (auto simp: settled_at_def)

lemma settled_refuses:
  assumes "settled_at key g s" and "generation \<le> g"
  shows "snd (activate key generation plan payload s) \<in> {PaRetired, PaTombstoned}"
  using settled_at_le [OF assms] by (auto simp: settled_at_def activate_def Let_def list_ex_iff split: option.splits)

lemma retire_settled:
  assumes "settled_at key g s" and "retire_before generation s = (s', cancelled)"
  shows "settled_at key g s'"
proof (cases "g < generation")
  case True
  then show ?thesis using retire_before_effect [OF assms(2)] by (simp add: settled_at_def less_max_iff_disj)
next
  case False
  then show ?thesis using retire_before_effect [OF assms(2)] assms(1) by (auto simp: settled_at_def)
qed

lemma release_settled:
  assumes ok: "table_ok s" and rel: "release key g q settlement now s = (s', out)" and "settled_at k h s"
  shows "settled_at k h s'"
  using rel
proof (cases rule: release_cases)
  case (settles i)
  let ?s = "case settlement of None \<Rightarrow> s | Some settled \<Rightarrow> s\<lparr>ps_last_settlement := Some settled\<rparr>"
  have jobs: "ps_jobs ?s = ps_jobs s" by (simp split: option.splits)
  have h: "settled_at k h ?s" using assms(3) by (simp add: settled_at_def split: option.splits)
  have "job_ok (ps_next_lease_seq s) (ps_jobs s ! i)" using ok settles(1) by (simp add: table_ok_def)
  with settle_row_effect [of i ?s _ settlement now s' out] settles jobs
  have "same_frame ?s s'" "row_leaves i settlement ?s s' \<or> row_waits i now ?s s'" by auto
  then show ?thesis using h settled_at_cong [of ?s s' k h] by (auto simp: row_leaves_def row_waits_def same_frame_def)
next
  case (swept i)
  then show ?thesis using assms(3) by (simp add: settled_at_def)
qed (use assms(3) in simp)

text \<open>A settlement adds no row and changes no identity or generation.\<close>

lemma release_rows:
  assumes ok: "table_ok s" and rel: "release key g q settlement now s = (s', out)" and "job' \<in> set (ps_jobs s')"
  shows "\<exists>job \<in> set (ps_jobs s). pj_key job = pj_key job' \<and> pj_generation job = pj_generation job'"
  using rel
proof (cases rule: release_cases)
  case stale
  then show ?thesis using assms(3) by auto
next
  case (swept i)
  then show ?thesis using assms(3) swap_remove_set [OF swept(1)] by auto
next
  case (settles i)
  let ?s = "case settlement of None \<Rightarrow> s | Some settled \<Rightarrow> s\<lparr>ps_last_settlement := Some settled\<rparr>"
  have jobs: "ps_jobs ?s = ps_jobs s" by (simp split: option.splits)
  have "job_ok (ps_next_lease_seq s) (ps_jobs s ! i)" using ok settles(1) by (simp add: table_ok_def)
  with settle_row_effect [of i ?s _ settlement now s' out] settles jobs
  consider "row_leaves i settlement ?s s'" | "row_waits i now ?s s'" by auto
  then show ?thesis
  proof cases
    case 1
    then show ?thesis using assms(3) swap_remove_set [OF settles(1)] by (auto simp: row_leaves_def jobs)
  next
    case 2
    then obtain job where "ps_jobs s' = (ps_jobs s)[i := job]" "pj_key job = pj_key (ps_jobs s ! i)"
      "pj_generation job = pj_generation (ps_jobs s ! i)"
      unfolding row_waits_def jobs by fastforce
    moreover have "ps_jobs s ! i \<in> set (ps_jobs s)" using settles(1) by simp
    moreover have "job' = job \<or> job' \<in> set (ps_jobs s)"
      using assms(3) calculation(1) set_update_subset_insert [of "ps_jobs s" i job] by auto
    ultimately show ?thesis by metis
  qed
qed


lemma answered_cong:
  "same_marks s s' \<Longrightarrow> ps_retired_below s' = ps_retired_below s \<Longrightarrow> answered key g s
    \<Longrightarrow> \<forall>job' \<in> set (ps_jobs s'). \<exists>job \<in> set (ps_jobs s). pj_key job = pj_key job' \<and> pj_generation job = pj_generation job'
    \<Longrightarrow> answered key g s'"
  using settled_at_cong [of s s' key g] unfolding answered_def by metis

lemma release_answered:
  assumes "table_ok s" and "release k h q settlement now s = (s', out)" and "answered key g s"
  shows "answered key g s'"
proof -
  have "settled_at key g s'" using release_settled [OF assms(1,2)] assms(3) by (simp add: answered_def)
  moreover have "g < pj_generation job'" if "job' \<in> set (ps_jobs s')" "pj_key job' = key" for job'
    using release_rows [OF assms(1,2) that(1)] assms(3) that(2) unfolding answered_def by metis
  ultimately show ?thesis by (simp add: answered_def)
qed

lemma answered_counters: "answered key g (update_counters f s) = answered key g s"
  by (simp add: answered_def)

lemma step_answered:
  "probe_step w w' \<Longrightarrow> probe_inv w \<Longrightarrow> answered key g (pw_inner w) \<Longrightarrow> answered key g (pw_inner w')"
proof (induction rule: probe_step.induct)
  case (activated k generation plan payload w s out)
  then have ok: "table_ok (pw_inner w)" by (simp add: probe_inv_def)
  note eff = activate_table_ok [OF ok activated(1)]
  have "settled_at key g s" using eff activated(3) settled_at_cong [of "pw_inner w" s key g]
    by (simp add: answered_def same_frame_def)
  moreover have "g < pj_generation job'" if j: "job' \<in> set (ps_jobs s)" "pj_key job' = key" for job'
  proof (cases "job' \<in> set (ps_jobs (pw_inner w))")
    case True
    then show ?thesis using activated(3) j(2) by (simp add: answered_def)
  next
    case False
    then have "out = PaQueued" using eff j(1) by (auto split: if_splits)
    then have "pj_generation job' = generation" "key = k" "\<not> settled_at k generation (pw_inner w)"
      using eff False j by auto
    then show ?thesis using settled_at_le [of k g "pw_inner w" generation] activated(3) unfolding answered_def by force
  qed
  ultimately show ?case by (simp add: answered_def)
next
  case (leased now w s l)
  then have ok: "table_ok (pw_inner w)" by (simp add: probe_inv_def)
  note eff = lease_due_table_ok [OF ok leased(1)]
  from leased(1) obtain i where i: "i < length (ps_jobs (pw_inner w))"
    and s: "s = (set_job i ((ps_jobs (pw_inner w) ! i)\<lparr>pj_phase := JInFlight, pj_lease_seq := ps_next_lease_seq (pw_inner w) + 1\<rparr>) (pw_inner w))
       \<lparr>ps_next_lease_seq := ps_next_lease_seq (pw_inner w) + 1\<rparr>"
    by (rule lease_due_result)
  let ?new = "(ps_jobs (pw_inner w) ! i)\<lparr>pj_phase := JInFlight, pj_lease_seq := ps_next_lease_seq (pw_inner w) + 1\<rparr>"
  have jobs: "ps_jobs s = (ps_jobs (pw_inner w))[i := ?new]" by (simp add: s)
  have "\<exists>job \<in> set (ps_jobs (pw_inner w)). pj_key job = pj_key job' \<and> pj_generation job = pj_generation job'"
    if "job' \<in> set (ps_jobs s)" for job'
  proof -
    have "job' = ?new \<or> job' \<in> set (ps_jobs (pw_inner w))"
      using that set_update_subset_insert [of "ps_jobs (pw_inner w)" i ?new] by (auto simp: jobs)
    moreover have "ps_jobs (pw_inner w) ! i \<in> set (ps_jobs (pw_inner w))" using i by simp
    ultimately show ?thesis by force
  qed
  then show ?case using answered_cong [of "pw_inner w" s key g] eff leased(3) by simp
next
  case (lease_settled l w settlement now s out)
  then have "table_ok (pw_inner w)" by (simp add: probe_inv_def)
  from release_answered [OF this lease_settled(2) [unfolded lease_settle_def] lease_settled(4)] show ?case by simp
next
  case (lease_dropped l w now s out)
  then have "table_ok (pw_inner w)" by (simp add: probe_inv_def)
  from release_answered [OF this lease_dropped(2) [unfolded lease_drop_def] lease_dropped(4)] show ?case by simp
next
  case (incarnation_retired generation w s cancelled)
  then show ?case using retire_settled [OF _ incarnation_retired(1)] retire_before_effect [OF incarnation_retired(1)]
    by (simp add: answered_def)
next
  case (slot_taken w s taken)
  then have "table_ok (pw_inner w)" by (simp add: probe_inv_def)
  from paid_slot_ok [OF this slot_taken(1)] slot_taken(3) show ?case
    using settled_at_cong [of "pw_inner w" s key g] by (simp add: answered_def)
next
  case (slot_given_back w)
  then show ?case by (simp add: answered_def settled_at_def release_paid_slot_def)
qed (simp, metis notes_are_counters answered_counters)+

lemma shutdown_answered:
  "probe_shutdown terminal w w' \<Longrightarrow> g < terminal \<Longrightarrow> answered key g (pw_inner w')"
proof (induction rule: probe_shutdown.induct)
  case (swept generation w s cancelled)
  then show ?case using cancel_all_effect [OF swept(1)] by (simp add: answered_def settled_at_def less_max_iff_disj)
qed

lemma life_answered:
  assumes "(life_step g)\<^sup>*\<^sup>* w w'" and "probe_inv w" and "answered key g (pw_inner w)"
  shows "answered key g (pw_inner w')"
proof -
  from assms(1) have "probe_inv w' \<and> answered key g (pw_inner w')"
  proof (induction rule: rtranclp_induct)
    case base
    then show ?case using assms by simp
  next
    case (step y z)
    then show ?case unfolding life_step_def
      using step_inv step_answered shutdown_inv shutdown_answered by blast
  qed
  then show ?thesis ..
qed

text \<open>A settlement that commits, and is not a deferral, is terminal when it resolves, abandons, runs the
  plan out or takes the row out of the table.\<close>

lemma settle_row_terminal:
  assumes "i < length (ps_jobs s)" and "job_ok n (ps_jobs s ! i)" and "settle_row i settlement now s = (s', out)"
    and "settlement = Some PsResolved \<or> settlement = Some PsAbandoned"
  shows "row_leaves i settlement s s'"
proof -
  from settle_row_effect [OF assms(1-3)] consider "row_leaves i settlement s s'" | "row_waits i now s s'" by blast
  then show ?thesis
  proof cases
    case 2
    from assms(4) have gone: "ps_jobs s' = swap_remove i (ps_jobs s)"
      using assms(3) by (auto simp: settle_row_def Let_def)
    with 2 have "length (swap_remove i (ps_jobs s)) = length (ps_jobs s)" by (auto simp: row_waits_def)
    then have False using assms(1) by (simp add: swap_remove_length)
    then show ?thesis ..
  qed
qed

lemma terminal_answers:
  assumes ok: "table_ok s" and rel: "release key g q settlement now s = (s', RCommitted free_spent)"
    and nd: "settlement \<noteq> Some PsDeferred"
    and fin: "settlement = Some PsResolved \<or> settlement = Some PsAbandoned \<or> free_spent \<or> job_position key s' = None"
  shows "answered key g s'"
  using rel
proof (cases rule: release_cases)
  case (settles i)
  let ?s = "case settlement of None \<Rightarrow> s | Some settled \<Rightarrow> s\<lparr>ps_last_settlement := Some settled\<rparr>"
  have jobs: "ps_jobs ?s = ps_jobs s" by (simp split: option.splits)
  have jok: "job_ok (ps_next_lease_seq s) (ps_jobs ?s ! i)" using ok settles(1) jobs by (simp add: table_ok_def)
  have i: "i < length (ps_jobs ?s)" using settles(1) jobs by simp
  have key: "pj_key (ps_jobs s ! i) = key" "pj_generation (ps_jobs s ! i) = g" using settles(2) by (simp_all add: row_id_def)
  note eff = settle_row_effect [OF i jok settles(5)]
  have "row_leaves i settlement ?s s'"
  proof (rule ccontr)
    assume no: "\<not> row_leaves i settlement ?s s'"
    with eff have "row_waits i now ?s s'" "\<not> free_spent" by auto
    then obtain job where j: "ps_jobs s' = (ps_jobs s)[i := job]" "pj_key job = key"
      unfolding row_waits_def jobs using key by fastforce
    have "job \<in> set (ps_jobs s')" using j(1) settles(1) by (simp add: set_update_memI)
    then have "job_position key s' \<noteq> None" using j(2) by (auto simp: job_position_def position_None)
    with fin \<open>\<not> free_spent\<close> have "settlement = Some PsResolved \<or> settlement = Some PsAbandoned" by simp
    from settle_row_terminal [OF i jok settles(5) this] no show False by contradiction
  qed
  then have gone: "ps_jobs s' = swap_remove i (ps_jobs s)" and "settled_at key g s'"
    using nd by (simp_all add: row_leaves_def jobs key)
  moreover have "pj_key job \<noteq> key" if "job \<in> set (ps_jobs s')" for job
    using that swap_remove_distinct(2) [OF settles(1), of pj_key] ok by (auto simp: gone key table_ok_def)
  ultimately show ?thesis by (auto simp: answered_def)
qed simp_all


text \<open>After a settlement of the row of \<open>key\<close>, a row of \<open>key\<close> still in the table is that row backing off.\<close>

lemma settled_row_waits:
  assumes ok: "table_ok s" and i: "i < length (ps_jobs s)" and row: "row_id (ps_jobs s ! i) = (key, g, q)"
    and "pj_phase (ps_jobs s ! i) = JInFlight" and "\<not> g < ps_retired_below s"
    and settle: "settle_row i settlement now (case settlement of None \<Rightarrow> s | Some settled \<Rightarrow> s\<lparr>ps_last_settlement := Some settled\<rparr>) = (s', out)"
    and job: "job \<in> set (ps_jobs s')" "pj_key job = key"
  shows "\<exists>due. pj_phase job = JBackingOff due \<and> now + PROBE_BACKOFF_BASE \<le> due \<and> due \<le> now + PROBE_BACKOFF_CEILING"
proof -
  let ?s = "case settlement of None \<Rightarrow> s | Some settled \<Rightarrow> s\<lparr>ps_last_settlement := Some settled\<rparr>"
  have jobs: "ps_jobs ?s = ps_jobs s" by (simp split: option.splits)
  have jok: "job_ok (ps_next_lease_seq s) (ps_jobs ?s ! i)" using ok i jobs by (simp add: table_ok_def)
  have it: "i < length (ps_jobs ?s)" using i jobs by simp
  have key: "pj_key (ps_jobs s ! i) = key" using row by (simp add: row_id_def)
  have dist: "distinct (map pj_key (ps_jobs s))" using ok by (simp add: table_ok_def)
  from settle_row_effect [OF it jok settle] consider "row_leaves i settlement ?s s'" | "row_waits i now ?s s'" by blast
  then show ?thesis
  proof cases
    case 1
    then have "ps_jobs s' = swap_remove i (ps_jobs s)" by (simp add: row_leaves_def jobs)
    then show ?thesis using swap_remove_distinct(2) [OF i dist] job key by force
  next
    case 2
    then obtain new due where new: "ps_jobs s' = (ps_jobs s)[i := new]" "pj_phase new = JBackingOff due"
      and due: "now + PROBE_BACKOFF_BASE \<le> due" "due \<le> now + PROBE_BACKOFF_CEILING"
      unfolding row_waits_def jobs by fastforce
    from job(1) obtain j where j: "j < length (ps_jobs s)" "job = ps_jobs s' ! j" by (auto simp: in_set_conv_nth new)
    have "j = i"
    proof (rule ccontr)
      assume "j \<noteq> i"
      then have "pj_key (ps_jobs s ! j) = key" using j job(2) by (simp add: new)
      then show False using dist i j(1) key \<open>j \<noteq> i\<close> by (auto simp: distinct_conv_nth)
    qed
    then show ?thesis using j i new due by simp
  qed
qed

end
