(* ===== verification/Paid_Probe.thy ===== *)
theory Paid_Probe
  imports Probe_Scheduler
begin

text \<open>
  The life of a probe around its scheduler: the free worker (\<open>router/probe_lifecycle.rs\<close>), what a failed
  probe means (\<open>router/probe_failure_class.rs\<close>), the list of paid candidates, their claim and the
  authorization of one paid call (\<open>router/paid_probe_authorize.rs\<close>, \<open>paid_probe_ledger.rs\<close>), the call
  (\<open>router/paid_probe_dial.rs\<close>, \<open>probe_pass.rs\<close>), and the publications and the shutdown that supersede all of
  it (\<open>router/probe_publication.rs\<close>, \<open>probe_lifecycle_state.rs\<close>). What a router reads of its own
  configuration is the record \<open>ProbeView\<close>; the durable ledger is outside the crate and answers as its
  trait documents. Every lock acquisition, await and atomic write is a step of its own; the
  two atomic loads of \<open>is_current_publication\<close> (stamp and ticket) are one step.
\<close>

subsection \<open>What a failed probe means\<close>

definition ANTHROPIC_API_KIND :: string where "ANTHROPIC_API_KIND = ''anthropic-api''"

datatype PaidProbeFailure =
  PfCapabilityRejected | PfAuthRejected | PfThrottled | PfTransient | PfRequestRefused | PfUnclassified

fun paid_failure_for_class :: "FailureClass \<Rightarrow> PaidProbeFailure" where
  "paid_failure_for_class (FailureClass.FeatureUnsupported cap) = PfCapabilityRejected"
| "paid_failure_for_class FailureClass.Auth = PfAuthRejected"
| "paid_failure_for_class FailureClass.RateLimited = PfThrottled"
| "paid_failure_for_class FailureClass.Overloaded = PfThrottled"
| "paid_failure_for_class FailureClass.ServerError = PfTransient"
| "paid_failure_for_class FailureClass.NetworkError = PfTransient"
| "paid_failure_for_class FailureClass.Timeout = PfTransient"
| "paid_failure_for_class FailureClass.BadRequest = PfRequestRefused"
| "paid_failure_for_class FailureClass.ContextWindow = PfRequestRefused"
| "paid_failure_for_class FailureClass.ContentPolicy = PfRequestRefused"
| "paid_failure_for_class FailureClass.Unknown = PfUnclassified"

definition classify_paid_probe_failure :: "(string \<Rightarrow> json option) \<Rightarrow> Error \<Rightarrow> PaidProbeFailure" where
  "classify_paid_probe_failure pj err = paid_failure_for_class (cf_class (classify pj err (Some ANTHROPIC_API_KIND)))"

fun probe_outcome_for_class :: "FailureClass \<Rightarrow> FreeValidatorOutcome" where
  "probe_outcome_for_class FailureClass.RateLimited = FvTransient"
| "probe_outcome_for_class FailureClass.Overloaded = FvTransient"
| "probe_outcome_for_class FailureClass.Timeout = FvTransient"
| "probe_outcome_for_class FailureClass.ServerError = FvTransient"
| "probe_outcome_for_class FailureClass.NetworkError = FvTransient"
| "probe_outcome_for_class FailureClass.BadRequest = FvProbeRequestRefused"
| "probe_outcome_for_class FailureClass.Auth = FvProbeRequestRefused"
| "probe_outcome_for_class FailureClass.ContextWindow = FvProbeRequestRefused"
| "probe_outcome_for_class FailureClass.ContentPolicy = FvProbeRequestRefused"
| "probe_outcome_for_class (FailureClass.FeatureUnsupported cap) = FvProbeRequestRefused"
| "probe_outcome_for_class FailureClass.Unknown = FvProbeRequestRefused"

definition classify_probe_failure :: "(string \<Rightarrow> json option) \<Rightarrow> Error \<Rightarrow> FreeValidatorOutcome" where
  "classify_probe_failure pj err = probe_outcome_for_class (cf_class (classify pj err (Some ANTHROPIC_API_KIND)))"

subsection \<open>The free worker\<close>

text \<open>What the published configuration of one router answers about an identity.\<close>

record ('seat, 'profile) ProbeView =
  pv_capability_enabled :: bool
  pv_seat_for :: "FieldVerdictKey \<Rightarrow> 'seat option"
  pv_provider_name :: "'seat \<Rightarrow> string"
  pv_attributable :: "string \<Rightarrow> bool"
  pv_daily_cap :: "FieldVerdictKey \<Rightarrow> u32"
  pv_profile :: "FieldVerdictKey \<Rightarrow> 'profile option"
  pv_ledger :: bool

text \<open>One count-token validator: the refusal of the gate and the answer of the call are given, the answer
  as the count of input tokens or the error.\<close>

definition run_count_tokens_validator :: "('seat, 'profile) ProbeView \<Rightarrow> (string \<Rightarrow> json option) \<Rightarrow> FieldVerdictKey \<Rightarrow> bool
    \<Rightarrow> Error + u64 \<Rightarrow> FreeValidatorOutcome" where
  "run_count_tokens_validator v pj key refused answer =
     (case pv_seat_for v key of None \<Rightarrow> FvUnavailable
      | Some seat \<Rightarrow>
          if \<not> pv_attributable v (pv_provider_name v seat) then FvUnavailable
          else if refused then FvGateDeferred
          else (case answer of Inr input_tokens \<Rightarrow> if 0 < input_tokens then FvSettled else FvInconclusive
                | Inl err \<Rightarrow> classify_probe_failure pj err))"

definition run_free_validator :: "('seat, 'profile) ProbeView \<Rightarrow> (string \<Rightarrow> json option) \<Rightarrow> FieldVerdictKey \<Rightarrow> ProbeValidator
    \<Rightarrow> bool \<Rightarrow> Error + u64 \<Rightarrow> FreeValidatorOutcome" where
  "run_free_validator v pj key validator refused answer = (case validator of
     VCountTokens \<Rightarrow> run_count_tokens_validator v pj key refused answer
   | VExpectedRejection \<Rightarrow> FvProbeRequestRefused | VPaidCompletion \<Rightarrow> FvProbeRequestRefused)"

text \<open>The settlement of a leased probe from its outcome, \<open>None\<close> when the operation timed out.\<close>

fun free_settlement :: "FreeValidatorOutcome option \<Rightarrow> ProbeSettlement" where
  "free_settlement None = PsTimedOut"
| "free_settlement (Some FvSettled) = PsResolved"
| "free_settlement (Some FvTransient) = PsRetryable"
| "free_settlement (Some FvProbeRequestRefused) = PsAbandoned"
| "free_settlement (Some FvUnavailable) = PsAbandoned"
| "free_settlement (Some FvGateDeferred) = PsDeferred"
| "free_settlement (Some FvInconclusive) = PsSpentFreeStep"
| "free_settlement (Some FvExhausted) = PsSpentFreeStep"

definition activate_probe_plan :: "('seat, 'profile) ProbeView \<Rightarrow> u64 \<Rightarrow> FieldVerdictKey \<Rightarrow> ProbeValidator list \<Rightarrow> ProbePayload
    \<Rightarrow> SchedulerInner \<Rightarrow> SchedulerInner \<times> ProbeActivation" where
  "activate_probe_plan v incarnation key plan payload inner =
     (if \<not> pv_capability_enabled v then (inner, PaRetired) else activate key incarnation plan payload inner)"

subsection \<open>Candidates\<close>

record PaidProbeCandidate =
  cd_key :: FieldVerdictKey
  cd_incarnation :: u64
  cd_validator :: ProbeValidator
  cd_payload :: ProbePayload

definition candidate_of :: "FieldVerdictKey \<Rightarrow> u64 \<Rightarrow> ProbePayload \<Rightarrow> PaidProbeCandidate" where
  "candidate_of key incarnation payload = \<lparr>cd_key = key, cd_incarnation = incarnation,
     cd_validator = VPaidCompletion, cd_payload = payload\<rparr>"

definition is_current_publication :: "u64 \<Rightarrow> u64 \<Rightarrow> bool" where
  "is_current_publication stamped newest \<longleftrightarrow> stamped = newest"

definition candidate_live :: "u64 \<Rightarrow> u64 \<Rightarrow> PaidProbeCandidate \<Rightarrow> bool" where
  "candidate_live stamped newest candidate \<longleftrightarrow>
     \<not> (cd_incarnation candidate \<noteq> stamped \<or> \<not> is_current_publication stamped newest)"

text \<open>Under the list lock, once the candidate is live: deduplicate, bound, push at the back.\<close>

definition store_candidate :: "PaidProbeCandidate \<Rightarrow> PaidProbeCandidate list \<Rightarrow> SchedulerInner
    \<Rightarrow> PaidProbeCandidate list \<times> SchedulerInner" where
  "store_candidate candidate candidates inner =
     (if list_ex (\<lambda>c. cd_key c = cd_key candidate \<and> cd_incarnation c = cd_incarnation candidate) candidates
      then (candidates, inner)
      else if PROBE_QUEUE_DEPTH \<le> length candidates
      then (candidates, note_paid_candidate_capacity_refusal inner)
      else (candidates @ [candidate], inner))"

definition claim_paid_probe_candidate :: "PaidProbeCandidate list \<Rightarrow> SchedulerInner
    \<Rightarrow> PaidProbeCandidate list \<times> SchedulerInner \<times> PaidProbeCandidate option" where
  "claim_paid_probe_candidate candidates inner = (case candidates of
     [] \<Rightarrow> ([], inner, None)
   | candidate # rest \<Rightarrow> (rest, note_paid_candidate_claimed inner, Some candidate))"

subsection \<open>Authorization\<close>

datatype PaidProbeReservation =
  PrCommitted u32 u32 | PrCapExhausted | PrMalformedState | PrWriteFailed | PrOverloaded | PrUnavailable

fun permits_paid_call :: "PaidProbeReservation \<Rightarrow> bool" where
  "permits_paid_call (PrCommitted used cap) = True"
| "permits_paid_call _ = False"

datatype PaidProbeRefusal =
    RfNoCandidate | RfStaleIncarnation | RfNoSeat | RfUnattributable | RfCapZero | RfNoProfile
  | RfNoConcurrencySlot | RfSuperseded | RfReservationTimeout | RfNoLedger | RfAccounting PaidProbeReservation

fun refusal_requeues :: "PaidProbeRefusal \<Rightarrow> bool" where
  "refusal_requeues RfNoConcurrencySlot = True"
| "refusal_requeues (RfAccounting PrCapExhausted) = True"
| "refusal_requeues (RfAccounting PrOverloaded) = True"
| "refusal_requeues (RfAccounting PrWriteFailed) = True"
| "refusal_requeues (RfAccounting PrMalformedState) = True"
| "refusal_requeues (RfAccounting PrUnavailable) = False"
| "refusal_requeues (RfAccounting (PrCommitted used cap)) = False"
| "refusal_requeues RfNoCandidate = False"
| "refusal_requeues RfStaleIncarnation = False"
| "refusal_requeues RfNoSeat = False"
| "refusal_requeues RfUnattributable = False"
| "refusal_requeues RfCapZero = False"
| "refusal_requeues RfNoProfile = False"
| "refusal_requeues RfNoLedger = False"
| "refusal_requeues RfSuperseded = False"
| "refusal_requeues RfReservationTimeout = False"

record ('seat, 'profile) PaidProbeAuthorization =
  au_key :: FieldVerdictKey
  au_incarnation :: u64
  au_payload :: ProbePayload
  au_seat :: 'seat
  au_profile :: 'profile
  au_used :: u32
  au_cap :: u32

text \<open>The preconditions rechecked against current state, up to the concurrency slot.\<close>

definition authorize_checks :: "('seat, 'profile) ProbeView \<Rightarrow> u64 \<Rightarrow> PaidProbeCandidate
    \<Rightarrow> PaidProbeRefusal + 'seat \<times> u32 \<times> 'profile" where
  "authorize_checks v incarnation candidate =
     (if cd_incarnation candidate \<noteq> incarnation then Inl RfStaleIncarnation
      else case pv_seat_for v (cd_key candidate) of None \<Rightarrow> Inl RfNoSeat
      | Some seat \<Rightarrow>
          if \<not> pv_attributable v (pv_provider_name v seat) then Inl RfUnattributable
          else (let daily_cap = pv_daily_cap v (cd_key candidate)
            in if daily_cap = 0 then Inl RfCapZero
               else case pv_profile v (cd_key candidate) of None \<Rightarrow> Inl RfNoProfile
               | Some profile \<Rightarrow> if \<not> pv_ledger v then Inl RfNoLedger else Inr (seat, daily_cap, profile)))"

definition reserve_paid_probe_unit :: "('seat, 'profile) ProbeView \<Rightarrow> (string \<Rightarrow> u32 \<Rightarrow> PaidProbeReservation) \<Rightarrow> string \<Rightarrow> u32
    \<Rightarrow> PaidProbeReservation" where
  "reserve_paid_probe_unit v ledger provider daily_cap =
     (if pv_ledger v then ledger provider daily_cap else PrUnavailable)"

subsection \<open>The call and its settlement\<close>

datatype PaidProbeDialOutcome = DoCompleted | DoProviderFailed PaidProbeFailure | DoGateDeferred | DoTimedOut

datatype PaidProbePass = PassDialed PaidProbeDialOutcome | PassRefused PaidProbeRefusal

fun paid_pass_settlement :: "PaidProbePass \<Rightarrow> PaidPassSettlement option" where
  "paid_pass_settlement (PassRefused RfNoCandidate) = None"
| "paid_pass_settlement (PassRefused _) = Some PpRefused"
| "paid_pass_settlement (PassDialed DoGateDeferred) = Some PpGateDeferred"
| "paid_pass_settlement (PassDialed DoCompleted) = Some PpCompleted"
| "paid_pass_settlement (PassDialed (DoProviderFailed failure)) = Some PpProviderFailed"
| "paid_pass_settlement (PassDialed DoTimedOut) = Some PpTimedOut"

text \<open>The answer of the provider within the operation timeout, \<open>None\<close> past it.\<close>

fun dial_outcome :: "(string \<Rightarrow> json option) \<Rightarrow> (Error + unit) option \<Rightarrow> PaidProbeDialOutcome" where
  "dial_outcome pj None = DoTimedOut"
| "dial_outcome pj (Some (Inr response)) = DoCompleted"
| "dial_outcome pj (Some (Inl err)) = DoProviderFailed (classify_paid_probe_failure pj err)"

subsection \<open>The world of probing\<close>

text \<open>A pass of one router, at the points where other threads can run. The slot is held from
  \<open>PassSlotted\<close> to \<open>PassCalling\<close>.\<close>

datatype ('seat, 'profile) PassState =
    PassClaimed PaidProbeCandidate
  | PassChecked PaidProbeCandidate 'seat u32 'profile
  | PassSlotted PaidProbeCandidate 'seat u32 'profile
  | PassReserving PaidProbeCandidate 'seat u32 'profile
  | PassCommitted "('seat, 'profile) PaidProbeAuthorization"
  | PassAuthorized "('seat, 'profile) PaidProbeAuthorization"
  | PassCalling "('seat, 'profile) PaidProbeAuthorization"
  | PassRefusing PaidProbeCandidate PaidProbeRefusal
  | PassSettled PaidProbePass
  | PassOver

text \<open>The lock of the candidate list: held by a writer that has not yet read its liveness, or has.\<close>

datatype 'r ListLock = LFree | LHeld 'r PaidProbeCandidate | LChecked PaidProbeCandidate

datatype LifecyclePhase = PhBegun | PhDrawn u64 | PhStamped u64 | PhRetired | PhCleared

datatype 'r Transition = TPublish 'r LifecyclePhase | TShutdown LifecyclePhase

type_synonym unit_id = "FieldVerdictKey \<times> u64"

text \<open>Routers share the scheduler, the candidate list, the ticket and the lifecycle state; each has its own
  stamp. \<open>lw_bound\<close> is the greatest generation a publication has drawn. The ledger is what it has been asked
  and what it has committed; \<open>lw_unanswered\<close> are requests that may still be committed though the router was not
  told: their caller stopped waiting, or the ledger answered \<open>PrUnavailable\<close>.\<close>

record ('r, 'seat, 'profile) LifeWorld =
  lw_probe :: ProbeWorld
  lw_stamp :: "'r \<Rightarrow> u64"
  lw_routers :: "'r set"
  lw_published :: 'r
  lw_ticket :: u64
  lw_bound :: u64
  lw_shut_down :: bool
  lw_transition :: "'r Transition option"
  lw_lock :: "'r ListLock"
  lw_candidates :: "PaidProbeCandidate list"
  lw_recording :: "('r \<times> PaidProbeCandidate) list"
  lw_passes :: "('r \<times> ('seat, 'profile) PassState) list"
  lw_asked :: "unit_id multiset"
  lw_unanswered :: "unit_id multiset"
  lw_units :: "unit_id multiset"
  lw_calls :: "unit_id multiset"

definition cand_id :: "PaidProbeCandidate \<Rightarrow> unit_id" where
  "cand_id c = (cd_key c, cd_incarnation c)"

definition auth_id :: "('seat, 'profile) PaidProbeAuthorization \<Rightarrow> unit_id" where
  "auth_id a = (au_key a, au_incarnation a)"

definition boot :: "'r \<Rightarrow> ('r, 'seat, 'profile) LifeWorld" where
  "boot r = \<lparr>lw_probe = probe_world_new, lw_stamp = (\<lambda>_. 1), lw_routers = {r}, lw_published = r, lw_ticket = 1,
     lw_bound = 1, lw_shut_down = False, lw_transition = None, lw_lock = LFree, lw_candidates = [],
     lw_recording = [], lw_passes = [], lw_asked = {#}, lw_unanswered = {#}, lw_units = {#}, lw_calls = {#}\<rparr>"

definition on_inner :: "(SchedulerInner \<Rightarrow> SchedulerInner) \<Rightarrow> ProbeWorld \<Rightarrow> ProbeWorld" where
  "on_inner f p = p\<lparr>pw_inner := f (pw_inner p)\<rparr>"

definition give_slot :: "ProbeWorld \<Rightarrow> ProbeWorld" where
  "give_slot p = p\<lparr>pw_inner := release_paid_slot (pw_inner p), pw_slots := pw_slots p - 1\<rparr>"

definition at_pass :: "nat \<Rightarrow> 'r \<Rightarrow> ('seat, 'profile) PassState \<Rightarrow> ('r, 'seat, 'profile) LifeWorld \<Rightarrow> bool" where
  "at_pass i r st w \<longleftrightarrow> i < length (lw_passes w) \<and> lw_passes w ! i = (r, st)"

definition to_pass :: "nat \<Rightarrow> 'r \<Rightarrow> ('seat, 'profile) PassState \<Rightarrow> ('r, 'seat, 'profile) LifeWorld \<Rightarrow> ('r, 'seat, 'profile) LifeWorld" where
  "to_pass i r st w = w\<lparr>lw_passes := (lw_passes w)[i := (r, st)]\<rparr>"


subsection \<open>The steps\<close>

inductive life :: "('r \<Rightarrow> ('seat, 'profile) ProbeView) \<Rightarrow> ('r, 'seat, 'profile) LifeWorld \<Rightarrow> ('r, 'seat, 'profile) LifeWorld \<Rightarrow> bool"
  for V :: "'r \<Rightarrow> ('seat, 'profile) ProbeView" where
  \<comment> \<open>an admitted request activates a probe through its router; the worker leases, settles and drops\<close>
  request_activates: "r \<in> lw_routers w \<Longrightarrow>
    activate_probe_plan (V r) (lw_stamp w r) key plan payload (pw_inner (lw_probe w)) = (s, out) \<Longrightarrow>
    life V w (w\<lparr>lw_probe := (lw_probe w)\<lparr>pw_inner := s, pw_asked :=
      (if out = PaQueued then (pw_asked (lw_probe w))(key := 0) else pw_asked (lw_probe w))\<rparr>\<rparr>)"
| worker_leases: "lease_due now (pw_inner (lw_probe w)) = (s, Some l) \<Longrightarrow>
    life V w (w\<lparr>lw_probe := (lw_probe w)\<lparr>pw_inner := s, pw_leases := l # pw_leases (lw_probe w),
      pw_asked := (pw_asked (lw_probe w))(ls_key l := pw_asked (lw_probe w) (ls_key l) + 1)\<rparr>\<rparr>)"
| worker_settles: "r \<in> lw_routers w \<Longrightarrow> l \<in> set (pw_leases (lw_probe w)) \<Longrightarrow>
    lease_settle (free_settlement outcome) now l (pw_inner (lw_probe w)) = (s, out) \<Longrightarrow>
    life V w (w\<lparr>lw_probe := (lw_probe w)\<lparr>pw_inner := s, pw_leases := remove1 l (pw_leases (lw_probe w))\<rparr>,
      lw_recording := (if exhausted_free_plan out \<and> paid_probe_permitted FvExhausted (pv_daily_cap (V r) (ls_key l))
        then (r, candidate_of (ls_key l) (ls_generation l) (ls_payload l)) # lw_recording w else lw_recording w)\<rparr>)"
| worker_cancelled: "l \<in> set (pw_leases (lw_probe w)) \<Longrightarrow> lease_drop now l (pw_inner (lw_probe w)) = (s, out) \<Longrightarrow>
    life V w (w\<lparr>lw_probe := (lw_probe w)\<lparr>pw_inner := s, pw_leases := remove1 l (pw_leases (lw_probe w))\<rparr>\<rparr>)"
  \<comment> \<open>recording a candidate: the list lock, the liveness reads, the store\<close>
| record_locks: "lw_lock w = LFree \<Longrightarrow> (r, c) \<in> set (lw_recording w) \<Longrightarrow>
    life V w (w\<lparr>lw_lock := LHeld r c, lw_recording := remove1 (r, c) (lw_recording w)\<rparr>)"
| requeue_locks: "lw_lock w = LFree \<Longrightarrow> at_pass i r (PassRefusing c refusal) w \<Longrightarrow> refusal_requeues refusal \<Longrightarrow>
    life V w (to_pass i r (PassSettled (PassRefused refusal)) (w\<lparr>lw_lock := LHeld r c\<rparr>))"
| writer_live: "lw_lock w = LHeld r c \<Longrightarrow> candidate_live (lw_stamp w r) (lw_ticket w) c \<Longrightarrow>
    life V w (w\<lparr>lw_lock := LChecked c\<rparr>)"
| writer_superseded: "lw_lock w = LHeld r c \<Longrightarrow> \<not> candidate_live (lw_stamp w r) (lw_ticket w) c \<Longrightarrow>
    life V w (w\<lparr>lw_lock := LFree\<rparr>)"
| writer_stores: "lw_lock w = LChecked c \<Longrightarrow>
    store_candidate c (lw_candidates w) (pw_inner (lw_probe w)) = (candidates, s) \<Longrightarrow>
    life V w (w\<lparr>lw_lock := LFree, lw_candidates := candidates, lw_probe := (lw_probe w)\<lparr>pw_inner := s\<rparr>\<rparr>)"
  \<comment> \<open>a paid pass, up to the ledger call\<close>
| pass_claims: "r \<in> lw_routers w \<Longrightarrow> lw_lock w = LFree \<Longrightarrow>
    claim_paid_probe_candidate (lw_candidates w) (pw_inner (lw_probe w)) = (rest, s, Some c) \<Longrightarrow>
    life V w (w\<lparr>lw_candidates := rest, lw_probe := (lw_probe w)\<lparr>pw_inner := s\<rparr>,
      lw_passes := lw_passes w @ [(r, PassClaimed c)]\<rparr>)"
| pass_checks: "at_pass i r (PassClaimed c) w \<Longrightarrow> authorize_checks (V r) (lw_stamp w r) c = Inr (seat, cap, profile) \<Longrightarrow>
    life V w (to_pass i r (PassChecked c seat cap profile) w)"
| pass_refused: "at_pass i r (PassClaimed c) w \<Longrightarrow> authorize_checks (V r) (lw_stamp w r) c = Inl refusal \<Longrightarrow>
    life V w (to_pass i r (PassRefusing c refusal) w)"
| pass_takes_slot: "at_pass i r (PassChecked c seat cap profile) w \<Longrightarrow>
    try_acquire_paid_slot (pw_inner (lw_probe w)) = (s, True) \<Longrightarrow>
    life V w (to_pass i r (PassSlotted c seat cap profile)
      (w\<lparr>lw_probe := (lw_probe w)\<lparr>pw_inner := s, pw_slots := pw_slots (lw_probe w) + 1\<rparr>\<rparr>))"
| pass_no_slot: "at_pass i r (PassChecked c seat cap profile) w \<Longrightarrow>
    try_acquire_paid_slot (pw_inner (lw_probe w)) = (s, False) \<Longrightarrow>
    life V w (to_pass i r (PassRefusing c RfNoConcurrencySlot) (w\<lparr>lw_probe := (lw_probe w)\<lparr>pw_inner := s\<rparr>\<rparr>))"
| pass_reserves: "at_pass i r (PassSlotted c seat cap profile) w \<Longrightarrow> is_current_publication (lw_stamp w r) (lw_ticket w) \<Longrightarrow>
    life V w (to_pass i r (PassReserving c seat cap profile) (w\<lparr>lw_asked := add_mset (cand_id c) (lw_asked w)\<rparr>))"
| pass_overtaken: "at_pass i r (PassSlotted c seat cap profile) w \<Longrightarrow> \<not> is_current_publication (lw_stamp w r) (lw_ticket w) \<Longrightarrow>
    life V w (to_pass i r (PassRefusing c RfSuperseded) (w\<lparr>lw_probe := give_slot (lw_probe w)\<rparr>))"
  \<comment> \<open>the answer of the ledger, its timeout, and what it commits when nobody waits any more\<close>
| ledger_commits: "at_pass i r (PassReserving c seat cap profile) w \<Longrightarrow>
    life V w (to_pass i r (PassCommitted \<lparr>au_key = cd_key c, au_incarnation = cd_incarnation c,
        au_payload = cd_payload c, au_seat = seat, au_profile = profile, au_used = used, au_cap = counted_cap\<rparr>)
      (w\<lparr>lw_probe := on_inner note_paid_reservation_committed (lw_probe w), lw_units := add_mset (cand_id c) (lw_units w)\<rparr>))"
| ledger_refuses: "at_pass i r (PassReserving c seat cap profile) w \<Longrightarrow> \<not> permits_paid_call reservation \<Longrightarrow>
    life V w (to_pass i r (PassRefusing c (RfAccounting reservation)) (w\<lparr>lw_probe := give_slot (lw_probe w),
      lw_unanswered := (if reservation = PrUnavailable then add_mset (cand_id c) (lw_unanswered w) else lw_unanswered w)\<rparr>))"
| reservation_times_out: "at_pass i r (PassReserving c seat cap profile) w \<Longrightarrow>
    life V w (to_pass i r (PassRefusing c RfReservationTimeout)
      (w\<lparr>lw_probe := give_slot (lw_probe w), lw_unanswered := add_mset (cand_id c) (lw_unanswered w)\<rparr>))"
| reservation_cancelled: "at_pass i r (PassReserving c seat cap profile) w \<Longrightarrow>
    life V w (to_pass i r PassOver
      (w\<lparr>lw_probe := give_slot (lw_probe w), lw_unanswered := add_mset (cand_id c) (lw_unanswered w)\<rparr>))"
| ledger_commits_late: "u \<in># lw_unanswered w \<Longrightarrow>
    life V w (w\<lparr>lw_unanswered := lw_unanswered w - {#u#}, lw_units := add_mset u (lw_units w)\<rparr>)"
  \<comment> \<open>after the acknowledgement: authorization, the gate, the one call\<close>
| pass_authorized: "at_pass i r (PassCommitted a) w \<Longrightarrow> is_current_publication (lw_stamp w r) (lw_ticket w) \<Longrightarrow>
    life V w (to_pass i r (PassAuthorized a) w)"
| commit_overtaken: "at_pass i r (PassCommitted a) w \<Longrightarrow> \<not> is_current_publication (lw_stamp w r) (lw_ticket w) \<Longrightarrow>
    life V w (to_pass i r (PassSettled (PassRefused RfSuperseded)) (w\<lparr>lw_probe := give_slot (lw_probe w)\<rparr>))"
| gate_defers: "at_pass i r (PassAuthorized a) w \<Longrightarrow>
    life V w (to_pass i r (PassSettled (PassDialed DoGateDeferred)) (w\<lparr>lw_probe := give_slot (lw_probe w)\<rparr>))"
| call_starts: "at_pass i r (PassAuthorized a) w \<Longrightarrow>
    life V w (to_pass i r (PassCalling a)
      (w\<lparr>lw_probe := on_inner note_paid_provider_call_started (lw_probe w), lw_calls := add_mset (auth_id a) (lw_calls w)\<rparr>))"
| call_ends: "at_pass i r (PassCalling a) w \<Longrightarrow>
    life V w (to_pass i r (PassSettled (PassDialed (dial_outcome pj reply))) (w\<lparr>lw_probe := give_slot (lw_probe w)\<rparr>))"
| call_cancelled: "at_pass i r (PassCalling a) w \<Longrightarrow>
    life V w (to_pass i r PassOver (w\<lparr>lw_probe := give_slot (lw_probe w)\<rparr>))"
| refusal_discards: "at_pass i r (PassRefusing c refusal) w \<Longrightarrow> \<not> refusal_requeues refusal \<Longrightarrow>
    life V w (to_pass i r (PassSettled (PassRefused refusal)) w)"
| pass_recorded: "at_pass i r (PassSettled pass) w \<Longrightarrow>
    life V w (to_pass i r PassOver (w\<lparr>lw_probe := on_inner (case paid_pass_settlement pass of None \<Rightarrow> id
      | Some settlement \<Rightarrow> record_paid_settlement settlement) (lw_probe w)\<rparr>))"
  \<comment> \<open>a rebuilt router attaches to the shared state; a publication; the shutdown\<close>
| router_carried_over: "previous \<in> lw_routers w \<Longrightarrow> r \<notin> lw_routers w \<Longrightarrow>
    life V w (w\<lparr>lw_stamp := (lw_stamp w)(r := lw_stamp w previous), lw_routers := insert r (lw_routers w)\<rparr>)"
| publication_begins: "r \<in> lw_routers w \<Longrightarrow> lw_transition w = None \<Longrightarrow> \<not> lw_shut_down w \<Longrightarrow>
    life V w (w\<lparr>lw_transition := Some (TPublish r PhBegun)\<rparr>)"
| publication_draws: "lw_transition w = Some (TPublish r PhBegun) \<Longrightarrow>
    life V w (w\<lparr>lw_ticket := lw_ticket w + 1, lw_bound := lw_ticket w + 1,
      lw_transition := Some (TPublish r (PhDrawn (lw_ticket w + 1)))\<rparr>)"
| publication_stamps: "lw_transition w = Some (TPublish r (PhDrawn g)) \<Longrightarrow>
    life V w (w\<lparr>lw_stamp := (lw_stamp w)(r := g), lw_transition := Some (TPublish r (PhStamped g))\<rparr>)"
| publication_retires: "lw_transition w = Some (TPublish r (PhStamped g)) \<Longrightarrow>
    retire_before g (pw_inner (lw_probe w)) = (s, cancelled) \<Longrightarrow>
    life V w (w\<lparr>lw_probe := (lw_probe w)\<lparr>pw_inner := s\<rparr>, lw_transition := Some (TPublish r PhRetired)\<rparr>)"
| publication_clears: "lw_transition w = Some (TPublish r PhRetired) \<Longrightarrow> lw_lock w = LFree \<Longrightarrow>
    life V w (w\<lparr>lw_candidates := [], lw_transition := Some (TPublish r PhCleared)\<rparr>)"
| publication_stores: "lw_transition w = Some (TPublish r PhCleared) \<Longrightarrow>
    life V w (w\<lparr>lw_published := r, lw_transition := None\<rparr>)"
| shutdown_begins: "lw_transition w = None \<Longrightarrow>
    life V w (w\<lparr>lw_shut_down := True, lw_transition := Some (TShutdown PhBegun)\<rparr>)"
| shutdown_draws: "lw_transition w = Some (TShutdown PhBegun) \<Longrightarrow>
    life V w (w\<lparr>lw_ticket := lw_ticket w + 1, lw_transition := Some (TShutdown (PhDrawn (lw_ticket w + 1)))\<rparr>)"
| shutdown_sweeps: "lw_transition w = Some (TShutdown (PhDrawn g)) \<Longrightarrow>
    cancel_all_and_retire_to g (pw_inner (lw_probe w)) = (s, cancelled) \<Longrightarrow>
    life V w (w\<lparr>lw_probe := (lw_probe w)\<lparr>pw_inner := s\<rparr>, lw_transition := Some (TShutdown PhRetired)\<rparr>)"
| shutdown_clears: "lw_transition w = Some (TShutdown PhRetired) \<Longrightarrow> lw_lock w = LFree \<Longrightarrow>
    life V w (w\<lparr>lw_candidates := [], lw_transition := Some (TShutdown PhCleared)\<rparr>)"
| shutdown_ends: "lw_transition w = Some (TShutdown PhCleared) \<Longrightarrow>
    life V w (w\<lparr>lw_transition := None\<rparr>)"


subsection \<open>What a world accounts for\<close>

fun pass_token :: "('seat, 'profile) PassState \<Rightarrow> unit_id multiset" where
  "pass_token (PassClaimed c) = {#cand_id c#}"
| "pass_token (PassChecked c seat cap profile) = {#cand_id c#}"
| "pass_token (PassSlotted c seat cap profile) = {#cand_id c#}"
| "pass_token (PassReserving c seat cap profile) = {#cand_id c#}"
| "pass_token (PassRefusing c refusal) = (if refusal_requeues refusal then {#cand_id c#} else {#})"
| "pass_token _ = {#}"

fun pass_owed :: "('seat, 'profile) PassState \<Rightarrow> unit_id multiset" where
  "pass_owed (PassCommitted a) = {#auth_id a#}"
| "pass_owed (PassAuthorized a) = {#auth_id a#}"
| "pass_owed _ = {#}"

fun pass_slot :: "('seat, 'profile) PassState \<Rightarrow> nat" where
  "pass_slot (PassSlotted c seat cap profile) = 1"
| "pass_slot (PassReserving c seat cap profile) = 1"
| "pass_slot (PassCommitted a) = 1"
| "pass_slot (PassAuthorized a) = 1"
| "pass_slot (PassCalling a) = 1"
| "pass_slot _ = 0"

definition over :: "(('seat, 'profile) PassState \<Rightarrow> 'm::comm_monoid_add) \<Rightarrow> ('r \<times> ('seat, 'profile) PassState) list \<Rightarrow> 'm" where
  "over f ps = sum_list (map (\<lambda>p. f (snd p)) ps)"

definition others :: "nat \<Rightarrow> 'a list \<Rightarrow> 'a list" where
  "others i ps = take i ps @ drop (Suc i) ps"

fun lock_token :: "'r ListLock \<Rightarrow> unit_id multiset" where
  "lock_token LFree = {#}"
| "lock_token (LHeld r c) = {#cand_id c#}"
| "lock_token (LChecked c) = {#cand_id c#}"

text \<open>Every place the right to spend one unit for an identity and incarnation can be, spent units included.\<close>

definition tokens :: "('r, 'seat, 'profile) LifeWorld \<Rightarrow> unit_id multiset" where
  "tokens w = {# cand_id (snd p). p \<in># mset (lw_recording w) #} + lock_token (lw_lock w)
     + {# cand_id c. c \<in># mset (lw_candidates w) #} + over pass_token (lw_passes w)
     + lw_unanswered w + lw_units w"

lemma over_simps [simp]: "over f [] = 0" "over f (ps @ qs) = over f ps + over f qs" "over f [(r, st)] = f st"
  by (simp_all add: over_def)

lemma over_split: "i < length ps \<Longrightarrow> over f ps = f (snd (ps ! i)) + over f (others i ps)"
proof -
  assume i: "i < length ps"
  have "over f ps = over f (take i ps @ ps ! i # drop (Suc i) ps)" using id_take_nth_drop [OF i] by simp
  then show ?thesis by (simp add: over_def others_def ac_simps)
qed

lemma over_update: "i < length ps \<Longrightarrow> over f (ps[i := p]) = f (snd p) + over f (others i ps)"
proof -
  assume i: "i < length ps"
  have "over f (ps[i := p]) = over f (take i ps @ p # drop (Suc i) ps)" using upd_conv_take_nth_drop [OF i] by simp
  then show ?thesis by (simp add: over_def others_def ac_simps)
qed

lemma at_pass_over: "at_pass i r st w \<Longrightarrow> over f (lw_passes w) = f st + over f (others i (lw_passes w))"
  using over_split [of i "lw_passes w" f] by (simp add: at_pass_def)

lemma to_pass_over: "at_pass i r st w \<Longrightarrow> lw_passes v = lw_passes w \<Longrightarrow>
    over f (lw_passes (to_pass i r' st' v)) = f st' + over f (others i (lw_passes w))"
  by (simp add: at_pass_def to_pass_def over_update)

lemma to_pass_simps [simp]:
  "lw_probe (to_pass i r st w) = lw_probe w" "lw_stamp (to_pass i r st w) = lw_stamp w"
  "lw_routers (to_pass i r st w) = lw_routers w" "lw_ticket (to_pass i r st w) = lw_ticket w"
  "lw_bound (to_pass i r st w) = lw_bound w" "lw_shut_down (to_pass i r st w) = lw_shut_down w"
  "lw_transition (to_pass i r st w) = lw_transition w" "lw_lock (to_pass i r st w) = lw_lock w"
  "lw_candidates (to_pass i r st w) = lw_candidates w" "lw_recording (to_pass i r st w) = lw_recording w"
  "lw_asked (to_pass i r st w) = lw_asked w" "lw_unanswered (to_pass i r st w) = lw_unanswered w"
  "lw_units (to_pass i r st w) = lw_units w" "lw_calls (to_pass i r st w) = lw_calls w"
  "lw_published (to_pass i r st w) = lw_published w"
  by (simp_all add: to_pass_def)

lemma auth_id_new [simp]: "auth_id \<lparr>au_key = cd_key c, au_incarnation = cd_incarnation c,
    au_payload = p, au_seat = seat, au_profile = profile, au_used = used, au_cap = cap\<rparr> = cand_id c"
  by (simp add: auth_id_def cand_id_def)

lemma store_candidate_tokens:
  assumes "store_candidate c cs s = (cs', s')"
  shows "{# cand_id d. d \<in># mset cs' #} \<subseteq># {# cand_id d. d \<in># mset cs #} + {#cand_id c#}"
    and "s' = s \<or> s' = note_paid_candidate_capacity_refusal s" and "set cs' \<subseteq> insert c (set cs)"
  using assms by (auto simp: store_candidate_def split: if_splits)

subsection \<open>The scheduler underneath\<close>

lemma slot_back_step: "0 < pw_slots p \<Longrightarrow> probe_step p (give_slot p)"
  using probe_step.slot_given_back [of p] by (simp add: give_slot_def)

lemma counters_step:
  "probe_step p (on_inner note_paid_reservation_committed p)"
  "probe_step p (on_inner note_paid_provider_call_started p)"
  "probe_step p (on_inner (record_paid_settlement settlement) p)"
  by (simp_all add: on_inner_def probe_step.intros)

lemma world_same [simp]: "p\<lparr>pw_inner := pw_inner p\<rparr> = p" by simp

text \<open>Every step moves the scheduler by its own steps, or sweeps it at a generation above every router's.\<close>

definition sched_moves :: "u64 \<Rightarrow> ProbeWorld \<Rightarrow> ProbeWorld \<Rightarrow> bool" where
  "sched_moves g p p' \<longleftrightarrow> p' = p \<or> probe_step p p' \<or> (\<exists>terminal. g < terminal \<and> probe_shutdown terminal p p')"

lemma sched_moves_inv: "sched_moves g p p' \<Longrightarrow> probe_inv p \<Longrightarrow> probe_inv p'"
  unfolding sched_moves_def using step_inv shutdown_inv by blast

lemma sched_moves_answered:
  "sched_moves g p p' \<Longrightarrow> probe_inv p \<Longrightarrow> answered key h (pw_inner p) \<Longrightarrow> h \<le> g \<Longrightarrow> answered key h (pw_inner p')"
  unfolding sched_moves_def using step_answered shutdown_answered by (metis le_less_trans)

lemma life_sched:
  assumes "life V w w'"
    and "\<And>g. lw_transition w = Some (TShutdown (PhDrawn g)) \<Longrightarrow> lw_bound w < g"
    and "pw_slots (lw_probe w) = over pass_slot (lw_passes w)"
  shows "sched_moves (lw_bound w) (lw_probe w) (lw_probe w')"
  using assms(1)
proof (cases rule: life.cases)
  case (request_activates r key plan payload s out)
  show ?thesis
  proof (cases "pv_capability_enabled (V r)")
    case True
    then have "activate key (lw_stamp w r) plan payload (pw_inner (lw_probe w)) = (s, out)"
      using request_activates(3) by (simp add: activate_probe_plan_def)
    from probe_step.activated [OF this] show ?thesis using request_activates(1) by (simp add: sched_moves_def)
  next
    case False
    then show ?thesis using request_activates by (auto simp: activate_probe_plan_def sched_moves_def)
  qed
next
  case (worker_settles r l outcome now s out)
  then show ?thesis using probe_step.lease_settled by (auto simp: sched_moves_def)
next
  case (writer_stores c candidates s)
  then show ?thesis using store_candidate_tokens(2) [OF writer_stores(3)] probe_step.candidate_refused [of "lw_probe w"]
    by (auto simp: sched_moves_def)
next
  case (pass_claims r rest s c)
  then show ?thesis using probe_step.candidate_claimed [of "lw_probe w"]
    by (auto simp: sched_moves_def claim_paid_probe_candidate_def split: list.splits)
next
  case (pass_takes_slot i r c seat cap profile s)
  then show ?thesis using probe_step.slot_taken [OF pass_takes_slot(3)] by (simp add: sched_moves_def)
next
  case (pass_no_slot i r c seat cap profile s)
  then show ?thesis using probe_step.slot_taken [OF pass_no_slot(3)] by (simp add: sched_moves_def)
next
  case (pass_recorded i r pass)
  then show ?thesis using counters_step(3) [of "lw_probe w"]
    by (cases "paid_pass_settlement pass") (auto simp: sched_moves_def on_inner_def)
next
  case (shutdown_sweeps g s cancelled)
  then show ?thesis using probe_shutdown.swept [of g "lw_probe w"] assms(2) [of g] by (auto simp: sched_moves_def)
next
  case (pass_overtaken i r c seat cap profile)
  have "0 < pw_slots (lw_probe w)" using assms(3) at_pass_over [OF pass_overtaken(2), of pass_slot] by simp
  from slot_back_step [OF this] show ?thesis using pass_overtaken(1) by (simp add: sched_moves_def)
next
  case (ledger_refuses i r c seat cap profile reservation)
  have "0 < pw_slots (lw_probe w)" using assms(3) at_pass_over [OF ledger_refuses(2), of pass_slot] by simp
  from slot_back_step [OF this] show ?thesis using ledger_refuses(1) by (simp add: sched_moves_def)
next
  case (reservation_times_out i r c seat cap profile)
  have "0 < pw_slots (lw_probe w)" using assms(3) at_pass_over [OF reservation_times_out(2), of pass_slot] by simp
  from slot_back_step [OF this] show ?thesis using reservation_times_out(1) by (simp add: sched_moves_def)
next
  case (reservation_cancelled i r c seat cap profile)
  have "0 < pw_slots (lw_probe w)" using assms(3) at_pass_over [OF reservation_cancelled(2), of pass_slot] by simp
  from slot_back_step [OF this] show ?thesis using reservation_cancelled(1) by (simp add: sched_moves_def)
next
  case (commit_overtaken i r a)
  have "0 < pw_slots (lw_probe w)" using assms(3) at_pass_over [OF commit_overtaken(2), of pass_slot] by simp
  from slot_back_step [OF this] show ?thesis using commit_overtaken(1) by (simp add: sched_moves_def)
next
  case (gate_defers i r a)
  have "0 < pw_slots (lw_probe w)" using assms(3) at_pass_over [OF gate_defers(2), of pass_slot] by simp
  from slot_back_step [OF this] show ?thesis using gate_defers(1) by (simp add: sched_moves_def)
next
  case (call_ends i r a pj reply)
  have "0 < pw_slots (lw_probe w)" using assms(3) at_pass_over [OF call_ends(2), of pass_slot] by simp
  from slot_back_step [OF this] show ?thesis using call_ends(1) by (simp add: sched_moves_def)
next
  case (call_cancelled i r a)
  have "0 < pw_slots (lw_probe w)" using assms(3) at_pass_over [OF call_cancelled(2), of pass_slot] by simp
  from slot_back_step [OF this] show ?thesis using call_cancelled(1) by (simp add: sched_moves_def)
next
  case (worker_leases now s l)
  from probe_step.leased [OF worker_leases(2)] show ?thesis using worker_leases(1) by (simp add: sched_moves_def)
next
  case (worker_cancelled l now s out)
  from probe_step.lease_dropped [OF worker_cancelled(2,3)] show ?thesis using worker_cancelled(1) by (simp add: sched_moves_def)
next
  case (publication_retires r g s cancelled)
  from probe_step.incarnation_retired [OF publication_retires(3)] show ?thesis using publication_retires(1) by (simp add: sched_moves_def)
qed (simp_all add: sched_moves_def counters_step)


subsection \<open>The invariant of a life\<close>

definition phases_ok :: "('r, 'seat, 'profile) LifeWorld \<Rightarrow> bool" where
  "phases_ok w \<longleftrightarrow> lw_bound w \<le> lw_ticket w \<and> (\<forall>r. lw_stamp w r \<le> lw_bound w)
     \<and> (lw_shut_down w \<and> lw_transition w = None \<longrightarrow> lw_bound w < lw_ticket w)
     \<and> (case lw_transition w of None \<Rightarrow> True
        | Some (TPublish r phase) \<Rightarrow> \<not> lw_shut_down w \<and> (case phase of
            PhDrawn g \<Rightarrow> g = lw_bound w | PhStamped g \<Rightarrow> g = lw_bound w | _ \<Rightarrow> True)
        | Some (TShutdown phase) \<Rightarrow> lw_shut_down w \<and> (phase = PhBegun \<or> lw_bound w < lw_ticket w)
            \<and> (case phase of PhDrawn g \<Rightarrow> g = lw_ticket w | _ \<Rightarrow> True))
     \<and> (lw_bound w < lw_ticket w \<longrightarrow> lw_shut_down w)"

definition gens_ok :: "u64 \<Rightarrow> ProbeWorld \<Rightarrow> bool" where
  "gens_ok g p \<longleftrightarrow> (\<forall>job \<in> set (ps_jobs (pw_inner p)). pj_generation job \<le> g) \<and> (\<forall>l \<in> set (pw_leases p). ls_generation l \<le> g)"

lemma phases_boot: "phases_ok (boot r)"
  by (simp add: phases_ok_def boot_def)

lemma phases_step: "life V w w' \<Longrightarrow> phases_ok w \<Longrightarrow> phases_ok w'"
  by (induction rule: life.induct)
    (auto simp: phases_ok_def le_SucI less_SucI split: option.splits Transition.splits LifecyclePhase.splits)

lemma bound_mono: "life V w w' \<Longrightarrow> phases_ok w \<Longrightarrow> lw_bound w \<le> lw_bound w'"
  by (induction rule: life.induct) (auto simp: phases_ok_def)

lemma ticket_mono: "life V w w' \<Longrightarrow> lw_ticket w \<le> lw_ticket w'"
  by (induction rule: life.induct) auto

lemma shutdown_phase: "phases_ok w \<Longrightarrow> lw_transition w = Some (TShutdown (PhDrawn g)) \<Longrightarrow> lw_bound w < g"
  by (auto simp: phases_ok_def)

lemma gens_mono: "gens_ok g p \<Longrightarrow> g \<le> h \<Longrightarrow> gens_ok h p"
  unfolding gens_ok_def using le_trans by blast

lemma gens_same_jobs: "gens_ok g p \<Longrightarrow> ps_jobs (pw_inner p') = ps_jobs (pw_inner p) \<Longrightarrow> set (pw_leases p') \<subseteq> set (pw_leases p)
    \<Longrightarrow> gens_ok g p'"
  by (auto simp: gens_ok_def)

lemma counters_jobs [simp]:
  "ps_jobs (note_paid_candidate_capacity_refusal s) = ps_jobs s" "ps_jobs (note_paid_candidate_claimed s) = ps_jobs s"
  "ps_jobs (note_paid_reservation_committed s) = ps_jobs s" "ps_jobs (note_paid_provider_call_started s) = ps_jobs s"
  "ps_jobs (record_paid_settlement settlement s) = ps_jobs s" "ps_jobs (release_paid_slot s) = ps_jobs s"
  by (cases settlement; simp add: note_paid_candidate_capacity_refusal_def note_paid_candidate_claimed_def
      note_paid_reservation_committed_def note_paid_provider_call_started_def release_paid_slot_def)+

lemma gens_release:
  assumes "table_ok (pw_inner p)" and "release k h q settlement now (pw_inner p) = (s, out)" and "gens_ok g p"
  shows "gens_ok g (p\<lparr>pw_inner := s, pw_leases := remove1 l (pw_leases p)\<rparr>)"
proof -
  have "pj_generation job' \<le> g" if "job' \<in> set (ps_jobs s)" for job'
    using release_rows [OF assms(1,2) that] assms(3) unfolding gens_ok_def by metis
  then show ?thesis using assms(3) set_remove1_subset [of l "pw_leases p"] unfolding gens_ok_def by auto
qed

lemma gens_step:
  assumes "life V w w'" and "phases_ok w" and "probe_inv (lw_probe w)" and "gens_ok (lw_bound w) (lw_probe w)"
  shows "gens_ok (lw_bound w') (lw_probe w')"
proof (rule gens_mono [OF _ bound_mono [OF assms(1,2)]])
  have ok: "table_ok (pw_inner (lw_probe w))" using assms(3) by (simp add: probe_inv_def)
  from assms(1) show "gens_ok (lw_bound w) (lw_probe w')"
  proof (cases rule: life.cases)
    case (request_activates r key plan payload s out)
    show ?thesis
    proof (cases "pv_capability_enabled (V r)")
      case True
      then have "activate key (lw_stamp w r) plan payload (pw_inner (lw_probe w)) = (s, out)"
        using request_activates(3) by (simp add: activate_probe_plan_def)
      from activate_table_ok [OF ok this]
      have "\<forall>job \<in> set (ps_jobs s). job \<in> set (ps_jobs (pw_inner (lw_probe w))) \<or> pj_generation job = lw_stamp w r"
        by (auto split: if_splits)
      then show ?thesis using assms(2,4) request_activates(1) by (auto simp: gens_ok_def phases_ok_def)
    next
      case False
      then show ?thesis using request_activates assms(4) by (auto simp: activate_probe_plan_def gens_ok_def)
    qed
  next
    case (worker_leases now s l)
    from worker_leases(2) obtain i where i: "i < length (ps_jobs (pw_inner (lw_probe w)))"
      and l: "ls_generation l = pj_generation (ps_jobs (pw_inner (lw_probe w)) ! i)"
      and s: "s = (set_job i ((ps_jobs (pw_inner (lw_probe w)) ! i)\<lparr>pj_phase := JInFlight, pj_lease_seq := ps_next_lease_seq (pw_inner (lw_probe w)) + 1\<rparr>) (pw_inner (lw_probe w)))
         \<lparr>ps_next_lease_seq := ps_next_lease_seq (pw_inner (lw_probe w)) + 1\<rparr>"
      by (rule lease_due_result)
    let ?job = "ps_jobs (pw_inner (lw_probe w)) ! i"
    have g: "pj_generation ?job \<le> lw_bound w" using assms(4) i by (simp add: gens_ok_def)
    have "pj_generation job \<le> lw_bound w" if "job \<in> set (ps_jobs s)" for job
      using that assms(4) g set_update_subset_insert [of "ps_jobs (pw_inner (lw_probe w))" i "?job\<lparr>pj_phase := JInFlight, pj_lease_seq := ps_next_lease_seq (pw_inner (lw_probe w)) + 1\<rparr>"]
      unfolding gens_ok_def s by auto
    then show ?thesis using g l assms(4) worker_leases(1) by (simp add: gens_ok_def)
  next
    case (worker_settles r l outcome now s out)
    then show ?thesis using gens_release [OF ok worker_settles(4) [unfolded lease_settle_def] assms(4)] by simp
  next
    case (worker_cancelled l now s out)
    then show ?thesis using gens_release [OF ok worker_cancelled(3) [unfolded lease_drop_def] assms(4)] by simp
  next
    case (writer_stores c candidates s)
    then show ?thesis using store_candidate_tokens(2) [OF writer_stores(3)] assms(4) by (auto simp: gens_ok_def)
  next
    case (pass_claims r rest s c)
    then show ?thesis using assms(4) by (auto simp: claim_paid_probe_candidate_def gens_ok_def split: list.splits)
  next
    case (pass_takes_slot i r c seat cap profile s)
    then show ?thesis using paid_slot_ok [OF ok pass_takes_slot(3)] assms(4) by (simp add: gens_ok_def)
  next
    case (pass_no_slot i r c seat cap profile s)
    then show ?thesis using paid_slot_ok [OF ok pass_no_slot(3)] assms(4) by (simp add: gens_ok_def)
  next
    case (pass_recorded i r pass)
    then show ?thesis using assms(4) by (auto simp: gens_ok_def on_inner_def split: option.splits)
  next
    case (publication_retires r g s cancelled)
    then show ?thesis using retire_before_effect [OF publication_retires(3)] assms(4) by (auto simp: gens_ok_def)
  next
    case (shutdown_sweeps g s cancelled)
    then show ?thesis using cancel_all_effect [OF shutdown_sweeps(3)] assms(4) by (simp add: gens_ok_def)
  qed (use assms(4) in \<open>simp_all add: gens_ok_def on_inner_def give_slot_def\<close>)
qed

lemma exhausted_answers:
  assumes ok: "table_ok s" and rel: "lease_settle settlement now l s = (s', out)" and ex: "exhausted_free_plan out"
  shows "answered (ls_key l) (ls_generation l) s'" and "\<not> answered (ls_key l) (ls_generation l) s"
proof -
  have r: "release (ls_key l) (ls_generation l) (ls_lease_seq l) (Some settlement) now s = (s', out)"
    using rel by (simp add: lease_settle_def)
  from ex have out: "out = RCommitted True" by (cases out) simp_all
  have "settlement = PsSpentFreeStep \<and> \<not> answered (ls_key l) (ls_generation l) s"
    using r
  proof (cases rule: release_cases)
    case (settles i)
    let ?s = "s\<lparr>ps_last_settlement := Some settlement\<rparr>"
    have "job_ok (ps_next_lease_seq s) (ps_jobs ?s ! i)" and i: "i < length (ps_jobs ?s)"
      using ok settles(1) by (simp_all add: table_ok_def)
    from settle_row_effect [OF i this(1), of "Some settlement" now s' out] settles(5) ex
    have "settlement = PsSpentFreeStep" by simp
    moreover have "ps_jobs s ! i \<in> set (ps_jobs s)" using settles(1) by simp
    then have "\<not> answered (ls_key l) (ls_generation l) s" using settles(2) by (force simp: answered_def row_id_def)
    ultimately show ?thesis by simp
  qed (use out in simp_all)
  then show "\<not> answered (ls_key l) (ls_generation l) s" "answered (ls_key l) (ls_generation l) s'"
    using terminal_answers [OF ok r [unfolded out]] by simp_all
qed


subsection \<open>The rights to spend\<close>

text \<open>Tokens move and vanish; only a settlement that spends the last free step makes one.\<close>

lemma tokens_step:
  assumes "life V w w'"
  shows "tokens w' \<subseteq># tokens w \<or> (\<exists>l settlement now s out. l \<in> set (pw_leases (lw_probe w))
    \<and> lease_settle settlement now l (pw_inner (lw_probe w)) = (s, out) \<and> exhausted_free_plan out
    \<and> pw_inner (lw_probe w') = s \<and> tokens w' = add_mset (ls_key l, ls_generation l) (tokens w))"
  using assms
proof (cases rule: life.cases)
  case (worker_settles r l outcome now s out)
  show ?thesis
  proof (cases "exhausted_free_plan out \<and> paid_probe_permitted FvExhausted (pv_daily_cap (V r) (ls_key l))")
    case True
    then have "tokens w' = add_mset (ls_key l, ls_generation l) (tokens w)"
      by (simp add: tokens_def worker_settles(1) cand_id_def candidate_of_def)
    then show ?thesis using worker_settles True by auto
  next
    case False
    then have "tokens w' = tokens w" by (auto simp: tokens_def worker_settles(1))
    then show ?thesis by simp
  qed
next
  case (writer_stores c candidates s)
  have "tokens w' \<subseteq># tokens w" using store_candidate_tokens(1) [OF writer_stores(3)] writer_stores(2)
    by (simp add: tokens_def writer_stores(1) subset_mset.add_mono ac_simps)
  then show ?thesis ..
next
  case (pass_claims r rest s c)
  then show ?thesis by (auto simp: tokens_def claim_paid_probe_candidate_def split: list.splits)
next
  case (record_locks r c)
  then have "mset (lw_recording w) = add_mset (r, c) (mset (remove1 (r, c) (lw_recording w)))" by simp
  then have "tokens w' = tokens w" by (simp add: tokens_def record_locks(1,2) image_mset_Diff)
     (metis (no_types, lifting) image_mset_add_mset snd_conv union_mset_add_mset_left)
  then show ?thesis by simp
next
  case (ledger_commits_late u)
  then have "lw_unanswered w = add_mset u (lw_unanswered w - {#u#})" by simp
  then have "tokens w' = tokens w" unfolding tokens_def ledger_commits_late(1) by simp
  then show ?thesis by simp
next
  case (publication_clears r)
  then show ?thesis by (simp add: tokens_def)
next
  case (shutdown_clears)
  then show ?thesis by (simp add: tokens_def)
next
  case (pass_checks i r c seat cap profile)
  note over_eqs = at_pass_over [OF pass_checks(2), of pass_token] to_pass_over [OF pass_checks(2), of _ pass_token]
  have "tokens w' \<subseteq># tokens w" using pass_checks over_eqs by (simp add: tokens_def ac_simps)
  then show ?thesis ..
next
  case (pass_refused i r c refusal)
  note over_eqs = at_pass_over [OF pass_refused(2), of pass_token] to_pass_over [OF pass_refused(2), of _ pass_token]
  have "tokens w' \<subseteq># tokens w" using pass_refused over_eqs by (simp add: tokens_def ac_simps)
  then show ?thesis ..
next
  case (pass_takes_slot i r c seat cap profile s)
  note over_eqs = at_pass_over [OF pass_takes_slot(2), of pass_token] to_pass_over [OF pass_takes_slot(2), of _ pass_token]
  have "tokens w' \<subseteq># tokens w" using pass_takes_slot over_eqs by (simp add: tokens_def ac_simps)
  then show ?thesis ..
next
  case (pass_no_slot i r c seat cap profile s)
  note over_eqs = at_pass_over [OF pass_no_slot(2), of pass_token] to_pass_over [OF pass_no_slot(2), of _ pass_token]
  have "tokens w' \<subseteq># tokens w" using pass_no_slot over_eqs by (simp add: tokens_def ac_simps)
  then show ?thesis ..
next
  case (pass_reserves i r c seat cap profile)
  note over_eqs = at_pass_over [OF pass_reserves(2), of pass_token] to_pass_over [OF pass_reserves(2), of _ pass_token]
  have "tokens w' \<subseteq># tokens w" using pass_reserves over_eqs by (simp add: tokens_def ac_simps)
  then show ?thesis ..
next
  case (pass_overtaken i r c seat cap profile)
  note over_eqs = at_pass_over [OF pass_overtaken(2), of pass_token] to_pass_over [OF pass_overtaken(2), of _ pass_token]
  have "tokens w' \<subseteq># tokens w" using pass_overtaken over_eqs by (simp add: tokens_def ac_simps)
  then show ?thesis ..
next
  case (ledger_commits i r c seat cap profile used counted_cap)
  note over_eqs = at_pass_over [OF ledger_commits(2), of pass_token] to_pass_over [OF ledger_commits(2), of _ pass_token]
  have "tokens w' \<subseteq># tokens w" using ledger_commits over_eqs by (simp add: tokens_def ac_simps)
  then show ?thesis ..
next
  case (ledger_refuses i r c seat cap profile reservation)
  note over_eqs = at_pass_over [OF ledger_refuses(2), of pass_token] to_pass_over [OF ledger_refuses(2), of _ pass_token]
  have "tokens w' \<subseteq># tokens w" using ledger_refuses over_eqs by (simp add: tokens_def ac_simps)
  then show ?thesis ..
next
  case (reservation_times_out i r c seat cap profile)
  note over_eqs = at_pass_over [OF reservation_times_out(2), of pass_token] to_pass_over [OF reservation_times_out(2), of _ pass_token]
  have "tokens w' \<subseteq># tokens w" using reservation_times_out over_eqs by (simp add: tokens_def ac_simps)
  then show ?thesis ..
next
  case (reservation_cancelled i r c seat cap profile)
  note over_eqs = at_pass_over [OF reservation_cancelled(2), of pass_token] to_pass_over [OF reservation_cancelled(2), of _ pass_token]
  have "tokens w' \<subseteq># tokens w" using reservation_cancelled over_eqs by (simp add: tokens_def ac_simps)
  then show ?thesis ..
next
  case (pass_authorized i r a)
  note over_eqs = at_pass_over [OF pass_authorized(2), of pass_token] to_pass_over [OF pass_authorized(2), of _ pass_token]
  have "tokens w' \<subseteq># tokens w" using pass_authorized over_eqs by (simp add: tokens_def ac_simps)
  then show ?thesis ..
next
  case (commit_overtaken i r a)
  note over_eqs = at_pass_over [OF commit_overtaken(2), of pass_token] to_pass_over [OF commit_overtaken(2), of _ pass_token]
  have "tokens w' \<subseteq># tokens w" using commit_overtaken over_eqs by (simp add: tokens_def ac_simps)
  then show ?thesis ..
next
  case (gate_defers i r a)
  note over_eqs = at_pass_over [OF gate_defers(2), of pass_token] to_pass_over [OF gate_defers(2), of _ pass_token]
  have "tokens w' \<subseteq># tokens w" using gate_defers over_eqs by (simp add: tokens_def ac_simps)
  then show ?thesis ..
next
  case (call_starts i r a)
  note over_eqs = at_pass_over [OF call_starts(2), of pass_token] to_pass_over [OF call_starts(2), of _ pass_token]
  have "tokens w' \<subseteq># tokens w" using call_starts over_eqs by (simp add: tokens_def ac_simps)
  then show ?thesis ..
next
  case (call_ends i r a pj reply)
  note over_eqs = at_pass_over [OF call_ends(2), of pass_token] to_pass_over [OF call_ends(2), of _ pass_token]
  have "tokens w' \<subseteq># tokens w" using call_ends over_eqs by (simp add: tokens_def ac_simps)
  then show ?thesis ..
next
  case (call_cancelled i r a)
  note over_eqs = at_pass_over [OF call_cancelled(2), of pass_token] to_pass_over [OF call_cancelled(2), of _ pass_token]
  have "tokens w' \<subseteq># tokens w" using call_cancelled over_eqs by (simp add: tokens_def ac_simps)
  then show ?thesis ..
next
  case (refusal_discards i r c refusal)
  note over_eqs = at_pass_over [OF refusal_discards(2), of pass_token] to_pass_over [OF refusal_discards(2), of _ pass_token]
  have "tokens w' \<subseteq># tokens w" using refusal_discards over_eqs by (simp add: tokens_def ac_simps)
  then show ?thesis ..
next
  case (pass_recorded i r pass)
  note over_eqs = at_pass_over [OF pass_recorded(2), of pass_token] to_pass_over [OF pass_recorded(2), of _ pass_token]
  have "tokens w' \<subseteq># tokens w" using pass_recorded over_eqs by (simp add: tokens_def ac_simps)
  then show ?thesis ..
next
  case (requeue_locks i r c refusal)
  note over_eqs = at_pass_over [OF requeue_locks(3), of pass_token] to_pass_over [OF requeue_locks(3), of _ pass_token]
  have "tokens w' \<subseteq># tokens w" using requeue_locks over_eqs by (simp add: tokens_def ac_simps)
  then show ?thesis ..
qed (simp_all add: tokens_def)


definition rights_ok :: "('r, 'seat, 'profile) LifeWorld \<Rightarrow> bool" where
  "rights_ok w \<longleftrightarrow> (\<forall>u. count (tokens w) u \<le> 1)
     \<and> (\<forall>u. u \<in># tokens w \<longrightarrow> answered (fst u) (snd u) (pw_inner (lw_probe w)) \<and> snd u \<le> lw_bound w)"

lemma rights_step:
  assumes step: "life V w w'" and ph: "phases_ok w" and inv: "probe_inv (lw_probe w)"
    and gens: "gens_ok (lw_bound w) (lw_probe w)" and slots: "pw_slots (lw_probe w) = over pass_slot (lw_passes w)"
    and rights: "rights_ok w"
  shows "rights_ok w'"
proof -
  have ok: "table_ok (pw_inner (lw_probe w))" using inv by (simp add: probe_inv_def)
  have mono: "lw_bound w \<le> lw_bound w'" using bound_mono [OF step ph] .
  have moves: "sched_moves (lw_bound w) (lw_probe w) (lw_probe w')"
    using life_sched [OF step shutdown_phase [OF ph] slots] .
  have keep: "answered (fst u) (snd u) (pw_inner (lw_probe w')) \<and> snd u \<le> lw_bound w'" if "u \<in># tokens w" for u
  proof -
    have "answered (fst u) (snd u) (pw_inner (lw_probe w))" and b: "snd u \<le> lw_bound w"
      using that rights unfolding rights_ok_def by blast+
    then show ?thesis using sched_moves_answered [OF moves inv _ b] mono by auto
  qed
  from tokens_step [OF step] show ?thesis
  proof
    assume sub: "tokens w' \<subseteq># tokens w"
    then have "u \<in># tokens w' \<Longrightarrow> u \<in># tokens w" for u by (rule mset_subset_eqD)
    moreover have "count (tokens w') u \<le> 1" for u
      using mset_subset_eq_count [OF sub, of u] rights unfolding rights_ok_def by (meson le_trans)
    ultimately show ?thesis using keep unfolding rights_ok_def by blast
  next
    assume "\<exists>l settlement now s out. l \<in> set (pw_leases (lw_probe w))
      \<and> lease_settle settlement now l (pw_inner (lw_probe w)) = (s, out) \<and> exhausted_free_plan out
      \<and> pw_inner (lw_probe w') = s \<and> tokens w' = add_mset (ls_key l, ls_generation l) (tokens w)"
    then obtain l settlement now s out where l: "l \<in> set (pw_leases (lw_probe w))"
      and rel: "lease_settle settlement now l (pw_inner (lw_probe w)) = (s, out)" and ex: "exhausted_free_plan out"
      and s: "pw_inner (lw_probe w') = s" and tok: "tokens w' = add_mset (ls_key l, ls_generation l) (tokens w)"
      by blast
    note ans = exhausted_answers [OF ok rel ex]
    have fresh: "(ls_key l, ls_generation l) \<notin># tokens w"
      using rights ans(2) by (auto simp: rights_ok_def)
    then have "count (tokens w) (ls_key l, ls_generation l) = 0" by (simp add: not_in_iff)
    moreover have "count (tokens w) u \<le> 1" for u using rights unfolding rights_ok_def by blast
    ultimately have "count (tokens w') u \<le> 1" for u by (cases "u = (ls_key l, ls_generation l)") (auto simp: tok)
    moreover have "ls_generation l \<le> lw_bound w'" using gens l mono by (auto simp: gens_ok_def)
    ultimately show ?thesis using keep ans(1) by (auto simp: rights_ok_def tok s)
  qed
qed

lemma slots_step:
  assumes "life V w w'" and "pw_slots (lw_probe w) = over pass_slot (lw_passes w)"
  shows "pw_slots (lw_probe w') = over pass_slot (lw_passes w')"
  using assms(1)
proof (cases rule: life.cases)
  case (pass_claims r rest s c)
  then show ?thesis using assms(2) by simp
next
  case (pass_checks i r c seat cap profile)
  note over_eqs = at_pass_over [OF pass_checks(2), of pass_slot] to_pass_over [OF pass_checks(2), of _ pass_slot]
  show ?thesis using pass_checks over_eqs assms(2) by (simp add: give_slot_def on_inner_def)
next
  case (pass_refused i r c refusal)
  note over_eqs = at_pass_over [OF pass_refused(2), of pass_slot] to_pass_over [OF pass_refused(2), of _ pass_slot]
  show ?thesis using pass_refused over_eqs assms(2) by (simp add: give_slot_def on_inner_def)
next
  case (pass_takes_slot i r c seat cap profile s)
  note over_eqs = at_pass_over [OF pass_takes_slot(2), of pass_slot] to_pass_over [OF pass_takes_slot(2), of _ pass_slot]
  show ?thesis using pass_takes_slot over_eqs assms(2) by (simp add: give_slot_def on_inner_def)
next
  case (pass_no_slot i r c seat cap profile s)
  note over_eqs = at_pass_over [OF pass_no_slot(2), of pass_slot] to_pass_over [OF pass_no_slot(2), of _ pass_slot]
  show ?thesis using pass_no_slot over_eqs assms(2) by (simp add: give_slot_def on_inner_def)
next
  case (pass_reserves i r c seat cap profile)
  note over_eqs = at_pass_over [OF pass_reserves(2), of pass_slot] to_pass_over [OF pass_reserves(2), of _ pass_slot]
  show ?thesis using pass_reserves over_eqs assms(2) by (simp add: give_slot_def on_inner_def)
next
  case (pass_overtaken i r c seat cap profile)
  note over_eqs = at_pass_over [OF pass_overtaken(2), of pass_slot] to_pass_over [OF pass_overtaken(2), of _ pass_slot]
  show ?thesis using pass_overtaken over_eqs assms(2) by (simp add: give_slot_def on_inner_def)
next
  case (ledger_commits i r c seat cap profile used counted_cap)
  note over_eqs = at_pass_over [OF ledger_commits(2), of pass_slot] to_pass_over [OF ledger_commits(2), of _ pass_slot]
  show ?thesis using ledger_commits over_eqs assms(2) by (simp add: give_slot_def on_inner_def)
next
  case (ledger_refuses i r c seat cap profile reservation)
  note over_eqs = at_pass_over [OF ledger_refuses(2), of pass_slot] to_pass_over [OF ledger_refuses(2), of _ pass_slot]
  show ?thesis using ledger_refuses over_eqs assms(2) by (simp add: give_slot_def on_inner_def)
next
  case (reservation_times_out i r c seat cap profile)
  note over_eqs = at_pass_over [OF reservation_times_out(2), of pass_slot] to_pass_over [OF reservation_times_out(2), of _ pass_slot]
  show ?thesis using reservation_times_out over_eqs assms(2) by (simp add: give_slot_def on_inner_def)
next
  case (reservation_cancelled i r c seat cap profile)
  note over_eqs = at_pass_over [OF reservation_cancelled(2), of pass_slot] to_pass_over [OF reservation_cancelled(2), of _ pass_slot]
  show ?thesis using reservation_cancelled over_eqs assms(2) by (simp add: give_slot_def on_inner_def)
next
  case (pass_authorized i r a)
  note over_eqs = at_pass_over [OF pass_authorized(2), of pass_slot] to_pass_over [OF pass_authorized(2), of _ pass_slot]
  show ?thesis using pass_authorized over_eqs assms(2) by (simp add: give_slot_def on_inner_def)
next
  case (commit_overtaken i r a)
  note over_eqs = at_pass_over [OF commit_overtaken(2), of pass_slot] to_pass_over [OF commit_overtaken(2), of _ pass_slot]
  show ?thesis using commit_overtaken over_eqs assms(2) by (simp add: give_slot_def on_inner_def)
next
  case (gate_defers i r a)
  note over_eqs = at_pass_over [OF gate_defers(2), of pass_slot] to_pass_over [OF gate_defers(2), of _ pass_slot]
  show ?thesis using gate_defers over_eqs assms(2) by (simp add: give_slot_def on_inner_def)
next
  case (call_starts i r a)
  note over_eqs = at_pass_over [OF call_starts(2), of pass_slot] to_pass_over [OF call_starts(2), of _ pass_slot]
  show ?thesis using call_starts over_eqs assms(2) by (simp add: give_slot_def on_inner_def)
next
  case (call_ends i r a pj reply)
  note over_eqs = at_pass_over [OF call_ends(2), of pass_slot] to_pass_over [OF call_ends(2), of _ pass_slot]
  show ?thesis using call_ends over_eqs assms(2) by (simp add: give_slot_def on_inner_def)
next
  case (call_cancelled i r a)
  note over_eqs = at_pass_over [OF call_cancelled(2), of pass_slot] to_pass_over [OF call_cancelled(2), of _ pass_slot]
  show ?thesis using call_cancelled over_eqs assms(2) by (simp add: give_slot_def on_inner_def)
next
  case (refusal_discards i r c refusal)
  note over_eqs = at_pass_over [OF refusal_discards(2), of pass_slot] to_pass_over [OF refusal_discards(2), of _ pass_slot]
  show ?thesis using refusal_discards over_eqs assms(2) by (simp add: give_slot_def on_inner_def)
next
  case (pass_recorded i r pass)
  note over_eqs = at_pass_over [OF pass_recorded(2), of pass_slot] to_pass_over [OF pass_recorded(2), of _ pass_slot]
  show ?thesis using pass_recorded over_eqs assms(2) by (simp add: give_slot_def on_inner_def)
next
  case (requeue_locks i r c refusal)
  note over_eqs = at_pass_over [OF requeue_locks(3), of pass_slot] to_pass_over [OF requeue_locks(3), of _ pass_slot]
  show ?thesis using requeue_locks over_eqs assms(2) by (simp add: give_slot_def on_inner_def)
qed (use assms(2) in simp_all)

lemma drop_one: "add_mset u X \<subseteq># Y \<Longrightarrow> X \<subseteq># Y"
  using subset_mset.order_trans [of X "add_mset u X" Y] by simp

definition calls_ok :: "('r, 'seat, 'profile) LifeWorld \<Rightarrow> bool" where
  "calls_ok w \<longleftrightarrow> lw_calls w + over pass_owed (lw_passes w) \<subseteq># lw_units w"

lemma calls_step:
  assumes "life V w w'" and "calls_ok w"
  shows "calls_ok w'"
  using assms(1)
proof (cases rule: life.cases)
  case (pass_claims r rest s c)
  then show ?thesis using assms(2) by (simp add: calls_ok_def)
next
  case (ledger_commits_late u)
  then show ?thesis using assms(2) by (simp add: calls_ok_def subset_mset.le_add_same_cancel1 subset_mset.order_trans [of _ "lw_units w"])
next
  case (pass_checks i r c seat cap profile)
  note over_eqs = at_pass_over [OF pass_checks(2), of pass_owed] to_pass_over [OF pass_checks(2), of _ pass_owed]
  show ?thesis using pass_checks over_eqs assms(2) by (simp add: calls_ok_def ac_simps)
next
  case (pass_refused i r c refusal)
  note over_eqs = at_pass_over [OF pass_refused(2), of pass_owed] to_pass_over [OF pass_refused(2), of _ pass_owed]
  show ?thesis using pass_refused over_eqs assms(2) by (simp add: calls_ok_def ac_simps)
next
  case (pass_takes_slot i r c seat cap profile s)
  note over_eqs = at_pass_over [OF pass_takes_slot(2), of pass_owed] to_pass_over [OF pass_takes_slot(2), of _ pass_owed]
  show ?thesis using pass_takes_slot over_eqs assms(2) by (simp add: calls_ok_def ac_simps)
next
  case (pass_no_slot i r c seat cap profile s)
  note over_eqs = at_pass_over [OF pass_no_slot(2), of pass_owed] to_pass_over [OF pass_no_slot(2), of _ pass_owed]
  show ?thesis using pass_no_slot over_eqs assms(2) by (simp add: calls_ok_def ac_simps)
next
  case (pass_reserves i r c seat cap profile)
  note over_eqs = at_pass_over [OF pass_reserves(2), of pass_owed] to_pass_over [OF pass_reserves(2), of _ pass_owed]
  show ?thesis using pass_reserves over_eqs assms(2) by (simp add: calls_ok_def ac_simps)
next
  case (pass_overtaken i r c seat cap profile)
  note over_eqs = at_pass_over [OF pass_overtaken(2), of pass_owed] to_pass_over [OF pass_overtaken(2), of _ pass_owed]
  show ?thesis using pass_overtaken over_eqs assms(2) by (simp add: calls_ok_def ac_simps)
next
  case (ledger_commits i r c seat cap profile used counted_cap)
  note over_eqs = at_pass_over [OF ledger_commits(2), of pass_owed] to_pass_over [OF ledger_commits(2), of _ pass_owed]
  show ?thesis using ledger_commits over_eqs assms(2) by (simp add: calls_ok_def ac_simps)
next
  case (ledger_refuses i r c seat cap profile reservation)
  note over_eqs = at_pass_over [OF ledger_refuses(2), of pass_owed] to_pass_over [OF ledger_refuses(2), of _ pass_owed]
  show ?thesis using ledger_refuses over_eqs assms(2) by (simp add: calls_ok_def ac_simps)
next
  case (reservation_times_out i r c seat cap profile)
  note over_eqs = at_pass_over [OF reservation_times_out(2), of pass_owed] to_pass_over [OF reservation_times_out(2), of _ pass_owed]
  show ?thesis using reservation_times_out over_eqs assms(2) by (simp add: calls_ok_def ac_simps)
next
  case (reservation_cancelled i r c seat cap profile)
  note over_eqs = at_pass_over [OF reservation_cancelled(2), of pass_owed] to_pass_over [OF reservation_cancelled(2), of _ pass_owed]
  show ?thesis using reservation_cancelled over_eqs assms(2) by (simp add: calls_ok_def ac_simps)
next
  case (pass_authorized i r a)
  note over_eqs = at_pass_over [OF pass_authorized(2), of pass_owed] to_pass_over [OF pass_authorized(2), of _ pass_owed]
  show ?thesis using pass_authorized over_eqs assms(2) by (simp add: calls_ok_def ac_simps)
next
  case (commit_overtaken i r a)
  note over_eqs = at_pass_over [OF commit_overtaken(2), of pass_owed] to_pass_over [OF commit_overtaken(2), of _ pass_owed]
  show ?thesis using commit_overtaken over_eqs assms(2) by (auto simp: calls_ok_def ac_simps dest: drop_one)
next
  case (gate_defers i r a)
  note over_eqs = at_pass_over [OF gate_defers(2), of pass_owed] to_pass_over [OF gate_defers(2), of _ pass_owed]
  show ?thesis using gate_defers over_eqs assms(2) by (auto simp: calls_ok_def ac_simps dest: drop_one)
next
  case (call_starts i r a)
  note over_eqs = at_pass_over [OF call_starts(2), of pass_owed] to_pass_over [OF call_starts(2), of _ pass_owed]
  show ?thesis using call_starts over_eqs assms(2) by (simp add: calls_ok_def ac_simps)
next
  case (call_ends i r a pj reply)
  note over_eqs = at_pass_over [OF call_ends(2), of pass_owed] to_pass_over [OF call_ends(2), of _ pass_owed]
  show ?thesis using call_ends over_eqs assms(2) by (simp add: calls_ok_def ac_simps)
next
  case (call_cancelled i r a)
  note over_eqs = at_pass_over [OF call_cancelled(2), of pass_owed] to_pass_over [OF call_cancelled(2), of _ pass_owed]
  show ?thesis using call_cancelled over_eqs assms(2) by (simp add: calls_ok_def ac_simps)
next
  case (refusal_discards i r c refusal)
  note over_eqs = at_pass_over [OF refusal_discards(2), of pass_owed] to_pass_over [OF refusal_discards(2), of _ pass_owed]
  show ?thesis using refusal_discards over_eqs assms(2) by (simp add: calls_ok_def ac_simps)
next
  case (pass_recorded i r pass)
  note over_eqs = at_pass_over [OF pass_recorded(2), of pass_owed] to_pass_over [OF pass_recorded(2), of _ pass_owed]
  show ?thesis using pass_recorded over_eqs assms(2) by (simp add: calls_ok_def ac_simps)
next
  case (requeue_locks i r c refusal)
  note over_eqs = at_pass_over [OF requeue_locks(3), of pass_owed] to_pass_over [OF requeue_locks(3), of _ pass_owed]
  show ?thesis using requeue_locks over_eqs assms(2) by (simp add: calls_ok_def ac_simps)
qed (use assms(2) in \<open>simp_all add: calls_ok_def\<close>)


subsection \<open>The candidate list across generations\<close>

text \<open>Between the draw of a generation and the clear of the list.\<close>

definition clearing :: "'r Transition option \<Rightarrow> bool" where
  "clearing t \<longleftrightarrow> (case t of None \<Rightarrow> False
     | Some (TPublish r phase) \<Rightarrow> phase \<noteq> PhBegun \<and> phase \<noteq> PhCleared
     | Some (TShutdown phase) \<Rightarrow> phase \<noteq> PhBegun \<and> phase \<noteq> PhCleared)"

definition fresh_ok :: "('r, 'seat, 'profile) LifeWorld \<Rightarrow> bool" where
  "fresh_ok w \<longleftrightarrow> clearing (lw_transition w) \<or>
     (\<forall>c \<in> set (lw_candidates w). cd_incarnation c = lw_ticket w)
     \<and> (\<forall>c. lw_lock w = LChecked c \<longrightarrow> cd_incarnation c = lw_ticket w)"

lemma fresh_step: "life V w w' \<Longrightarrow> fresh_ok w \<Longrightarrow> fresh_ok w'"
proof (induction rule: life.induct)
  case (writer_stores w c candidates s)
  then show ?case using store_candidate_tokens(3) [OF writer_stores(2)] by (auto simp: fresh_ok_def)
next
  case (pass_claims r w rest s c)
  then show ?case by (auto simp: fresh_ok_def claim_paid_probe_candidate_def split: list.splits)
qed (auto simp: fresh_ok_def clearing_def candidate_live_def is_current_publication_def)

definition life_ok :: "('r, 'seat, 'profile) LifeWorld \<Rightarrow> bool" where
  "life_ok w \<longleftrightarrow> phases_ok w \<and> probe_inv (lw_probe w) \<and> gens_ok (lw_bound w) (lw_probe w)
     \<and> pw_slots (lw_probe w) = over pass_slot (lw_passes w) \<and> rights_ok w \<and> calls_ok w \<and> fresh_ok w"

lemma life_ok_boot: "life_ok (boot r)"
proof -
  have "gens_ok g probe_world_new" for g by (simp add: gens_ok_def probe_world_new_def scheduler_new_def)
  moreover have "pw_slots probe_world_new = 0" by (simp add: probe_world_new_def)
  ultimately show ?thesis unfolding life_ok_def
    by (intro conjI phases_boot) (simp_all add: boot_def new_world_inv rights_ok_def tokens_def calls_ok_def fresh_ok_def)
qed

lemma life_ok_step: "life V w w' \<Longrightarrow> life_ok w \<Longrightarrow> life_ok w'"
  unfolding life_ok_def
  using phases_step gens_step slots_step rights_step calls_step fresh_step
    sched_moves_inv [OF life_sched [OF _ shutdown_phase]] by metis

lemma life_ok_reached: "(life V)\<^sup>*\<^sup>* (boot r) w \<Longrightarrow> life_ok w"
  by (induction rule: rtranclp_induct) (auto intro: life_ok_boot life_ok_step)

end
