(* ===== verification/Probe_Properties.thy ===== *)
theory Probe_Properties
  imports Probe_Scheduler
begin

text \<open>
  What the probe scheduler promises, over every interleaving of its operations: the bound on simultaneous
  background work across reloads, the silence about a settled identity, the bound on how often one
  activation is asked, the fate of a lease whose incarnation was retired, and the payload a probe may
  carry. The worked example below is the concrete run the witnesses use.
\<close>

subsection \<open>A worked example\<close>

definition demo_field_key :: FieldVerdictKey where
  "demo_field_key = \<lparr>fvk_state_key = ''m'', fvk_capability_key = ''field:thinking.display'', fvk_provider_kind = ''anthropic''\<rparr>"

definition demo_payload :: ProbePayload where
  "demo_payload = \<lparr>pl_field_path = ''thinking.display'', pl_field_value = ''omitted'', pl_client_betas = [],
     pl_operator_betas = [], pl_originating_claude_code_session = False\<rparr>"

definition demo_job :: "JobPhase \<Rightarrow> u64 \<Rightarrow> Job" where
  "demo_job phase seq = \<lparr>pj_key = demo_field_key, pj_generation = 1, pj_payload = demo_payload, pj_plan = [VCountTokens],
     pj_plan_cursor = 0, pj_attempts = 0, pj_deferrals = 0, pj_phase = phase, pj_lease_seq = seq\<rparr>"

definition demo_queued :: SchedulerInner where
  "demo_queued = scheduler_new\<lparr>ps_jobs := [demo_job JQueued 0], ps_counters := counters_new\<lparr>activations_total := 1\<rparr>\<rparr>"

definition demo_running :: SchedulerInner where
  "demo_running = demo_queued\<lparr>ps_jobs := [demo_job JInFlight 1], ps_next_lease_seq := 1\<rparr>"

definition demo_probe_lease :: ProbeLease where
  "demo_probe_lease = \<lparr>ls_key = demo_field_key, ls_payload = demo_payload, ls_generation = 1,
     ls_validator = VCountTokens, ls_lease_seq = 1\<rparr>"

definition demo_probe_world :: ProbeWorld where
  "demo_probe_world = \<lparr>pw_inner = demo_running, pw_leases = [demo_probe_lease], pw_slots = 0,
     pw_asked = (\<lambda>_. 0)(demo_field_key := 1)\<rparr>"

lemmas demo_defs = demo_queued_def demo_running_def demo_probe_lease_def demo_probe_world_def demo_job_def scheduler_new_def

lemma demo_activate: "activate demo_field_key 1 (validator_plan True) demo_payload scheduler_new = (demo_queued, PaQueued)"
  by (simp add: activate_def demo_defs validator_plan_def job_position_def probe_bounds counters_new_def update_counters_def)

lemma demo_lease_due: "lease_due 0 demo_queued = (demo_running, Some demo_probe_lease)"
  by (simp add: lease_due_def demo_defs slots_in_flight_def count_phase_def probe_bounds leasable_def
      job_validator_def set_job_def counters_new_def)

lemma demo_reached: "probe_step\<^sup>*\<^sup>* probe_world_new demo_probe_world"
proof -
  let ?w = "probe_world_new\<lparr>pw_inner := demo_queued\<rparr>"
  have "probe_step probe_world_new (probe_world_new\<lparr>pw_inner := demo_queued,
      pw_asked := (if PaQueued = PaQueued then (pw_asked probe_world_new)(demo_field_key := 0) else pw_asked probe_world_new)\<rparr>)"
    by (rule probe_step.activated [where plan = "validator_plan True" and generation = 1 and payload = demo_payload])
       (simp only: probe_world_new_def ProbeWorld.select_convs demo_activate)
  moreover have "(pw_asked probe_world_new)(demo_field_key := 0) = pw_asked probe_world_new" by (simp add: probe_world_new_def fun_eq_iff)
  ultimately have "probe_step probe_world_new ?w" by simp
  moreover have "probe_step ?w (?w\<lparr>pw_inner := demo_running, pw_leases := demo_probe_lease # pw_leases ?w,
      pw_asked := (pw_asked ?w)(ls_key demo_probe_lease := pw_asked ?w (ls_key demo_probe_lease) + 1)\<rparr>)"
    by (rule probe_step.leased [where now = 0]) (simp add: demo_lease_due)
  moreover have "?w\<lparr>pw_inner := demo_running, pw_leases := demo_probe_lease # pw_leases ?w,
      pw_asked := (pw_asked ?w)(ls_key demo_probe_lease := pw_asked ?w (ls_key demo_probe_lease) + 1)\<rparr> = demo_probe_world"
    by (simp add: demo_probe_world_def probe_world_new_def demo_probe_lease_def)
  ultimately show ?thesis by (metis rtranclp.rtrancl_refl rtranclp.rtrancl_into_rtrancl)
qed

lemma demo_life: "(life_step 1)\<^sup>*\<^sup>* probe_world_new demo_probe_world"
  using demo_reached by (rule rtranclp_mono [THEN predicate2D, rotated]) (auto simp: life_step_def)

definition demo_settled :: SchedulerInner where
  "demo_settled = fst (lease_settle PsResolved 5 demo_probe_lease demo_running)"

lemma demo_settle: "lease_settle PsResolved 5 demo_probe_lease demo_running = (demo_settled, RCommitted False)"
  by (simp add: demo_settled_def lease_settle_def release_def settlement_stale_def job_position_def demo_defs settle_row_def)

subsection \<open>The bound on background work\<close>

text \<open>C19. Background work stays inside one ceiling across reloads. Whatever sequence of activations, leases,
  settlements, dropped leases, retirements, paid acquisitions and releases has run since the scheduler
  was created, the leases its workers still hold and the paid slots together are what the scheduler
  counts as in flight, and there are at most two of them; a running row always has its outstanding lease,
  so when nothing is held nothing is counted and no slot is stranded. The table holds at most 16 jobs,
  one per identity, and at most 256 terminal markers, and no lease ever names the paid validator.\<close>
theorem probe_load_bounded:
  assumes "probe_step\<^sup>*\<^sup>* probe_world_new w"
  shows "length (pw_leases w) + pw_slots w = slots_in_flight (pw_inner w)
    \<and> slots_in_flight (pw_inner w) \<le> 2
    \<and> {# row_id job. job \<in># mset (filter (\<lambda>job. pj_phase job = JInFlight) (ps_jobs (pw_inner w))) #}
        = {# lease_id l. l \<in># mset (pw_leases w) #}
    \<and> length (ps_jobs (pw_inner w)) \<le> 16 \<and> distinct (map pj_key (ps_jobs (pw_inner w)))
    \<and> length (ps_tombstones (pw_inner w)) \<le> 256
    \<and> list_all (\<lambda>l. is_free (ls_validator l)) (pw_leases w)"
proof -
  from reached_inv [OF assms] have inv: "probe_inv w" and ids: "running_ids (pw_inner w) = lease_ids w" by simp_all
  have "size (running_ids (pw_inner w)) = length (pw_leases w)" unfolding ids by (simp add: lease_ids_def)
  then have "length (pw_leases w) + pw_slots w = slots_in_flight (pw_inner w)"
    using inv by (simp add: slots_running probe_inv_def)
  then show ?thesis using inv ids
    by (simp add: probe_inv_def table_ok_def probe_bounds list_all_iff running_ids_def lease_ids_def)
qed

lemma probe_load_bounded_witness:
  "length (pw_leases demo_probe_world) + pw_slots demo_probe_world = slots_in_flight (pw_inner demo_probe_world)
    \<and> length (pw_leases demo_probe_world) = 1"
  using probe_load_bounded [OF demo_reached] by (simp add: demo_probe_world_def)

subsection \<open>A settled identity is not asked again\<close>

text \<open>C20. Once a probe of an identity has settled for good, nothing asks it again within the incarnation. Take
  any world the scheduler can reach, and a lease of it whose settlement (or drop) commits without being a
  deferral and resolves, abandons, spends the last free step, or leaves the identity without a row (the
  attempt cap). Then after any further life of the scheduler - activations, leases, late settlements,
  saturation of the markers, reloads, even a shutdown at a later generation - an activation of the
  identity at that generation or an earlier one is refused, and every row of the identity, hence every
  lease of it, belongs to a later generation.\<close>
theorem settled_identity_not_asked_again:
  assumes "(life_step (ls_generation l))\<^sup>*\<^sup>* probe_world_new w"
    and "release (ls_key l) (ls_generation l) (ls_lease_seq l) settlement now (pw_inner w) = (s, RCommitted free_spent)"
    and "l \<in> set (pw_leases w)" and "settlement \<noteq> Some PsDeferred"
    and "settlement = Some PsResolved \<or> settlement = Some PsAbandoned \<or> free_spent \<or> job_position (ls_key l) s = None"
    and "(life_step (ls_generation l))\<^sup>*\<^sup>* (w\<lparr>pw_inner := s, pw_leases := remove1 l (pw_leases w)\<rparr>) w'"
    and "generation \<le> ls_generation l"
  shows "snd (activate (ls_key l) generation plan payload (pw_inner w')) \<in> {PaRetired, PaTombstoned}
    \<and> list_all (\<lambda>job. pj_key job = ls_key l \<longrightarrow> ls_generation l < pj_generation job) (ps_jobs (pw_inner w'))"
proof -
  from life_inv [OF assms(1)] have inv: "probe_inv w" .
  then have ok: "table_ok (pw_inner w)" by (simp add: probe_inv_def)
  let ?w = "w\<lparr>pw_inner := s, pw_leases := remove1 l (pw_leases w)\<rparr>"
  have "answered (ls_key l) (ls_generation l) (pw_inner ?w)" using terminal_answers [OF ok assms(2,4,5)] by simp
  from life_answered [OF assms(6) released_inv [OF inv assms(3,2)] this]
  have ans: "answered (ls_key l) (ls_generation l) (pw_inner w')" .
  then show ?thesis using settled_refuses [OF _ assms(7)] by (simp add: answered_def list_all_iff)
qed

lemma settled_identity_not_asked_again_witness:
  "snd (activate demo_field_key 1 [VCountTokens] demo_payload demo_settled) \<in> {PaRetired, PaTombstoned}"
proof -
  have l: "ls_generation demo_probe_lease = 1" "ls_key demo_probe_lease = demo_field_key" by (simp_all add: demo_probe_lease_def)
  let ?w = "demo_probe_world\<lparr>pw_inner := demo_settled, pw_leases := remove1 demo_probe_lease (pw_leases demo_probe_world)\<rparr>"
  have "snd (activate (ls_key demo_probe_lease) 1 [VCountTokens] demo_payload (pw_inner ?w)) \<in> {PaRetired, PaTombstoned}
      \<and> list_all (\<lambda>job. pj_key job = ls_key demo_probe_lease \<longrightarrow> ls_generation demo_probe_lease < pj_generation job) (ps_jobs (pw_inner ?w))"
  proof (rule settled_identity_not_asked_again [where w = demo_probe_world and l = demo_probe_lease and settlement = "Some PsResolved"
      and now = 5 and s = demo_settled and free_spent = False])
    show "(life_step (ls_generation demo_probe_lease))\<^sup>*\<^sup>* probe_world_new demo_probe_world" using demo_life l by simp
    show "release (ls_key demo_probe_lease) (ls_generation demo_probe_lease) (ls_lease_seq demo_probe_lease)
        (Some PsResolved) 5 (pw_inner demo_probe_world) = (demo_settled, RCommitted False)"
      using demo_settle by (simp add: lease_settle_def demo_probe_world_def)
  qed (simp_all add: l demo_probe_world_def)
  then show ?thesis by (simp add: l)
qed

subsection \<open>How often one activation is asked\<close>

text \<open>C21. One activation is leased at most ten times. In every life of the scheduler an identity has been leased
  at most \<open>PROBE_MAX_ATTEMPTS + PROBE_MAX_DEFERRALS - 1\<close> times since it was last queued, however its
  settlements mixed failures, timeouts, spent steps, drops and deferrals; and a settlement that leaves the
  row in the table backs it off by at least one minute and at most one hour.\<close>
theorem activation_leases_bounded:
  assumes "(life_step g)\<^sup>*\<^sup>* probe_world_new w"
  shows "pw_asked w key \<le> 10
    \<and> (\<forall>k gen q settlement now s free_spent job.
        release k gen q settlement now (pw_inner w) = (s, RCommitted free_spent) \<and> job \<in> set (ps_jobs s) \<and> pj_key job = k
        \<longrightarrow> (\<exists>due. pj_phase job = JBackingOff due \<and> now + from_mins 1 \<le> due \<and> due \<le> now + from_hours 1))"
proof -
  from life_inv [OF assms] have inv: "probe_inv w" .
  then have ok: "table_ok (pw_inner w)" by (simp add: probe_inv_def)
  have "pw_asked w key \<le> 10" using inv by (simp add: probe_inv_def MAX_LEASES_def probe_bounds)
  moreover have "\<exists>due. pj_phase job = JBackingOff due \<and> now + from_mins 1 \<le> due \<and> due \<le> now + from_hours 1"
    if rel: "release k gen q settlement now (pw_inner w) = (s, RCommitted free_spent)"
      and job: "job \<in> set (ps_jobs s)" "pj_key job = k" for k gen q settlement now s free_spent job
    using rel
  proof (cases rule: release_cases)
    case (settles i)
    from settled_row_waits [OF ok settles job] show ?thesis
      by (simp add: PROBE_BACKOFF_BASE_def PROBE_BACKOFF_CEILING_def)
  qed simp_all
  ultimately show ?thesis by blast
qed

lemma activation_leases_bounded_witness: "pw_asked demo_probe_world demo_field_key \<le> 10 \<and> pw_asked demo_probe_world demo_field_key = 1"
  using activation_leases_bounded [OF demo_life, of demo_field_key] by (simp add: demo_probe_world_def)

subsection \<open>Retirement of running work\<close>

text \<open>C22. A reload does not free the slot of a probe that is still running. Retiring the incarnation of an
  outstanding lease leaves the work in flight as it was, so nothing is admitted on top of it; when the
  lease then settles, whatever it answers, it is reported stale, leaves no marker and records no
  settlement, but it does move the table: its row goes and exactly its slot comes back.\<close>
theorem retired_lease_frees_only_its_slot:
  assumes "probe_step\<^sup>*\<^sup>* probe_world_new w" and "l \<in> set (pw_leases w)"
    and "ls_generation l < generation" and "retire_before generation (pw_inner w) = (s, cancelled)"
    and "lease_settle settlement now l s = (s', out)"
  shows "slots_in_flight s = slots_in_flight (pw_inner w) \<and> out = RStale
    \<and> slots_in_flight s' + 1 = slots_in_flight s \<and> length (ps_jobs s') + 1 = length (ps_jobs s)
    \<and> job_position (ls_key l) s' = None \<and> ps_tombstones s' = ps_tombstones s
    \<and> ps_last_settlement s' = ps_last_settlement s"
proof -
  from reached_inv [OF assms(1)] have inv: "probe_inv w" and ids: "running_ids (pw_inner w) = lease_ids w" by simp_all
  then have okw: "table_ok (pw_inner w)" by (simp add: probe_inv_def)
  from retire_before_ok [OF okw assms(4)] have ok: "table_ok s" and run: "running_ids s = running_ids (pw_inner w)"
    and slots: "slots_in_flight s = slots_in_flight (pw_inner w)" by simp_all
  have mem: "(ls_key l, ls_generation l, ls_lease_seq l) \<in># running_ids s"
    using assms(2) run ids by (auto simp: lease_ids_def lease_id_def intro: rev_image_eqI)
  have dist: "distinct (map pj_key (ps_jobs s))" using ok by (simp add: table_ok_def)
  have rel: "release (ls_key l) (ls_generation l) (ls_lease_seq l) (Some settlement) now s = (s', out)"
    using assms(5) by (simp add: lease_settle_def)
  have retired: "ls_generation l < ps_retired_below s"
    using retire_before_effect [OF assms(4)] assms(3) by (simp add: less_max_iff_disj)
  from rel show ?thesis
  proof (cases rule: release_cases)
    case stale
    then show ?thesis using stale_not_running [OF _ dist] mem by blast
  next
    case (swept i)
    have key: "pj_key (ps_jobs s ! i) = ls_key l" using swept(2) by (simp add: row_id_def)
    have "size (running_ids s') + 1 = size (running_ids s)"
      unfolding release_running [OF ok rel] using multi_member_split [OF mem] by auto
    moreover have "job_position (ls_key l) s' = None"
      using swap_remove_distinct(2) [OF swept(1) dist] key
      by (auto simp: swept(6) job_position_def position_None intro: rev_image_eqI)
    ultimately show ?thesis using swept(1,5) slots by (simp add: swept(6) slots_running swap_remove_length)
  next
    case (settles i)
    then show ?thesis using retired by simp
  qed
qed

lemma retired_lease_frees_only_its_slot_witness:
  "slots_in_flight (fst (lease_settle PsResolved 5 demo_probe_lease (fst (retire_before 2 demo_running)))) + 1
    = slots_in_flight (fst (retire_before 2 demo_running))
   \<and> ps_tombstones (fst (lease_settle PsResolved 5 demo_probe_lease (fst (retire_before 2 demo_running)))) = []"
proof -
  have "demo_probe_lease \<in> set (pw_leases demo_probe_world)" "ls_generation demo_probe_lease < 2"
    by (simp_all add: demo_probe_world_def demo_probe_lease_def)
  from retired_lease_frees_only_its_slot [OF demo_reached this prod.collapse [symmetric] prod.collapse [symmetric], of PsResolved 5]
  show ?thesis by (simp add: demo_probe_world_def demo_running_def demo_queued_def scheduler_new_def retire_before_def Let_def update_counters_def)
qed

subsection \<open>The payload of a probe\<close>

text \<open>A payload is captured whole or not at all. Capture succeeds exactly when the value is one of the three
  modelled display values, each beta source has at most 24 raw tokens, every token is, once trimmed,
  non-empty, at most 64 bytes of UTF-8 and free of commas and control characters, and the kept tokens of
  both sources together are at most 512 bytes; then each source is exactly its trimmed tokens, once each,
  in order of first occurrence, the two sources never merged.\<close>
lemma payload_captured_exactly:
  "probe_payload_new field_path field_value client operator session = Some p \<longleftrightarrow>
     field_value \<in> {''summarized'', ''omitted'', ''updates''}
     \<and> length client \<le> 24 \<and> length operator \<le> 24
     \<and> list_all (\<lambda>t. trim_unicode t \<noteq> [] \<and> utf8_len (trim_unicode t) \<le> 64
          \<and> 44 \<notin> set (trim_unicode t) \<and> list_all (\<lambda>c. \<not> char_is_control c) (trim_unicode t)) (client @ operator)
     \<and> sum_list (map utf8_len (first_occurrences (map trim_unicode client))) +
        sum_list (map utf8_len (first_occurrences (map trim_unicode operator))) \<le> 512
     \<and> p = \<lparr>pl_field_path = field_path, pl_field_value = field_value,
          pl_client_betas = first_occurrences (map trim_unicode client),
          pl_operator_betas = first_occurrences (map trim_unicode operator),
          pl_originating_claude_code_session = session\<rparr>"
proof -
  have ctl: "list_all (\<lambda>c. \<not> char_is_control c) t \<Longrightarrow> 13 \<notin> set t \<and> 10 \<notin> set t" for t
    by (auto simp: list_all_iff char_is_control_def)
  have tok: "is_retainable_beta t \<longleftrightarrow> t \<noteq> [] \<and> utf8_len t \<le> 64 \<and> 44 \<notin> set t \<and> list_all (\<lambda>c. \<not> char_is_control c) t" for t
    using ctl [of t] by (auto simp: is_retainable_beta_def PROBE_BETA_MAX_TOKEN_BYTES_def list_ex_iff)
  have src: "bounded_source raw = Some out \<longleftrightarrow> length raw \<le> 24 \<and> list_all (\<lambda>t. is_retainable_beta (trim_unicode t)) raw
      \<and> out = first_occurrences (map trim_unicode raw)" for raw out
    by (auto simp: bounded_source_spec PROBE_BETA_MAX_COUNT_PER_SOURCE_def list_all_iff)
  have modelled: "list_ex (\<lambda>v. v = field_value) PROBE_MODELED_DISPLAY_VALUES \<longleftrightarrow> field_value \<in> {''summarized'', ''omitted'', ''updates''}"
    by (auto simp: PROBE_MODELED_DISPLAY_VALUES_def)
  have "probe_payload_new field_path field_value client operator session = Some p \<longleftrightarrow>
     field_value \<in> {''summarized'', ''omitted'', ''updates''} \<and> (\<exists>c s. bounded_source client = Some c \<and> bounded_source operator = Some s
       \<and> sum_list (map utf8_len (c @ s)) \<le> 512 \<and> p = \<lparr>pl_field_path = field_path, pl_field_value = field_value,
          pl_client_betas = c, pl_operator_betas = s, pl_originating_claude_code_session = session\<rparr>)"
    unfolding probe_payload_new_def modelled PROBE_BETA_MAX_TOTAL_BYTES_def by (auto split: option.splits)
  then show ?thesis by (auto simp: src tok list_all_append)
qed

end
