(* ===== verification/Paid_Properties.thy ===== *)
theory Paid_Properties
  imports Paid_Probe Probe_Properties
begin

text \<open>
  What the life of paid probes promises over every interleaving of requests, workers, passes, the ledger,
  publications and the shutdown: one unit and one call for an identity and incarnation, candidates that
  never outlive their generation, and passes that a publication or a shutdown overtakes.
\<close>

subsection \<open>A worked example\<close>

definition demo_view :: "(nat, nat) ProbeView" where
  "demo_view = \<lparr>pv_capability_enabled = True, pv_seat_for = (\<lambda>_. Some 0), pv_provider_name = (\<lambda>_. ''anthropic''),
     pv_attributable = (\<lambda>_. True), pv_daily_cap = (\<lambda>_. 1), pv_profile = (\<lambda>_. Some 1025), pv_ledger = True\<rparr>"

lemma demo_shutdown: "(life (\<lambda>_. demo_view))\<^sup>*\<^sup>* (boot (0::nat)) ((boot 0)\<lparr>lw_shut_down := True, lw_ticket := 2,
    lw_probe := probe_world_new\<lparr>pw_inner := fst (cancel_all_and_retire_to 2 scheduler_new)\<rparr>\<rparr>)"
proof -
  let ?w0 = "boot (0::nat) :: (nat, nat, nat) LifeWorld"
  let ?w1 = "?w0\<lparr>lw_shut_down := True, lw_transition := Some (TShutdown PhBegun)\<rparr>"
  let ?w2 = "?w1\<lparr>lw_ticket := 2, lw_transition := Some (TShutdown (PhDrawn 2))\<rparr>"
  let ?w3 = "?w2\<lparr>lw_probe := (lw_probe ?w2)\<lparr>pw_inner := fst (cancel_all_and_retire_to 2 scheduler_new)\<rparr>,
    lw_transition := Some (TShutdown PhRetired)\<rparr>"
  let ?w4 = "?w3\<lparr>lw_candidates := [], lw_transition := Some (TShutdown PhCleared)\<rparr>"
  let ?V = "\<lambda>_::nat. demo_view"
  have "life ?V ?w0 ?w1" by (rule life.shutdown_begins) (simp add: boot_def)
  moreover have "life ?V ?w1 (?w1\<lparr>lw_ticket := lw_ticket ?w1 + 1, lw_transition := Some (TShutdown (PhDrawn (lw_ticket ?w1 + 1)))\<rparr>)"
    by (rule life.shutdown_draws) simp
  then have "life ?V ?w1 ?w2" by (simp add: boot_def numeral_2_eq_2)
  moreover have "life ?V ?w2 ?w3"
    by (rule life.shutdown_sweeps [where g = 2]) (simp_all add: boot_def probe_world_new_def prod_eq_iff)
  moreover have "life ?V ?w3 ?w4" by (rule life.shutdown_clears) (simp_all add: boot_def)
  moreover have "life ?V ?w4 (?w4\<lparr>lw_transition := None\<rparr>)" by (rule life.shutdown_ends) simp
  ultimately have "(life ?V)\<^sup>*\<^sup>* ?w0 (?w4\<lparr>lw_transition := None\<rparr>)"
    by (meson converse_rtranclp_into_rtranclp rtranclp.rtrancl_refl)
  then show ?thesis by (simp add: boot_def probe_world_new_def)
qed

text \<open>One identity from its admitted request to its paid call.\<close>

definition demo_life_world :: "ProbeWorld \<Rightarrow> (nat \<times> PaidProbeCandidate) list \<Rightarrow> nat ListLock \<Rightarrow> PaidProbeCandidate list
    \<Rightarrow> (nat \<times> (nat, nat) PassState) list \<Rightarrow> unit_id multiset \<Rightarrow> unit_id multiset \<Rightarrow> unit_id multiset \<Rightarrow> (nat, nat, nat) LifeWorld" where
  "demo_life_world p recording lock candidates passes asked units calls = (boot 0)\<lparr>lw_probe := p, lw_recording := recording,
     lw_lock := lock, lw_candidates := candidates, lw_passes := passes, lw_asked := asked, lw_units := units, lw_calls := calls\<rparr>"

definition demo_candidate :: PaidProbeCandidate where
  "demo_candidate = candidate_of demo_field_key 1 demo_payload"

definition demo_authorization :: "(nat, nat) PaidProbeAuthorization" where
  "demo_authorization = \<lparr>au_key = cd_key demo_candidate, au_incarnation = cd_incarnation demo_candidate,
     au_payload = cd_payload demo_candidate, au_seat = 0, au_profile = 1025, au_used = 1, au_cap = 1\<rparr>"

definition demo_spent :: SchedulerInner where
  "demo_spent = fst (lease_settle PsSpentFreeStep 5 demo_probe_lease demo_running)"

definition demo_idle :: ProbeWorld where
  "demo_idle = demo_probe_world\<lparr>pw_inner := note_paid_candidate_claimed demo_spent, pw_leases := []\<rparr>"

definition demo_slotted :: ProbeWorld where
  "demo_slotted = demo_idle\<lparr>pw_inner := fst (try_acquire_paid_slot (pw_inner demo_idle)), pw_slots := 1\<rparr>"

lemma demo_spend: "lease_settle PsSpentFreeStep 5 demo_probe_lease demo_running = (demo_spent, RCommitted True)"
  by (simp add: demo_spent_def lease_settle_def release_def settlement_stale_def job_position_def demo_defs settle_row_def job_validator_def)

lemma demo_spent_jobs: "ps_jobs demo_spent = []" "ps_paid_slots_held demo_spent = 0"
  by (simp_all add: demo_spent_def lease_settle_def release_def settlement_stale_def job_position_def demo_defs settle_row_def
      job_validator_def swap_remove_def)

lemma demo_run_settled:
  "(life (\<lambda>_. demo_view))\<^sup>*\<^sup>* (boot 0)
     (demo_life_world (demo_probe_world\<lparr>pw_inner := demo_spent, pw_leases := []\<rparr>) [(0, demo_candidate)] LFree [] [] {#} {#} {#})"
proof -
  let ?V = "\<lambda>_::nat. demo_view"
  let ?p1 = "probe_world_new\<lparr>pw_inner := demo_queued\<rparr>"
  have zero: "(\<lambda>_. 0::nat)(demo_field_key := 0) = (\<lambda>_. 0)" by (simp add: fun_eq_iff)
  have "life ?V (boot 0) (demo_life_world ?p1 [] LFree [] [] {#} {#} {#})"
    using life.request_activates [of 0 "boot 0" ?V demo_field_key "validator_plan True" demo_payload demo_queued PaQueued]
    by (simp add: boot_def probe_world_new_def activate_probe_plan_def demo_view_def demo_activate [simplified] demo_life_world_def zero)
  moreover have "life ?V (demo_life_world ?p1 [] LFree [] [] {#} {#} {#}) (demo_life_world demo_probe_world [] LFree [] [] {#} {#} {#})"
    using life.worker_leases [of 0 "demo_life_world ?p1 [] LFree [] [] {#} {#} {#}" demo_running demo_probe_lease ?V]
    by (simp add: demo_life_world_def boot_def demo_lease_due demo_probe_world_def probe_world_new_def)
       (simp add: demo_probe_lease_def)
  moreover have "life ?V (demo_life_world demo_probe_world [] LFree [] [] {#} {#} {#})
      (demo_life_world (demo_probe_world\<lparr>pw_inner := demo_spent, pw_leases := []\<rparr>) [(0, demo_candidate)] LFree [] [] {#} {#} {#})"
    using life.worker_settles [of 0 "demo_life_world demo_probe_world [] LFree [] [] {#} {#} {#}" demo_probe_lease
      "Some FvInconclusive" 5 demo_spent "RCommitted True" ?V]
    by (simp add: demo_life_world_def demo_spend demo_probe_world_def boot_def demo_view_def paid_probe_permitted_def)
       (simp add: demo_probe_lease_def demo_candidate_def)
  ultimately show ?thesis by (meson converse_rtranclp_into_rtranclp rtranclp.rtrancl_refl)
qed

lemma demo_idle_facts: "pw_slots demo_idle = 0" "slots_in_flight (pw_inner demo_idle) = 0" "snd (try_acquire_paid_slot (pw_inner demo_idle)) = True"
proof -
  show s: "slots_in_flight (pw_inner demo_idle) = 0"
    using demo_spent_jobs by (simp add: demo_idle_def slots_in_flight_def count_phase_def note_paid_candidate_claimed_def)
  then show "snd (try_acquire_paid_slot (pw_inner demo_idle)) = True" by (simp add: try_acquire_paid_slot_def probe_bounds)
qed (simp add: demo_idle_def demo_probe_world_def)

lemmas demo_step_simps = demo_life_world_def boot_def at_pass_def to_pass_def

lemma demo_run_reserving:
  "(life (\<lambda>_. demo_view))\<^sup>*\<^sup>* (boot 0) (demo_life_world (demo_slotted) [] LFree [] [(0, PassReserving demo_candidate 0 1 1025)] {#cand_id demo_candidate#} {#} {#})"
proof -
  let ?V = "\<lambda>_::nat. demo_view"
  let ?w0 = "demo_life_world (demo_probe_world\<lparr>pw_inner := demo_spent, pw_leases := []\<rparr>) [(0, demo_candidate)] LFree [] [] {#} {#} {#}"
  let ?w1 = "demo_life_world (demo_probe_world\<lparr>pw_inner := demo_spent, pw_leases := []\<rparr>) [] (LHeld 0 demo_candidate) [] [] {#} {#} {#}"
  let ?w2 = "demo_life_world (demo_probe_world\<lparr>pw_inner := demo_spent, pw_leases := []\<rparr>) [] (LChecked demo_candidate) [] [] {#} {#} {#}"
  let ?w3 = "demo_life_world (demo_probe_world\<lparr>pw_inner := demo_spent, pw_leases := []\<rparr>) [] LFree [demo_candidate] [] {#} {#} {#}"
  let ?w4 = "demo_life_world (demo_idle) [] LFree [] [(0, PassClaimed demo_candidate)] {#} {#} {#}"
  let ?w5 = "demo_life_world (demo_idle) [] LFree [] [(0, PassChecked demo_candidate 0 1 1025)] {#} {#} {#}"
  let ?w6 = "demo_life_world (demo_slotted) [] LFree [] [(0, PassSlotted demo_candidate 0 1 1025)] {#} {#} {#}"
  let ?w7 = "demo_life_world (demo_slotted) [] LFree [] [(0, PassReserving demo_candidate 0 1 1025)] {#cand_id demo_candidate#} {#} {#}"
  have "life ?V ?w0 ?w1"
    using life.record_locks [of "?w0" 0 demo_candidate ?V] by (simp add: demo_step_simps)
  moreover have "life ?V ?w1 ?w2"
    using life.writer_live [of "?w1" 0 demo_candidate ?V] by (simp add: demo_step_simps candidate_live_def is_current_publication_def demo_candidate_def candidate_of_def)
  moreover have "life ?V ?w2 ?w3"
    using life.writer_stores [of "?w2" demo_candidate "[demo_candidate]" demo_spent ?V] by (simp add: demo_step_simps store_candidate_def probe_bounds demo_probe_world_def)
  moreover have "life ?V ?w3 ?w4"
    using life.pass_claims [of 0 "?w3" "[]" "note_paid_candidate_claimed demo_spent" demo_candidate ?V] by (simp add: demo_step_simps claim_paid_probe_candidate_def demo_idle_def demo_probe_world_def)
  moreover have "life ?V ?w4 ?w5"
    using life.pass_checks [of 0 0 demo_candidate "?w4" ?V 0 1 1025] by (simp add: demo_step_simps authorize_checks_def demo_view_def demo_candidate_def candidate_of_def)
  moreover have "life ?V ?w5 ?w6"
    using life.pass_takes_slot [of 0 0 demo_candidate 0 1 1025 "?w5" "fst (try_acquire_paid_slot (pw_inner demo_idle))" ?V] by (simp add: demo_step_simps prod_eq_iff demo_idle_facts demo_slotted_def)
  moreover have "life ?V ?w6 ?w7"
    using life.pass_reserves [of 0 0 demo_candidate 0 1 1025 "?w6" ?V] by (simp add: demo_step_simps is_current_publication_def)
  ultimately have "(life ?V)\<^sup>*\<^sup>* ?w0 ?w7" by (meson converse_rtranclp_into_rtranclp rtranclp.rtrancl_refl)
  with demo_run_settled show ?thesis by (rule rtranclp_trans)
qed

lemma demo_run_calling:
  "(life (\<lambda>_. demo_view))\<^sup>*\<^sup>* (boot 0) (demo_life_world (on_inner note_paid_provider_call_started (on_inner note_paid_reservation_committed demo_slotted)) [] LFree [] [(0, PassCalling demo_authorization)] {#cand_id demo_candidate#} {#cand_id demo_candidate#} {#cand_id demo_candidate#})"
proof -
  let ?V = "\<lambda>_::nat. demo_view"
  let ?w7 = "demo_life_world (demo_slotted) [] LFree [] [(0, PassReserving demo_candidate 0 1 1025)] {#cand_id demo_candidate#} {#} {#}"
  let ?w8 = "demo_life_world (on_inner note_paid_reservation_committed demo_slotted) [] LFree [] [(0, PassCommitted demo_authorization)] {#cand_id demo_candidate#} {#cand_id demo_candidate#} {#}"
  let ?w9 = "demo_life_world (on_inner note_paid_reservation_committed demo_slotted) [] LFree [] [(0, PassAuthorized demo_authorization)] {#cand_id demo_candidate#} {#cand_id demo_candidate#} {#}"
  let ?w10 = "demo_life_world (on_inner note_paid_provider_call_started (on_inner note_paid_reservation_committed demo_slotted)) [] LFree [] [(0, PassCalling demo_authorization)] {#cand_id demo_candidate#} {#cand_id demo_candidate#} {#cand_id demo_candidate#}"
  have "life ?V ?w7 ?w8"
    using life.ledger_commits [of 0 0 demo_candidate 0 1 1025 "?w7" ?V 1 1] by (simp add: demo_step_simps demo_authorization_def)
  moreover have "life ?V ?w8 ?w9"
    using life.pass_authorized [of 0 0 demo_authorization "?w8" ?V] by (simp add: demo_step_simps is_current_publication_def)
  moreover have "life ?V ?w9 ?w10"
    using life.call_starts [of 0 0 demo_authorization "?w9" ?V] by (simp add: demo_step_simps demo_authorization_def)
  ultimately have "(life ?V)\<^sup>*\<^sup>* ?w7 ?w10" by (meson converse_rtranclp_into_rtranclp rtranclp.rtrancl_refl)
  with demo_run_reserving show ?thesis by (rule rtranclp_trans)
qed

subsection \<open>One unit and one call\<close>

text \<open>C23. Money is spent at most once. Whatever the interleaving of requests, workers, cancelled and timed-out
  passes, requeues, late commits of the ledger, reloads and shutdowns, for every identity and every
  incarnation the ledger has committed at most one unit and at most as many provider calls were started
  as units committed; and once the unit is committed, no candidate of that identity and incarnation is
  left on the list, about to be recorded, or in the hands of a pass that could still reserve for it.\<close>
theorem paid_unit_at_most_once:
  assumes "(life V)\<^sup>*\<^sup>* (boot r) w"
  shows "count (lw_units w) u \<le> 1 \<and> count (lw_calls w) u \<le> count (lw_units w) u
    \<and> (0 < count (lw_units w) u \<longrightarrow> u \<notin> cand_id ` set (lw_candidates w) \<and> u \<notin> (cand_id \<circ> snd) ` set (lw_recording w)
        \<and> list_all (\<lambda>p. u \<notin># pass_token (snd p)) (lw_passes w))"
proof -
  from life_ok_reached [OF assms] have rights: "rights_ok w" and calls: "calls_ok w" by (simp_all add: life_ok_def)
  have one: "count (tokens w) u \<le> 1" using rights unfolding rights_ok_def by blast
  then have "count (lw_units w) u \<le> 1" by (simp add: tokens_def)
  moreover have "count (lw_calls w) u \<le> count (lw_units w) u"
    using mset_subset_eq_count [OF calls [unfolded calls_ok_def], of u] by simp
  moreover have "u \<notin> cand_id ` set (lw_candidates w) \<and> u \<notin> (cand_id \<circ> snd) ` set (lw_recording w)
      \<and> list_all (\<lambda>p. u \<notin># pass_token (snd p)) (lw_passes w)" if "0 < count (lw_units w) u"
  proof -
    from that one have zero: "count {# cand_id c. c \<in># mset (lw_candidates w) #} u = 0"
      "count {# cand_id (snd p). p \<in># mset (lw_recording w) #} u = 0" "count (over pass_token (lw_passes w)) u = 0"
      unfolding tokens_def count_union by linarith+
    have "count (pass_token (snd p)) u = 0" if "p \<in> set (lw_passes w)" for p
    proof -
      from that obtain i where "i < length (lw_passes w)" "p = lw_passes w ! i" by (auto simp: in_set_conv_nth)
      then show ?thesis using zero(3) over_split [of i "lw_passes w" pass_token] by simp
    qed
    then show ?thesis using zero(1,2) by (auto simp: count_eq_zero_iff list_all_iff)
  qed
  ultimately show ?thesis by blast
qed

lemma paid_unit_at_most_once_witness:
  "count (lw_calls (demo_life_world (on_inner note_paid_provider_call_started (on_inner note_paid_reservation_committed demo_slotted)) [] LFree [] [(0, PassCalling demo_authorization)] {#cand_id demo_candidate#} {#cand_id demo_candidate#} {#cand_id demo_candidate#})) (cand_id demo_candidate) = 1
   \<and> count (lw_units (demo_life_world (on_inner note_paid_provider_call_started (on_inner note_paid_reservation_committed demo_slotted)) [] LFree [] [(0, PassCalling demo_authorization)] {#cand_id demo_candidate#} {#cand_id demo_candidate#} {#cand_id demo_candidate#})) (cand_id demo_candidate) \<le> 1"
  using paid_unit_at_most_once [OF demo_run_calling, of "cand_id demo_candidate"] by (simp add: demo_life_world_def)

subsection \<open>Candidates of the live generation\<close>

definition published_ok :: "('r, 'seat, 'profile) LifeWorld \<Rightarrow> bool" where
  "published_ok w \<longleftrightarrow> lw_published w \<in> lw_routers w \<and> length (lw_candidates w) \<le> PROBE_QUEUE_DEPTH
     \<and> (case lw_transition w of None \<Rightarrow> \<not> lw_shut_down w \<longrightarrow> lw_stamp w (lw_published w) = lw_ticket w
        | Some (TPublish r phase) \<Rightarrow> r \<in> lw_routers w \<and> (case phase of
            PhBegun \<Rightarrow> True | PhDrawn g \<Rightarrow> g = lw_ticket w | PhStamped g \<Rightarrow> lw_stamp w r = lw_ticket w
          | PhRetired \<Rightarrow> lw_stamp w r = lw_ticket w | PhCleared \<Rightarrow> lw_stamp w r = lw_ticket w)
        | Some (TShutdown phase) \<Rightarrow> lw_shut_down w)"

lemma published_step: "life V w w' \<Longrightarrow> published_ok w \<Longrightarrow> published_ok w'"
proof (induction rule: life.induct)
  case (writer_stores w c candidates s)
  then show ?case
    by (auto simp: published_ok_def store_candidate_def split: if_splits option.splits Transition.splits LifecyclePhase.splits)
next
  case (pass_claims r w rest s c)
  then show ?case
    by (auto simp: published_ok_def claim_paid_probe_candidate_def split: list.splits option.splits Transition.splits LifecyclePhase.splits)
next
  case (router_carried_over previous w r)
  then show ?case
    by (auto simp: published_ok_def split: option.splits Transition.splits LifecyclePhase.splits)
qed (auto simp: published_ok_def split: option.splits Transition.splits LifecyclePhase.splits)

lemma published_reached: "(life V)\<^sup>*\<^sup>* (boot r) w \<Longrightarrow> published_ok w"
  by (induction rule: rtranclp_induct) (simp_all add: published_step, simp add: published_ok_def boot_def)

lemma distinct_countI:
  assumes "\<And>u. count (mset xs) u \<le> 1"
  shows "distinct xs"
  unfolding distinct_count_atmost_1
proof
  fix u
  have "count (mset xs) u = 0 \<longleftrightarrow> u \<notin> set xs" by (metis count_eq_zero_iff set_mset_mset)
  then show "count (mset xs) u = (if u \<in> set xs then 1 else 0)" using assms [of u] by (auto simp: le_Suc_eq)
qed

lemma candidates_fresh: "life_ok w \<Longrightarrow> lw_transition w = None \<Longrightarrow> \<forall>c \<in> set (lw_candidates w). cd_incarnation c = lw_ticket w"
  by (simp add: life_ok_def fresh_ok_def clearing_def)

lemma candidates_listed_after_shutdown:
  assumes ok: "life_ok w" and "lw_transition w = None" and "lw_shut_down w"
  shows "lw_candidates w = []"
proof (rule ccontr)
  assume "lw_candidates w \<noteq> []"
  then obtain c where c: "c \<in> set (lw_candidates w)" by (cases "lw_candidates w") auto
  then have "cand_id c \<in># tokens w" by (auto simp: tokens_def)
  then have "cd_incarnation c \<le> lw_bound w" using ok by (force simp: life_ok_def rights_ok_def cand_id_def)
  moreover have "lw_bound w < lw_ticket w" using ok assms(2,3) by (simp add: life_ok_def phases_ok_def)
  ultimately show False using candidates_fresh [OF ok assms(2)] c by simp
qed

text \<open>C24. No candidate outlives its generation. In every reachable world where no publication or shutdown is
  in progress, the published router is the current one (unless the program has shut down), every
  candidate on the list was recorded under exactly the current generation, the list is free of
  duplicates and holds at most 16; after a shutdown it is empty. So a payload captured under one
  configuration is never dialled under the next.\<close>
theorem candidates_of_live_generation:
  assumes "(life V)\<^sup>*\<^sup>* (boot r) w" and "lw_transition w = None"
  shows "list_all (\<lambda>c. cd_incarnation c = lw_ticket w) (lw_candidates w) \<and> distinct (map cand_id (lw_candidates w))
    \<and> length (lw_candidates w) \<le> 16
    \<and> (if lw_shut_down w then lw_candidates w = [] else lw_stamp w (lw_published w) = lw_ticket w)"
proof -
  from life_ok_reached [OF assms(1)] have ok: "life_ok w" .
  note fresh = candidates_fresh [OF ok assms(2)]
  have rights: "rights_ok w" using ok by (simp add: life_ok_def)
  have "count (mset (map cand_id (lw_candidates w))) u \<le> 1" for u
  proof -
    have "count (tokens w) u \<le> 1" using rights unfolding rights_ok_def by blast
    then show ?thesis by (simp add: tokens_def)
  qed
  then have dist: "distinct (map cand_id (lw_candidates w))" by (rule distinct_countI)
  have "lw_shut_down w \<Longrightarrow> lw_candidates w = []" using candidates_listed_after_shutdown [OF ok assms(2)] .
  then show ?thesis using fresh dist published_reached [OF assms(1)] assms(2)
    by (auto simp: list_all_iff published_ok_def PROBE_QUEUE_DEPTH_def)
qed

lemma candidates_of_live_generation_witness:
  "lw_stamp (boot (0::nat) :: (nat, nat, nat) LifeWorld) 0 = 1"
  using candidates_of_live_generation [of "\<lambda>_::nat. demo_view" 0 "boot 0"] by (simp add: boot_def)


subsection \<open>Overtaken by a publication\<close>

text \<open>The states of a pass that has asked the ledger for nothing, and those with no permission to call.\<close>

fun not_asked :: "('seat, 'profile) PassState \<Rightarrow> bool" where
  "not_asked (PassReserving c seat cap profile) = False"
| "not_asked (PassCommitted a) = False"
| "not_asked (PassAuthorized a) = False"
| "not_asked (PassCalling a) = False"
| "not_asked _ = True"

fun not_permitted :: "('seat, 'profile) PassState \<Rightarrow> bool" where
  "not_permitted (PassAuthorized a) = False"
| "not_permitted (PassCalling a) = False"
| "not_permitted _ = True"

definition stays :: "nat \<Rightarrow> 'r \<Rightarrow> ('r, 'seat, 'profile) LifeWorld \<Rightarrow> ('r, 'seat, 'profile) LifeWorld \<Rightarrow> bool" where
  "stays i r w w' \<longleftrightarrow> i < length (lw_passes w') \<and> fst (lw_passes w' ! i) = r
     \<and> (not_asked (snd (lw_passes w ! i)) \<longrightarrow> not_asked (snd (lw_passes w' ! i)))
     \<and> (not_permitted (snd (lw_passes w ! i)) \<longrightarrow> not_permitted (snd (lw_passes w' ! i)))"

lemma stays_refl: "i < length (lw_passes w) \<Longrightarrow> fst (lw_passes w ! i) = r \<Longrightarrow> stays i r w w"
  by (simp add: stays_def)

lemma stays_trans: "stays i r w v \<Longrightarrow> stays i r v u \<Longrightarrow> stays i r w u"
  by (simp add: stays_def)

lemma stays_to_pass:
  assumes "at_pass j q st w" and "lw_passes v = lw_passes w" and "i < length (lw_passes w)" and "fst (lw_passes w ! i) = r"
    and "not_asked st \<Longrightarrow> q = r \<Longrightarrow> not_asked st'" and "not_permitted st \<Longrightarrow> q = r \<Longrightarrow> not_permitted st'"
  shows "stays i r w (to_pass j q st' v)"
  using assms by (cases "i = j") (auto simp: stays_def to_pass_def at_pass_def)

lemma superseded_stays:
  assumes "life V w w'" and "i < length (lw_passes w)" and "fst (lw_passes w ! i) = r" and "lw_stamp w r \<noteq> lw_ticket w"
  shows "stays i r w w'"
  using assms(1)
proof (cases rule: life.cases)
  case (pass_claims q rest s c)
  then show ?thesis using assms(2,3) by (simp add: stays_def nth_append)
next
  case (pass_checks j q c seat cap profile)
  show ?thesis unfolding pass_checks(1)
    by (rule stays_to_pass [OF pass_checks(2) _ assms(2,3)]) (use pass_checks assms(4) in \<open>auto simp: is_current_publication_def\<close>)
next
  case (pass_refused j q c refusal)
  show ?thesis unfolding pass_refused(1)
    by (rule stays_to_pass [OF pass_refused(2) _ assms(2,3)]) (use pass_refused assms(4) in \<open>auto simp: is_current_publication_def\<close>)
next
  case (pass_takes_slot j q c seat cap profile s)
  show ?thesis unfolding pass_takes_slot(1)
    by (rule stays_to_pass [OF pass_takes_slot(2) _ assms(2,3)]) (use pass_takes_slot assms(4) in \<open>auto simp: is_current_publication_def\<close>)
next
  case (pass_no_slot j q c seat cap profile s)
  show ?thesis unfolding pass_no_slot(1)
    by (rule stays_to_pass [OF pass_no_slot(2) _ assms(2,3)]) (use pass_no_slot assms(4) in \<open>auto simp: is_current_publication_def\<close>)
next
  case (pass_reserves j q c seat cap profile)
  show ?thesis unfolding pass_reserves(1)
    by (rule stays_to_pass [OF pass_reserves(2) _ assms(2,3)]) (use pass_reserves assms(4) in \<open>auto simp: is_current_publication_def\<close>)
next
  case (pass_overtaken j q c seat cap profile)
  show ?thesis unfolding pass_overtaken(1)
    by (rule stays_to_pass [OF pass_overtaken(2) _ assms(2,3)]) (use pass_overtaken assms(4) in \<open>auto simp: is_current_publication_def\<close>)
next
  case (ledger_commits j q c seat cap profile used counted_cap)
  show ?thesis unfolding ledger_commits(1)
    by (rule stays_to_pass [OF ledger_commits(2) _ assms(2,3)]) (use ledger_commits assms(4) in \<open>auto simp: is_current_publication_def\<close>)
next
  case (ledger_refuses j q c seat cap profile reservation)
  show ?thesis unfolding ledger_refuses(1)
    by (rule stays_to_pass [OF ledger_refuses(2) _ assms(2,3)]) (use ledger_refuses assms(4) in \<open>auto simp: is_current_publication_def\<close>)
next
  case (reservation_times_out j q c seat cap profile)
  show ?thesis unfolding reservation_times_out(1)
    by (rule stays_to_pass [OF reservation_times_out(2) _ assms(2,3)]) (use reservation_times_out assms(4) in \<open>auto simp: is_current_publication_def\<close>)
next
  case (reservation_cancelled j q c seat cap profile)
  show ?thesis unfolding reservation_cancelled(1)
    by (rule stays_to_pass [OF reservation_cancelled(2) _ assms(2,3)]) (use reservation_cancelled assms(4) in \<open>auto simp: is_current_publication_def\<close>)
next
  case (pass_authorized j q a)
  show ?thesis unfolding pass_authorized(1)
    by (rule stays_to_pass [OF pass_authorized(2) _ assms(2,3)]) (use pass_authorized assms(4) in \<open>auto simp: is_current_publication_def\<close>)
next
  case (commit_overtaken j q a)
  show ?thesis unfolding commit_overtaken(1)
    by (rule stays_to_pass [OF commit_overtaken(2) _ assms(2,3)]) (use commit_overtaken assms(4) in \<open>auto simp: is_current_publication_def\<close>)
next
  case (gate_defers j q a)
  show ?thesis unfolding gate_defers(1)
    by (rule stays_to_pass [OF gate_defers(2) _ assms(2,3)]) (use gate_defers assms(4) in \<open>auto simp: is_current_publication_def\<close>)
next
  case (call_starts j q a)
  show ?thesis unfolding call_starts(1)
    by (rule stays_to_pass [OF call_starts(2) _ assms(2,3)]) (use call_starts assms(4) in \<open>auto simp: is_current_publication_def\<close>)
next
  case (call_ends j q a pj reply)
  show ?thesis unfolding call_ends(1)
    by (rule stays_to_pass [OF call_ends(2) _ assms(2,3)]) (use call_ends assms(4) in \<open>auto simp: is_current_publication_def\<close>)
next
  case (call_cancelled j q a)
  show ?thesis unfolding call_cancelled(1)
    by (rule stays_to_pass [OF call_cancelled(2) _ assms(2,3)]) (use call_cancelled assms(4) in \<open>auto simp: is_current_publication_def\<close>)
next
  case (refusal_discards j q c refusal)
  show ?thesis unfolding refusal_discards(1)
    by (rule stays_to_pass [OF refusal_discards(2) _ assms(2,3)]) (use refusal_discards assms(4) in \<open>auto simp: is_current_publication_def\<close>)
next
  case (pass_recorded j q pass)
  show ?thesis unfolding pass_recorded(1)
    by (rule stays_to_pass [OF pass_recorded(2) _ assms(2,3)]) (use pass_recorded assms(4) in \<open>auto simp: is_current_publication_def\<close>)
next
  case (requeue_locks j q c refusal)
  show ?thesis unfolding requeue_locks(1) by (rule stays_to_pass [OF requeue_locks(3) _ assms(2,3)]) simp_all
qed (use assms(2,3) in \<open>simp_all add: stays_def\<close>)

lemma stamp_mono: "life V w w' \<Longrightarrow> phases_ok w \<Longrightarrow> r \<in> lw_routers w \<Longrightarrow> lw_stamp w r \<le> lw_stamp w' r \<and> r \<in> lw_routers w'"
  by (induction rule: life.induct) (auto simp: phases_ok_def)

lemma stamp_mono_path:
  "(life V)\<^sup>*\<^sup>* w w' \<Longrightarrow> life_ok w \<Longrightarrow> r \<in> lw_routers w \<Longrightarrow>
     life_ok w' \<and> lw_stamp w r \<le> lw_stamp w' r \<and> lw_ticket w \<le> lw_ticket w' \<and> r \<in> lw_routers w'"
proof (induction rule: rtranclp_induct)
  case (step y z)
  then have "life_ok z" "lw_stamp y r \<le> lw_stamp z r \<and> r \<in> lw_routers z" "lw_ticket y \<le> lw_ticket z"
    using life_ok_step stamp_mono [of V y z r] ticket_mono by (auto simp: life_ok_def)
  with step show ?case by auto
qed simp

lemma overtaken_path:
  assumes "(life V)\<^sup>*\<^sup>* w w'" and "life_ok w" and "r \<in> lw_routers w" and "lw_stamp w r \<noteq> lw_ticket w"
    and "lw_stamp w' r = lw_stamp w r" and "i < length (lw_passes w)" and "fst (lw_passes w ! i) = r"
  shows "stays i r w w'"
  using assms(1,5)
proof (induction rule: rtranclp_induct)
  case base
  then show ?case using assms(6,7) by (simp add: stays_refl)
next
  case (step y z)
  have y: "life_ok y" "lw_stamp w r \<le> lw_stamp y r" "lw_ticket w \<le> lw_ticket y" "r \<in> lw_routers y"
    using stamp_mono_path [OF step(1) assms(2,3)] by simp_all
  have "lw_stamp y r \<le> lw_stamp z r" using stamp_mono [OF step(2) _ y(4)] y(1) by (simp add: life_ok_def)
  then have same: "lw_stamp y r = lw_stamp w r" using y(2) step(4) by simp
  have "phases_ok w" using assms(2) by (simp add: life_ok_def)
  then have "lw_stamp w r \<le> lw_bound w" "lw_bound w \<le> lw_ticket w" by (simp_all add: phases_ok_def)
  then have "lw_stamp y r \<noteq> lw_ticket y" using same y(3) assms(4) by simp
  with step(3) [OF same] show ?case
    using superseded_stays [OF step(2), of i r] stays_trans by (auto simp: stays_def)
qed

text \<open>C25. A publication or a shutdown overtakes a pass without waiting for it. Take any reachable world in which
  the ticket has moved past the stamp of a router (a newer router was published, or the program is
  shutting down), and a pass of that router. Unless that router is itself published again, then in
  every later world: if the pass had not yet called the ledger, it never does; and if it had not been
  authorized - not even when its unit was already committed - it never calls the provider.\<close>
theorem overtaken_pass_never_spends:
  assumes "(life V)\<^sup>*\<^sup>* (boot r0) w" and "(life V)\<^sup>*\<^sup>* w w'" and "r \<in> lw_routers w"
    and "lw_stamp w r \<noteq> lw_ticket w" and "lw_stamp w' r = lw_stamp w r"
    and "i < length (lw_passes w)" and "lw_passes w ! i = (r, st)"
  shows "i < length (lw_passes w') \<and> (not_asked st \<longrightarrow> not_asked (snd (lw_passes w' ! i)))
    \<and> (not_permitted st \<longrightarrow> not_permitted (snd (lw_passes w' ! i)))"
  using overtaken_path [OF assms(2) life_ok_reached [OF assms(1)] assms(3-6)] assms(7) by (simp add: stays_def)

text \<open>A shutdown draws its generation while the unit of the example is being reserved.\<close>

definition demo_overtaken :: "(nat, nat, nat) LifeWorld" where
  "demo_overtaken = (demo_life_world (demo_slotted) [] LFree [] [(0, PassReserving demo_candidate 0 1 1025)] {#cand_id demo_candidate#} {#} {#})
     \<lparr>lw_shut_down := True, lw_ticket := 2, lw_transition := Some (TShutdown (PhDrawn 2))\<rparr>"

lemma demo_overtaken_reached: "(life (\<lambda>_. demo_view))\<^sup>*\<^sup>* (boot 0) demo_overtaken"
proof -
  let ?w = "demo_life_world (demo_slotted) [] LFree [] [(0, PassReserving demo_candidate 0 1 1025)] {#cand_id demo_candidate#} {#} {#}"
  let ?v = "?w\<lparr>lw_shut_down := True, lw_transition := Some (TShutdown PhBegun)\<rparr>"
  have "life (\<lambda>_. demo_view) ?w ?v" by (rule life.shutdown_begins) (simp add: demo_life_world_def boot_def)
  moreover have "life (\<lambda>_. demo_view) ?v demo_overtaken"
    using life.shutdown_draws [of ?v] by (simp add: demo_overtaken_def demo_life_world_def boot_def numeral_2_eq_2)
  ultimately show ?thesis using demo_run_reserving by (meson rtranclp.rtrancl_into_rtrancl)
qed

lemma overtaken_pass_never_spends_witness:
  "not_permitted (snd (lw_passes (to_pass 0 0 (PassRefusing demo_candidate RfReservationTimeout)
     (demo_overtaken\<lparr>lw_probe := give_slot (lw_probe demo_overtaken),
        lw_unanswered := add_mset (cand_id demo_candidate) (lw_unanswered demo_overtaken)\<rparr>)) ! 0))"
proof -
  have at: "at_pass 0 0 (PassReserving demo_candidate 0 1 1025) demo_overtaken"
    by (simp add: at_pass_def demo_overtaken_def demo_life_world_def)
  from life.reservation_times_out [OF at, of "\<lambda>_. demo_view"]
  show ?thesis
    using overtaken_pass_never_spends [OF demo_overtaken_reached r_into_rtranclp, of _ 0 0 "PassReserving demo_candidate 0 1 1025"] at
    by (simp add: at_pass_def demo_overtaken_def demo_life_world_def boot_def)
qed

subsection \<open>After the shutdown\<close>

definition closed :: "('r, 'seat, 'profile) LifeWorld \<Rightarrow> bool" where
  "closed w \<longleftrightarrow> lw_bound w < lw_ticket w \<and> lw_bound w < ps_retired_below (pw_inner (lw_probe w))
     \<and> ps_jobs (pw_inner (lw_probe w)) = []"

fun pass_permitted :: "('seat, 'profile) PassState \<Rightarrow> unit_id multiset" where
  "pass_permitted (PassAuthorized a) = {#auth_id a#}"
| "pass_permitted _ = {#}"

definition unspent_after :: "('r, 'seat, 'profile) LifeWorld \<Rightarrow> ('r, 'seat, 'profile) LifeWorld \<Rightarrow> bool" where
  "unspent_after w w' \<longleftrightarrow> lw_asked w' = lw_asked w
     \<and> lw_calls w' + over pass_permitted (lw_passes w') \<subseteq># lw_calls w + over pass_permitted (lw_passes w)"


lemma closed_refuses:
  "phases_ok w \<Longrightarrow> closed w \<Longrightarrow> activate_probe_plan v (lw_stamp w r) key plan payload (pw_inner (lw_probe w))
     = (pw_inner (lw_probe w), PaRetired)"
  unfolding activate_probe_plan_def activate_def closed_def phases_ok_def by (auto dest: order_le_less_trans)

lemma closed_release:
  "ps_jobs s = [] \<Longrightarrow> release k h q settlement now s = (s', out) \<Longrightarrow> ps_jobs s' = [] \<and> ps_retired_below s' = ps_retired_below s"
  by (auto simp: release_def settlement_stale_def job_position_def)

lemma counters_floor [simp]:
  "ps_retired_below (note_paid_candidate_capacity_refusal s) = ps_retired_below s"
  "ps_retired_below (note_paid_candidate_claimed s) = ps_retired_below s"
  "ps_retired_below (note_paid_reservation_committed s) = ps_retired_below s"
  "ps_retired_below (note_paid_provider_call_started s) = ps_retired_below s"
  "ps_retired_below (record_paid_settlement settlement s) = ps_retired_below s"
  "ps_retired_below (release_paid_slot s) = ps_retired_below s"
  by (cases settlement; simp add: note_paid_candidate_capacity_refusal_def note_paid_candidate_claimed_def
      note_paid_reservation_committed_def note_paid_provider_call_started_def release_paid_slot_def)+

lemma closed_step:
  assumes "life V w w'" and "phases_ok w" and "probe_inv (lw_probe w)" and "closed w"
  shows "closed w'"
  using assms(1)
proof (cases rule: life.cases)
  case (request_activates r key plan payload s out)
  then show ?thesis using closed_refuses [OF assms(2,4), of "V r"] assms(4) by (simp add: closed_def)
next
  case (worker_leases now s l)
  then show ?thesis using assms(4) by (auto simp: lease_due_def closed_def split: if_splits)
next
  case (worker_settles r l outcome now s out)
  then show ?thesis using closed_release [OF _ worker_settles(4) [unfolded lease_settle_def]] assms(4) by (simp add: closed_def)
next
  case (worker_cancelled l now s out)
  then show ?thesis using closed_release [OF _ worker_cancelled(3) [unfolded lease_drop_def]] assms(4) by (simp add: closed_def)
next
  case (writer_stores c candidates s)
  then show ?thesis using store_candidate_tokens(2) [OF writer_stores(3)] assms(4) by (auto simp: closed_def)
next
  case (pass_claims r rest s c)
  then show ?thesis using assms(4) by (auto simp: claim_paid_probe_candidate_def closed_def split: list.splits)
next
  case (pass_takes_slot i r c seat cap profile s)
  then show ?thesis using paid_slot_ok [OF _ pass_takes_slot(3)] assms(3,4) by (simp add: closed_def probe_inv_def)
next
  case (pass_no_slot i r c seat cap profile s)
  then show ?thesis using paid_slot_ok [OF _ pass_no_slot(3)] assms(3,4) by (simp add: closed_def probe_inv_def)
next
  case (pass_recorded i r pass)
  then show ?thesis using assms(4) by (auto simp: closed_def on_inner_def split: option.splits)
next
  case (publication_draws r)
  then show ?thesis using assms(2,4) by (auto simp: closed_def phases_ok_def)
next
  case (publication_retires r g s cancelled)
  then show ?thesis using assms(2,4) by (auto simp: closed_def phases_ok_def)
next
  case (shutdown_sweeps g s cancelled)
  then show ?thesis using cancel_all_effect [OF shutdown_sweeps(3)] assms(4) by (simp add: closed_def less_max_iff_disj)
qed (use assms(4) in \<open>simp_all add: closed_def on_inner_def give_slot_def\<close>)

definition sweeping :: "'r Transition option \<Rightarrow> bool" where
  "sweeping t \<longleftrightarrow> (case t of Some (TShutdown phase) \<Rightarrow> (case phase of PhBegun \<Rightarrow> True | PhDrawn g \<Rightarrow> True | _ \<Rightarrow> False) | _ \<Rightarrow> False)"

definition ended_ok :: "('r, 'seat, 'profile) LifeWorld \<Rightarrow> bool" where
  "ended_ok w \<longleftrightarrow> (lw_shut_down w \<and> \<not> sweeping (lw_transition w) \<longrightarrow> closed w)"

lemma ended_step:
  assumes "life V w w'" and "phases_ok w" and "probe_inv (lw_probe w)" and "ended_ok w"
  shows "ended_ok w'"
proof (cases "closed w")
  case True
  then show ?thesis using closed_step [OF assms(1-3)] by (simp add: ended_ok_def)
next
  case False
  then have opn: "\<not> lw_shut_down w \<or> sweeping (lw_transition w)" using assms(4) by (auto simp: ended_ok_def)
  from assms(1) show ?thesis
  proof (cases rule: life.cases)
    case (shutdown_sweeps g s cancelled)
    then have "lw_bound w < g" "g = lw_ticket w" using assms(2) by (auto simp: phases_ok_def)
    then show ?thesis using cancel_all_effect [OF shutdown_sweeps(3)] shutdown_sweeps(1)
      by (simp add: ended_ok_def closed_def less_max_iff_disj)
  qed (use opn assms(2) in \<open>auto simp: ended_ok_def sweeping_def phases_ok_def\<close>)
qed

lemma ended_reached: "(life V)\<^sup>*\<^sup>* (boot r) w \<Longrightarrow> life_ok w \<and> ended_ok w"
proof (induction rule: rtranclp_induct)
  case base
  then show ?case by (simp add: life_ok_boot) (simp add: ended_ok_def boot_def)
next
  case (step y z)
  then show ?case using life_ok_step [OF step(2)] ended_step [OF step(2)] by (simp add: life_ok_def)
qed

lemma closed_unspent:
  assumes "life V w w'" and "phases_ok w" and "closed w"
  shows "unspent_after w w'"
  using assms(1)
proof (cases rule: life.cases)
  case (pass_claims q rest s c)
  then show ?thesis by (simp add: unspent_after_def)
next
  case (pass_checks i r c seat cap profile)
  note over_eqs = at_pass_over [OF pass_checks(2), of pass_permitted] to_pass_over [OF pass_checks(2), of _ pass_permitted]
  show ?thesis using pass_checks(1) over_eqs by (simp add: unspent_after_def)
next
  case (pass_refused i r c refusal)
  note over_eqs = at_pass_over [OF pass_refused(2), of pass_permitted] to_pass_over [OF pass_refused(2), of _ pass_permitted]
  show ?thesis using pass_refused(1) over_eqs by (simp add: unspent_after_def)
next
  case (pass_takes_slot i r c seat cap profile s)
  note over_eqs = at_pass_over [OF pass_takes_slot(2), of pass_permitted] to_pass_over [OF pass_takes_slot(2), of _ pass_permitted]
  show ?thesis using pass_takes_slot(1) over_eqs by (simp add: unspent_after_def)
next
  case (pass_no_slot i r c seat cap profile s)
  note over_eqs = at_pass_over [OF pass_no_slot(2), of pass_permitted] to_pass_over [OF pass_no_slot(2), of _ pass_permitted]
  show ?thesis using pass_no_slot(1) over_eqs by (simp add: unspent_after_def)
next
  case (pass_overtaken i r c seat cap profile)
  note over_eqs = at_pass_over [OF pass_overtaken(2), of pass_permitted] to_pass_over [OF pass_overtaken(2), of _ pass_permitted]
  show ?thesis using pass_overtaken(1) over_eqs by (simp add: unspent_after_def)
next
  case (ledger_commits i r c seat cap profile used counted_cap)
  note over_eqs = at_pass_over [OF ledger_commits(2), of pass_permitted] to_pass_over [OF ledger_commits(2), of _ pass_permitted]
  show ?thesis using ledger_commits(1) over_eqs by (simp add: unspent_after_def)
next
  case (ledger_refuses i r c seat cap profile reservation)
  note over_eqs = at_pass_over [OF ledger_refuses(2), of pass_permitted] to_pass_over [OF ledger_refuses(2), of _ pass_permitted]
  show ?thesis using ledger_refuses(1) over_eqs by (simp add: unspent_after_def)
next
  case (reservation_times_out i r c seat cap profile)
  note over_eqs = at_pass_over [OF reservation_times_out(2), of pass_permitted] to_pass_over [OF reservation_times_out(2), of _ pass_permitted]
  show ?thesis using reservation_times_out(1) over_eqs by (simp add: unspent_after_def)
next
  case (reservation_cancelled i r c seat cap profile)
  note over_eqs = at_pass_over [OF reservation_cancelled(2), of pass_permitted] to_pass_over [OF reservation_cancelled(2), of _ pass_permitted]
  show ?thesis using reservation_cancelled(1) over_eqs by (simp add: unspent_after_def)
next
  case (commit_overtaken i r a)
  note over_eqs = at_pass_over [OF commit_overtaken(2), of pass_permitted] to_pass_over [OF commit_overtaken(2), of _ pass_permitted]
  show ?thesis using commit_overtaken(1) over_eqs by (simp add: unspent_after_def)
next
  case (gate_defers i r a)
  note over_eqs = at_pass_over [OF gate_defers(2), of pass_permitted] to_pass_over [OF gate_defers(2), of _ pass_permitted]
  show ?thesis using gate_defers(1) over_eqs by (simp add: unspent_after_def)
next
  case (call_starts i r a)
  note over_eqs = at_pass_over [OF call_starts(2), of pass_permitted] to_pass_over [OF call_starts(2), of _ pass_permitted]
  show ?thesis using call_starts(1) over_eqs by (simp add: unspent_after_def)
next
  case (call_ends i r a pj reply)
  note over_eqs = at_pass_over [OF call_ends(2), of pass_permitted] to_pass_over [OF call_ends(2), of _ pass_permitted]
  show ?thesis using call_ends(1) over_eqs by (simp add: unspent_after_def)
next
  case (call_cancelled i r a)
  note over_eqs = at_pass_over [OF call_cancelled(2), of pass_permitted] to_pass_over [OF call_cancelled(2), of _ pass_permitted]
  show ?thesis using call_cancelled(1) over_eqs by (simp add: unspent_after_def)
next
  case (refusal_discards i r c refusal)
  note over_eqs = at_pass_over [OF refusal_discards(2), of pass_permitted] to_pass_over [OF refusal_discards(2), of _ pass_permitted]
  show ?thesis using refusal_discards(1) over_eqs by (simp add: unspent_after_def)
next
  case (pass_recorded i r pass)
  note over_eqs = at_pass_over [OF pass_recorded(2), of pass_permitted] to_pass_over [OF pass_recorded(2), of _ pass_permitted]
  show ?thesis using pass_recorded(1) over_eqs by (simp add: unspent_after_def)
next
  case (requeue_locks i r c refusal)
  note over_eqs = at_pass_over [OF requeue_locks(3), of pass_permitted] to_pass_over [OF requeue_locks(3), of _ pass_permitted]
  show ?thesis using requeue_locks(1) over_eqs by (simp add: unspent_after_def)
next
  case (pass_reserves i r c seat cap profile)
  have "lw_stamp w r \<le> lw_bound w" "lw_bound w < lw_ticket w" using assms(2,3) by (simp_all add: phases_ok_def closed_def)
  then show ?thesis using pass_reserves(3) by (simp add: is_current_publication_def)
next
  case (pass_authorized i r a)
  have "lw_stamp w r \<le> lw_bound w" "lw_bound w < lw_ticket w" using assms(2,3) by (simp_all add: phases_ok_def closed_def)
  then show ?thesis using pass_authorized(3) by (simp add: is_current_publication_def)
qed (simp_all add: unspent_after_def)

text \<open>C26. After the shutdown nothing is started. From any world in which a shutdown has completed, whatever
  requests, workers, passes, ledger answers and further publications or shutdowns follow: no probe is
  activated by any router, no job is tracked, no candidate is listed, the ledger is asked for nothing
  more, and the only provider calls that still start are those of passes already authorized when the
  shutdown completed.\<close>
theorem nothing_starts_after_shutdown:
  assumes "(life V)\<^sup>*\<^sup>* (boot r0) w" and "lw_shut_down w" and "lw_transition w = None" and "(life V)\<^sup>*\<^sup>* w w'"
  shows "snd (activate_probe_plan v (lw_stamp w' r) key plan payload (pw_inner (lw_probe w'))) = PaRetired
    \<and> ps_jobs (pw_inner (lw_probe w')) = [] \<and> (lw_transition w' = None \<longrightarrow> lw_candidates w' = [])
    \<and> lw_asked w' = lw_asked w
    \<and> lw_calls w' + over pass_permitted (lw_passes w') \<subseteq># lw_calls w + over pass_permitted (lw_passes w)"
proof -
  from ended_reached [OF assms(1)] have ok: "life_ok w" and "closed w"
    using assms(2,3) by (simp_all add: ended_ok_def sweeping_def)
  with assms(4) have all: "life_ok w' \<and> closed w' \<and> lw_shut_down w' \<and> unspent_after w w'"
  proof (induction rule: rtranclp_induct)
    case base
    then show ?case using assms(2) by (simp add: unspent_after_def)
  next
    case (step y z)
    then have y: "life_ok y" "closed y" "unspent_after w y" by simp_all
    then have "closed z" "unspent_after y z" using closed_step [OF step(2)] closed_unspent [OF step(2)] by (simp_all add: life_ok_def)
    moreover have "life_ok z" using life_ok_step [OF step(2)] y(1) .
    moreover have "lw_shut_down z" using calculation by (simp add: closed_def life_ok_def phases_ok_def)
    ultimately show ?case using y(3) by (auto simp: unspent_after_def intro: subset_mset.order_trans)
  qed
  have "lw_candidates w' = []" if "lw_transition w' = None"
    using candidates_listed_after_shutdown [of w'] all that by simp
  then show ?thesis using all closed_refuses [of w' v] by (simp add: life_ok_def closed_def unspent_after_def)
qed

lemma nothing_starts_after_shutdown_witness:
  "snd (activate_probe_plan demo_view 1 \<lparr>fvk_state_key = ''m'', fvk_capability_key = ''f'', fvk_provider_kind = ''k''\<rparr>
     [VCountTokens] \<lparr>pl_field_path = ''f'', pl_field_value = ''omitted'', pl_client_betas = [], pl_operator_betas = [],
       pl_originating_claude_code_session = False\<rparr> (fst (cancel_all_and_retire_to 2 scheduler_new))) = PaRetired"
  using nothing_starts_after_shutdown [OF demo_shutdown _ _ rtranclp.rtrancl_refl, of demo_view 0] by (simp add: boot_def)

end
