(* ===== verification/Paid_Ledger.thy ===== *)
theory Paid_Ledger
  imports Paid_Probe
begin

text \<open>
  The durable budget of paid probes (\<open>routectl-usage/src/paid_probe.rs\<close>, \<open>paid_probe_read.rs\<close>), the
  vocabulary of an acknowledged reservation (\<open>paid_probe_command.rs\<close>), the gate that orders its answer
  against the shutdown (\<open>paid_probe_lifecycle.rs\<close>) and the bridge to the router's ledger seam
  (\<open>routectl-cli/src/server/paid_probe_ledger.rs\<close>). The control table is a map from keys to values;
  whether each SQL statement succeeds is an argument, and a transaction that is not committed leaves the
  table as it was. A string is the list of its UTF-8 bytes.
\<close>

subsection \<open>The codec\<close>

definition MS_PER_UTC_DAY :: int where "MS_PER_UTC_DAY = 86400000"

definition RESERVATION_KEY_PREFIX :: string where "RESERVATION_KEY_PREFIX = ''paid_probe_reservation:v1''"

definition HEX_DIGITS :: string where "HEX_DIGITS = ''0123456789abcdef''"

datatype MalformedUnits = MuEmpty | MuLeadingZero | MuNonDigit | MuOverflow

definition utc_day_from_epoch_ms :: "int \<Rightarrow> int" where
  "utc_day_from_epoch_ms epoch_ms = epoch_ms div MS_PER_UTC_DAY"

definition show_i64 :: "int \<Rightarrow> string" where
  "show_i64 n = (if n < 0 then CHR ''-'' # show_nat (nat (- n)) else show_nat (nat n))"

fun hex_bytes :: "string \<Rightarrow> string" where
  "hex_bytes [] = []"
| "hex_bytes (b # bs) = HEX_DIGITS ! (of_char b div 16) # HEX_DIGITS ! (of_char b mod 16) # hex_bytes bs"

definition reservation_key :: "int \<Rightarrow> string \<Rightarrow> string" where
  "reservation_key utc_day provider =
     RESERVATION_KEY_PREFIX @ '':'' @ show_i64 utc_day @ '':'' @ hex_bytes provider"

definition format_units :: "u32 \<Rightarrow> string" where "format_units units = show_nat units"

definition parse_units :: "string \<Rightarrow> MalformedUnits + u32" where
  "parse_units raw =
     (if raw = [] then Inl MuEmpty
      else if \<not> list_all is_digit raw then Inl MuNonDigit
      else if 1 < length raw \<and> hd raw = CHR ''0'' then Inl MuLeadingZero
      else case parse_unsigned U32_MAX raw of None \<Rightarrow> Inl MuOverflow | Some units \<Rightarrow> Inr units)"

subsection \<open>One reservation\<close>

datatype StoredReservation = SrCommitted int u32 u32 | SrCapExhausted | SrMalformedState | SrWriteFailed

text \<open>Which statements of the transaction succeed.\<close>

record ReserveIo =
  io_begin :: bool
  io_select :: bool
  io_upsert :: bool
  io_commit :: bool

definition reserve_one_unit :: "ReserveIo \<Rightarrow> string \<Rightarrow> u32 \<Rightarrow> int \<Rightarrow> (string \<rightharpoonup> string)
    \<Rightarrow> StoredReservation \<times> (string \<rightharpoonup> string)" where
  "reserve_one_unit io provider cap now_epoch_ms meta =
     (let utc_day = utc_day_from_epoch_ms now_epoch_ms; key = reservation_key utc_day provider
      in if \<not> io_begin io then (SrWriteFailed, meta)
         else if \<not> io_select io then (SrWriteFailed, meta)
         else case (case meta key of None \<Rightarrow> Inr 0 | Some raw \<Rightarrow> parse_units raw) of
           Inl malformed \<Rightarrow> (SrMalformedState, meta)
         | Inr used \<Rightarrow>
             if U32_MAX < used + 1 then (SrCapExhausted, meta)
             else if cap < used + 1 then (SrCapExhausted, meta)
             else if \<not> io_upsert io then (SrWriteFailed, meta)
             else if \<not> io_commit io then (SrWriteFailed, meta)
             else (SrCommitted utc_day (used + 1) cap, meta(key \<mapsto> format_units (used + 1))))"

datatype PaidProbeUsage = PuCommitted u32 | PuMalformed | PuUnreadable

definition committed_units :: "bool \<Rightarrow> (string \<rightharpoonup> string) \<Rightarrow> string \<Rightarrow> int \<Rightarrow> PaidProbeUsage" where
  "committed_units readable meta provider now_epoch_ms =
     (if \<not> readable then PuUnreadable
      else case meta (reservation_key (utc_day_from_epoch_ms now_epoch_ms) provider) of
        None \<Rightarrow> PuCommitted 0
      | Some raw \<Rightarrow> (case parse_units raw of Inr units \<Rightarrow> PuCommitted units | Inl malformed \<Rightarrow> PuMalformed))"

subsection \<open>The acknowledged command\<close>

datatype PaidProbeCommit = PcCommitted u32 u32 | PcCapExhausted | PcMalformedState | PcWriteFailed | PcUnavailable

fun commit_for :: "StoredReservation \<Rightarrow> PaidProbeCommit" where
  "commit_for (SrCommitted utc_day used cap) = PcCommitted used cap"
| "commit_for SrCapExhausted = PcCapExhausted"
| "commit_for SrMalformedState = PcMalformedState"
| "commit_for SrWriteFailed = PcWriteFailed"

text \<open>\<open>None\<close> for the table stands for a writer without a connection.\<close>

definition reserve :: "ReserveIo \<Rightarrow> string \<Rightarrow> u32 \<Rightarrow> int \<Rightarrow> (string \<rightharpoonup> string) option
    \<Rightarrow> PaidProbeCommit \<times> (string \<rightharpoonup> string) option" where
  "reserve io provider cap now_epoch_ms conn = (case conn of
     None \<Rightarrow> (PcWriteFailed, None)
   | Some meta \<Rightarrow> (let (stored, meta') = reserve_one_unit io provider cap now_epoch_ms meta
                   in (commit_for stored, Some meta')))"

fun outcome_degrades :: "PaidProbeCommit \<Rightarrow> bool" where
  "outcome_degrades (PcCommitted used cap) = False"
| "outcome_degrades PcCapExhausted = False"
| "outcome_degrades PcUnavailable = False"
| "outcome_degrades PcMalformedState = True"
| "outcome_degrades PcWriteFailed = True"

subsection \<open>The lifecycle gate\<close>

datatype Lifecycle = Running | Terminal

datatype GateReading = GrLive Lifecycle | GrUnknown

fun forbids_authorization :: "GateReading \<Rightarrow> bool" where
  "forbids_authorization (GrLive Running) = False"
| "forbids_authorization (GrLive Terminal) = True"
| "forbids_authorization GrUnknown = True"

text \<open>A poisoned lock stays poisoned: a panicking holder leaves it so.\<close>

record LifecycleGate =
  lg_state :: Lifecycle
  lg_poisoned :: bool

definition gate_running :: LifecycleGate where "gate_running = \<lparr>lg_state = Running, lg_poisoned = False\<rparr>"

definition is_terminal :: "LifecycleGate \<Rightarrow> bool" where
  "is_terminal gate = forbids_authorization (if lg_poisoned gate then GrUnknown else GrLive (lg_state gate))"

definition begin_shutdown :: "LifecycleGate \<Rightarrow> LifecycleGate" where
  "begin_shutdown gate = gate\<lparr>lg_state := Terminal\<rparr>"

text \<open>The answer sent inside the critical section, and whether the real outcome was delivered.\<close>

definition answer_unless_terminal :: "LifecycleGate \<Rightarrow> PaidProbeCommit \<Rightarrow> PaidProbeCommit \<times> bool" where
  "answer_unless_terminal gate outcome = (if is_terminal gate then (PcUnavailable, False) else (outcome, True))"

text \<open>One reservation on the writer's thread. The gate is read before the transaction and again around the
  answer, and the shutdown may have begun in between. Returned are the table, the answer, whether the
  writer's health degrades and whether a unit was consumed without authorizing its caller.\<close>

definition reserve_and_answer :: "LifecycleGate \<Rightarrow> LifecycleGate \<Rightarrow> ReserveIo \<Rightarrow> string \<Rightarrow> u32 \<Rightarrow> int
    \<Rightarrow> (string \<rightharpoonup> string) option \<Rightarrow> (string \<rightharpoonup> string) option \<times> PaidProbeCommit \<times> bool \<times> bool" where
  "reserve_and_answer before after io provider cap now_epoch_ms conn =
     (if is_terminal before then (conn, PcUnavailable, False, False)
      else (let (outcome, conn') = reserve io provider cap now_epoch_ms conn;
                committed = (case outcome of PcCommitted used cap \<Rightarrow> True | _ \<Rightarrow> False);
                (answer, delivered) = answer_unless_terminal after outcome
            in (conn', answer, outcome_degrades outcome, \<not> delivered \<and> committed)))"

subsection \<open>The bridge to the router\<close>

fun reservation_for_commit :: "PaidProbeCommit \<Rightarrow> PaidProbeReservation" where
  "reservation_for_commit (PcCommitted used cap) = PrCommitted used cap"
| "reservation_for_commit PcCapExhausted = PrCapExhausted"
| "reservation_for_commit PcMalformedState = PrMalformedState"
| "reservation_for_commit PcWriteFailed = PrWriteFailed"
| "reservation_for_commit PcUnavailable = PrUnavailable"

datatype PaidProbeAdmission = PaAdmitted | PaSaturated | PaUnavailable

text \<open>Offering a reservation to the bounded channel never waits; what \<open>try_send\<close> answers is an argument.\<close>

datatype TrySend = TsOk | TsFull | TsClosed

definition admit_paid_probe_reservation :: "bool \<Rightarrow> TrySend \<Rightarrow> PaidProbeAdmission" where
  "admit_paid_probe_reservation shutting_down send =
     (if shutting_down then PaUnavailable
      else case send of TsOk \<Rightarrow> PaAdmitted | TsFull \<Rightarrow> PaSaturated | TsClosed \<Rightarrow> PaUnavailable)"

text \<open>The receipt resolves to the answer, \<open>None\<close> when its sender vanished.\<close>

definition await_outcome :: "PaidProbeCommit option \<Rightarrow> PaidProbeCommit" where
  "await_outcome ack = (case ack of Some outcome \<Rightarrow> outcome | None \<Rightarrow> PcUnavailable)"

definition reservation_for :: "PaidProbeAdmission \<Rightarrow> PaidProbeCommit option \<Rightarrow> PaidProbeReservation" where
  "reservation_for admission ack = (case admission of
     PaAdmitted \<Rightarrow> reservation_for_commit (await_outcome ack)
   | PaSaturated \<Rightarrow> PrOverloaded | PaUnavailable \<Rightarrow> PrUnavailable)"

definition usage_reserve_paid_probe_unit :: "bool \<Rightarrow> TrySend \<Rightarrow> PaidProbeCommit option \<Rightarrow> PaidProbeReservation" where
  "usage_reserve_paid_probe_unit shutting_down send ack =
     reservation_for (admit_paid_probe_reservation shutting_down send) ack"

subsection \<open>A history of reservations\<close>

text \<open>The reservations of one database, by any number of writers and across restarts and shutdowns, in the
  order the write lock serializes their transactions. A writer may have failed to open its connection.\<close>

record Reservation =
  rq_before :: LifecycleGate
  rq_after :: LifecycleGate
  rq_connected :: bool
  rq_io :: ReserveIo
  rq_provider :: string
  rq_cap :: u32
  rq_now :: int

definition reservation_step :: "Reservation \<Rightarrow> (string \<rightharpoonup> string) \<Rightarrow> (string \<rightharpoonup> string) \<times> PaidProbeCommit \<times> bool" where
  "reservation_step q meta =
     (let (conn, answer, degraded, unauthorized) = reserve_and_answer (rq_before q) (rq_after q) (rq_io q)
            (rq_provider q) (rq_cap q) (rq_now q) (if rq_connected q then Some meta else None)
      in (case conn of Some meta' \<Rightarrow> meta' | None \<Rightarrow> meta, answer, unauthorized))"

fun reservation_history :: "Reservation list \<Rightarrow> (string \<rightharpoonup> string)
    \<Rightarrow> (string \<rightharpoonup> string) \<times> (Reservation \<times> PaidProbeCommit \<times> bool) list" where
  "reservation_history [] meta = (meta, [])"
| "reservation_history (q # qs) meta =
     (let (meta', answer, unauthorized) = reservation_step q meta; (meta'', hist) = reservation_history qs meta'
      in (meta'', (q, answer, unauthorized) # hist))"

text \<open>Of one provider-day: the authorized calls with the count each was told, and the units consumed
  without a call.\<close>

definition of_day :: "int \<Rightarrow> string \<Rightarrow> Reservation \<Rightarrow> bool" where
  "of_day day provider q \<longleftrightarrow> rq_provider q = provider \<and> utc_day_from_epoch_ms (rq_now q) = day"

fun authorized_of :: "int \<Rightarrow> string \<Rightarrow> (Reservation \<times> PaidProbeCommit \<times> bool) list \<Rightarrow> u32 list" where
  "authorized_of day provider [] = []"
| "authorized_of day provider ((q, PcCommitted used cap, u) # hist) =
     (if of_day day provider q then used # authorized_of day provider hist else authorized_of day provider hist)"
| "authorized_of day provider (x # hist) = authorized_of day provider hist"

definition unauthorized_of :: "int \<Rightarrow> string \<Rightarrow> (Reservation \<times> PaidProbeCommit \<times> bool) list \<Rightarrow> nat" where
  "unauthorized_of day provider hist = length (filter (\<lambda>(q, answer, u). of_day day provider q \<and> u) hist)"

subsection \<open>What the codec promises\<close>

lemma digit_of_nat [simp]: "n < 10 \<Longrightarrow> is_digit (char_of (48 + n :: nat))"
  by (simp add: is_digit_def)

lemma show_nat_digits: "list_all is_digit (show_nat n)"
proof (induction n rule: show_nat.induct)
  case (1 n)
  then show ?case by (cases "n < 10") (simp_all add: show_nat.simps [of n])
qed

lemma show_nat_pos: "0 < n \<Longrightarrow> hd (show_nat n) \<noteq> CHR ''0''"
proof (induction n rule: show_nat.induct)
  case (1 n)
  show ?case
  proof (cases "n < 10")
    case True
    have "(of_char (char_of (48 + n) :: char) :: nat) \<noteq> of_char (CHR ''0'')" using True "1.prems" by simp
    with True show ?thesis by (metis list.sel(1) show_nat.simps)
  next
    case False
    then have "0 < n div 10" by simp
    with False "1.IH" show ?thesis by (subst show_nat.simps) (simp add: hd_append)
  qed
qed

lemma digit_char:
  assumes "is_digit c"
  obtains d where "digit_val c = Some d" "d < 10" "c = char_of (48 + d)"
proof -
  from assms have "48 \<le> (of_char c :: nat)" "(of_char c :: nat) \<le> 57"
    by (auto simp: is_digit_def digit_val_def split: if_splits)
  then show ?thesis by (intro that [of "of_char c - 48"]) (simp_all add: digit_val_def)
qed

text \<open>A digit run without a redundant zero is what its value is rendered to.\<close>

lemma parse_digits_canonical:
  assumes "list_all is_digit s" and "s \<noteq> []" and "1 < length s \<longrightarrow> hd s \<noteq> CHR ''0''"
    and "parse_digits mx 0 s = Some n"
  shows "show_nat n = s"
  using assms
proof (induction s arbitrary: n rule: rev_induct)
  case (snoc c cs)
  obtain d where d: "digit_val c = Some d" "d < 10" "c = char_of (48 + d)"
    using snoc.prems(1) by (auto elim: digit_char)
  show ?case
  proof (cases cs)
    case Nil
    then have "n = d" using snoc.prems(4) d by (simp split: if_splits)
    then show ?thesis using Nil d by (subst show_nat.simps) simp
  next
    case (Cons a as)
    from snoc.prems(4) obtain v where v: "parse_digits mx 0 cs = Some v" and n: "n = v * 10 + d"
      using d by (auto simp: parse_digits_append bind_eq_Some_conv split: if_splits)
    have IH: "show_nat v = cs" using snoc.IH [of v] snoc.prems(1,3) v Cons by simp
    have "0 < v"
    proof (rule ccontr)
      assume "\<not> 0 < v"
      then have "cs = show_nat 0" using IH by simp
      also have "\<dots> = [char_of (48 :: nat)]" by (subst show_nat.simps) simp
      also have "\<dots> = ''0''" by (simp add: char_of_def bit_0)
      finally show False using snoc.prems(3) by simp
    qed
    then show ?thesis using IH d n by (subst show_nat.simps) simp
  qed
qed simp

lemma digit_run_no_plus: "list_all is_digit s \<Longrightarrow> s \<noteq> [] \<Longrightarrow> parse_unsigned mx s = parse_digits mx 0 s"
  by (cases s) (auto simp: parse_unsigned_def is_digit_def digit_val_def)

lemma units_canonical: "parse_units s = Inr n \<longleftrightarrow> n \<le> U32_MAX \<and> s = format_units n"
proof
  assume p: "parse_units s = Inr n"
  then have s: "list_all is_digit s" "s \<noteq> []" "1 < length s \<longrightarrow> hd s \<noteq> CHR ''0''"
    and n: "parse_unsigned U32_MAX s = Some n"
    by (auto simp: parse_units_def split: if_splits option.splits)
  then have "show_nat n = s"
    using parse_digits_canonical [OF s] by (simp add: digit_run_no_plus)
  then show "n \<le> U32_MAX \<and> s = format_units n"
    using parse_unsigned_bound [OF n] by (simp add: format_units_def)
next
  assume s: "n \<le> U32_MAX \<and> s = format_units n"
  have zero: "length (show_nat 0) = 1" by (subst show_nat.simps) simp
  have "1 < length s \<longrightarrow> hd s \<noteq> CHR ''0''"
    using s zero show_nat_pos [of n] by (cases n) (auto simp: format_units_def)
  then show "parse_units s = Inr n"
    using s show_nat_digits [of n] parse_unsigned_show_nat [of n U32_MAX]
    by (auto simp: parse_units_def format_units_def)
qed

lemma units_read_back [simp]: "n \<le> U32_MAX \<Longrightarrow> parse_units (format_units n) = Inr n"
  by (simp add: units_canonical)

text \<open>Different provider-days have different keys.\<close>

lemma hex_digit_inj: "i < 16 \<Longrightarrow> j < 16 \<Longrightarrow> HEX_DIGITS ! i = HEX_DIGITS ! j \<Longrightarrow> i = j"
proof -
  have "distinct HEX_DIGITS" and "length HEX_DIGITS = 16" by (simp_all add: HEX_DIGITS_def)
  then show "i < 16 \<Longrightarrow> j < 16 \<Longrightarrow> HEX_DIGITS ! i = HEX_DIGITS ! j \<Longrightarrow> i = j"
    by (simp add: nth_eq_iff_index_eq)
qed

lemma hex_bytes_inj: "hex_bytes xs = hex_bytes ys \<Longrightarrow> xs = ys"
proof (induction xs arbitrary: ys)
  case Nil
  then show ?case by (cases ys) simp_all
next
  case (Cons b bs)
  from Cons.prems obtain c cs where ys: "ys = c # cs" by (cases ys) simp_all
  have lt: "(of_char b :: nat) div 16 < 16" "(of_char c :: nat) div 16 < 16"
    using nat_of_char_less_256 [of b] nat_of_char_less_256 [of c] by (simp_all add: less_mult_imp_div_less)
  from Cons.prems have "HEX_DIGITS ! (of_char b div 16) = HEX_DIGITS ! (of_char c div 16)"
    and "HEX_DIGITS ! (of_char b mod 16) = HEX_DIGITS ! (of_char c mod 16)" and t: "hex_bytes bs = hex_bytes cs"
    by (simp_all add: ys)
  then have "(of_char b :: nat) div 16 = of_char c div 16" "(of_char b :: nat) mod 16 = of_char c mod 16"
    using lt by (auto intro: hex_digit_inj)
  then have "(of_char b :: nat) = of_char c" by (metis div_mult_mod_eq)
  then have "b = c" by (rule of_char_eq_iff [THEN iffD1])
  with Cons.IH [OF t] show ?case by (simp add: ys)
qed

lemma show_i64_no_colon: "CHR '':'' \<notin> set (show_i64 n)"
proof -
  have "CHR '':'' \<notin> set (show_nat m)" for m
  proof
    assume "CHR '':'' \<in> set (show_nat m)"
    then have "is_digit (CHR '':'')" using show_nat_digits [of m] by (simp add: list_all_iff)
    then show False by (simp add: is_digit_def digit_val_def)
  qed
  then show ?thesis by (simp add: show_i64_def)
qed

lemma show_i64_inj: "show_i64 a = show_i64 b \<Longrightarrow> a = b"
proof -
  have minus: "CHR ''-'' # s \<noteq> show_nat m" for s m
  proof
    assume "CHR ''-'' # s = show_nat m"
    then have "is_digit (CHR ''-'')" using show_nat_digits [of m] by (metis list.pred_inject(2))
    then show False by (simp add: is_digit_def digit_val_def)
  qed
  assume "show_i64 a = show_i64 b"
  then show "a = b"
    using minus minus [symmetric] by (auto simp: show_i64_def dest!: show_nat_inj split: if_splits)
qed

lemma split_at_colon:
  assumes "CHR '':'' \<notin> set a" and "CHR '':'' \<notin> set b" and "a @ '':'' @ x = b @ '':'' @ y"
  shows "a = b \<and> x = y"
  using assms
proof (induction a arbitrary: b)
  case Nil
  then show ?case by (cases b) auto
next
  case (Cons c a)
  from Cons.prems obtain b' where "b = c # b'" by (cases b) auto
  with Cons show ?case by auto
qed

lemma reservation_key_inj: "reservation_key d p = reservation_key d' p' \<longleftrightarrow> d = d' \<and> p = p'"
proof
  assume "reservation_key d p = reservation_key d' p'"
  then have "show_i64 d @ '':'' @ hex_bytes p = show_i64 d' @ '':'' @ hex_bytes p'"
    by (simp add: reservation_key_def)
  from split_at_colon [OF show_i64_no_colon show_i64_no_colon this]
  show "d = d' \<and> p = p'" using show_i64_inj hex_bytes_inj by blast
qed simp

text \<open>The bridge forwards an authorization and never mints one.\<close>

lemma bridge_forwards_commit:
  "usage_reserve_paid_probe_unit shutting_down send ack = PrCommitted used cap \<longleftrightarrow>
     \<not> shutting_down \<and> send = TsOk \<and> ack = Some (PcCommitted used cap)"
proof -
  have "reservation_for_commit outcome = PrCommitted used cap \<longleftrightarrow> outcome = PcCommitted used cap" for outcome
    by (cases outcome) auto
  then show ?thesis
    by (auto simp: usage_reserve_paid_probe_unit_def admit_paid_probe_reservation_def reservation_for_def await_outcome_def
        split: TrySend.splits option.splits)
qed

subsection \<open>The account of a provider-day\<close>

abbreviation day_units :: "(string \<rightharpoonup> string) \<Rightarrow> string \<Rightarrow> int \<Rightarrow> PaidProbeUsage" where
  "day_units meta provider day \<equiv> committed_units True meta provider (day * MS_PER_UTC_DAY)"

lemma day_start [simp]: "utc_day_from_epoch_ms (day * MS_PER_UTC_DAY) = day"
  by (simp add: utc_day_from_epoch_ms_def MS_PER_UTC_DAY_def)

lemma day_units_bound: "day_units meta p d = PuCommitted n \<Longrightarrow> n \<le> U32_MAX"
  by (auto simp: committed_units_def units_canonical split: option.splits sum.splits)

text \<open>A reservation of another provider-day leaves the account alone.\<close>

lemma step_other_day:
  assumes "\<not> of_day d p q" and "reservation_step q meta = (meta', answer, u)"
  shows "meta' (reservation_key d p) = meta (reservation_key d p)"
proof -
  have "reservation_key (utc_day_from_epoch_ms (rq_now q)) (rq_provider q) \<noteq> reservation_key d p"
    using assms(1) by (auto simp: reservation_key_inj of_day_def)
  with assms(2) show ?thesis
    by (auto simp: reservation_step_def reserve_and_answer_def reserve_def reserve_one_unit_def answer_unless_terminal_def
        Let_def split: if_splits option.splits sum.splits prod.splits)
qed

text \<open>One of this provider-day either takes the next unit, within its cap, and authorizes its caller or is
  counted, or changes nothing and does neither.\<close>

lemma step_this_day:
  assumes "of_day d p q" and "reservation_step q meta = (meta', answer, u)" and "day_units meta p d = PuCommitted n"
  shows "day_units meta' p d = PuCommitted (n + 1) \<and> n + 1 \<le> rq_cap q
      \<and> (answer = PcCommitted (n + 1) (rq_cap q) \<and> \<not> is_terminal (rq_after q) \<and> \<not> u
         \<or> answer = PcUnavailable \<and> is_terminal (rq_after q) \<and> u)
    \<or> meta' = meta \<and> (\<forall>used cap. answer \<noteq> PcCommitted used cap) \<and> \<not> u"
proof -
  let ?key = "reservation_key d p"
  have key: "reservation_key (utc_day_from_epoch_ms (rq_now q)) (rq_provider q) = ?key"
    and p: "rq_provider q = p" and d: "utc_day_from_epoch_ms (rq_now q) = d"
    using assms(1) by (simp_all add: of_day_def)
  have stored: "(case meta ?key of None \<Rightarrow> Inr 0 | Some raw \<Rightarrow> parse_units raw) = Inr n"
    using assms(3) by (auto simp: committed_units_def split: option.splits sum.splits)
  define r where "r = reserve_one_unit (rq_io q) p (rq_cap q) (rq_now q) meta"
  have cases: "r = (SrCommitted d (n + 1) (rq_cap q), meta(?key \<mapsto> format_units (n + 1))) \<and> n + 1 \<le> U32_MAX \<and> n + 1 \<le> rq_cap q
    \<or> snd r = meta \<and> (\<forall>day used cap. fst r \<noteq> SrCommitted day used cap)"
    by (auto simp: r_def reserve_one_unit_def Let_def d stored)
  show ?thesis
  proof (cases "rq_connected q \<and> \<not> is_terminal (rq_before q)")
    case False
    then show ?thesis using assms(2)
      by (auto simp: reservation_step_def reserve_and_answer_def reserve_def answer_unless_terminal_def split: if_splits)
  next
    case True
    have step: "(meta', answer, u) = (snd r, if is_terminal (rq_after q) then PcUnavailable else commit_for (fst r),
      is_terminal (rq_after q) \<and> (case commit_for (fst r) of PcCommitted used cap \<Rightarrow> True | _ \<Rightarrow> False))"
      using assms(2) True
      by (auto simp: reservation_step_def reserve_and_answer_def reserve_def answer_unless_terminal_def r_def p
          case_prod_unfold Let_def)
    from cases show ?thesis
    proof
      assume c: "r = (SrCommitted d (n + 1) (rq_cap q), meta(?key \<mapsto> format_units (n + 1))) \<and> n + 1 \<le> U32_MAX \<and> n + 1 \<le> rq_cap q"
      then have "day_units meta' p d = PuCommitted (n + 1)" using step by (simp add: committed_units_def)
      then show ?thesis using c step by auto
    next
      assume c: "snd r = meta \<and> (\<forall>day used cap. fst r \<noteq> SrCommitted day used cap)"
      then have "\<forall>used cap. commit_for (fst r) \<noteq> PcCommitted used cap" by (cases "fst r") auto
      then show ?thesis using c step by (auto split: PaidProbeCommit.splits)
    qed
  qed
qed

lemma step_malformed:
  assumes "of_day d p q" and "reservation_step q meta = (meta', answer, u)" and "day_units meta p d = PuMalformed"
  shows "meta' = meta \<and> (\<forall>used cap. answer \<noteq> PcCommitted used cap) \<and> \<not> u"
proof -
  have "\<exists>bad. (case meta (reservation_key d p) of None \<Rightarrow> Inr 0 | Some raw \<Rightarrow> parse_units raw) = Inl bad"
    using assms(3) by (auto simp: committed_units_def split: option.splits sum.splits)
  then show ?thesis using assms(1,2)
    by (auto simp: of_day_def reservation_step_def reserve_and_answer_def reserve_def reserve_one_unit_def
        answer_unless_terminal_def Let_def split: if_splits)
qed

lemma day_units_cong: "meta' (reservation_key d p) = meta (reservation_key d p) \<Longrightarrow> day_units meta' p d = day_units meta p d"
  by (simp add: committed_units_def)

lemma authorized_of_Cons:
  "authorized_of d p ((q, answer, u) # hist) =
     (case answer of PcCommitted used cap \<Rightarrow> if of_day d p q then [used] else [] | _ \<Rightarrow> []) @ authorized_of d p hist"
  by (cases answer) simp_all

lemma unauthorized_of_Cons:
  "unauthorized_of d p ((q, answer, u) # hist) = (if of_day d p q \<and> u then 1 else 0) + unauthorized_of d p hist"
  by (simp add: unauthorized_of_def)

text \<open>C40. The budget of a provider-day is exact. Take any table and any history of reservations on it: any
  providers, caps and clocks, any number of writers, storage that fails at any statement, shutdowns that
  begin before, during or after a transaction. If the day's count can be read, it grows by exactly the
  authorized calls plus the units counted as consumed without a call; no two callers are told the same
  count, and each is told a count above the old one and at most the new; and if every cap asked for was
  at most \<open>c\<close>, the count never passes \<open>c\<close> unless it already had, so at most \<open>c\<close> calls are authorized. If
  the stored count is malformed, nothing is authorized or consumed and its bytes stay as they are. (A
  caller that stops waiting still counts as authorized; its answer is lost with it.)\<close>
theorem paid_day_account_exact:
  assumes "reservation_history qs meta = (meta', hist)" and "\<forall>q \<in> set qs. of_day d p q \<longrightarrow> rq_cap q \<le> c"
  shows "case day_units meta p d of
      PuCommitted n \<Rightarrow>
        (let told = authorized_of d p hist; n' = n + length told + unauthorized_of d p hist
         in day_units meta' p d = PuCommitted n' \<and> n' \<le> max n c
            \<and> sorted_wrt (<) told \<and> set told \<subseteq> {n<..n'})
    | PuMalformed \<Rightarrow> authorized_of d p hist = [] \<and> unauthorized_of d p hist = 0
        \<and> meta' (reservation_key d p) = meta (reservation_key d p)
    | PuUnreadable \<Rightarrow> False"
  using assms
proof (induction qs arbitrary: meta hist)
  case Nil
  then show ?case by (auto simp: committed_units_def unauthorized_of_def split: option.split sum.split PaidProbeUsage.split)
next
  case (Cons q qs)
  obtain m1 answer u where step: "reservation_step q meta = (m1, answer, u)" by (cases "reservation_step q meta")
  obtain hist' where rest: "reservation_history qs m1 = (meta', hist')" and hist: "hist = (q, answer, u) # hist'"
    using Cons.prems(1) step by (auto split: prod.splits)
  have caps: "\<forall>q \<in> set qs. of_day d p q \<longrightarrow> rq_cap q \<le> c" using Cons.prems(2) by simp
  note IH = Cons.IH [OF rest caps]
  have quiet: ?case if day: "m1 (reservation_key d p) = meta (reservation_key d p)"
    and none: "of_day d p q \<Longrightarrow> (\<forall>used cap. answer \<noteq> PcCommitted used cap) \<and> \<not> u"
  proof -
    have "authorized_of d p hist = authorized_of d p hist'" "unauthorized_of d p hist = unauthorized_of d p hist'"
      using none by (auto simp: hist authorized_of_Cons unauthorized_of_Cons split: PaidProbeCommit.splits)
    then show ?thesis using IH by (simp only: day_units_cong [of m1 d p meta, OF day] day)
  qed
  show ?case
  proof (cases "of_day d p q")
    case False
    then show ?thesis using quiet step_other_day [OF False step] by simp
  next
    case True
    show ?thesis
    proof (cases "day_units meta p d")
      case (PuCommitted n)
      from step_this_day [OF True step PuCommitted] show ?thesis
      proof
        assume g: "day_units m1 p d = PuCommitted (n + 1) \<and> n + 1 \<le> rq_cap q
          \<and> (answer = PcCommitted (n + 1) (rq_cap q) \<and> \<not> is_terminal (rq_after q) \<and> \<not> u
            \<or> answer = PcUnavailable \<and> is_terminal (rq_after q) \<and> u)"
        then have "n + 1 \<le> c" using Cons.prems(2) True by auto
        let ?told = "authorized_of d p hist'" and ?lost = "unauthorized_of d p hist'"
        from g IH have ih: "day_units meta' p d = PuCommitted (n + 1 + length ?told + ?lost)"
            "n + 1 + length ?told + ?lost \<le> max (n + 1) c" "sorted_wrt (<) ?told"
            "set ?told \<subseteq> {n + 1<..n + 1 + length ?told + ?lost}"
          by (simp_all add: Let_def)
        from ih(4) have above: "x \<in> set ?told \<Longrightarrow> n + 1 < x \<and> n < x \<and> x \<le> n + 1 + length ?told + ?lost" for x
          by fastforce
        from g consider "answer = PcCommitted (n + 1) (rq_cap q)" "\<not> u" | "answer = PcUnavailable" u by blast
        then show ?thesis
        proof cases
          case 1
          then have "authorized_of d p hist = (n + 1) # ?told" "unauthorized_of d p hist = ?lost"
            using True by (simp_all add: hist unauthorized_of_Cons)
          then show ?thesis using ih(1-3) \<open>n + 1 \<le> c\<close> unfolding PuCommitted
            by (auto simp: Let_def dest: above)
        next
          case 2
          then have "authorized_of d p hist = ?told" "unauthorized_of d p hist = ?lost + 1"
            using True by (simp_all add: hist unauthorized_of_Cons)
          then show ?thesis using ih(1-3) \<open>n + 1 \<le> c\<close> unfolding PuCommitted
            by (auto simp: Let_def dest: above)
        qed
      qed (use quiet in simp)
    next
      case PuMalformed
      from step_malformed [OF True step this] show ?thesis using quiet by simp
    qed (auto simp: committed_units_def split: option.splits sum.splits)
  qed
qed

text \<open>Two units a day: one call authorized, one unit consumed as the shutdown began, then none left; a
  call of another provider in between.\<close>

definition account_ask :: "LifecycleGate \<Rightarrow> string \<Rightarrow> Reservation" where
  "account_ask after p = \<lparr>rq_before = gate_running, rq_after = after, rq_connected = True,
     rq_io = \<lparr>io_begin = True, io_select = True, io_upsert = True, io_commit = True\<rparr>,
     rq_provider = p, rq_cap = 2, rq_now = 5\<rparr>"

definition account_asks :: "Reservation list" where
  "account_asks = [account_ask gate_running ''p'', account_ask gate_running ''q'',
     account_ask (begin_shutdown gate_running) ''p'', account_ask gate_running ''p'']"

lemma account_ask_step:
  assumes "(case meta (reservation_key 0 p) of None \<Rightarrow> Inr 0 | Some raw \<Rightarrow> parse_units raw) = Inr n"
  shows "reservation_step (account_ask g p) meta =
    (if n < 2 then (meta(reservation_key 0 p \<mapsto> format_units (n + 1)),
        if is_terminal g then PcUnavailable else PcCommitted (n + 1) 2, is_terminal g)
     else (meta, if is_terminal g then PcUnavailable else PcCapExhausted, False))"
proof -
  have day: "utc_day_from_epoch_ms 5 = 0" by (simp add: utc_day_from_epoch_ms_def MS_PER_UTC_DAY_def)
  have "reserve_one_unit (rq_io (account_ask g p)) p 2 5 meta =
    (if n < 2 then (SrCommitted 0 (n + 1) 2, meta(reservation_key 0 p \<mapsto> format_units (n + 1)))
     else (SrCapExhausted, meta))"
    by (auto simp: account_ask_def reserve_one_unit_def Let_def day assms U32_MAX_def)
  then show ?thesis
    by (simp add: account_ask_def gate_running_def is_terminal_def [of "\<lparr>lg_state = Running, lg_poisoned = False\<rparr>"]
        reservation_step_def reserve_and_answer_def reserve_def answer_unless_terminal_def)
qed

lemma paid_day_account_exact_witness:
  "authorized_of 0 ''p'' (snd (reservation_history account_asks Map.empty)) = [1]
   \<and> unauthorized_of 0 ''p'' (snd (reservation_history account_asks Map.empty)) = 1
   \<and> day_units (fst (reservation_history account_asks Map.empty)) ''p'' 0 = PuCommitted 2"
proof -
  have running: "\<not> is_terminal gate_running" and terminal: "is_terminal (begin_shutdown gate_running)"
    by (simp_all add: is_terminal_def gate_running_def begin_shutdown_def)
  have day: "of_day 0 p (account_ask g q) \<longleftrightarrow> p = q" for p g q
    by (auto simp: of_day_def account_ask_def utc_day_from_epoch_ms_def MS_PER_UTC_DAY_def)
  have a: "authorized_of 0 ''p'' (snd (reservation_history account_asks Map.empty)) = [1]"
    and u: "unauthorized_of 0 ''p'' (snd (reservation_history account_asks Map.empty)) = 1"
    by (simp_all add: account_asks_def account_ask_step [where n = 0] account_ask_step [where n = 1]
        account_ask_step [where n = 2] reservation_key_inj U32_MAX_def running terminal day
        unauthorized_of_def)
  have "\<forall>q \<in> set account_asks. of_day 0 ''p'' q \<longrightarrow> rq_cap q \<le> 2"
    by (simp add: account_asks_def account_ask_def)
  from paid_day_account_exact [of account_asks Map.empty "fst (reservation_history account_asks Map.empty)"
      "snd (reservation_history account_asks Map.empty)", OF _ this]
  show ?thesis using a u by (simp add: committed_units_def Let_def)
qed

end
