(* ===== verification/Spec2Isabelle.thy ===== *)
theory Spec2Isabelle
  imports Dispatch_Properties Chain_Filters Paid_Properties Paid_Ledger
begin

text \<open>
  Verification development for routectl, a local endpoint that routes requests for language models
  over chains of providers. The core of the program is the router crate
  (\<open>crates/routectl-router/src\<close>) over the vocabulary of \<open>crates/routectl-core/src\<close>: a request names
  an alias or a model, the alias resolves to a chain of models, a pooled model expands to its seats,
  and a dispatch walk tries the targets in order under a rate limiter and a circuit breaker per
  seat, classifying each failure to decide between retry, repair, fallback and return. What the
  upstreams report (quota headers, capability rejections) feeds stores that place later requests.

  Theories, in the order of their imports, and the code they model:
  \<^item> \<open>Rust_Prelude\<close>: integers with their bounds, instants and durations in nanoseconds, floats as
    reals with the special values, decimal strings; the lemma collections the other theories fill.
    \<open>BTree_Map\<close>: ordered maps as sorted association lists, behind the locale \<open>ordered_map\<close>.
  \<^item> \<open>Core_Error\<close>, \<open>Failure_Class\<close> (\<open>routectl-core/src/error.rs\<close>, \<open>failure_class.rs\<close>): the error value
    and its classification by status, body and provider family, and the replay-artifact lift.
  \<^item> \<open>Class_Policy\<close> (\<open>class_policy.rs\<close>, the policy structs of \<open>config/schema.rs\<close>): which class is
    retried, falls back, debits the breaker, and the caps on retries.
  \<^item> \<open>Runtime_State\<close>, \<open>Runtime_Gate\<close> (\<open>runtime_state.rs\<close>, \<open>router/runtime_gate.rs\<close>): a seat's token
    bucket and breaker, the map of seats, admission, and the guard of the half-open probe slot.
  \<^item> \<open>Quota_Reduce\<close>, \<open>Quota_Store\<close>, \<open>Quota_Placement\<close> (\<open>quota/\<close>): readings from response metadata, the
    store of the newest, and the restriction of a choice of seats to the best evidence.
  \<^item> \<open>Seat_Pool\<close>, \<open>Sticky\<close> (\<open>seat_pool.rs\<close>, \<open>router/sticky.rs\<close>): seat identities, round robin, sticky
    least-loaded placement of sessions with its pin table.
  \<^item> \<open>Glob\<close>, \<open>Alias_Graph\<close>, \<open>Alias_Resolve\<close>, \<open>Resolved_Model\<close>, \<open>Chain\<close> (\<open>glob.rs\<close>, \<open>factory/validate.rs\<close>,
    \<open>router/chain.rs\<close>, \<open>resolved.rs\<close>): alias tables, their validation, expansion to models and to
    dispatch targets.
  \<^item> \<open>Stream_Commit\<close> (the streaming half of \<open>router/dispatch.rs\<close> below the walk): waiting for first
    content, and the accounting of a stream handed to the caller.
  \<^item> \<open>Dispatch_Walk\<close>, \<open>Dispatch_Complete\<close>, \<open>Dispatch_Stream\<close>, \<open>Dispatch_Properties\<close> (\<open>router/dispatch.rs\<close>,
    \<open>router/repair_budget.rs\<close>): the two walks over a chain and what they guarantee.
  \<^item> \<open>Capability_Keys\<close>, \<open>Learned_Capability\<close> (\<open>routectl-core/src/capability.rs\<close>, \<open>field_capability.rs\<close>,
    \<open>learned_capability.rs\<close>): the capability vocabulary and the entries a router learns from
    rejections, with their decay into a single re-probe.
  \<^item> \<open>Learned_Registry\<close>, \<open>Registry_Properties\<close> (\<open>learned_capability.rs\<close>): the registry around those
    entries, with the generation barrier, the incarnations, the purge leases and the two-phase
    boundary as steps of a transition system, and what holds in all its reachable states.
    \<open>Probe_Guard\<close> (\<open>router/runtime_gate.rs\<close>): who owns the re-probes a request was admitted to run,
    and how each is settled.
  \<^item> \<open>Capability_Strip\<close> (\<open>feature_keys.rs\<close>, \<open>capability_strip.rs\<close>): the features a request needs, which of
    them may be stripped from it, and the strip as a transaction. \<open>Override_Registry\<close>
    (\<open>override_registry.rs\<close>): the operator's per-target capability overrides, flattened, validated and
    resolved. \<open>Feature_Filter\<close> (\<open>router/feature_filter.rs\<close>): the filter of a chain by the request's
    features, over overrides, learned negatives and catalog priors, and the re-probes it admits.
  \<^item> \<open>Calibration\<close> (\<open>calibration/\<close>): the evidence of a lane about the token estimate, its reduction to a
    factor, and the rebuild at boot. \<open>Window_Gate\<close> (\<open>router/window_gate.rs\<close>): the targets too small for
    a request. \<open>Chain_Filters\<close> (\<open>dispatch_chain_for_request\<close> in \<open>router/chain.rs\<close>): expansion, feature filter
    and window gate composed; both filters are instances of the locale \<open>chain_pass\<close>.
  \<^item> \<open>Probe_Vocab\<close>, \<open>Probe_Scheduler\<close>, \<open>Probe_Properties\<close> (\<open>probe_scheduler/\<close>, the key of
    \<open>field_verdict.rs\<close>): background probing of a field verdict, from the payload it may carry to the job
    table, its leases, retirement across reloads, terminal markers and the slots shared with paid probes,
    as steps of a world that also holds the leases of the workers.
  \<^item> \<open>Paid_Probe\<close>, \<open>Paid_Properties\<close> (\<open>router/probe_lifecycle.rs\<close>, \<open>paid_probe_authorize.rs\<close>,
    \<open>paid_probe_dial.rs\<close>, \<open>probe_publication.rs\<close> and their neighbours): around that scheduler, the free
    worker, the candidates for a paid probe, the reservation of one unit and the one call it permits,
    publications of a rebuilt router and the shutdown. Every lock acquisition, await and atomic write is
    a step (the two atomic loads of \<open>is_current_publication\<close>, stamp and ticket, are one), so the
    properties hold for every interleaving of these steps. What a router answers about an identity (its seat,
    daily cap, profile) is a \<open>ProbeView\<close>; the ledger answers as its trait documents: a refused answer
    has committed nothing, but a request answered as unavailable, or one nobody waits for any more, may
    still be committed.
  \<^item> \<open>Paid_Ledger\<close> (\<open>crates/routectl-usage/src/paid_probe.rs\<close>, \<open>paid_probe_read.rs\<close>,
    \<open>paid_probe_command.rs\<close>, \<open>paid_probe_lifecycle.rs\<close>, \<open>routectl-cli/src/server/paid_probe_ledger.rs\<close>):
    the durable budget behind that trait. The key and value codec, the transaction that takes one unit
    within the cap, the lifecycle gate around its answer and the bridge to the router. The control table is
    a map, the success of each SQL statement an argument, and a statement or commit that fails leaves the
    table as it was, as SQLite promises of a transaction.

  Interfaces are locales interpreted on the model's own definitions: \<open>ordered_map\<close> on the sorted
  lists, \<open>attempt_loop\<close> (in \<open>Dispatch_Walk\<close>) once for each walk, \<open>entry_operation\<close> (what the
  registry's guard asks of an operation on one key) on each guarded operation, and those of the
  component theories.
  The lemma groups are: functional behaviour of each operation on its branches; invariants kept by
  every operation (breaker and bucket, pin table, reachable gates); refinement of abstract
  specifications (sessions, newest reading); termination and bounds of loops (alias expansion,
  attempt loops, stream pulls); and trace properties of the composed walks.

  Bounds. No fuel is used: the attempt loops terminate by a rank of the attempt (retries left, repair
  budget, one-shot flags), the alias expansion by its depth cap of eight, the stream pull by its
  deadline and its cap on chunks before content.

  What is not modelled and why. The stages that shape a request for a target (overlays, the
  call of the strip interceptor, field pre-flight, context reduction, cache placement), the upstream calls, the token
  refresh, sleeping and the clock are functions of the record \<open>Ports\<close>: the walk's theorems hold for
  all of them; a refresh and a sleep are taken to return, and a provider call may change the gates,
  which stands for concurrent requests. Locks are steps of the model. Log lines, metrics other than
  the ones a property is about, serialization, the provider wire formats, the command line, the
  server and the usage database but for the budget of paid probes are not modelled.
\<close>

end
